(* ===== verification/Prelude.thy ===== *)
theory Prelude
  imports Main "HOL-Library.Word"
begin

text \<open>
  Shared vocabulary of the development: the machine integer types of the Go code, results of
  fallible operations, and the generic facts on lists that several components use.

  A Go function \<open>f(x) (T, error)\<close> becomes a function into \<open>'e + 't\<close>, with \<open>Inl\<close> for a
  non-nil error; \<open>bindE\<close> is the early return \<open>if err != nil { return err }\<close>.
\<close>

section \<open>Machine integers\<close>

type_synonym u8 = "8 word"
type_synonym u16 = "16 word"
type_synonym u32 = "32 word"
type_synonym u64 = "64 word"
type_synonym bytes = "u8 list"

section \<open>Lemma collections\<close>

named_theorems codec \<open>round trips and lengths of byte-level encoders and decoders\<close>
named_theorems chunk \<open>cutting a byte sequence into equal pieces\<close>

lemma unat_u32: "n < 2 ^ 32 \<Longrightarrow> unat (word_of_nat n :: u32) = n"
  by (simp add: unsigned_of_nat take_bit_nat_eq_self_iff)

section \<open>Fallible results\<close>

fun bindE :: "'e + 'a \<Rightarrow> ('a \<Rightarrow> 'e + 'b) \<Rightarrow> 'e + 'b" where
  "bindE (Inl e) f = Inl e"
| "bindE (Inr x) f = f x"

lemma bindE_eq_Inr: "bindE m f = Inr y \<longleftrightarrow> (\<exists>x. m = Inr x \<and> f x = Inr y)"
  by (cases m) auto

lemma bindE_eq_Inl: "bindE m f = Inl e \<longleftrightarrow> m = Inl e \<or> (\<exists>x. m = Inr x \<and> f x = Inl e)"
  by (cases m) auto

lemma bindE_cong [fundef_cong]:
  "m = m' \<Longrightarrow> (\<And>x. m' = Inr x \<Longrightarrow> f x = f' x) \<Longrightarrow> bindE m f = bindE m' f'"
  by (cases m') auto

text \<open>\<open>mapE f xs\<close> runs a loop that stops at the first error.\<close>

fun mapE :: "('a \<Rightarrow> 'e + 'b) \<Rightarrow> 'a list \<Rightarrow> 'e + 'b list" where
  "mapE f [] = Inr []"
| "mapE f (x # xs) = bindE (f x) (\<lambda>y. bindE (mapE f xs) (\<lambda>ys. Inr (y # ys)))"

lemma mapE_Inr_map: "(\<And>x. x \<in> set xs \<Longrightarrow> f x = Inr (g x)) \<Longrightarrow> mapE f xs = Inr (map g xs)"
  by (induction xs) auto

lemma mapE_length: "mapE f xs = Inr ys \<Longrightarrow> length ys = length xs"
  by (induction xs arbitrary: ys) (auto simp: bindE_eq_Inr)

section \<open>Lists\<close>

text \<open>\<open>slice i n xs\<close> is Go's \<open>xs[i:i+n]\<close>.\<close>

definition slice :: "nat \<Rightarrow> nat \<Rightarrow> 'a list \<Rightarrow> 'a list" where
  "slice i n xs = take n (drop i xs)"

lemma length_slice [simp]: "length (slice i n xs) = min n (length xs - i)"
  by (simp add: slice_def)

lemma slice_0 [simp]: "slice i 0 xs = []"
  by (simp add: slice_def)

lemma slice_append: "i + n \<le> length xs \<Longrightarrow> slice i n (xs @ ys) = slice i n xs"
  by (simp add: slice_def)

lemma slice_append_right: "slice (length xs) (length ys) (xs @ ys) = ys"
  by (simp add: slice_def)

lemma slice_add: "slice i m xs @ slice (i + m) n xs = slice i (m + n) xs"
  by (simp add: slice_def take_add add.commute)

lemma slice_nth: "k < n \<Longrightarrow> i + k < length xs \<Longrightarrow> slice i n xs ! k = xs ! (i + k)"
  by (simp add: slice_def)

lemma slice_slice: "j + m \<le> n \<Longrightarrow> slice j m (slice i n xs) = slice (i + j) m xs"
  by (simp add: slice_def take_drop min_def add.commute)

text \<open>\<open>chunks n xs\<close> cuts a sequence into pieces of length \<open>n\<close>.\<close>

lemma concat_slices:
  "length xs = k * n \<Longrightarrow> concat (map (\<lambda>i. slice (i * n) n xs) [0..<k]) = xs"
proof (induction k arbitrary: xs)
  case 0
  then show ?case by simp
next
  case (Suc k)
  let ?ys = "take (k * n) xs"
  have len: "length ?ys = k * n" using Suc.prems by simp
  have "map (\<lambda>i. slice (i * n) n xs) [0..<k] = map (\<lambda>i. slice (i * n) n ?ys) [0..<k]"
  proof (rule map_cong [OF refl])
    fix i assume "i \<in> set [0..<k]"
    then have "Suc i * n \<le> k * n" by (intro mult_right_mono) auto
    then have "i * n + n \<le> k * n" by simp
    then show "slice (i * n) n xs = slice (i * n) n ?ys"
      by (simp add: slice_def drop_take min_def)
  qed
  moreover have "slice (k * n) n xs = drop (k * n) xs"
    using Suc.prems by (simp add: slice_def)
  ultimately have "concat (map (\<lambda>i. slice (i * n) n xs) [0..<Suc k]) = ?ys @ drop (k * n) xs"
    using Suc.IH [OF len] by (simp only: upt_Suc_append [OF le0] map_append concat_append) simp
  then show ?case by simp
qed

lemma length_concat_const:
  "(\<And>x. x \<in> set xs \<Longrightarrow> length (f x) = n) \<Longrightarrow> length (concat (map f xs)) = length xs * n"
  by (induction xs) auto

lemma slice_concat_const:
  "(\<And>x. x \<in> set xs \<Longrightarrow> length (f x) = n) \<Longrightarrow> k < length xs \<Longrightarrow>
   slice (k * n) n (concat (map f xs)) = f (xs ! k)"
proof (induction xs arbitrary: k)
  case Nil
  then show ?case by simp
next
  case (Cons x xs)
  show ?case
  proof (cases k)
    case 0
    then show ?thesis using Cons.prems by (simp add: slice_def)
  next
    case (Suc j)
    then have "slice (k * n) n (concat (map f (x # xs))) = slice (j * n) n (concat (map f xs))"
      using Cons.prems by (simp add: slice_def)
    then show ?thesis using Cons Suc by simp
  qed
qed

end
