(* ===== verification/Bytes.thy ===== *)
theory Bytes
  imports Prelude
begin

text \<open>
  Little-endian fixed-width codecs: \<open>readBuf\<close> (reader.go) and \<open>writeBuf\<close> (writer.go), the two
  cursors every on-disk structure goes through, over \<open>encoding/binary.LittleEndian\<close>.

  A \<open>readBuf\<close> is the rest of the buffer, and each method returns the value and the advanced
  buffer. A \<open>writeBuf\<close> method fills the next bytes of a buffer whose remainder is zero, so it is
  modelled by the bytes it fills, and a sequence of calls by their concatenation; \<open>wb_skip\<close> is
  a \<open>sub\<close> whose result the caller leaves untouched. The locale \<open>le_codec\<close> is the contract of a
  matching pair of methods; its interpretations are the four widths.
\<close>

unbundle bit_operations_syntax

section \<open>binary.LittleEndian\<close>

text \<open>\<open>byte(v), byte(v>>8), ...\<close> and \<open>b[0] | b[1]<<8 | ...\<close>\<close>

primrec put_le :: "nat \<Rightarrow> 'a::len word \<Rightarrow> bytes" where
  "put_le 0 v = []"
| "put_le (Suc n) v = ucast v # put_le n (drop_bit 8 v)"

primrec get_le :: "bytes \<Rightarrow> 'a::len word" where
  "get_le [] = 0"
| "get_le (b # bs) = ucast b OR push_bit 8 (get_le bs)"

lemma length_put_le [simp, codec]: "length (put_le n v) = n"
  by (induction n arbitrary: v) auto

lemma bit_get_le_put_le:
  fixes v :: "'a::len word"
  shows "bit (get_le (put_le n v) :: 'a word) i \<longleftrightarrow> i < 8 * n \<and> bit v i"
proof (induction n arbitrary: v i)
  case 0
  then show ?case by simp
next
  case (Suc n)
  have *: "i < 8 \<or> 8 \<le> i" by arith
  show ?case
    using * Suc.IH [of "drop_bit 8 v" "i - 8"] bit_imp_le_length [of v i]
    by (auto simp: bit_simps)
qed

lemma get_le_put_le [codec]:
  fixes v :: "'a::len word"
  assumes "LENGTH('a) \<le> 8 * n"
  shows "get_le (put_le n v) = v"
proof (rule bit_word_eqI)
  fix i assume "i < LENGTH('a)"
  then show "bit (get_le (put_le n v) :: 'a word) i = bit v i"
    using assms by (simp add: bit_get_le_put_le)
qed

lemma bit_get_le_bound:
  "bit (get_le bs :: 'a::len word) i \<Longrightarrow> i < 8 * length bs"
proof (induction bs arbitrary: i)
  case Nil
  then show ?case by simp
next
  case (Cons b bs)
  have *: "i < 8 \<or> 8 \<le> i" by arith
  show ?case
    using * Cons.prems Cons.IH [of "i - 8"] bit_imp_le_length [of b i]
    by (auto simp: bit_simps)
qed

lemma put_le_get_le [codec]:
  assumes "8 * length bs \<le> LENGTH('a::len)"
  shows "put_le (length bs) (get_le bs :: 'a word) = bs"
  using assms
proof (induction bs)
  case Nil
  then show ?case by simp
next
  case (Cons b bs)
  have small: "i < LENGTH('a)" if "i < 8 + 8 * length bs" for i
    using that Cons.prems by simp
  have hi: "drop_bit 8 (ucast b OR push_bit 8 (get_le bs) :: 'a word) = get_le bs"
  proof (rule bit_word_eqI)
    fix i assume "i < LENGTH('a)"
    have "bit (get_le bs :: 'a word) i \<Longrightarrow> 8 + i < LENGTH('a)"
      using bit_get_le_bound [of bs i] small [of "8 + i"] by auto
    moreover have "\<not> bit b (8 + i)" using bit_imp_le_length [of b "8 + i"] by auto
    ultimately show "bit (drop_bit 8 (ucast b OR push_bit 8 (get_le bs)) :: 'a word) i
      = bit (get_le bs :: 'a word) i"
      by (auto simp: bit_simps)
  qed
  have lo: "ucast (ucast b OR push_bit 8 (get_le bs) :: 'a word) = b"
  proof (rule bit_word_eqI)
    fix i assume "i < LENGTH(8)"
    then show "bit (ucast (ucast b OR push_bit 8 (get_le bs) :: 'a word) :: u8) i = bit b i"
      using small [of i] by (auto simp: bit_simps)
  qed
  show ?case using Cons hi lo by simp
qed

section \<open>The cursors\<close>

definition rb_uint8 :: "bytes \<Rightarrow> u8 \<times> bytes" where
  "rb_uint8 b = (get_le (take 1 b), drop 1 b)"

definition rb_uint16 :: "bytes \<Rightarrow> u16 \<times> bytes" where
  "rb_uint16 b = (get_le (take 2 b), drop 2 b)"

definition rb_uint32 :: "bytes \<Rightarrow> u32 \<times> bytes" where
  "rb_uint32 b = (get_le (take 4 b), drop 4 b)"

definition rb_uint64 :: "bytes \<Rightarrow> u64 \<times> bytes" where
  "rb_uint64 b = (get_le (take 8 b), drop 8 b)"

definition rb_sub :: "nat \<Rightarrow> bytes \<Rightarrow> bytes \<times> bytes" where
  "rb_sub n b = (take n b, drop n b)"

definition wb_uint8 :: "u8 \<Rightarrow> bytes" where "wb_uint8 v = put_le 1 v"

definition wb_uint16 :: "u16 \<Rightarrow> bytes" where "wb_uint16 v = put_le 2 v"

definition wb_uint32 :: "u32 \<Rightarrow> bytes" where "wb_uint32 v = put_le 4 v"

definition wb_uint64 :: "u64 \<Rightarrow> bytes" where "wb_uint64 v = put_le 8 v"

definition wb_skip :: "nat \<Rightarrow> bytes" where "wb_skip n = replicate n 0"

text \<open>\<open>for range k { out = append(out, b.uintN()) }\<close>\<close>

primrec rb_many :: "nat \<Rightarrow> (bytes \<Rightarrow> 'a \<times> bytes) \<Rightarrow> bytes \<Rightarrow> 'a list \<times> bytes" where
  "rb_many 0 get b = ([], b)"
| "rb_many (Suc k) get b =
     (let (v, b) = get b; (vs, b) = rb_many k get b in (v # vs, b))"

section \<open>The contract of a matching pair\<close>

locale le_codec =
  fixes width :: nat
    and put :: "'a \<Rightarrow> bytes"
    and get :: "bytes \<Rightarrow> 'a \<times> bytes"
  assumes length_put: "length (put v) = width"
    and get_put: "get (put v @ rest) = (v, rest)"
    and put_get: "width \<le> length b \<Longrightarrow> put (fst (get b)) = take width b"
    and snd_get: "snd (get b) = drop width b"
begin

lemma rb_many_put:
  "rb_many (length vs) get (concat (map put vs) @ rest) = (vs, rest)"
  by (induction vs) (simp_all add: get_put)

lemma length_puts: "length (concat (map put vs)) = length vs * width"
  by (rule length_concat_const) (simp add: length_put)

lemma rb_many_rest: "snd (rb_many k get b) = drop (k * width) b"
  by (induction k arbitrary: b) (simp_all add: Let_def split_beta snd_get drop_drop add.commute)

lemma length_rb_many: "length (fst (rb_many k get b)) = k"
  by (induction k arbitrary: b) (simp_all add: Let_def split_beta)

lemma puts_rb_many:
  "k * width \<le> length b \<Longrightarrow> concat (map put (fst (rb_many k get b))) = take (k * width) b"
proof (induction k arbitrary: b)
  case 0
  then show ?case by simp
next
  case (Suc k)
  then have "k * width \<le> length (drop width b)" and "width \<le> length b" by auto
  with Suc.IH [of "drop width b"] show ?case
    by (simp add: Let_def split_beta snd_get put_get take_add)
qed

lemma nth_rb_many: "i < k \<Longrightarrow> fst (rb_many k get b) ! i = fst (get (drop (i * width) b))"
proof (induction k arbitrary: b i)
  case 0
  then show ?case by simp
next
  case (Suc k)
  then show ?case
    by (cases i) (simp_all add: Let_def split_beta snd_get drop_drop add.commute)
qed

lemma get_prefix: "width \<le> length a \<Longrightarrow> fst (get (a @ b)) = fst (get a)"
proof -
  assume "width \<le> length a"
  then have "put (fst (get (a @ b))) = put (fst (get a))" by (simp add: put_get)
  then show ?thesis using get_put [of _ "[]"] by (metis prod.inject)
qed

lemma rb_many_prefix: "k * width \<le> length a \<Longrightarrow> fst (rb_many k get (a @ b)) = fst (rb_many k get a)"
proof (rule nth_equalityI)
  fix i assume "k * width \<le> length a" "i < length (fst (rb_many k get (a @ b)))"
  then have i: "i < k" "k * width \<le> length a" by (simp_all add: length_rb_many)
  moreover from this have "Suc i * width \<le> k * width" by (intro mult_le_mono1) simp
  ultimately show "fst (rb_many k get (a @ b)) ! i = fst (rb_many k get a) ! i"
    using get_prefix [of "drop (i * width) a" b] by (simp add: nth_rb_many)
qed (simp add: length_rb_many)

lemma rb_many_append:
  "rb_many (j + k) get b =
     (fst (rb_many j get b) @ fst (rb_many k get (drop (j * width) b)), drop ((j + k) * width) b)"
  by (induction j arbitrary: b)
    (simp_all add: Let_def split_beta snd_get drop_drop add.commute add.left_commute
      prod_eq_iff rb_many_rest)

end

text \<open>Every width that fills the word is such a pair.\<close>

lemma put_le_get_le_take:
  assumes "8 * n \<le> LENGTH('a::len)" and "n \<le> length b"
  shows "put_le n (get_le (take n b) :: 'a word) = take n b"
  using put_le_get_le [of "take n b", where 'a = 'a] assms by (simp add: min_absorb2)

lemma le_codec_word:
  assumes "8 * n = LENGTH('a::len)"
  shows "le_codec n (put_le n) (\<lambda>b. (get_le (take n b) :: 'a word, drop n b))"
  by unfold_locales (use assms in \<open>simp_all add: get_le_put_le put_le_get_le_take\<close>)

interpretation u8: le_codec 1 wb_uint8 rb_uint8
  unfolding wb_uint8_def [abs_def] rb_uint8_def [abs_def] by (rule le_codec_word) simp

interpretation u16: le_codec 2 wb_uint16 rb_uint16
  unfolding wb_uint16_def [abs_def] rb_uint16_def [abs_def] by (rule le_codec_word) simp

interpretation u32: le_codec 4 wb_uint32 rb_uint32
  unfolding wb_uint32_def [abs_def] rb_uint32_def [abs_def] by (rule le_codec_word) simp

interpretation u64: le_codec 8 wb_uint64 rb_uint64
  unfolding wb_uint64_def [abs_def] rb_uint64_def [abs_def] by (rule le_codec_word) simp

lemmas wb_rb [codec] = u8.get_put u16.get_put u32.get_put u64.get_put

lemmas length_wb [simp, codec] = u8.length_put u16.length_put u32.length_put u64.length_put

lemma length_wb_skip [simp, codec]: "length (wb_skip n) = n"
  by (simp add: wb_skip_def)

lemma rb_sub_append [codec]: "length a = n \<Longrightarrow> rb_sub n (a @ rest) = (a, rest)"
  by (simp add: rb_sub_def)

text \<open>Readers of a whole table, as \<open>loadFAT\<close> and \<open>loadMiniFAT\<close> run them.\<close>

lemma rb_uint32_eq_nth:
  "4 * i + 4 \<le> length b \<Longrightarrow>
   fst (rb_uint32 (drop (i * 4) b)) = get_le (slice (i * 4) 4 b)"
  by (simp add: rb_uint32_def slice_def)

end
