(* ===== verification/GoStd.thy ===== *)
theory GoStd
  imports Bytes "HOL-Library.Multiset"
begin

text \<open>
  What the code uses of Go's standard library: \<open>slices.BinarySearchFunc\<close>, \<open>slices.SortFunc\<close>,
  \<open>unicode/utf16\<close>, \<open>bytes.Reader.ReadAt\<close>, and the documented contract of \<open>io.ReaderAt\<close>.

  A Go string that holds a name is observed by this code only through its sequence of runes
  (\<open>[]rune(s)\<close>, \<open>range s\<close>, \<open>string(runes)\<close>, \<open>strings.ContainsAny\<close> with ASCII characters), so
  it is modelled by that sequence; a rune is its code point.

  Locales: \<open>bsearch\<close> (a sequence a comparison partitions), \<open>comparator\<close> (a total preorder given
  by a three-way comparison) and \<open>reader_at\<close> (a source of bytes). The components interpret the
  first two; \<open>reader_at\<close> is interpreted here by \<open>bytes.Reader\<close>.
\<close>

type_synonym rune = nat
type_synonym gostring = "rune list"

section \<open>slices.BinarySearchFunc\<close>

function bsearch_loop :: "('a \<Rightarrow> 't \<Rightarrow> int) \<Rightarrow> 'a list \<Rightarrow> 't \<Rightarrow> nat \<Rightarrow> nat \<Rightarrow> nat" where
  "bsearch_loop cmp xs t i j =
     (if i < j then
        (let h = (i + j) div 2
         in if cmp (xs ! h) t < 0 then bsearch_loop cmp xs t (h + 1) j
            else bsearch_loop cmp xs t i h)
      else i)"
  by pat_completeness auto
termination
  by (relation "measure (\<lambda>(cmp, xs, t, i, j). j - i)") auto

declare bsearch_loop.simps [simp del]

definition binarySearchFunc :: "'a list \<Rightarrow> 't \<Rightarrow> ('a \<Rightarrow> 't \<Rightarrow> int) \<Rightarrow> nat \<times> bool" where
  "binarySearchFunc xs t cmp =
     (let i = bsearch_loop cmp xs t 0 (length xs)
      in (i, i < length xs \<and> cmp (xs ! i) t = 0))"

locale bsearch =
  fixes xs :: "'a list" and cmp :: "'a \<Rightarrow> 't \<Rightarrow> int"
  assumes mono: "i \<le> j \<Longrightarrow> j < length xs \<Longrightarrow> sgn (cmp (xs ! i) t) \<le> sgn (cmp (xs ! j) t)"
begin

lemma neg_before: "i \<le> j \<Longrightarrow> j < length xs \<Longrightarrow> cmp (xs ! j) t < 0 \<Longrightarrow> cmp (xs ! i) t < 0"
  using mono [of i j t] by (cases "cmp (xs ! i) t < 0") (auto simp: sgn_if split: if_split_asm)

lemma nonneg_after: "i \<le> j \<Longrightarrow> j < length xs \<Longrightarrow> 0 \<le> cmp (xs ! i) t \<Longrightarrow> 0 \<le> cmp (xs ! j) t"
  using neg_before [of i j t] by force

text \<open>The window \<open>[i, j)\<close> of the loop: everything before it is negative, nothing after it is.\<close>

definition window :: "'t \<Rightarrow> nat \<Rightarrow> nat \<Rightarrow> bool" where
  "window t i j \<longleftrightarrow> i \<le> j \<and> j \<le> length xs \<and> (\<forall>k < i. cmp (xs ! k) t < 0) \<and>
     (\<forall>k. j \<le> k \<longrightarrow> k < length xs \<longrightarrow> 0 \<le> cmp (xs ! k) t)"

lemma window_step:
  assumes "window t i j" "i < j" "h = (i + j) div 2"
  shows "if cmp (xs ! h) t < 0 then window t (h + 1) j else window t i h"
proof -
  have h: "i \<le> h" "h < j" "h < length xs" using assms by (auto simp: window_def)
  show ?thesis
  proof (cases "cmp (xs ! h) t < 0")
    case True
    then have "\<forall>k < h + 1. cmp (xs ! k) t < 0" using neg_before [of _ h t] h by auto
    then show ?thesis using True assms(1) h by (simp add: window_def)
  next
    case False
    then have "\<forall>k. h \<le> k \<longrightarrow> k < length xs \<longrightarrow> 0 \<le> cmp (xs ! k) t"
      using nonneg_after [of h _ t] by auto
    then show ?thesis using False assms(1) h by (simp add: window_def)
  qed
qed

lemma loop_window:
  "window t i j \<Longrightarrow> window t (bsearch_loop cmp xs t i j) (bsearch_loop cmp xs t i j)"
proof (induction "j - i" arbitrary: i j rule: less_induct)
  case less
  show ?case
  proof (cases "i < j")
    case False
    then have "i = j" using less.prems by (simp add: window_def)
    then show ?thesis using less.prems by (simp add: bsearch_loop.simps)
  next
    case True
    define h where "h = (i + j) div 2"
    have *: "j - (h + 1) < j - i" "h - i < j - i" using True by (auto simp: h_def)
    note step = window_step [OF less.prems True h_def]
    show ?thesis
      using step less.hyps [OF *(1)] less.hyps [OF *(2)]
      by (subst (1 2) bsearch_loop.simps) (simp add: True Let_def h_def [symmetric] split: if_splits)
  qed
qed

text \<open>The search finds a position exactly when one compares equal.\<close>

lemma partition_point:
  assumes "binarySearchFunc xs t cmp = (i, ok)"
  shows "i \<le> length xs" and "k < i \<Longrightarrow> cmp (xs ! k) t < 0"
    and "i \<le> k \<Longrightarrow> k < length xs \<Longrightarrow> 0 \<le> cmp (xs ! k) t"
  using assms loop_window [of t 0 "length xs"]
  by (auto simp: binarySearchFunc_def Let_def window_def)

lemma found_iff:
  assumes "binarySearchFunc xs t cmp = (i, ok)"
  shows "ok \<longleftrightarrow> (\<exists>x \<in> set xs. cmp x t = 0)"
proof
  assume "ok"
  then show "\<exists>x \<in> set xs. cmp x t = 0"
    using assms by (auto simp: binarySearchFunc_def Let_def)
next
  assume "\<exists>x \<in> set xs. cmp x t = 0"
  then obtain k where k: "k < length xs" "cmp (xs ! k) t = 0"
    by (auto simp: in_set_conv_nth)
  have "i \<le> k" using partition_point(2) [OF assms, of k] k by (cases "k < i") auto
  then have "i < length xs" and "cmp (xs ! i) t \<le> 0"
    using k mono [of i k t] by (auto simp: sgn_if split: if_splits)
  moreover have "0 \<le> cmp (xs ! i) t"
    using partition_point(3) [OF assms, of i] \<open>i < length xs\<close> by simp
  ultimately show "ok" using assms by (auto simp: binarySearchFunc_def Let_def)
qed

lemma found:
  assumes "binarySearchFunc xs t cmp = (i, True)"
  shows "i < length xs" and "cmp (xs ! i) t = 0"
  using assms by (auto simp: binarySearchFunc_def Let_def)

end

section \<open>slices.SortFunc\<close>

text \<open>
  Insertion sort, which is what \<open>slices.SortFunc\<close> runs on short slices; for longer ones Go
  promises only a sorted permutation. Under a \<open>comparator\<close> without ties that is one list
  (\<open>sorted_unique\<close>), so the model computes it whatever algorithm Go picks.
\<close>

fun insertFunc :: "('a \<Rightarrow> 'a \<Rightarrow> int) \<Rightarrow> 'a \<Rightarrow> 'a list \<Rightarrow> 'a list" where
  "insertFunc cmp x [] = [x]"
| "insertFunc cmp x (y # ys) = (if cmp x y \<le> 0 then x # y # ys else y # insertFunc cmp x ys)"

fun sortFunc :: "('a \<Rightarrow> 'a \<Rightarrow> int) \<Rightarrow> 'a list \<Rightarrow> 'a list" where
  "sortFunc cmp [] = []"
| "sortFunc cmp (x # xs) = insertFunc cmp x (sortFunc cmp xs)"

lemma mset_insertFunc [simp]: "mset (insertFunc cmp x ys) = add_mset x (mset ys)"
  by (induction ys) auto

lemma mset_sortFunc [simp]: "mset (sortFunc cmp xs) = mset xs"
  by (induction xs) auto

lemma set_insertFunc [simp]: "set (insertFunc cmp x ys) = insert x (set ys)"
  by (induction ys) auto

lemma set_sortFunc [simp]: "set (sortFunc cmp xs) = set xs"
  by (induction xs) auto

lemma length_sortFunc [simp]: "length (sortFunc cmp xs) = length xs"
  using mset_sortFunc [of cmp xs] by (metis size_mset)

definition sorted_by :: "('a \<Rightarrow> 'a \<Rightarrow> int) \<Rightarrow> 'a list \<Rightarrow> bool" where
  "sorted_by cmp xs = sorted_wrt (\<lambda>a b. cmp a b \<le> 0) xs"

definition strictly_sorted_by :: "('a \<Rightarrow> 'a \<Rightarrow> int) \<Rightarrow> 'a list \<Rightarrow> bool" where
  "strictly_sorted_by cmp xs = sorted_wrt (\<lambda>a b. cmp a b < 0) xs"

lemma strictly_sorted_by_distinct:
  "(\<And>a. cmp a a = 0) \<Longrightarrow> strictly_sorted_by cmp xs \<Longrightarrow> distinct xs"
  by (induction xs) (auto simp: strictly_sorted_by_def)

locale comparator =
  fixes cmp :: "'a \<Rightarrow> 'a \<Rightarrow> int"
  assumes antisym: "sgn (cmp a b) = - sgn (cmp b a)"
    and trans: "cmp a b \<le> 0 \<Longrightarrow> cmp b c \<le> 0 \<Longrightarrow> cmp a c \<le> 0"
begin

lemma refl: "cmp a a = 0"
  using antisym [of a a] by (simp add: sgn_if split: if_splits)

lemma total: "cmp a b \<le> 0 \<or> cmp b a \<le> 0"
  using antisym [of a b] by (auto simp: sgn_if split: if_splits)

lemma neg_iff: "cmp a b < 0 \<longleftrightarrow> 0 < cmp b a"
  using antisym [of a b] by (auto simp: sgn_if split: if_splits)

lemma zero_iff: "cmp a b = 0 \<longleftrightarrow> cmp b a = 0"
  using antisym [of a b] by (auto simp: sgn_if split: if_splits)

lemma less_trans: "cmp a b < 0 \<Longrightarrow> cmp b c \<le> 0 \<Longrightarrow> cmp a c < 0"
  using trans [of b c a] trans [of a b c] neg_iff [of a c] neg_iff [of a b] zero_iff [of a c]
  by force

lemma le_less_trans: "cmp a b \<le> 0 \<Longrightarrow> cmp b c < 0 \<Longrightarrow> cmp a c < 0"
  using trans [of c a b] trans [of a b c] neg_iff [of b c] zero_iff [of a c] neg_iff [of a c]
  by force

lemma zero_trans: "cmp a b = 0 \<Longrightarrow> cmp b c = 0 \<Longrightarrow> cmp a c = 0"
  using trans [of a b c] trans [of c b a] zero_iff [of a b] zero_iff [of b c] neg_iff [of a c]
  by force

lemma sorted_insertFunc: "sorted_by cmp ys \<Longrightarrow> sorted_by cmp (insertFunc cmp x ys)"
proof (induction ys)
  case Nil
  then show ?case by (simp add: sorted_by_def)
next
  case (Cons y ys)
  then show ?case
    using total [of x y] trans [of x y] by (auto simp: sorted_by_def)
qed

lemma sorted_sortFunc: "sorted_by cmp (sortFunc cmp xs)"
proof (induction xs)
  case Nil
  then show ?case by (simp add: sorted_by_def)
next
  case (Cons x xs)
  then show ?case by (simp add: sorted_insertFunc)
qed

lemma sorted_strict:
  "sorted_by cmp xs \<Longrightarrow> (\<And>i j. i < j \<Longrightarrow> j < length xs \<Longrightarrow> cmp (xs ! i) (xs ! j) \<noteq> 0) \<Longrightarrow>
   strictly_sorted_by cmp xs"
  unfolding sorted_by_def strictly_sorted_by_def sorted_wrt_iff_nth_less
  by (metis order_less_le)

lemma strict_sorted: "strictly_sorted_by cmp xs \<Longrightarrow> sorted_by cmp xs"
  unfolding sorted_by_def strictly_sorted_by_def by (erule sorted_wrt_mono_rel [rotated]) simp

text \<open>A strictly sorted permutation is unique: any correct sort returns this list.\<close>

lemma sorted_unique:
  assumes "strictly_sorted_by cmp xs" "sorted_by cmp ys" "mset xs = mset ys"
  shows "xs = ys"
  using assms
proof (induction xs arbitrary: ys)
  case Nil
  then show ?case by simp
next
  case (Cons x xs)
  then obtain y ys' where ys: "ys = y # ys'" by (cases ys) auto
  have "x = y"
  proof (rule ccontr)
    assume "x \<noteq> y"
    have "set (x # xs) = set (y # ys')" using Cons.prems(3) ys by (metis set_mset_mset)
    with \<open>x \<noteq> y\<close> have "y \<in> set xs" "x \<in> set ys'" by auto
    then have "cmp x y < 0" "cmp y x \<le> 0"
      using Cons.prems(1,2) ys by (auto simp: strictly_sorted_by_def sorted_by_def)
    then show False using neg_iff [of x y] by simp
  qed
  moreover have "xs = ys'"
    using Cons ys \<open>x = y\<close> by (auto simp: strictly_sorted_by_def sorted_by_def)
  ultimately show ?case using ys by simp
qed

end

lemma comparator_key: "comparator cmp \<Longrightarrow> comparator (\<lambda>a b. cmp (f a) (f b))"
  unfolding comparator_def by blast

section \<open>unicode/utf16\<close>

definition encodeRune :: "rune \<Rightarrow> u16 list" where
  "encodeRune r = (let r = r - 0x10000
     in [0xD800 + (word_of_nat (r div 2 ^ 10) AND 0x3FF), 0xDC00 + (word_of_nat r AND 0x3FF)])"

definition appendRune :: "u16 list \<Rightarrow> rune \<Rightarrow> u16 list" where
  "appendRune dst r =
     (if r < 0xD800 \<or> (0xE000 \<le> r \<and> r < 0x10000) then dst @ [word_of_nat r]
      else if 0x10000 \<le> r \<and> r \<le> 0x10FFFF then dst @ encodeRune r
      else dst @ [0xFFFD])"

definition utf16_encode :: "rune list \<Rightarrow> u16 list" where
  "utf16_encode s = foldl appendRune [] s"

definition decodeRune :: "u16 \<Rightarrow> u16 \<Rightarrow> rune" where
  "decodeRune r1 r2 = (unat r1 - 0xD800) * 2 ^ 10 + (unat r2 - 0xDC00) + 0x10000"

fun utf16_decode :: "u16 list \<Rightarrow> rune list" where
  "utf16_decode [] = []"
| "utf16_decode (r # rest) =
     (if r < 0xD800 \<or> 0xE000 \<le> r then unat r # utf16_decode rest
      else case rest of
          r2 # rest' \<Rightarrow>
            (if r < 0xDC00 \<and> 0xDC00 \<le> r2 \<and> r2 < 0xE000
             then decodeRune r r2 # utf16_decode rest' else 0xFFFD # utf16_decode rest)
        | [] \<Rightarrow> 0xFFFD # utf16_decode rest)"

text \<open>A valid rune, \<open>utf8.ValidRune\<close>; every rune of a Go string is one.\<close>

definition valid_rune :: "rune \<Rightarrow> bool" where
  "valid_rune r \<longleftrightarrow> r < 0xD800 \<or> (0xE000 \<le> r \<and> r \<le> 0x10FFFF)"

definition rune_units :: "rune \<Rightarrow> u16 list" where
  "rune_units r = appendRune [] r"

lemma appendRune_units: "appendRune dst r = dst @ rune_units r"
  by (simp add: rune_units_def appendRune_def)

lemma foldl_appendRune: "foldl appendRune dst s = dst @ concat (map rune_units s)"
  by (induction s arbitrary: dst) (simp_all add: appendRune_units)

lemma utf16_encode_concat: "utf16_encode s = concat (map rune_units s)"
  by (simp add: utf16_encode_def foldl_appendRune)

lemma mask10_mod: "unat ((word_of_nat n :: u16) AND 0x3FF) = n mod 1024"
proof -
  have "(word_of_nat n :: u16) AND 0x3FF = take_bit 10 (word_of_nat n)"
    by (simp add: take_bit_eq_mask mask_eq_exp_minus_1)
  then have "unat ((word_of_nat n :: u16) AND 0x3FF) = take_bit 10 (take_bit 16 n)"
    by (simp add: unsigned_take_bit_eq unsigned_of_nat)
  then show ?thesis by (simp add: take_bit_eq_mod mod_mod_cancel)
qed

lemma unat_u16_add: "a + b < 65536 \<Longrightarrow> unat (x :: u16) = a \<Longrightarrow> unat y = b \<Longrightarrow> unat (x + y) = a + b"
  by (simp add: unat_word_ariths)

text \<open>A rune outside the BMP becomes a surrogate pair that decodes to it.\<close>

lemma encodeRune_pair:
  assumes "0x10000 \<le> r" "r \<le> 0x10FFFF"
  obtains h l where "encodeRune r = [h, l]" "0xD800 \<le> h" "h < 0xDC00" "0xDC00 \<le> l"
    "l < 0xE000" "decodeRune h l = r"
proof
  let ?q = "r - 0x10000"
  let ?h = "0xD800 + (word_of_nat (?q div 2 ^ 10) AND 0x3FF) :: u16"
  let ?l = "0xDC00 + (word_of_nat ?q AND 0x3FF) :: u16"
  have q: "?q < 1048576" using assms by simp
  have "unat (word_of_nat (?q div 2 ^ 10) AND 0x3FF :: u16) = ?q div 1024"
    using q by (simp add: mask10_mod)
  then have h: "unat ?h = 0xD800 + ?q div 1024"
    using q by (intro unat_u16_add) auto
  have "unat (word_of_nat ?q AND 0x3FF :: u16) = ?q mod 1024"
    by (simp add: mask10_mod)
  then have l: "unat ?l = 0xDC00 + ?q mod 1024"
    by (intro unat_u16_add) auto
  show "encodeRune r = [?h, ?l]" by (simp add: encodeRune_def Let_def)
  show "0xD800 \<le> ?h" "?h < 0xDC00" "0xDC00 \<le> ?l" "?l < 0xE000"
    using q by (simp_all only: word_le_nat_alt word_less_nat_alt h l) auto
  show "decodeRune ?h ?l = r"
    using assms(1) by (simp only: decodeRune_def h l) simp
qed

lemma utf16_decode_rune_units:
  assumes "valid_rune r"
  shows "utf16_decode (rune_units r @ rest) = r # utf16_decode rest"
proof (cases "r < 0x10000")
  case True
  then have "unat (word_of_nat r :: u16) = r"
    by (simp add: unsigned_of_nat take_bit_eq_mod)
  then show ?thesis using True assms
    by (auto simp: rune_units_def appendRune_def valid_rune_def word_less_nat_alt word_le_nat_alt)
next
  case False
  then have r: "0x10000 \<le> r" "r \<le> 0x10FFFF" using assms by (auto simp: valid_rune_def)
  then obtain h l where hl: "encodeRune r = [h, l]" "0xD800 \<le> h" "h < 0xDC00" "0xDC00 \<le> l"
      "l < 0xE000" "decodeRune h l = r"
    by (rule encodeRune_pair)
  have "rune_units r = [h, l]" using r hl(1) by (simp add: rune_units_def appendRune_def)
  moreover have "\<not> h < 0xD800" "\<not> 0xE000 \<le> h" using hl(2,3) by (auto simp: word_less_nat_alt word_le_nat_alt)
  ultimately show ?thesis using hl by simp
qed

lemma utf16_decode_encode:
  "(\<forall>r \<in> set s. valid_rune r) \<Longrightarrow> utf16_decode (utf16_encode s) = s"
  by (induction s) (simp_all add: utf16_encode_concat utf16_decode_rune_units)

lemma utf16_decode_valid: "\<forall>r \<in> set (utf16_decode us). valid_rune r"
proof (induction us rule: utf16_decode.induct)
  case 1
  then show ?case by simp
next
  case (2 r rest)
  have "unat r < 2 ^ LENGTH(16)" by (rule unsigned_less)
  then have bmp: "unat r \<le> 0xFFFF" by simp
  have pair: "valid_rune (decodeRune r r2)"
    if "\<not> r < 0xD800" "r < 0xDC00" "0xDC00 \<le> r2" "r2 < 0xE000" for r2
    using that by (simp add: decodeRune_def valid_rune_def word_less_nat_alt word_le_nat_alt)
  have repl: "valid_rune 0xFFFD" by (simp add: valid_rune_def)
  show ?case
  proof (cases "r < 0xD800 \<or> 0xE000 \<le> r")
    case True
    then have "valid_rune (unat r)"
      using bmp by (auto simp: valid_rune_def word_less_nat_alt word_le_nat_alt)
    then show ?thesis using True 2(1) by simp
  next
    case False
    show ?thesis
    proof (cases rest)
      case Nil
      then show ?thesis using False repl by simp
    next
      case (Cons r2 rest')
      then show ?thesis using False repl pair [of r2] 2(2) 2(3,4) [OF _ Cons]
        by (simp split: if_split)
    qed
  qed
qed

section \<open>io.ReaderAt and bytes.Reader\<close>

text \<open>
  \<open>rd off n\<close> is \<open>r.ReadAt(p, off)\<close> with \<open>len(p) = n\<close>: the bytes stored at the start of \<open>p\<close>,
  and the error. The type of errors is a parameter; \<open>eof\<close> is \<open>io.EOF\<close>.
\<close>

type_synonym 'e readerAt = "nat \<Rightarrow> nat \<Rightarrow> bytes \<times> 'e option"

definition bytesReaderAt :: "'e \<Rightarrow> bytes \<Rightarrow> 'e readerAt" where
  "bytesReaderAt eof s off n =
     (if length s \<le> off then ([], Some eof)
      else let b = slice off n s in (b, if length b < n then Some eof else None))"

text \<open>
  The documented contract over a source of bytes \<open>src\<close>: a full read that ends before the end of
  the source has no error; one that ends exactly there may carry \<open>io.EOF\<close> or nil; a read that
  the source cannot fill returns what there is and \<open>io.EOF\<close>.
\<close>

locale reader_at =
  fixes rd :: "'e readerAt" and src :: bytes and eof :: 'e
  assumes full: "0 < n \<Longrightarrow> off + n \<le> length src \<Longrightarrow> fst (rd off n) = slice off n src"
    and no_error: "0 < n \<Longrightarrow> off + n < length src \<Longrightarrow> snd (rd off n) = None"
    and at_end: "0 < n \<Longrightarrow> off + n = length src \<Longrightarrow> snd (rd off n) \<in> {None, Some eof}"
    and short: "0 < n \<Longrightarrow> length src < off + n \<Longrightarrow> rd off n = (drop off src, Some eof)"
begin

lemma length_read: "0 < n \<Longrightarrow> length (fst (rd off n)) \<le> n"
  by (cases "off + n \<le> length src") (simp_all add: full short)

lemma full_iff: "0 < n \<Longrightarrow> length (fst (rd off n)) = n \<longleftrightarrow> off + n \<le> length src"
  by (cases "off + n \<le> length src") (auto simp: full short)

end

text \<open>A source that reports \<open>io.EOF\<close> only with a short read, as \<open>bytes.Reader\<close> and \<open>os.File\<close>.\<close>

locale strict_reader_at = reader_at +
  assumes end_nil: "0 < n \<Longrightarrow> off + n = length src \<Longrightarrow> snd (rd off n) = None"
begin

lemma full_read: "0 < n \<Longrightarrow> off + n \<le> length src \<Longrightarrow> rd off n = (slice off n src, None)"
  using full [of n off] no_error [of n off] end_nil [of n off]
  by (cases "off + n = length src") (auto simp: prod_eq_iff)

end

interpretation bytes_reader: strict_reader_at "bytesReaderAt eof s" s eof
  by unfold_locales (auto simp: bytesReaderAt_def Let_def slice_def)

end
