(* ===== verification/CfbConsts.thy ===== *)
theory CfbConsts
  imports GoStd
begin

text \<open>
  The constants of cfb.go and the error values of the package: \<open>ErrFormat\<close> with the reason its
  message gives (reader.go), the sentinel and one-off errors of reader.go, writer.go and name.go,
  errors of the caller's reader or writer, and run-time panics with the index and \<open>make\<close> checks
  that raise them.
\<close>

section \<open>Sizes and limits\<close>

definition headerSize :: nat where "headerSize = 512"
definition direntrySize :: nat where "direntrySize = 128"
definition nameMaxUnits :: nat where "nameMaxUnits = 32"
definition miniSectorSize :: nat where "miniSectorSize = 64"
definition miniStreamCutoff :: nat where "miniStreamCutoff = 4096"
definition streamSizeMaxV3 :: nat where "streamSizeMaxV3 = 2 ^ 31"
definition inlineDIFAT :: nat where "inlineDIFAT = 109"

section \<open>Header fields\<close>

definition headerSignature :: u64 where "headerSignature = 0xE11AB1A1E011CFD0"
definition minorVersion :: u16 where "minorVersion = 0x003E"
definition byteOrderLE :: u16 where "byteOrderLE = 0xFFFE"
definition sectorShiftV3 :: u16 where "sectorShiftV3 = 0x0009"
definition sectorShiftV4 :: u16 where "sectorShiftV4 = 0x000C"
definition miniSectorShift :: u16 where "miniSectorShift = 0x0006"

section \<open>Directory entry fields\<close>

definition objectUnallocated :: u8 where "objectUnallocated = 0x00"
definition objectStorage :: u8 where "objectStorage = 0x01"
definition objectStream :: u8 where "objectStream = 0x02"
definition objectRoot :: u8 where "objectRoot = 0x05"
definition colorBlack :: u8 where "colorBlack = 0x01"
definition noStream :: u32 where "noStream = 0xFFFFFFFF"

section \<open>Special FAT values\<close>

definition maxRegSect :: u32 where "maxRegSect = 0xFFFFFFFA"
definition difSect :: u32 where "difSect = 0xFFFFFFFC"
definition fatSect :: u32 where "fatSect = 0xFFFFFFFD"
definition endOfChain :: u32 where "endOfChain = 0xFFFFFFFE"
definition freeSect :: u32 where "freeSect = 0xFFFFFFFF"

lemmas size_defs = headerSize_def direntrySize_def nameMaxUnits_def miniSectorSize_def
  miniStreamCutoff_def streamSizeMaxV3_def inlineDIFAT_def

lemmas object_defs = objectUnallocated_def objectStorage_def objectStream_def objectRoot_def

lemmas sect_defs = maxRegSect_def difSect_def fatSect_def endOfChain_def freeSect_def

lemmas magic_defs = headerSignature_def minorVersion_def byteOrderLE_def sectorShiftV3_def
  sectorShiftV4_def miniSectorShift_def

section \<open>Errors\<close>

datatype format_reason =
    BadSignature u64
  | BadMajorVersion u16
  | BadByteOrder u16
  | BadSectorShift u16 u16
  | BadMiniSectorShift u16
  | NonZeroDirCount u32
  | DirCountExceedsFAT u32
  | NoFATSectors
  | FATCountTooLarge
  | BadMiniStreamCutoff u32
  | MiniFATStartWithoutCount
  | MiniFATCountWithoutStart
  | MiniFATCountExceedsFAT u32
  | DIFATCountExceedsFAT u32
  | SectorCountExceedsFile
  | InlineDIFATEntryTooLarge
  | ShortDIFATChain
  | DIFATEntryTooLarge
  | DIFATSectorEntryTooLarge
  | DIFATNotTerminated
  | WrongFATSectorCount
  | ChainEntryTooLarge
  | ChainEntryNotInFAT
  | ChainTooLong
  | ChainCyclic
  | ChainTooShort
  | BadDirArraySize
  | StreamSizeExceedsMax
  | StreamSizeExceedsFAT
  | NoDirEntries
  | FirstEntryNotRoot
  | BadNameLength u16
  | NameNotTerminated
  | BadEntryName gostring
  | BadEntryReference
  | DuplicateEntryReference
  | DuplicateRoot
  | BadObjectType u8
  | SizeWithoutChain
  | MiniSectorExceedsMiniStream

datatype goerr =
    ErrFormat format_reason
  | ErrNotFound
  | ErrInvalidName
  | ErrDuplicateName
  | ErrWriterClosed
  | ErrClosedTwice
  | ErrStreamNotClosed gostring
  | ErrWriteOnClosed
  | ErrV3Cap
  | ErrNegativeOffset
  | ErrShortWrite
  | EOF
  | ErrUnexpectedEOF
  | IOErr nat \<comment> \<open>any other error of the caller's reader or writer\<close>
  | Panic     \<comment> \<open>a run-time panic: index or slice bounds out of range, nil dereference\<close>
  | MakePanic \<comment> \<open>the run-time panic of \<open>make\<close>: cap out of range\<close>
  | OutOfFuel \<comment> \<open>the bound of a recursion in the model; shown not to be reached\<close>

section \<open>Run-time checks\<close>

text \<open>
  \<open>xs[i]\<close> with the bounds check of Go, for the index expressions of the reader: an index out of
  range is a panic, not an unspecified value.
\<close>

definition index_at :: "'a list \<Rightarrow> nat \<Rightarrow> goerr + 'a" where
  "index_at xs i = (if i < length xs then Inr (xs ! i) else Inl Panic)"

text \<open>
  \<open>make([]T, n)\<close> for elements of \<open>elemSize\<close> bytes: it panics when the size exceeds the address
  space the run-time can allocate, \<open>maxAlloc\<close> in the run-time's malloc.go, 48 bits on the usual 64-bit platforms.
  A size below that which the machine cannot provide ends the process and is not an error value.
\<close>

definition maxAlloc :: nat where "maxAlloc = 2 ^ 48"

definition makeSlice :: "nat \<Rightarrow> nat \<Rightarrow> goerr + unit" where
  "makeSlice n elemSize = (if maxAlloc < n * elemSize then Inl MakePanic else Inr ())"

lemma index_at_in [simp]: "i < length xs \<Longrightarrow> index_at xs i = Inr (xs ! i)"
  by (simp add: index_at_def)

lemma index_at_out [simp]: "length xs \<le> i \<Longrightarrow> index_at xs i = Inl Panic"
  by (simp add: index_at_def)

lemma index_at_Inr [simp]: "index_at xs i = Inr x \<longleftrightarrow> i < length xs \<and> x = xs ! i"
  by (auto simp: index_at_def)

lemma index_at_Inl [simp]: "index_at xs i = Inl e \<longleftrightarrow> length xs \<le> i \<and> e = Panic"
  by (auto simp: index_at_def)

lemma makeSlice_Inr [simp]: "makeSlice n k = Inr u \<longleftrightarrow> n * k \<le> maxAlloc"
  by (auto simp: makeSlice_def)

lemma makeSlice_Inl [simp]: "makeSlice n k = Inl e \<longleftrightarrow> maxAlloc < n * k \<and> e = MakePanic"
  by (auto simp: makeSlice_def)

lemma makeSlice_ok: "n * k \<le> maxAlloc \<Longrightarrow> makeSlice n k = Inr ()"
  by simp

end
