(* ===== verification/CaseTable.thy ===== *)
theory CaseTable
  imports CfbConsts
begin

text \<open>
  casetable.go and \<open>toUpper\<close> of name.go: the generated upper-casing table, its binary search, and
  the facts the name order needs: the table is sorted and disjoint, the search finds the range of a
  code unit exactly when there is one, and upper-casing is idempotent.
\<close>

record caseRange =
  Lo :: u16
  Hi :: u16
  Delta :: int

definition upperLower :: int where "upperLower = 2 ^ 14"

definition caseTable :: "caseRange list" where
  "caseTable = map (\<lambda>(l, h, d). \<lparr>Lo = l, Hi = h, Delta = d\<rparr>) [
    (0x0061, 0x007A, - 32),
    (0x00E0, 0x00F6, - 32),
    (0x00F8, 0x00FE, - 32),
    (0x00FF, 0x00FF, 121),
    (0x0100, 0x012F, upperLower),
    (0x0132, 0x0137, upperLower),
    (0x0139, 0x0148, upperLower),
    (0x014A, 0x0177, upperLower),
    (0x0179, 0x017E, upperLower),
    (0x0180, 0x0180, 195),
    (0x0182, 0x0185, upperLower),
    (0x0188, 0x0188, - 1),
    (0x018C, 0x018C, - 1),
    (0x0192, 0x0192, - 1),
    (0x0195, 0x0195, 97),
    (0x0199, 0x0199, - 1),
    (0x019A, 0x019A, 163),
    (0x019E, 0x019E, 130),
    (0x01A0, 0x01A5, upperLower),
    (0x01A8, 0x01A8, - 1),
    (0x01AD, 0x01AD, - 1),
    (0x01B0, 0x01B0, - 1),
    (0x01B3, 0x01B6, upperLower),
    (0x01B9, 0x01B9, - 1),
    (0x01BD, 0x01BD, - 1),
    (0x01BF, 0x01BF, 56),
    (0x01C6, 0x01C6, - 2),
    (0x01C9, 0x01C9, - 2),
    (0x01CC, 0x01CC, - 2),
    (0x01CD, 0x01DC, upperLower),
    (0x01DD, 0x01DD, - 79),
    (0x01DE, 0x01EF, upperLower),
    (0x01F3, 0x01F3, - 2),
    (0x01F5, 0x01F5, - 1),
    (0x01F8, 0x021F, upperLower),
    (0x0222, 0x0233, upperLower),
    (0x023A, 0x023A, 10795),
    (0x023C, 0x023C, - 1),
    (0x023E, 0x023E, 10792),
    (0x0242, 0x0242, - 1),
    (0x0246, 0x024F, upperLower),
    (0x0253, 0x0253, - 210),
    (0x0254, 0x0254, - 206),
    (0x0256, 0x0257, - 205),
    (0x0259, 0x0259, - 202),
    (0x025B, 0x025B, - 203),
    (0x0260, 0x0260, - 205),
    (0x0263, 0x0263, - 207),
    (0x0268, 0x0268, - 209),
    (0x0269, 0x0269, - 211),
    (0x026B, 0x026B, 10743),
    (0x026F, 0x026F, - 211),
    (0x0272, 0x0272, - 213),
    (0x0275, 0x0275, - 214),
    (0x027D, 0x027D, 10727),
    (0x0280, 0x0280, - 218),
    (0x0283, 0x0283, - 218),
    (0x0288, 0x0288, - 218),
    (0x0289, 0x0289, - 69),
    (0x028A, 0x028B, - 217),
    (0x028C, 0x028C, - 71),
    (0x0292, 0x0292, - 219),
    (0x037B, 0x037D, 130),
    (0x03AC, 0x03AC, - 38),
    (0x03AD, 0x03AF, - 37),
    (0x03B1, 0x03B8, - 32),
    (0x03B9, 0x03B9, - 116),
    (0x03BA, 0x03BB, - 32),
    (0x03BC, 0x03BC, - 775),
    (0x03BD, 0x03C1, - 32),
    (0x03C2, 0x03C2, - 31),
    (0x03C3, 0x03CB, - 32),
    (0x03CC, 0x03CC, - 64),
    (0x03CD, 0x03CE, - 63),
    (0x03D8, 0x03EF, upperLower),
    (0x03F2, 0x03F2, 7),
    (0x03F8, 0x03F8, - 1),
    (0x03FB, 0x03FB, - 1),
    (0x0430, 0x044F, - 32),
    (0x0450, 0x045F, - 80),
    (0x0460, 0x0481, upperLower),
    (0x048A, 0x04BF, upperLower),
    (0x04C1, 0x04CE, upperLower),
    (0x04CF, 0x04CF, - 15),
    (0x04D0, 0x0513, upperLower),
    (0x0561, 0x0586, - 48),
    (0x1D7D, 0x1D7D, 3814),
    (0x1E00, 0x1E95, upperLower),
    (0x1EA0, 0x1EF9, upperLower),
    (0x1F00, 0x1F07, 8),
    (0x1F10, 0x1F15, 8),
    (0x1F20, 0x1F27, 8),
    (0x1F30, 0x1F37, 8),
    (0x1F40, 0x1F45, 8),
    (0x1F51, 0x1F51, 8),
    (0x1F53, 0x1F53, 8),
    (0x1F55, 0x1F55, 8),
    (0x1F57, 0x1F57, 8),
    (0x1F60, 0x1F67, 8),
    (0x1F70, 0x1F71, 74),
    (0x1F72, 0x1F75, 86),
    (0x1F76, 0x1F77, 100),
    (0x1F78, 0x1F79, 128),
    (0x1F7A, 0x1F7B, 112),
    (0x1F7C, 0x1F7D, 126),
    (0x1F80, 0x1F87, 8),
    (0x1F90, 0x1F97, 8),
    (0x1FA0, 0x1FA7, 8),
    (0x1FB0, 0x1FB1, 8),
    (0x1FB3, 0x1FB3, 9),
    (0x1FCC, 0x1FCC, - 9),
    (0x1FD0, 0x1FD1, 8),
    (0x1FE0, 0x1FE1, 8),
    (0x1FE5, 0x1FE5, 7),
    (0x1FFC, 0x1FFC, - 9),
    (0x214E, 0x214E, - 28),
    (0x2170, 0x217F, - 16),
    (0x2184, 0x2184, - 1),
    (0x24D0, 0x24E9, - 26),
    (0x2C30, 0x2C5E, - 48),
    (0x2C61, 0x2C61, - 1),
    (0x2C67, 0x2C6C, upperLower),
    (0x2C76, 0x2C76, - 1),
    (0x2C80, 0x2CE3, upperLower),
    (0x2D00, 0x2D25, - 7264),
    (0xFF41, 0xFF5A, - 32)]"

section \<open>toUpper\<close>

definition range_cmp :: "caseRange \<Rightarrow> u16 \<Rightarrow> int" where
  "range_cmp r c = (if c < Lo r then 1 else if Hi r < c then -1 else 0)"

definition toUpper :: "u16 \<Rightarrow> u16" where
  "toUpper c =
     (if c < 0x80 then (if 0x61 \<le> c \<and> c \<le> 0x7A then c - 0x20 else c)
      else if 0xD800 \<le> c \<and> c \<le> 0xDFFF then c
      else case binarySearchFunc caseTable c range_cmp of
        (i, ok) \<Rightarrow>
          if \<not> ok then c
          else let r = caseTable ! i in
            if Delta r = upperLower then Lo r + ((c - Lo r) AND NOT 1)
            else word_of_int (uint c + Delta r))"

section \<open>Shape of the table\<close>

definition range_before :: "caseRange \<Rightarrow> caseRange \<Rightarrow> bool" where
  "range_before r s \<longleftrightarrow> Lo r \<le> Hi r \<and> Hi r < Lo s \<and> Lo s \<le> Hi s"

lemma range_before_trans: "transp range_before"
  by (rule transpI) (auto simp: range_before_def)

lemma caseTable_sorted: "sorted_wrt range_before caseTable"
proof -
  have "successively range_before caseTable"
    by (simp add: caseTable_def range_before_def)
  then show ?thesis
    by (simp add: successively_iff_sorted_wrt_strong [OF range_before_trans]
        successively_conv_sorted_wrt [OF range_before_trans])
qed

lemma caseTable_nonempty_ranges: "\<forall>r \<in> set caseTable. Lo r \<le> Hi r"
  by (simp add: caseTable_def)

text \<open>No range covers a surrogate, and the alternating ranges hold whole pairs.\<close>

lemma caseTable_no_surrogate: "\<forall>r \<in> set caseTable. Hi r < 0xD800 \<or> 0xDFFF < Lo r"
  by (simp add: caseTable_def)

section \<open>The search\<close>

definition in_range :: "caseRange \<Rightarrow> u16 \<Rightarrow> bool" where
  "in_range r c \<longleftrightarrow> Lo r \<le> c \<and> c \<le> Hi r"

lemma range_cmp_0: "range_cmp r c = 0 \<longleftrightarrow> in_range r c"
  by (auto simp: range_cmp_def in_range_def)

text \<open>Reference definition: the image of the range that holds \<open>c\<close>, found by looking at each.\<close>

definition apply_range :: "caseRange \<Rightarrow> u16 \<Rightarrow> u16" where
  "apply_range r c = (if Delta r = upperLower then Lo r + ((c - Lo r) AND NOT 1)
     else word_of_int (uint c + Delta r))"

definition ranges_map :: "caseRange list \<Rightarrow> u16 \<Rightarrow> u16" where
  "ranges_map rs c = (case find (\<lambda>r. in_range r c) rs of None \<Rightarrow> c | Some r \<Rightarrow> apply_range r c)"

text \<open>Any table of ranges in order can be searched: the contract between a table and the search.\<close>

locale range_table =
  fixes rs :: "caseRange list"
  assumes in_order: "sorted_wrt range_before rs"

sublocale range_table \<subseteq> bsearch rs range_cmp
proof
  fix i j and c :: u16
  assume ij: "i \<le> j" "j < length rs"
  show "sgn (range_cmp (rs ! i) c) \<le> sgn (range_cmp (rs ! j) c)"
  proof (cases "i = j")
    case False
    then have "range_before (rs ! i) (rs ! j)"
      using ij in_order by (auto simp: sorted_wrt_iff_nth_less)
    then show ?thesis by (auto simp: range_cmp_def range_before_def)
  qed simp
qed

context range_table
begin

lemma unique:
  assumes "r \<in> set rs" "s \<in> set rs" "in_range r c" "in_range s c"
  shows "r = s"
proof -
  obtain i j where ij: "i < length rs" "r = rs ! i" "j < length rs" "s = rs ! j"
    using assms(1,2) by (auto simp: in_set_conv_nth)
  have "\<not> range_before r s" "\<not> range_before s r"
    using assms(3,4) by (auto simp: range_before_def in_range_def)
  then have "i = j"
    using ij in_order by (metis sorted_wrt_iff_nth_less linorder_neqE_nat)
  then show ?thesis using ij by simp
qed

lemma find_range:
  assumes "r \<in> set rs" "in_range r c"
  shows "find (\<lambda>r. in_range r c) rs = Some r"
proof (cases "find (\<lambda>r. in_range r c) rs")
  case None
  then show ?thesis using assms by (simp add: find_None_iff)
next
  case (Some s)
  then have "s \<in> set rs" "in_range s c"
    by (auto simp: find_Some_iff in_set_conv_nth)
  then show ?thesis using Some assms unique by blast
qed

lemma map_in: "r \<in> set rs \<Longrightarrow> in_range r c \<Longrightarrow> ranges_map rs c = apply_range r c"
  by (simp add: ranges_map_def find_range)

lemma map_out: "(\<forall>r \<in> set rs. \<not> in_range r c) \<Longrightarrow> ranges_map rs c = c"
  using find_None_iff [of "\<lambda>r. in_range r c" rs] by (simp add: ranges_map_def)

lemma search:
  "(case binarySearchFunc rs c range_cmp of (i, ok) \<Rightarrow>
      if \<not> ok then c else apply_range (rs ! i) c) = ranges_map rs c"
proof -
  obtain i ok where s: "binarySearchFunc rs c range_cmp = (i, ok)"
    by (cases "binarySearchFunc rs c range_cmp")
  show ?thesis
  proof (cases ok)
    case True
    with s have "i < length rs" "in_range (rs ! i) c"
      using found [of c i] by (simp_all add: range_cmp_0)
    then show ?thesis using s True map_in [OF nth_mem] by simp
  next
    case False
    then show ?thesis
      using s found_iff [OF s] by (simp add: range_cmp_0 map_out)
  qed
qed

end

interpretation case_search: range_table caseTable
  by unfold_locales (rule caseTable_sorted)

definition upper_spec :: "u16 \<Rightarrow> u16" where
  "upper_spec = ranges_map caseTable"

lemmas in_range_unique = case_search.unique
lemmas upper_spec_in = case_search.map_in [folded upper_spec_def]
lemmas upper_spec_out = case_search.map_out [folded upper_spec_def]
lemmas search_spec = case_search.search [folded upper_spec_def]

text \<open>The two fast paths of \<open>toUpper\<close> agree with the table.\<close>

definition ascii_range :: caseRange where
  "ascii_range = \<lparr>Lo = 0x61, Hi = 0x7A, Delta = - 32\<rparr>"

lemma ascii_range_in: "ascii_range \<in> set caseTable"
  by (simp add: caseTable_def ascii_range_def)

lemma ascii_only: "\<forall>r \<in> set caseTable. r = ascii_range \<or> 0x80 \<le> Lo r"
  by (simp add: caseTable_def ascii_range_def)

lemma upper_spec_ascii:
  assumes "c < 0x80"
  shows "upper_spec c = (if 0x61 \<le> c \<and> c \<le> 0x7A then c - 0x20 else c)"
proof (cases "in_range ascii_range c")
  case True
  have "word_of_int (uint c + (- 32)) = c - 0x20"
    by (metis add_uminus_conv_diff wi_hom_sub word_numeral_alt word_of_int_uint)
  then show ?thesis
    using True upper_spec_in [OF ascii_range_in True]
    by (simp add: apply_range_def ascii_range_def upperLower_def in_range_def)
next
  case False
  then have "\<not> in_range r c" if "r \<in> set caseTable" for r
    using that ascii_only assms by (auto simp: in_range_def)
  then show ?thesis
    using False by (auto simp: upper_spec_out in_range_def ascii_range_def)
qed

lemma upper_spec_surrogate: "0xD800 \<le> c \<Longrightarrow> c \<le> 0xDFFF \<Longrightarrow> upper_spec c = c"
  using caseTable_no_surrogate by (intro upper_spec_out) (auto simp: in_range_def)

section \<open>Upper-casing is idempotent\<close>

text \<open>
  The table over the integers, so that its ranges are compared by plain arithmetic: the image of
  a range with a constant delta meets no range of the table.
\<close>

definition int_range :: "caseRange \<Rightarrow> int \<times> int \<times> int" where
  "int_range r = (uint (Lo r), uint (Hi r), Delta r)"

definition int_table :: "(int \<times> int \<times> int) list" where
  "int_table = map int_range caseTable"

lemmas int_table_eval = int_table_def [unfolded caseTable_def list.map int_range_def
    caseRange.simps prod.case upperLower_def, simplified]

lemmas int_table_all = arg_cong [where f = "list_all P" for P, OF int_table_eval,
    unfolded list.pred_inject]

definition apart :: "int \<Rightarrow> int \<Rightarrow> bool" where
  "apart a b \<longleftrightarrow> 0 \<le> a \<and> b < 65536 \<and> list_all (\<lambda>(l, h, _). b < l \<or> h < a) int_table"

definition image_apart :: "int \<times> int \<times> int \<Rightarrow> bool" where
  "image_apart r = (case r of (l, h, d) \<Rightarrow> d = 16384 \<or> apart (l + d) (h + d))"

lemma int_table_apart: "list_all image_apart int_table"
  apply (simp only: int_table_all image_apart_def prod.case)
  apply (simp add: int_table_all apart_def)
  done

lemma image_out:
  assumes r: "r \<in> set caseTable" "in_range r c" "Delta r \<noteq> upperLower" and s: "s \<in> set caseTable"
  shows "\<not> in_range s (apply_range r c)"
proof -
  have "image_apart (int_range r)"
    using int_table_apart r(1) by (simp add: int_table_def list_all_iff)
  then have ap: "apart (uint (Lo r) + Delta r) (uint (Hi r) + Delta r)"
    using r(3) by (simp add: image_apart_def int_range_def upperLower_def)
  have c: "uint (Lo r) \<le> uint c" "uint c \<le> uint (Hi r)"
    using r(2) by (simp_all add: in_range_def word_le_def)
  with ap have bounds: "0 \<le> uint c + Delta r" "uint c + Delta r < 65536"
    by (auto simp: apart_def)
  have "apply_range r c = word_of_int (uint c + Delta r)"
    by (simp only: apply_range_def r(3) if_False)
  then have im: "uint (apply_range r c) = uint c + Delta r"
    using bounds by (simp only: uint_word_of_int) (simp add: mod_pos_pos_trivial)
  have "uint (Hi r) + Delta r < uint (Lo s) \<or> uint (Hi s) < uint (Lo r) + Delta r"
    using ap s by (auto simp: apart_def int_table_def int_range_def list_all_iff)
  then show ?thesis using c im by (auto simp: in_range_def word_le_def)
qed

text \<open>In an alternating range the image is the upper half of the pair, which maps to itself.\<close>

lemma clear_low_bit: "uint ((d :: u16) AND NOT 1) \<le> uint d" "(d AND NOT 1) AND NOT 1 = d AND NOT 1"
proof -
  show "uint (d AND NOT 1) \<le> uint d" using word_and_le2 [of d "NOT 1"] by (simp add: word_le_def)
  show "(d AND NOT 1) AND NOT 1 = d AND NOT 1" by (simp add: and.assoc)
qed

lemma image_alternating:
  assumes r: "in_range r c" "Delta r = upperLower"
  shows "in_range r (apply_range r c)" and "apply_range r (apply_range r c) = apply_range r c"
proof -
  let ?d = "c - Lo r"
  have im: "apply_range r c = Lo r + (?d AND NOT 1)" using r(2) by (simp add: apply_range_def)
  have d: "uint ?d = uint c - uint (Lo r)"
    using r(1) by (simp add: in_range_def uint_minus_simple_alt word_le_def)
  have "uint (Lo r) + uint (?d AND NOT 1) < 2 ^ LENGTH(16)"
    using clear_low_bit(1) [of ?d] d uint_bounded [of c] by linarith
  then have "uint (apply_range r c) = uint (Lo r) + uint (?d AND NOT 1)"
    by (simp only: im uint_word_ariths(1)) (simp add: mod_pos_pos_trivial)
  then show "in_range r (apply_range r c)"
    using clear_low_bit(1) [of ?d] d r(1) by (simp add: in_range_def word_le_def)
  show "apply_range r (apply_range r c) = apply_range r c"
    using r(2) clear_low_bit(2) [of ?d] by (simp add: apply_range_def im)
qed

lemma upper_spec_idem: "upper_spec (upper_spec c) = upper_spec c"
proof (cases "\<exists>r \<in> set caseTable. in_range r c")
  case False
  then show ?thesis by (simp add: upper_spec_out)
next
  case True
  then obtain r where r: "r \<in> set caseTable" "in_range r c" by auto
  then have u: "upper_spec c = apply_range r c" by (rule upper_spec_in)
  show ?thesis
  proof (cases "Delta r = upperLower")
    case True
    then show ?thesis using u r image_alternating upper_spec_in by metis
  next
    case False
    then show ?thesis using u image_out [OF r False] by (simp add: upper_spec_out)
  qed
qed

section \<open>Properties of toUpper\<close>

lemma toUpper_eq: "toUpper c = upper_spec c"
proof -
  consider "c < 0x80" | "\<not> c < 0x80" "0xD800 \<le> c \<and> c \<le> 0xDFFF"
    | "\<not> c < 0x80" "\<not> (0xD800 \<le> c \<and> c \<le> 0xDFFF)"
    by blast
  then show ?thesis
  proof cases
    case 1
    then show ?thesis by (simp add: toUpper_def upper_spec_ascii)
  next
    case 2
    then show ?thesis by (simp add: toUpper_def upper_spec_surrogate)
  next
    case 3
    obtain i ok where "binarySearchFunc caseTable c range_cmp = (i, ok)"
      by (cases "binarySearchFunc caseTable c range_cmp")
    moreover from this have "(if \<not> ok then c else apply_range (caseTable ! i) c) = upper_spec c"
      using search_spec [of c] by simp
    ultimately show ?thesis using 3 by (auto simp: toUpper_def apply_range_def Let_def)
  qed
qed

section \<open>Claims\<close>

text \<open>C34: \<open>toUpper\<close>, with its ASCII shortcut, its surrogate shortcut and its binary search, computes
  the mapping its table describes (the range that holds the code unit, with its delta or the
  alternating rule), and upper-casing twice changes nothing.\<close>

theorem toUpper_table: "toUpper c = upper_spec c \<and> toUpper (toUpper c) = toUpper c"
  by (simp add: toUpper_eq upper_spec_idem)

end
