(* ===== verification/Names.thy ===== *)
theory Names
  imports CaseTable
begin

text \<open>
  name.go: the names of directory entries. \<open>encodeName\<close> validates a name and encodes it in
  UTF-16; \<open>compareNames\<close> is the order of the directory (length first, then upper-cased code
  units), which also decides when two names are duplicates. The order is a \<open>comparator\<close>
  (interpretation \<open>name_order\<close>); the sorts of the serializer and the duplicate check of the
  writer rest on it.
\<close>

section \<open>encodeName\<close>

text \<open>The code units of \<open>"/\\:!\x00"\<close>.\<close>

definition forbiddenRunes :: "rune list" where
  "forbiddenRunes = [0x2F, 0x5C, 0x3A, 0x21, 0x00]"

definition containsAny :: "gostring \<Rightarrow> rune list \<Rightarrow> bool" where
  "containsAny s chars \<longleftrightarrow> list_ex (\<lambda>r. List.member chars r) s"

definition encodeName :: "gostring \<Rightarrow> goerr + u16 list" where
  "encodeName name =
     (if name = [] \<or> containsAny name forbiddenRunes then Inl ErrInvalidName
      else let enc = utf16_encode name in
        if 31 < length enc then Inl ErrInvalidName else Inr enc)"

section \<open>compareNames\<close>

fun compareUnits :: "u16 list \<Rightarrow> u16 list \<Rightarrow> int" where
  "compareUnits (x # xs) (y # ys) =
     (let d = uint (toUpper x) - uint (toUpper y) in if d \<noteq> 0 then d else compareUnits xs ys)"
| "compareUnits _ _ = 0"

definition compareNames :: "u16 list \<Rightarrow> u16 list \<Rightarrow> int" where
  "compareNames a b =
     (if length a \<noteq> length b then int (length a) - int (length b) else compareUnits a b)"

definition appendName :: "u16 list \<Rightarrow> gostring \<Rightarrow> u16 list" where
  "appendName dst s = foldl appendRune dst s"

definition compareNamesStr :: "gostring \<Rightarrow> gostring \<Rightarrow> int" where
  "compareNamesStr a b = compareNames (appendName [] a) (appendName [] b)"

lemma appendName_eq: "appendName dst s = dst @ utf16_encode s"
  by (simp add: appendName_def foldl_appendRune utf16_encode_concat)

lemma compareNamesStr_eq: "compareNamesStr a b = compareNames (utf16_encode a) (utf16_encode b)"
  by (simp add: compareNamesStr_def appendName_eq)

section \<open>The order\<close>

lemma compareUnits_sym: "compareUnits a b = - compareUnits b a"
  by (induction a b rule: compareUnits.induct) (auto simp: Let_def)

lemma compareUnits_trans:
  "length a = length b \<Longrightarrow> length b = length c \<Longrightarrow>
   compareUnits a b \<le> 0 \<Longrightarrow> compareUnits b c \<le> 0 \<Longrightarrow> compareUnits a c \<le> 0"
proof (induction a b arbitrary: c rule: list_induct2')
  case (4 x xs y ys)
  then obtain z zs where c: "c = z # zs" "length ys = length zs" by (cases c) auto
  show ?case
    using "4.IH" [of zs] "4.prems" c by (auto simp: Let_def split: if_splits)
qed auto

lemma compareNames_antisym: "sgn (compareNames a b) = - sgn (compareNames b a)"
  using compareUnits_sym [of a b] by (auto simp: compareNames_def sgn_if)

lemma compareNames_trans:
  "compareNames a b \<le> 0 \<Longrightarrow> compareNames b c \<le> 0 \<Longrightarrow> compareNames a c \<le> 0"
  using compareUnits_trans [of a b c] by (auto simp: compareNames_def split: if_splits)

interpretation name_order: comparator compareNames
  by unfold_locales (fact compareNames_antisym, fact compareNames_trans)

lemma compareUnits_0:
  "length a = length b \<Longrightarrow> compareUnits a b = 0 \<longleftrightarrow> map toUpper a = map toUpper b"
  by (induction a b rule: list_induct2) (auto simp: Let_def intro: word_uint_eqI)

lemma compareNames_0: "compareNames a b = 0 \<longleftrightarrow> map toUpper a = map toUpper b"
  using compareUnits_0 [of a b] by (auto simp: compareNames_def dest: map_eq_imp_length_eq)

lemma toUpper_idem: "toUpper (toUpper c) = toUpper c"
  by (simp add: toUpper_eq upper_spec_idem)

lemma compareUnits_upper: "compareUnits (map toUpper a) b = compareUnits a b"
  by (induction a b rule: compareUnits.induct) (simp_all add: Let_def toUpper_idem)

lemma compareNames_upper: "compareNames (map toUpper a) b = compareNames a b"
  by (simp add: compareNames_def compareUnits_upper)

section \<open>encodeName and the reader's decoding\<close>

lemma encodeName_Inr:
  "encodeName name = Inr enc \<longleftrightarrow>
   name \<noteq> [] \<and> set name \<inter> set forbiddenRunes = {} \<and> enc = utf16_encode name \<and> length enc \<le> 31"
  by (auto simp: encodeName_def containsAny_def list_ex_iff Let_def)

lemma encodeName_Inl:
  "encodeName name = Inl e \<Longrightarrow> e = ErrInvalidName"
  by (auto simp: encodeName_def Let_def split: if_splits)

lemma encodeName_decode:
  "encodeName name = Inr enc \<Longrightarrow> \<forall>r \<in> set name. valid_rune r \<Longrightarrow> utf16_decode enc = name"
  by (simp add: encodeName_Inr utf16_decode_encode)

lemma rune_units_nonempty: "rune_units r \<noteq> []"
  by (simp add: rune_units_def appendRune_def encodeRune_def Let_def)

lemma encodeName_nonempty: "encodeName name = Inr enc \<Longrightarrow> enc \<noteq> []"
  by (cases name) (auto simp: encodeName_Inr utf16_encode_concat rune_units_nonempty)

text \<open>Runes that are not valid are encoded as U+FFFD; whatever the name, its encoding can be read.\<close>

definition fix_rune :: "rune \<Rightarrow> rune" where
  "fix_rune r = (if valid_rune r then r else 0xFFFD)"

lemma rune_units_fix: "rune_units (fix_rune r) = rune_units r"
  by (auto simp: fix_rune_def rune_units_def appendRune_def valid_rune_def)

lemma encodeName_decoded:
  assumes "encodeName name = Inr enc"
  shows "utf16_decode enc = map fix_rune name" "\<not> containsAny (utf16_decode enc) forbiddenRunes"
proof -
  have "utf16_encode name = utf16_encode (map fix_rune name)"
    by (simp add: utf16_encode_concat rune_units_fix o_def)
  moreover have "\<forall>r \<in> set (map fix_rune name). valid_rune r" by (auto simp: fix_rune_def valid_rune_def)
  ultimately show d: "utf16_decode enc = map fix_rune name" using assms by (simp add: encodeName_Inr utf16_decode_encode)
  have "fix_rune r \<notin> set forbiddenRunes" if "r \<notin> set forbiddenRunes" for r
    using that by (auto simp: fix_rune_def forbiddenRunes_def)
  then show "\<not> containsAny (utf16_decode enc) forbiddenRunes"
    unfolding d using assms by (auto simp: containsAny_def list_ex_iff encodeName_Inr)
qed

lemma encodeName_reencoded: "encodeName name = Inr enc \<Longrightarrow> utf16_encode (utf16_decode enc) = enc"
proof -
  assume e: "encodeName name = Inr enc"
  have "utf16_encode name = utf16_encode (map fix_rune name)"
    by (simp add: utf16_encode_concat rune_units_fix o_def)
  then show ?thesis using encodeName_decoded(1) [OF e] e by (simp add: encodeName_Inr)
qed

section \<open>Claims\<close>



text \<open>\<open>encodeName\<close> loses nothing: the UTF-16 code units of an accepted name decode to it, there are
  between 1 and 31 of them, so the NUL fits in the 64-byte field, and no reserved character is
  in the name.\<close>

theorem encodeName_roundtrip:
  assumes "encodeName name = Inr enc" "list_all valid_rune name"
  shows "utf16_decode enc = name \<and> enc \<noteq> [] \<and> length enc \<le> 31 \<and> \<not> containsAny name forbiddenRunes"
  using assms encodeName_decode [OF assms(1)] encodeName_nonempty [OF assms(1)]
  by (auto simp: encodeName_def Let_def list_all_iff split: if_splits)

theorem encodeName_roundtrip_witness:
  "\<exists>enc. encodeName [0x41, 0x1F600] = Inr enc \<and> utf16_decode enc = [0x41, 0x1F600]"
proof -
  have "encodeName [0x41, 0x1F600] = Inr (utf16_encode [0x41, 0x1F600])"
    by (simp add: encodeName_def containsAny_def forbiddenRunes_def utf16_encode_def appendRune_def encodeRune_def)
  moreover have "list_all valid_rune [0x41, 0x1F600]" by (simp add: valid_rune_def)
  ultimately show ?thesis using encodeName_roundtrip by blast
qed

end
