(* ===== verification/Filetime.thy ===== *)
theory Filetime
  imports Bytes
begin

text \<open>
  internal/filetime: FILETIME ticks (100 ns since 1601, unsigned 64 bits) to and from
  \<open>time.Time\<close>. A \<open>time.Time\<close> is what this code reads of it: the Unix second \<open>t.Unix()\<close>
  (negative before 1970) and the nanosecond \<open>t.Nanosecond()\<close>, always below one second; the zero
  \<open>time.Time\<close> is year 1. The location plays no role: \<open>Decode\<close> returns UTC and \<open>Encode\<close> reads
  the instant.
\<close>

record gotime =
  unix_sec :: int
  nanosecond :: nat

definition zeroTime :: gotime where
  "zeroTime = \<lparr>unix_sec = - 62135596800, nanosecond = 0\<rparr>"

definition isZero :: "gotime \<Rightarrow> bool" where
  "isZero t \<longleftrightarrow> t = zeroTime"

definition epochDeltaSecs :: int where "epochDeltaSecs = 11644473600"
definition ticksPerSec :: nat where "ticksPerSec = 10000000"
definition nanosPerTick :: nat where "nanosPerTick = 100"

definition maxUnixSec :: int where
  "maxUnixSec = int ((2 ^ 64 - 1) div ticksPerSec) - epochDeltaSecs - 1"

datatype filetime_error = BeforeYear1601 | AfterYear60056

definition decodeFiletime :: "u64 \<Rightarrow> gotime" where
  "decodeFiletime ft =
     (if ft = 0 then zeroTime
      else let sec = unat ft div ticksPerSec; rem = unat ft mod ticksPerSec
        in \<lparr>unix_sec = int sec - epochDeltaSecs, nanosecond = rem * nanosPerTick\<rparr>)"

definition encodeFiletime :: "gotime \<Rightarrow> filetime_error + u64" where
  "encodeFiletime t =
     (if isZero t then Inr 0
      else let sec = unix_sec t; nsec = nanosecond t in
        if sec < - epochDeltaSecs then Inl BeforeYear1601
        else if maxUnixSec < sec then Inl AfterYear60056
        else Inr (word_of_int (sec + epochDeltaSecs) * word_of_nat ticksPerSec
                  + word_of_nat (nsec div nanosPerTick)))"

lemmas filetime_consts = epochDeltaSecs_def ticksPerSec_def nanosPerTick_def maxUnixSec_def
  zeroTime_def

definition valid_time :: "gotime \<Rightarrow> bool" where
  "valid_time t \<longleftrightarrow> nanosecond t < 10 ^ 9"

text \<open>The last tick whose second \<open>Encode\<close> accepts.\<close>

definition lastTick :: nat where
  "lastTick = (nat (maxUnixSec + epochDeltaSecs) + 1) * ticksPerSec - 1"

lemma lastTick_eq: "lastTick = 18446744073699999999"
  by (simp add: lastTick_def filetime_consts)

section \<open>Range and overflow\<close>

text \<open>Within the accepted range the tick count is the mathematical one: the product cannot wrap.\<close>

lemma encodeFiletime_unat:
  assumes "encodeFiletime t = Inr ft" "valid_time t" "\<not> isZero t"
  shows "unat ft = nat (unix_sec t + epochDeltaSecs) * ticksPerSec + nanosecond t div nanosPerTick"
    and "unat ft \<le> lastTick"
proof -
  let ?s = "nat (unix_sec t + epochDeltaSecs)"
  from assms have range: "- epochDeltaSecs \<le> unix_sec t" "unix_sec t \<le> maxUnixSec"
    and ft: "ft = word_of_int (unix_sec t + epochDeltaSecs) * word_of_nat ticksPerSec
        + word_of_nat (nanosecond t div nanosPerTick)"
    by (auto simp: encodeFiletime_def Let_def split: if_splits)
  have s: "?s \<le> 1844674407369" using range by (simp add: filetime_consts)
  have n: "nanosecond t div 100 < 10000000"
    using assms(2) by (simp add: valid_time_def less_mult_imp_div_less)
  have "word_of_int (unix_sec t + epochDeltaSecs) = (word_of_nat ?s :: u64)"
    using range by (simp add: word_of_nat_eq_iff)
  then have "ft = word_of_nat (?s * 10000000 + nanosecond t div 100)"
    by (simp add: ft filetime_consts)
  moreover have "?s * 10000000 + nanosecond t div 100 \<le> 18446744073699999999"
    using s n by simp
  ultimately have "unat ft = ?s * 10000000 + nanosecond t div 100"
    by (simp add: unsigned_of_nat take_bit_nat_eq_self_iff del: of_nat_add of_nat_mult)
  then show "unat ft = ?s * ticksPerSec + nanosecond t div nanosPerTick"
    and "unat ft \<le> lastTick"
    using \<open>?s * 10000000 + nanosecond t div 100 \<le> 18446744073699999999\<close>
    by (simp_all add: lastTick_eq ticksPerSec_def nanosPerTick_def)
qed

lemma decodeFiletime_valid: "valid_time (decodeFiletime ft)"
  by (simp add: decodeFiletime_def valid_time_def filetime_consts Let_def)

lemma decodeFiletime_nonzero: "ft \<noteq> 0 \<Longrightarrow> \<not> isZero (decodeFiletime ft)"
  by (simp add: decodeFiletime_def isZero_def filetime_consts Let_def)

section \<open>Round trips\<close>

lemma encode_decode_filetime:
  "encodeFiletime (decodeFiletime ft) =
     (if lastTick < unat ft then Inl AfterYear60056 else Inr ft)"
proof (cases "ft = 0")
  case True
  then show ?thesis by (simp add: decodeFiletime_def encodeFiletime_def isZero_def)
next
  case False
  define sec where "sec = unat ft div 10000000"
  define rem where "rem = unat ft mod 10000000"
  have split: "unat ft = sec * 10000000 + rem" "rem < 10000000"
    by (simp_all add: sec_def rem_def)
  have dec: "decodeFiletime ft = \<lparr>unix_sec = int sec - 11644473600, nanosecond = rem * 100\<rparr>"
    using False by (simp add: decodeFiletime_def filetime_consts sec_def rem_def Let_def)
  have late: "maxUnixSec < int sec - 11644473600 \<longleftrightarrow> lastTick < unat ft"
    using split by (simp add: lastTick_eq filetime_consts) linarith
  have "word_of_nat sec * 10000000 + word_of_nat rem = (word_of_nat (unat ft) :: u64)"
    by (simp add: split(1))
  then have "word_of_int (int sec) * 10000000 + word_of_nat rem = ft"
    by simp
  then show ?thesis
    using decodeFiletime_nonzero [OF False] late
    by (simp add: encodeFiletime_def dec epochDeltaSecs_def nanosPerTick_def ticksPerSec_def)
qed

lemma decode_encode_filetime:
  assumes "encodeFiletime t = Inr ft" "valid_time t" "ft \<noteq> 0"
  shows "decodeFiletime ft = t\<lparr>nanosecond := nanosecond t div 100 * 100\<rparr>"
proof -
  have nz: "\<not> isZero t" using assms(1,3) by (auto simp: encodeFiletime_def)
  have n: "nanosecond t div 100 < 10000000"
    using assms(2) by (simp add: valid_time_def less_mult_imp_div_less)
  have "unat ft = nat (unix_sec t + epochDeltaSecs) * ticksPerSec + nanosecond t div nanosPerTick"
    using encodeFiletime_unat(1) [OF assms(1,2) nz] .
  then have u: "unat ft = nat (unix_sec t + 11644473600) * 10000000 + nanosecond t div 100"
    by (simp add: filetime_consts)
  have "- 11644473600 \<le> unix_sec t"
    using assms(1) nz by (auto simp: encodeFiletime_def Let_def filetime_consts split: if_splits)
  then show ?thesis
    using assms(3) n u by (simp add: decodeFiletime_def filetime_consts Let_def)
qed

section \<open>Claims\<close>

text \<open>C38: Encoding a decoded FILETIME gives the same ticks back, for every 64-bit value up to the last
  tick of the last second \<open>Encode\<close> accepts; the ticks above it, which \<open>Decode\<close> accepts, are
  rejected (the range check of \<open>Encode\<close> excludes the last, partial seconds of the format).\<close>

theorem filetime_encode_decode:
  "encodeFiletime (decodeFiletime ft) =
     (if 18446744073699999999 < unat ft then Inl AfterYear60056 else Inr ft)"
  using encode_decode_filetime [of ft] by (simp add: lastTick_eq)

text \<open>Decoding an encoded time gives it back truncated to 100 ns; the tick count of a set time in
  range is computed without wrap-around. The time of tick 0 is taken for an unset one.\<close>

theorem filetime_decode_encode:
  assumes "encodeFiletime t = Inr ft" "valid_time t" "ft \<noteq> 0"
  shows "decodeFiletime ft = t\<lparr>nanosecond := nanosecond t div 100 * 100\<rparr> \<and>
    unat ft = nat (unix_sec t + epochDeltaSecs) * ticksPerSec + nanosecond t div nanosPerTick"
proof -
  have "\<not> isZero t" using assms(1,3) by (auto simp: encodeFiletime_def)
  then show ?thesis
    using decode_encode_filetime [OF assms] encodeFiletime_unat(1) [OF assms(1,2)] by simp
qed

theorem filetime_decode_encode_witness:
  "decodeFiletime 116444736010000007 = \<lparr>unix_sec = 1, nanosecond = 700\<rparr>"
proof -
  have "encodeFiletime \<lparr>unix_sec = 1, nanosecond = 765\<rparr> = Inr 116444736010000007"
    by (simp add: encodeFiletime_def isZero_def filetime_consts)
  from filetime_decode_encode [OF this] show ?thesis by (simp add: valid_time_def)
qed

end
