(* ===== verification/Direntry.thy ===== *)
theory Direntry
  imports Names Filetime
begin

text \<open>
  The 128-byte directory entry: \<open>encodeDirentry\<close> and \<open>emptyDirentry\<close> of writer.go, and
  \<open>rawEntry\<close> and \<open>parseEntry\<close> of reader.go, with the data of the public \<open>Storage\<close> and
  \<open>Stream\<close> types that an entry carries. The lemmas are the round trip between the two, the
  fixed width, and what an accepted entry guarantees about its name.
\<close>

section \<open>Storage, Stream and rawEntry\<close>

record storageInfo =
  stName :: gostring
  stCLSID :: bytes
  stStateBits :: u32
  stCreated :: gotime
  stModified :: gotime

text \<open>A contiguous byte range of the file backing one stream's data.\<close>

record run =
  run_off :: nat
  run_length :: nat
  run_start :: nat

record stream =
  smName :: gostring
  smStateBits :: u32
  smSize :: int
  smRuns :: "run list"

record rawEntry =
  re_storage :: "storageInfo option"
  re_stream :: "stream option"
  re_objectType :: u8
  re_leftSib :: u32
  re_rightSib :: u32
  re_childID :: u32
  re_startSector :: u32
  re_streamSize :: u64
  re_visited :: bool

section \<open>parseEntry\<close>

text \<open>
  The checks on the name, made for every allocated entry: the length field counts the NUL, the
  NUL is there, and no character is reserved.
\<close>

definition parseEntryName :: "u8 \<Rightarrow> u16 list \<Rightarrow> u16 \<Rightarrow> goerr + gostring" where
  "parseEntryName objectType nameUnits nameLen =
     (if objectType = objectUnallocated then Inr []
      else if nameLen < 4 \<or> nameLen mod 2 \<noteq> 0 \<or> 2 * nameMaxUnits < unat nameLen
      then Inl (ErrFormat (BadNameLength nameLen))
      else let n = unat nameLen div 2 - 1 in
        bindE (index_at nameUnits n) (\<lambda>u.
        if u \<noteq> 0 then Inl (ErrFormat NameNotTerminated)
        else let name = utf16_decode (take n nameUnits) in
          if containsAny name forbiddenRunes then Inl (ErrFormat (BadEntryName name))
          else Inr name))"

text \<open>\<open>nameUnits\<close> is an array of 32 units, so an accepted length indexes inside it.\<close>

lemma parseEntryName_total:
  assumes "length nameUnits = nameMaxUnits"
  shows "parseEntryName objectType nameUnits nameLen =
     (if objectType = objectUnallocated then Inr []
      else if nameLen < 4 \<or> nameLen mod 2 \<noteq> 0 \<or> 2 * nameMaxUnits < unat nameLen
      then Inl (ErrFormat (BadNameLength nameLen))
      else let n = unat nameLen div 2 - 1 in
        if nameUnits ! n \<noteq> 0 then Inl (ErrFormat NameNotTerminated)
        else let name = utf16_decode (take n nameUnits) in
          if containsAny name forbiddenRunes then Inl (ErrFormat (BadEntryName name))
          else Inr name)"
proof -
  have "unat nameLen div 2 - 1 < length nameUnits" if "\<not> 2 * nameMaxUnits < unat nameLen"
    using that assms by (simp add: nameMaxUnits_def)
  then show ?thesis by (simp add: parseEntryName_def Let_def)
qed

definition parseEntry :: "bytes \<Rightarrow> u16 \<Rightarrow> goerr + rawEntry" where
  "parseEntry buf majorVersion =
     (if length buf < direntrySize then Inl Panic
      else
       let (nameUnits, b) = rb_many nameMaxUnits rb_uint16 buf;
           (nameLen, b) = rb_uint16 b;
           (objectType, b) = rb_uint8 b;
           (_, b) = rb_uint8 b;
           (leftSib, b) = rb_uint32 b;
           (rightSib, b) = rb_uint32 b;
           (childID, b) = rb_uint32 b;
           (clsid, b) = rb_sub 16 b;
           (stateBits, b) = rb_uint32 b;
           (created, b) = rb_uint64 b;
           (modified, b) = rb_uint64 b;
           (startSector, b) = rb_uint32 b;
           (streamSize, b) = rb_uint64 b;
           streamSize = (if majorVersion = 3 then streamSize AND 0xFFFFFFFF else streamSize)
       in bindE (parseEntryName objectType nameUnits nameLen) (\<lambda>name.
         Inr \<lparr>
           re_storage =
             (if objectType = objectStorage \<or> objectType = objectRoot then
                Some \<lparr>stName = name, stCLSID = clsid, stStateBits = stateBits,
                  stCreated = decodeFiletime created, stModified = decodeFiletime modified\<rparr>
              else None),
           re_stream =
             (if objectType = objectStream then
                Some \<lparr>smName = name, smStateBits = stateBits, smSize = sint streamSize,
                  smRuns = []\<rparr>
              else None),
           re_objectType = objectType, re_leftSib = leftSib, re_rightSib = rightSib,
           re_childID = childID, re_startSector = startSector, re_streamSize = streamSize,
           re_visited = False\<rparr>))"

section \<open>encodeDirentry\<close>

record direntry =
  de_name :: "u16 list"
  de_clsid :: bytes
  de_stateBits :: u32
  de_created :: u64
  de_modified :: u64
  de_size :: u64
  de_objectType :: u8
  de_leftSib :: u32
  de_rightSib :: u32
  de_childID :: u32
  de_startSec :: u32

text \<open>
  The bytes \<open>encodeDirentry\<close> stores in its 128-byte buffer. A name longer than the name field
  would make \<open>b.sub\<close> slice with a negative length. \<open>clsid\<close> is a \<open>[16]byte\<close>.
\<close>

definition encodeDirentry :: "direntry \<Rightarrow> goerr + bytes" where
  "encodeDirentry de =
     (if nameMaxUnits < length (de_name de) then Inl Panic
      else Inr (
        concat (map wb_uint16 (de_name de)) @
        wb_skip (2 * (nameMaxUnits - length (de_name de))) @
        wb_uint16 (word_of_nat ((length (de_name de) + 1) * 2)) @
        wb_uint8 (de_objectType de) @
        wb_uint8 colorBlack @
        wb_uint32 (de_leftSib de) @
        wb_uint32 (de_rightSib de) @
        wb_uint32 (de_childID de) @
        take 16 (de_clsid de) @
        wb_uint32 (de_stateBits de) @
        wb_uint64 (de_created de) @
        wb_uint64 (de_modified de) @
        wb_uint32 (de_startSec de) @
        wb_uint64 (de_size de)))"

text \<open>The precomputed unallocated entry: zeros with the three links set.\<close>

definition emptyDirentry :: bytes where
  "emptyDirentry = wb_skip 68 @ wb_uint32 noStream @ wb_uint32 noStream @ wb_uint32 noStream
     @ wb_skip (direntrySize - 80)"

definition wf_direntry :: "direntry \<Rightarrow> bool" where
  "wf_direntry de \<longleftrightarrow> length (de_name de) \<le> 31 \<and> length (de_clsid de) = 16"

section \<open>Widths\<close>

lemma encodeDirentry_ok: "wf_direntry de \<Longrightarrow> \<exists>b. encodeDirentry de = Inr b \<and> length b = direntrySize"
  by (auto simp: encodeDirentry_def wf_direntry_def size_defs u16.length_puts)

lemma encodeDirentry_length:
  "encodeDirentry de = Inr b \<Longrightarrow> length (de_clsid de) = 16 \<Longrightarrow> length b = direntrySize"
  by (auto simp: encodeDirentry_def size_defs u16.length_puts split: if_splits)

lemma length_emptyDirentry: "length emptyDirentry = direntrySize"
  by (simp add: emptyDirentry_def size_defs)

section \<open>Round trip\<close>

lemma wb_skip_units: "wb_skip (2 * n) = concat (map wb_uint16 (replicate n 0))"
proof (induction n)
  case 0
  then show ?case by (simp add: wb_skip_def)
next
  case (Suc n)
  have "wb_uint16 0 = [0, 0]" by (simp add: wb_uint16_def numeral_2_eq_2)
  with Suc show ?case by (simp add: wb_skip_def)
qed

lemma name_field:
  assumes "length us \<le> nameMaxUnits"
  shows "rb_many nameMaxUnits rb_uint16
      (concat (map wb_uint16 us) @ wb_skip (2 * (nameMaxUnits - length us)) @ rest) =
    (us @ replicate (nameMaxUnits - length us) 0, rest)"
proof -
  let ?vs = "us @ replicate (nameMaxUnits - length us) 0"
  have "length ?vs = nameMaxUnits" using assms by simp
  then show ?thesis using u16.rb_many_put [of ?vs rest] by (simp add: wb_skip_units)
qed

text \<open>The name check of the reader accepts what the writer stores.\<close>

lemma parseEntryName_written:
  assumes "length us \<le> 31" "us \<noteq> []" "\<not> containsAny (utf16_decode us) forbiddenRunes"
    and "typ \<noteq> objectUnallocated"
  shows "parseEntryName typ (us @ replicate (nameMaxUnits - length us) 0)
      (word_of_nat ((length us + 1) * 2)) = Inr (utf16_decode us)"
proof -
  let ?l = "word_of_nat ((length us + 1) * 2) :: u16"
  have l: "unat ?l = (length us + 1) * 2"
    using assms(1) by (simp add: unsigned_of_nat take_bit_nat_eq_self_iff del: of_nat_add of_nat_mult of_nat_Suc)
  have "length us \<noteq> 0" using assms(2) by simp
  then have "\<not> ?l < 4" using l by (simp add: word_less_nat_alt del: of_nat_add of_nat_mult of_nat_Suc)
  moreover have "unat (?l mod 2) = 0" by (simp only: unat_mod l) simp
  then have "?l mod 2 = 0" by (simp only: unat_eq_0)
  moreover have "(us @ replicate (nameMaxUnits - length us) 0) ! length us = 0"
    using assms(1) by (simp add: nth_append nameMaxUnits_def)
  ultimately show ?thesis
    using assms l by (simp add: parseEntryName_def nameMaxUnits_def Let_def nth_append del: of_nat_add of_nat_mult of_nat_Suc)
qed

definition version_size :: "u16 \<Rightarrow> u64 \<Rightarrow> u64" where
  "version_size v s = (if v = 3 then s AND 0xFFFFFFFF else s)"

lemma parse_encodeDirentry:
  assumes "wf_direntry de" "de_name de \<noteq> []" "de_objectType de \<noteq> objectUnallocated"
    and "\<not> containsAny (utf16_decode (de_name de)) forbiddenRunes"
    and "encodeDirentry de = Inr b"
  shows "parseEntry (b @ rest) v = Inr \<lparr>
      re_storage = (if de_objectType de = objectStorage \<or> de_objectType de = objectRoot then
          Some \<lparr>stName = utf16_decode (de_name de), stCLSID = de_clsid de,
            stStateBits = de_stateBits de, stCreated = decodeFiletime (de_created de),
            stModified = decodeFiletime (de_modified de)\<rparr> else None),
      re_stream = (if de_objectType de = objectStream then
          Some \<lparr>smName = utf16_decode (de_name de), smStateBits = de_stateBits de,
            smSize = sint (version_size v (de_size de)), smRuns = []\<rparr> else None),
      re_objectType = de_objectType de, re_leftSib = de_leftSib de, re_rightSib = de_rightSib de,
      re_childID = de_childID de, re_startSector = de_startSec de,
      re_streamSize = version_size v (de_size de), re_visited = False\<rparr>"
proof -
  have len: "length (de_name de) \<le> nameMaxUnits" "length (de_clsid de) = 16"
    using assms(1) by (auto simp: wf_direntry_def nameMaxUnits_def)
  have b: "b = concat (map wb_uint16 (de_name de)) @
        wb_skip (2 * (nameMaxUnits - length (de_name de))) @
        wb_uint16 (word_of_nat ((length (de_name de) + 1) * 2)) @
        wb_uint8 (de_objectType de) @ wb_uint8 colorBlack @ wb_uint32 (de_leftSib de) @
        wb_uint32 (de_rightSib de) @ wb_uint32 (de_childID de) @ take 16 (de_clsid de) @
        wb_uint32 (de_stateBits de) @ wb_uint64 (de_created de) @ wb_uint64 (de_modified de) @
        wb_uint32 (de_startSec de) @ wb_uint64 (de_size de)"
    using assms(5) len(1) by (simp add: encodeDirentry_def split: if_splits)
  have lb: "\<not> length (b @ rest) < direntrySize"
    using encodeDirentry_length [OF assms(5) len(2)] by simp
  have nm: "parseEntryName (de_objectType de)
        (de_name de @ replicate (nameMaxUnits - length (de_name de)) 0)
        (word_of_nat ((length (de_name de) + 1) * 2)) = Inr (utf16_decode (de_name de))"
    using assms(1-4) by (intro parseEntryName_written) (auto simp: wf_direntry_def)
  show ?thesis
    unfolding parseEntry_def using lb
    by (simp only: if_False b append_assoc name_field [OF len(1)] Let_def prod.case wb_rb
        rb_sub_append [of "de_clsid de", OF len(2)] len(2) nm bindE.simps length_take min.idem
        take_all order.refl version_size_def cong: if_cong)
qed

section \<open>What an accepted entry guarantees\<close>

lemma parseEntryName_ok:
  assumes "parseEntryName typ us l = Inr name" "typ \<noteq> objectUnallocated" "length us = nameMaxUnits"
  shows "\<not> containsAny name forbiddenRunes \<and> (\<exists>n. 1 \<le> n \<and> n \<le> 31 \<and> unat l = 2 * (n + 1) \<and>
    us ! n = 0 \<and> name = utf16_decode (take n us))"
proof -
  from assms(1,2) have l: "\<not> l < 4" "l mod 2 = 0" "unat l \<le> 2 * nameMaxUnits"
    and n: "us ! (unat l div 2 - 1) = 0" "name = utf16_decode (take (unat l div 2 - 1) us)"
      "\<not> containsAny name forbiddenRunes"
    by (auto simp: parseEntryName_total [OF assms(3)] Let_def not_less split: if_splits)
  have "unat (l mod 2) = unat l mod 2" by (simp add: unat_mod)
  then have "unat l mod 2 = 0" using l(2) by simp
  moreover have "4 \<le> unat l" using l(1) by (simp add: word_less_nat_alt)
  ultimately have "unat l = 2 * ((unat l div 2 - 1) + 1)" "1 \<le> unat l div 2 - 1"
    by (auto simp: div_le_mono dest: div_le_mono [of 4 "unat l" 2])
  moreover have "unat l div 2 - 1 \<le> 31" using l(3) by (simp add: nameMaxUnits_def)
  ultimately show ?thesis using n by blast
qed

lemma low32: "unat (s AND 0xFFFFFFFF :: u64) < 2 ^ 32"
proof -
  have "s AND 0xFFFFFFFF = take_bit 32 s" by (simp add: take_bit_eq_mask mask_eq_exp_minus_1)
  then show ?thesis
    using take_bit_nat_less_exp [of 32 "unat s"] by (simp add: unsigned_take_bit_eq)
qed

definition wf_rawEntry :: "u16 \<Rightarrow> rawEntry \<Rightarrow> bool" where
  "wf_rawEntry v re \<longleftrightarrow>
     (re_storage re \<noteq> None \<longleftrightarrow> re_objectType re = objectStorage \<or> re_objectType re = objectRoot) \<and>
     (re_stream re \<noteq> None \<longleftrightarrow> re_objectType re = objectStream) \<and>
     (\<forall>s. re_stream re = Some s \<longrightarrow> smSize s = sint (re_streamSize re) \<and> smRuns s = []) \<and>
     \<not> re_visited re \<and> (v = 3 \<longrightarrow> unat (re_streamSize re) < 2 ^ 32)"

definition re_name :: "rawEntry \<Rightarrow> gostring" where
  "re_name re = (case re_storage re of Some s \<Rightarrow> stName s
     | None \<Rightarrow> case re_stream re of Some s \<Rightarrow> smName s | None \<Rightarrow> [])"

lemma parseEntry_wf: "parseEntry buf v = Inr re \<Longrightarrow> wf_rawEntry v re"
  using low32 by (auto simp: parseEntry_def Let_def split_beta bindE_eq_Inr wf_rawEntry_def split: if_split_asm)

lemma parseEntry_name:
  assumes "parseEntry buf v = Inr re" "re_objectType re \<in> {objectStorage, objectStream, objectRoot}"
  shows "\<exists>us l. length us = nameMaxUnits \<and> parseEntryName (re_objectType re) us l = Inr (re_name re)"
proof -
  let ?us = "fst (rb_many nameMaxUnits rb_uint16 buf)"
  let ?b = "snd (rb_many nameMaxUnits rb_uint16 buf)"
  have "parseEntryName (re_objectType re) ?us (fst (rb_uint16 ?b)) = Inr (re_name re)"
    using assms
    by (auto simp: parseEntry_def Let_def split_beta bindE_eq_Inr re_name_def object_defs
        split: if_split_asm)
  then show ?thesis using u16.length_rb_many by blast
qed

text \<open>Only the 128 bytes of the entry are read.\<close>

lemma parseEntry_prefix:
  assumes "length a = direntrySize"
  shows "parseEntry (a @ b) v = parseEntry a v"
proof -
  have units: "fst (rb_many nameMaxUnits rb_uint16 (a @ b)) = fst (rb_many nameMaxUnits rb_uint16 a)"
    using assms by (intro u16.rb_many_prefix) (simp add: size_defs)
  show ?thesis
    using assms unfolding parseEntry_def Let_def split_beta units u16.rb_many_rest
    by (simp add: size_defs rb_uint8_def rb_uint16_def rb_uint32_def rb_uint64_def rb_sub_def cong: if_cong)
qed

section \<open>Claims\<close>

text \<open>C13: The reader gets back what the writer stores: parsing the 128 bytes of an encoded directory
  entry gives its decoded name, CLSID, state bits, times, links, start sector and size (in a
  version 3 file, the low 32 bits of the size).\<close>

theorem direntry_roundtrip:
  assumes "wf_direntry de" "de_name de \<noteq> []" "de_objectType de \<noteq> objectUnallocated"
    and "\<not> containsAny (utf16_decode (de_name de)) forbiddenRunes"
    and "encodeDirentry de = Inr b"
  shows "length b = direntrySize \<and> parseEntry (b @ rest) v = Inr \<lparr>
      re_storage = (if de_objectType de = objectStorage \<or> de_objectType de = objectRoot then
          Some \<lparr>stName = utf16_decode (de_name de), stCLSID = de_clsid de,
            stStateBits = de_stateBits de, stCreated = decodeFiletime (de_created de),
            stModified = decodeFiletime (de_modified de)\<rparr> else None),
      re_stream = (if de_objectType de = objectStream then
          Some \<lparr>smName = utf16_decode (de_name de), smStateBits = de_stateBits de,
            smSize = sint (version_size v (de_size de)), smRuns = []\<rparr> else None),
      re_objectType = de_objectType de, re_leftSib = de_leftSib de, re_rightSib = de_rightSib de,
      re_childID = de_childID de, re_startSector = de_startSec de,
      re_streamSize = version_size v (de_size de), re_visited = False\<rparr>"
  using assms parse_encodeDirentry [OF assms] encodeDirentry_length [OF assms(5)] wf_direntry_def by blast

definition sample_direntry :: direntry where
  "sample_direntry = \<lparr>de_name = [0x41], de_clsid = replicate 16 7, de_stateBits = 5, de_created = 0,
     de_modified = 0, de_size = 300, de_objectType = objectStream, de_leftSib = noStream,
     de_rightSib = 2, de_childID = noStream, de_startSec = 9\<rparr>"

theorem direntry_roundtrip_witness:
  "\<exists>b re. encodeDirentry sample_direntry = Inr b \<and> parseEntry (b @ [1, 2]) 3 = Inr re \<and>
     re_streamSize re = 300 \<and> re_startSector re = 9 \<and> re_rightSib re = 2"
proof -
  obtain b where b: "encodeDirentry sample_direntry = Inr b"
    by (simp add: encodeDirentry_def sample_direntry_def nameMaxUnits_def)
  have "wf_direntry sample_direntry" "de_name sample_direntry \<noteq> []"
    "de_objectType sample_direntry \<noteq> objectUnallocated"
    "\<not> containsAny (utf16_decode (de_name sample_direntry)) forbiddenRunes"
    by (simp_all add: sample_direntry_def wf_direntry_def object_defs containsAny_def forbiddenRunes_def)
  from direntry_roundtrip [OF this b, of "[1, 2]" 3] b show ?thesis
    by (auto simp: sample_direntry_def version_size_def)
qed

text \<open>An accepted directory entry that is allocated has a name of 1 to 31 code units, decoded from
  the name field, NUL-terminated there and free of reserved characters, and carries exactly the
  public object of its type, not yet visited, with a version 3 size below 4 GiB.\<close>

theorem parseEntry_guarantee:
  assumes "parseEntry buf v = Inr re" "re_objectType re \<in> {objectStorage, objectStream, objectRoot}"
  shows "wf_rawEntry v re \<and> \<not> containsAny (re_name re) forbiddenRunes \<and>
    (\<exists>us n. length us = nameMaxUnits \<and> 1 \<le> n \<and> n \<le> 31 \<and> us ! n = 0 \<and> re_name re = utf16_decode (take n us))"
proof -
  obtain us l where us: "length us = nameMaxUnits" "parseEntryName (re_objectType re) us l = Inr (re_name re)"
    using parseEntry_name [OF assms] by blast
  have "re_objectType re \<noteq> objectUnallocated" using assms(2) by (auto simp: object_defs)
  then show ?thesis using parseEntryName_ok [OF us(2)] us(1) parseEntry_wf [OF assms(1)] by blast
qed

theorem parseEntry_guarantee_witness:
  "\<exists>b re. encodeDirentry sample_direntry = Inr b \<and> parseEntry (b @ []) 4 = Inr re \<and> wf_rawEntry 4 re"
proof -
  obtain b where b: "encodeDirentry sample_direntry = Inr b"
    by (simp add: encodeDirentry_def sample_direntry_def nameMaxUnits_def)
  have "wf_direntry sample_direntry" "de_name sample_direntry \<noteq> []"
    "de_objectType sample_direntry \<noteq> objectUnallocated"
    "\<not> containsAny (utf16_decode (de_name sample_direntry)) forbiddenRunes"
    by (simp_all add: sample_direntry_def wf_direntry_def object_defs containsAny_def forbiddenRunes_def)
  from parse_encodeDirentry [OF this b, of "[]" 4] obtain re where
    re: "parseEntry (b @ []) 4 = Inr re" "re_objectType re = objectStream" by (auto simp: sample_direntry_def)
  from parseEntry_guarantee [OF re(1)] re show ?thesis using b by auto
qed

end
