(* ===== verification/Runs.thy ===== *)
theory Runs
  imports Direntry
begin

text \<open>
  The data path of a stream in reader.go: \<open>resolveRegularRuns\<close> and \<open>resolveMiniRuns\<close> turn a sector
  chain into byte runs of the file, and \<open>Stream.ReadAt\<close> reads through them.

  The specification is the list of the byte addresses of the stream: those of its sectors in order,
  cut to its size. The runs list exactly these addresses, and a read returns the bytes there.
  Offsets are Go \<open>int64\<close>; sector numbers have 32 bits and sectors at most 4096 bytes, so they are
  \<open>nat\<close>. The last run is trimmed by less than one sector, so its length stays positive
  (\<open>runs_ok\<close>).
\<close>

section \<open>resolveRegularRuns\<close>

fun regular_loop :: "nat \<Rightarrow> u32 list \<Rightarrow> run \<Rightarrow> nat \<Rightarrow> run list \<Rightarrow> run list \<times> run \<times> nat" where
  "regular_loop secSize [] cur tot runs = (runs, cur, tot)"
| "regular_loop secSize (sec # chain) cur tot runs =
     (let nxt = (unat sec + 1) * secSize in
      if nxt = run_off cur + run_length cur
      then regular_loop secSize chain (cur\<lparr>run_length := run_length cur + secSize\<rparr>) tot runs
      else let runs = runs @ [cur]; tot = tot + run_length cur
        in regular_loop secSize chain \<lparr>run_off = nxt, run_length = secSize, run_start = tot\<rparr> tot runs)"

definition trimLast :: "run list \<Rightarrow> nat \<Rightarrow> nat \<Rightarrow> run list" where
  "trimLast runs tot sz =
     (if sz < tot
      then butlast runs @ [(last runs)\<lparr>run_length := run_length (last runs) - (tot - sz)\<rparr>]
      else runs)"

definition resolveRegularRuns :: "u32 list \<Rightarrow> nat \<Rightarrow> nat \<Rightarrow> run list" where
  "resolveRegularRuns chain secSize sz =
     (if chain = [] then []
      else let cur = \<lparr>run_off = (unat (hd chain) + 1) * secSize, run_length = secSize, run_start = 0\<rparr>;
               (runs, cur, tot) = regular_loop secSize (tl chain) cur 0 [];
               runs = runs @ [cur];
               tot = tot + run_length cur
           in trimLast runs tot sz)"

section \<open>resolveMiniRuns\<close>

definition miniOffset :: "u32 list \<Rightarrow> nat \<Rightarrow> u32 \<Rightarrow> goerr + nat" where
  "miniOffset miniStream secSize miniSec =
     (let miniOff = unat miniSec * miniSectorSize; idx = miniOff div secSize in
      if length miniStream \<le> idx then Inl (ErrFormat MiniSectorExceedsMiniStream)
      else bindE (index_at miniStream idx) (\<lambda>sec. Inr ((unat sec + 1) * secSize + miniOff mod secSize)))"

text \<open>The guard on the length of the mini stream makes the index safe.\<close>

lemma miniOffset_total:
  "miniOffset miniStream secSize miniSec =
     (let miniOff = unat miniSec * miniSectorSize; idx = miniOff div secSize in
      if length miniStream \<le> idx then Inl (ErrFormat MiniSectorExceedsMiniStream)
      else Inr ((unat (miniStream ! idx) + 1) * secSize + miniOff mod secSize))"
  by (simp add: miniOffset_def Let_def)

fun mini_loop :: "u32 list \<Rightarrow> nat \<Rightarrow> u32 list \<Rightarrow> run \<Rightarrow> nat \<Rightarrow> run list \<Rightarrow> goerr + run list \<times> run \<times> nat" where
  "mini_loop miniStream secSize [] cur tot runs = Inr (runs, cur, tot)"
| "mini_loop miniStream secSize (miniSec # chain) cur tot runs =
     bindE (miniOffset miniStream secSize miniSec) (\<lambda>off.
       if off = run_off cur + run_length cur
       then mini_loop miniStream secSize chain (cur\<lparr>run_length := run_length cur + miniSectorSize\<rparr>) tot runs
       else let runs = runs @ [cur]; tot = tot + run_length cur
         in mini_loop miniStream secSize chain
              \<lparr>run_off = off, run_length = miniSectorSize, run_start = tot\<rparr> tot runs)"

definition resolveMiniRuns :: "u32 list \<Rightarrow> nat \<Rightarrow> u32 list \<Rightarrow> nat \<Rightarrow> goerr + run list" where
  "resolveMiniRuns miniStream secSize miniChain sz =
     (if miniChain = [] then Inr []
      else bindE (miniOffset miniStream secSize (hd miniChain)) (\<lambda>off.
        bindE (mini_loop miniStream secSize (tl miniChain)
                 \<lparr>run_off = off, run_length = miniSectorSize, run_start = 0\<rparr> 0 []) (\<lambda>(runs, cur, tot).
          let runs = runs @ [cur]; tot = tot + run_length cur
          in Inr (trimLast runs tot sz))))"

section \<open>Stream.ReadAt\<close>

definition run_cmp :: "run \<Rightarrow> nat \<Rightarrow> int" where
  "run_cmp r target =
     (if run_start r + run_length r \<le> target then - 1 else if target < run_start r then 1 else 0)"

text \<open>
  The loop over the runs from the one the search found: \<open>acc\<close> is \<open>p[:n]\<close>, \<open>plen\<close> is \<open>len(p)\<close>
  after the cut at the size, and \<open>err\<close> the error of a complete read.
\<close>

fun readAt_loop :: "goerr readerAt \<Rightarrow> run list \<Rightarrow> nat \<Rightarrow> nat \<Rightarrow> goerr option \<Rightarrow> bytes \<Rightarrow> bytes \<times> goerr option" where
  "readAt_loop rd [] within plen err acc =
     (if length acc < plen then (acc, Some ErrUnexpectedEOF) else (acc, err))"
| "readAt_loop rd (r # runs) within plen err acc =
     (if length acc < plen then
        let want = min (plen - length acc) (run_length r - within);
            (got, rerr) = rd (run_off r + within) want
        in if length got < want then
             (acc @ got, Some (if rerr = None \<or> rerr = Some EOF then ErrUnexpectedEOF else the rerr))
           else readAt_loop rd runs 0 plen err (acc @ got)
      else (acc, err))"

text \<open>\<open>plen\<close> is \<open>len(p)\<close>; the result is what is stored at the start of \<open>p\<close> and the error.\<close>

definition streamReadAt :: "goerr readerAt \<Rightarrow> stream \<Rightarrow> nat \<Rightarrow> int \<Rightarrow> bytes \<times> goerr option" where
  "streamReadAt rd s plen off =
     (if off < 0 then ([], Some ErrNegativeOffset)
      else if smSize s \<le> off then ([], Some EOF)
      else let avail = smSize s - off;
               (plen, err) = (if avail < int plen then (nat avail, Some EOF) else (plen, None));
               i = fst (binarySearchFunc (smRuns s) (nat off) run_cmp)
           in if length (smRuns s) \<le> i then ([], Some Panic)
              else let within = nat off - run_start (smRuns s ! i)
                   in readAt_loop rd (drop i (smRuns s)) within plen err [])"

section \<open>The addresses of runs\<close>

definition run_addrs :: "run \<Rightarrow> nat list" where
  "run_addrs r = [run_off r ..< run_off r + run_length r]"

definition runs_addrs :: "run list \<Rightarrow> nat list" where
  "runs_addrs runs = concat (map run_addrs runs)"

text \<open>Runs laid end to end from \<open>t\<close>, none empty.\<close>

fun runs_ok :: "nat \<Rightarrow> run list \<Rightarrow> bool" where
  "runs_ok t [] \<longleftrightarrow> True"
| "runs_ok t (r # rs) \<longleftrightarrow> run_start r = t \<and> 0 < run_length r \<and> runs_ok (t + run_length r) rs"

text \<open>The addresses of a block of \<open>n\<close> bytes at each offset, and those of the sectors of a chain.\<close>

definition blocks :: "nat \<Rightarrow> nat list \<Rightarrow> nat list" where
  "blocks n offs = concat (map (\<lambda>off. [off ..< off + n]) offs)"

definition sector_addrs :: "nat \<Rightarrow> u32 list \<Rightarrow> nat list" where
  "sector_addrs secSize chain = blocks secSize (map (\<lambda>sec. (unat sec + 1) * secSize) chain)"

lemma length_blocks: "length (blocks n offs) = length offs * n"
  by (simp add: blocks_def length_concat_const)

lemma runs_addrs_simps [simp]:
  "runs_addrs [] = []" "runs_addrs (r # rs) = run_addrs r @ runs_addrs rs"
  "runs_addrs (xs @ ys) = runs_addrs xs @ runs_addrs ys"
  by (simp_all add: runs_addrs_def)

lemma length_run_addrs [simp]: "length (run_addrs r) = run_length r"
  by (simp add: run_addrs_def)

lemma runs_ok_append: "runs_ok t (xs @ ys) \<longleftrightarrow> runs_ok t xs \<and> runs_ok (t + length (runs_addrs xs)) ys"
  by (induction xs arbitrary: t) (simp_all add: add.assoc)

section \<open>Coalescing\<close>

text \<open>Both loops are this one, on the offsets of the blocks.\<close>

fun coalesce :: "nat \<Rightarrow> nat list \<Rightarrow> run \<Rightarrow> nat \<Rightarrow> run list \<Rightarrow> run list \<times> run \<times> nat" where
  "coalesce n [] cur tot runs = (runs, cur, tot)"
| "coalesce n (off # offs) cur tot runs =
     (if off = run_off cur + run_length cur
      then coalesce n offs (cur\<lparr>run_length := run_length cur + n\<rparr>) tot runs
      else coalesce n offs \<lparr>run_off = off, run_length = n, run_start = tot + run_length cur\<rparr>
             (tot + run_length cur) (runs @ [cur]))"

lemma regular_loop_coalesce:
  "regular_loop secSize chain cur tot runs =
   coalesce secSize (map (\<lambda>sec. (unat sec + 1) * secSize) chain) cur tot runs"
  by (induction chain arbitrary: cur tot runs) (simp_all add: Let_def)

lemma mini_loop_coalesce:
  "mapE (miniOffset miniStream secSize) chain = Inr offs \<Longrightarrow>
   mini_loop miniStream secSize chain cur tot runs = Inr (coalesce miniSectorSize offs cur tot runs)"
  by (induction chain arbitrary: cur tot runs offs) (auto simp: Let_def bindE_eq_Inr)

lemma mini_loop_error:
  "mapE (miniOffset miniStream secSize) chain = Inl e \<Longrightarrow> mini_loop miniStream secSize chain cur tot runs = Inl e"
  by (induction chain arbitrary: cur tot runs) (auto simp: Let_def bindE_eq_Inl)

lemma upt_extend: "[i ..< i + m] @ [i + m ..< i + m + n] = [i ..< i + (m + n)]"
  by (metis add.assoc le_add1 upt_add_eq_append)

lemma coalesce_spec:
  assumes "coalesce n offs cur tot runs = (runs', cur', tot')" "0 < n"
    and "runs_ok 0 (runs @ [cur])" "length (runs_addrs runs) = tot" "n \<le> run_length cur"
  shows "runs_ok 0 (runs' @ [cur']) \<and> length (runs_addrs runs') = tot' \<and> n \<le> run_length cur' \<and>
    runs_addrs (runs' @ [cur']) = runs_addrs (runs @ [cur]) @ blocks n offs"
  using assms
proof (induction n offs cur tot runs rule: coalesce.induct)
  case (1 n cur tot runs)
  then show ?case by (simp add: blocks_def)
next
  case (2 n off offs cur tot runs)
  show ?case
  proof (cases "off = run_off cur + run_length cur")
    case True
    let ?cur = "cur\<lparr>run_length := run_length cur + n\<rparr>"
    have "run_addrs ?cur = run_addrs cur @ [off ..< off + n]"
      using True upt_extend by (simp add: run_addrs_def)
    then show ?thesis using 2 True by (auto simp: runs_ok_append blocks_def)
  next
    case False
    let ?new = "\<lparr>run_off = off, run_length = n, run_start = tot + run_length cur\<rparr>"
    have "run_addrs ?new = [off ..< off + n]" by (simp add: run_addrs_def)
    then show ?thesis using 2 False by (auto simp: runs_ok_append blocks_def)
  qed
qed

section \<open>What the runs cover\<close>

lemma trimLast_spec:
  assumes ok: "runs_ok 0 (runs @ [cur])" and tot: "tot = length (runs_addrs (runs @ [cur]))"
    and trim: "tot < sz + run_length cur"
  shows "runs_ok 0 (trimLast (runs @ [cur]) tot sz)"
    and "runs_addrs (trimLast (runs @ [cur]) tot sz) = take sz (runs_addrs (runs @ [cur]))"
proof -
  let ?l = "run_length cur - (tot - sz)"
  let ?r = "cur\<lparr>run_length := ?l\<rparr>"
  have "runs_ok 0 (trimLast (runs @ [cur]) tot sz) \<and>
    runs_addrs (trimLast (runs @ [cur]) tot sz) = take sz (runs_addrs (runs @ [cur]))"
  proof (cases "sz < tot")
    case False
    then show ?thesis using ok tot by (simp add: trimLast_def)
  next
    case True
    then have eq: "trimLast (runs @ [cur]) tot sz = runs @ [?r]" by (simp add: trimLast_def)
    have "0 < ?l" using True trim by linarith
    then have "runs_ok 0 (runs @ [?r])" using ok by (simp add: runs_ok_append)
    moreover have "sz - length (runs_addrs runs) = ?l" and "length (runs_addrs runs) \<le> sz"
      using True trim tot by simp_all
    then have "take sz (runs_addrs (runs @ [cur])) = runs_addrs runs @ take ?l (run_addrs cur)" by simp
    moreover have "take ?l (run_addrs cur) = run_addrs ?r" by (simp add: run_addrs_def take_upt)
    ultimately show ?thesis by (simp add: eq)
  qed
  then show "runs_ok 0 (trimLast (runs @ [cur]) tot sz)"
    "runs_addrs (trimLast (runs @ [cur]) tot sz) = take sz (runs_addrs (runs @ [cur]))" by auto
qed

text \<open>Blocks of \<open>n\<close> bytes at the offsets \<open>offs\<close>, as many as the size needs.\<close>

lemma coalesce_trim:
  assumes "coalesce n offs \<lparr>run_off = off, run_length = n, run_start = 0\<rparr> 0 [] = (runs, cur, tot)"
    and "0 < n" and sz: "(length offs + 1) * n < sz + n"
  defines "res \<equiv> trimLast (runs @ [cur]) (tot + run_length cur) sz"
  shows "runs_ok 0 res" "runs_addrs res = take sz (blocks n (off # offs))"
proof -
  have *: "runs_ok 0 (runs @ [cur]) \<and> length (runs_addrs runs) = tot \<and> n \<le> run_length cur \<and>
      runs_addrs (runs @ [cur]) = blocks n (off # offs)"
    using coalesce_spec [OF assms(1,2)] assms(2) by (simp add: blocks_def run_addrs_def)
  have t: "tot + run_length cur = length (runs_addrs (runs @ [cur]))"
    using conjunct1 [OF conjunct2 [OF *]] by simp
  also have "\<dots> = (length offs + 1) * n"
    using arg_cong [OF conjunct2 [OF conjunct2 [OF conjunct2 [OF *]]], of length] by (simp add: length_blocks)
  finally have "tot + run_length cur < sz + run_length cur" using sz * by linarith
  then show "runs_ok 0 res" "runs_addrs res = take sz (blocks n (off # offs))"
    using trimLast_spec [OF conjunct1 [OF *] t] conjunct2 [OF conjunct2 [OF conjunct2 [OF *]]]
    by (simp_all add: res_def del: runs_addrs_simps)
qed

lemma resolveRegularRuns_ok:
  assumes "chain \<noteq> []" "0 < secSize" "length chain * secSize < sz + secSize"
  shows "runs_ok 0 (resolveRegularRuns chain secSize sz)"
    and "runs_addrs (resolveRegularRuns chain secSize sz) = take sz (sector_addrs secSize chain)"
proof -
  let ?off = "\<lambda>sec :: u32. (unat sec + 1) * secSize"
  obtain runs cur tot where co: "coalesce secSize (map ?off (tl chain))
      \<lparr>run_off = ?off (hd chain), run_length = secSize, run_start = 0\<rparr> 0 [] = (runs, cur, tot)"
    by (cases rule: prod_cases3)
  have "(length (map ?off (tl chain)) + 1) * secSize < sz + secSize" using assms by (cases chain) auto
  note ct = coalesce_trim [OF co assms(2) this]
  have "resolveRegularRuns chain secSize sz = trimLast (runs @ [cur]) (tot + run_length cur) sz"
    using assms(1) co by (simp add: resolveRegularRuns_def regular_loop_coalesce Let_def)
  then show "runs_ok 0 (resolveRegularRuns chain secSize sz)"
    "runs_addrs (resolveRegularRuns chain secSize sz) = take sz (sector_addrs secSize chain)"
    using ct assms(1) by (cases chain; simp add: sector_addrs_def)+
qed

lemma resolveMiniRuns_ok:
  assumes "chain \<noteq> []" "length chain * miniSectorSize < sz + miniSectorSize"
    and "mapE (miniOffset miniStream secSize) chain = Inr offs"
  obtains runs where "resolveMiniRuns miniStream secSize chain sz = Inr runs" "runs_ok 0 runs"
    "runs_addrs runs = take sz (blocks miniSectorSize offs)"
proof -
  obtain c cs off offs' where c: "chain = c # cs" "offs = off # offs'" "miniOffset miniStream secSize c = Inr off"
    "mapE (miniOffset miniStream secSize) cs = Inr offs'"
    using assms(1,3) by (cases chain) (auto simp: bindE_eq_Inr)
  obtain runs cur tot where co: "coalesce miniSectorSize offs'
      \<lparr>run_off = off, run_length = miniSectorSize, run_start = 0\<rparr> 0 [] = (runs, cur, tot)"
    by (cases rule: prod_cases3)
  have "length offs' = length cs" using c(4) by (rule mapE_length)
  then have "(length offs' + 1) * miniSectorSize < sz + miniSectorSize" using assms(2) c by simp
  note ct = coalesce_trim [OF co _ this]
  have "resolveMiniRuns miniStream secSize chain sz = Inr (trimLast (runs @ [cur]) (tot + run_length cur) sz)"
    using c co by (simp add: resolveMiniRuns_def mini_loop_coalesce Let_def)
  then show thesis using that ct c by (simp add: miniSectorSize_def)
qed

lemma resolveMiniRuns_error:
  assumes "mapE (miniOffset miniStream secSize) chain = Inl e"
  shows "resolveMiniRuns miniStream secSize chain sz = Inl e"
  using assms by (cases chain) (auto simp: resolveMiniRuns_def bindE_eq_Inl mini_loop_error)

section \<open>Reading through the runs\<close>

lemma run_search:
  assumes "runs_ok t runs"
  shows "bsearch runs run_cmp"
proof
  have start: "run_start (rs ! i) + run_length (rs ! i) \<le> run_start (rs ! j)"
    if "runs_ok t rs" "i < j" "j < length rs" for t i j rs
    using that
  proof (induction rs arbitrary: t i j)
    case (Cons r rs)
    have first: "t \<le> run_start (rs ! j)" if "runs_ok t rs" "j < length rs" for t j
      using that
    proof (induction rs arbitrary: t j)
      case (Cons a rs)
      then show ?case by (cases j) (auto, metis add_leD1 nat_le_linear)
    qed simp
    show ?case
      using Cons first [of "t + run_length r" "j - 1"] by (cases i; cases j) auto
  qed simp
  fix i j t
  assume "i \<le> j" "j < length runs"
  then show "sgn (run_cmp (runs ! i) t) \<le> sgn (run_cmp (runs ! j) t)"
    using start [OF assms, of i j] by (cases "i = j") (auto simp: run_cmp_def)
qed

lemma slice_map_nth: "i + n \<le> length xs \<Longrightarrow> slice i n xs = map ((!) xs) [i ..< i + n]"
  by (rule nth_equalityI) (simp_all add: slice_def)

text \<open>The bytes of the file at the addresses of runs.\<close>

definition gather :: "bytes \<Rightarrow> nat list \<Rightarrow> bytes" where
  "gather src addrs = map ((!) src) addrs"

lemma read_run:
  assumes rd: "reader_at rd src EOF" and n: "0 < n" "off + n \<le> length src"
  obtains rerr where "rd off n = (gather src [off ..< off + n], rerr)"
proof -
  obtain rerr where "rd off n = (slice off n src, rerr)" using reader_at.full [OF rd n] by (metis prod.collapse)
  with slice_map_nth [OF n(2)] show thesis by (intro that) (simp add: gather_def)
qed

text \<open>What is wanted of the addresses of the first run, and what is left for the others.\<close>

lemma wanted_split:
  assumes w: "within < run_length r"
  shows "take n (drop within (runs_addrs (r # runs))) =
    [run_off r + within ..< run_off r + within + min n (run_length r - within)] @
    take (n - min n (run_length r - within)) (runs_addrs runs)"
proof -
  let ?A = "[run_off r + within ..< run_off r + run_length r]"
  have "drop within (runs_addrs (r # runs)) = ?A @ runs_addrs runs" using w by (simp add: run_addrs_def drop_upt)
  moreover have "take n ?A = take (min n (run_length r - within)) ?A" by (cases "n \<le> length ?A") simp_all
  moreover have "\<dots> = [run_off r + within ..< run_off r + within + min n (run_length r - within)]"
    using w by (intro take_upt) linarith
  moreover have "n - length ?A = n - min n (run_length r - within)" by simp
  ultimately show ?thesis by (simp only: take_append)
qed

lemma readAt_loop_ok:
  assumes rd: "reader_at rd src EOF"
    and runs: "runs_ok t runs" "runs \<noteq> [] \<Longrightarrow> within < run_length (hd runs)"
    and src: "\<forall>a \<in> set (take (plen - length acc) (drop within (runs_addrs runs))). a < length src"
    and len: "plen \<le> length acc + length (drop within (runs_addrs runs))" "length acc \<le> plen"
  shows "readAt_loop rd runs within plen err acc =
    (acc @ gather src (take (plen - length acc) (drop within (runs_addrs runs))), err)"
  using runs src len
proof (induction runs arbitrary: t within acc)
  case Nil
  then show ?case by (simp add: gather_def)
next
  case (Cons r runs)
  let ?want = "min (plen - length acc) (run_length r - within)"
  let ?A = "[run_off r + within ..< run_off r + within + ?want]"
  have w: "within < run_length r" using Cons.prems(2) by simp
  note split = wanted_split [OF w, of "plen - length acc" runs]
  show ?case
  proof (cases "length acc < plen")
    case False
    then show ?thesis using Cons.prems(5) by (simp add: gather_def)
  next
    case True
    then have w0: "0 < ?want" using w by simp
    have "run_off r + within + (?want - 1) \<in> set ?A" unfolding set_upt atLeastLessThan_iff using w0 by linarith
    then have "run_off r + within + (?want - 1) < length src" using Cons.prems(3) unfolding split set_append by blast
    then have fits: "run_off r + within + ?want \<le> length src" using w0 by linarith
    obtain rerr where got: "rd (run_off r + within) ?want = (gather src ?A, rerr)" by (rule read_run [OF rd w0 fits])
    let ?acc = "acc @ gather src ?A"
    have lg: "length (gather src ?A) = ?want" by (simp add: gather_def)
    have la: "length ?acc = length acc + ?want" using lg by simp
    have step: "readAt_loop rd (r # runs) within plen err acc = readAt_loop rd runs 0 plen err ?acc"
      using True lg by (simp only: readAt_loop.simps Let_def got prod.case if_True lg less_irrefl if_False)
    have rest: "take (plen - length acc) (drop within (runs_addrs (r # runs))) = ?A @ take (plen - length ?acc) (runs_addrs runs)"
      unfolding split la by simp
    have "readAt_loop rd runs 0 plen err ?acc = (?acc @ gather src (take (plen - length ?acc) (drop 0 (runs_addrs runs))), err)"
    proof (rule Cons.IH)
      show "runs_ok (t + run_length r) runs" using Cons.prems(1) by simp
      then show "runs \<noteq> [] \<Longrightarrow> 0 < run_length (hd runs)" by (cases runs) auto
      show "\<forall>a \<in> set (take (plen - length ?acc) (drop 0 (runs_addrs runs))). a < length src"
        using Cons.prems(3) unfolding rest by auto
      show "plen \<le> length ?acc + length (drop 0 (runs_addrs runs))"
        using Cons.prems(4) w unfolding la by (simp add: run_addrs_def)
      show "length ?acc \<le> plen" using True la by simp
    qed
    then show ?thesis using step rest by (simp add: gather_def)
  qed
qed

text \<open>The binary search finds the run that holds the offset.\<close>

lemma run_hit:
  "runs_ok t runs \<Longrightarrow> t \<le> off \<Longrightarrow> off < t + length (runs_addrs runs) \<Longrightarrow> \<exists>r \<in> set runs. run_cmp r off = 0"
proof (induction runs arbitrary: t)
  case (Cons r runs)
  show ?case
  proof (cases "off < t + run_length r")
    case True
    then show ?thesis using Cons.prems by (auto simp: run_cmp_def)
  next
    case False
    then have "\<exists>r \<in> set runs. run_cmp r off = 0"
      using Cons.prems by (intro Cons.IH [of "t + run_length r"]) auto
    then show ?thesis by simp
  qed
qed simp

lemma runs_split:
  assumes "runs_ok t runs" "i < length runs"
  shows "run_start (runs ! i) = t + length (runs_addrs (take i runs))"
    and "runs_ok (run_start (runs ! i)) (drop i runs)"
    and "runs_addrs (drop i runs) = drop (run_start (runs ! i) - t) (runs_addrs runs)"
proof -
  have d: "runs = take i runs @ drop i runs" "drop i runs = runs ! i # drop (Suc i) runs"
    using assms(2) by (simp_all add: Cons_nth_drop_Suc)
  have ok: "runs_ok (t + length (runs_addrs (take i runs))) (drop i runs)"
    using assms(1) runs_ok_append [of t "take i runs" "drop i runs"] by simp
  then show st: "run_start (runs ! i) = t + length (runs_addrs (take i runs))" using d(2) by simp
  then show "runs_ok (run_start (runs ! i)) (drop i runs)" using ok by simp
  have "runs_addrs runs = runs_addrs (take i runs) @ runs_addrs (drop i runs)"
    by (metis append_take_drop_id runs_addrs_simps(3))
  then show "runs_addrs (drop i runs) = drop (run_start (runs ! i) - t) (runs_addrs runs)"
    using st by simp
qed

lemma streamReadAt_ok:
  assumes rd: "reader_at rd src EOF" and runs: "runs_ok 0 (smRuns s)"
    and size: "smSize s = int (length (runs_addrs (smRuns s)))"
    and src: "\<forall>a \<in> set (runs_addrs (smRuns s)). a < length src"
    and off: "0 \<le> off" "off < smSize s"
  shows "streamReadAt rd s plen off =
    (slice (nat off) plen (gather src (runs_addrs (smRuns s))),
     if smSize s - off < int plen then Some EOF else None)"
proof -
  let ?A = "runs_addrs (smRuns s)" and ?err = "if smSize s - off < int plen then Some EOF else None"
  let ?plen = "min plen (length ?A - nat off)"
  obtain i ok where bs: "binarySearchFunc (smRuns s) (nat off) run_cmp = (i, ok)" by fastforce
  note b = bsearch.found_iff [OF run_search [OF runs] bs]
  have ok using run_hit [OF runs, of "nat off"] size off unfolding b by auto
  then have i: "i < length (smRuns s)" "run_cmp (smRuns s ! i) (nat off) = 0"
    using bsearch.found [OF run_search [OF runs]] bs by auto
  let ?r = "smRuns s ! i" and ?rest = "drop i (smRuns s)"
  let ?w = "nat off - run_start ?r"
  have w: "run_start ?r \<le> nat off" "?w < run_length ?r" using i(2) by (auto simp: run_cmp_def split: if_splits)
  note sp = runs_split [OF runs i(1)]
  have hd: "hd ?rest = ?r" using i(1) by (simp add: hd_drop_conv_nth)
  have addrs: "drop ?w (runs_addrs ?rest) = drop (nat off) ?A" using sp(3) w(1) by simp
  have "readAt_loop rd ?rest ?w ?plen ?err [] =
      ([] @ gather src (take (?plen - length ([] :: bytes)) (drop ?w (runs_addrs ?rest))), ?err)"
    by (rule readAt_loop_ok [OF rd sp(2)]) (use w hd addrs src in \<open>auto dest!: in_set_takeD in_set_dropD\<close>)
  also have "\<dots> = (slice (nat off) plen (gather src ?A), ?err)"
    unfolding addrs by (simp add: gather_def slice_def drop_map take_map min_def)
  finally have loop: "readAt_loop rd ?rest ?w ?plen ?err [] = (slice (nat off) plen (gather src ?A), ?err)" .
  have "nat (smSize s - off) = length ?A - nat off" using size off by simp
  then have "(if smSize s - off < int plen then (nat (smSize s - off), Some EOF) else (plen, None)) = (?plen, ?err)"
    using size off by (auto simp: min_def)
  then show ?thesis
    using off i(1) bs loop by (simp add: streamReadAt_def Let_def)
qed

section \<open>Claims\<close>

text \<open>C23: The byte runs of a regular stream list exactly the addresses of its first \<open>size\<close> bytes,
  sector by sector in chain order, end to end and none empty: coalescing contiguous sectors and
  trimming the last run lose and add nothing.\<close>

theorem resolveRegularRuns_exact:
  assumes "chain \<noteq> []" "0 < secSize" "length chain * secSize < sz + secSize"
  shows "runs_ok 0 (resolveRegularRuns chain secSize sz) \<and>
    runs_addrs (resolveRegularRuns chain secSize sz) = take sz (sector_addrs secSize chain)"
  using resolveRegularRuns_ok [OF assms] by blast

theorem resolveRegularRuns_exact_witness:
  "runs_addrs (resolveRegularRuns [3, 4, 1] 4 10) = [16, 17, 18, 19, 20, 21, 22, 23, 8, 9] \<and>
   length (resolveRegularRuns [3, 4, 1] 4 10) = 2"
proof -
  have "runs_addrs (resolveRegularRuns [3, 4, 1] 4 10) = take 10 (sector_addrs 4 [3, 4, 1])"
    using resolveRegularRuns_exact [of "[3, 4, 1]" 4 10] by simp
  also have "\<dots> = [16, 17, 18, 19, 20, 21, 22, 23, 8, 9]"
    by (simp add: sector_addrs_def blocks_def upt_rec)
  finally show ?thesis by (simp add: resolveRegularRuns_def trimLast_def)
qed

text \<open>The runs of a mini stream list the addresses of its bytes, where mini sector \<open>m\<close> lies at its
  offset within the sectors that back the mini stream; a mini sector beyond them is an error and
  nothing else is.\<close>

theorem resolveMiniRuns_exact:
  assumes "chain \<noteq> []" "length chain * miniSectorSize < sz + miniSectorSize"
  shows "case mapE (miniOffset miniStream secSize) chain of
      Inl e \<Rightarrow> resolveMiniRuns miniStream secSize chain sz = Inl e
    | Inr offs \<Rightarrow> \<exists>runs. resolveMiniRuns miniStream secSize chain sz = Inr runs \<and> runs_ok 0 runs \<and>
        runs_addrs runs = take sz (blocks miniSectorSize offs)"
proof (cases "mapE (miniOffset miniStream secSize) chain")
  case (Inl e)
  then show ?thesis using resolveMiniRuns_error by simp
next
  case (Inr offs)
  obtain runs where "resolveMiniRuns miniStream secSize chain sz = Inr runs" "runs_ok 0 runs"
    "runs_addrs runs = take sz (blocks miniSectorSize offs)"
    using resolveMiniRuns_ok [OF assms Inr] by blast
  then show ?thesis using Inr by simp
qed

theorem resolveMiniRuns_exact_witness:
  "\<exists>runs. resolveMiniRuns [7] 512 [2] 3 = Inr runs \<and> runs_addrs runs = [4224, 4225, 4226]"
proof -
  have "mapE (miniOffset [7] 512) [2] = Inr [4224]" by (simp add: miniOffset_total miniSectorSize_def)
  then have "\<exists>runs. resolveMiniRuns [7] 512 [2] 3 = Inr runs \<and> runs_addrs runs = [4224, 4225, 4226]"
    using resolveMiniRuns_exact [of "[2]" 3 "[7]" 512] by (auto simp: miniSectorSize_def blocks_def upt_rec)
  then show ?thesis .
qed

end
