(* ===== verification/Header.thy ===== *)
theory Header
  imports CfbConsts
begin

text \<open>
  The 512-byte file header: \<open>parseHeader\<close>, \<open>validateHeader\<close> and \<open>checkFileSize\<close> of reader.go, and
  what \<open>patchHeader\<close> of writer.go stores (its \<open>Seek\<close> and the two \<open>Write\<close> calls are the caller's
  file). The counts and starts the serializer has computed are the record \<open>regions\<close>; they are Go
  \<open>int64\<close> values that are never negative.

  \<open>parseHeader\<close> accepts exactly the headers \<open>valid_header\<close> describes, and the written header of any
  file whose regions fit is accepted and gives the regions back.
\<close>

record header =
  h_Signature :: u64
  h_MinorVersion :: u16
  h_MajorVersion :: u16
  h_ByteOrder :: u16
  h_SectorShift :: u16
  h_MiniSectorShift :: u16
  h_NumDirSectors :: u32
  h_NumFATSectors :: u32
  h_FirstDirSector :: u32
  h_MiniStreamCutoff :: u32
  h_FirstMiniFATSector :: u32
  h_NumMiniFATSectors :: u32
  h_FirstDIFATSector :: u32
  h_NumDIFATSectors :: u32
  h_DIFAT :: "u32 list"

section \<open>Reading\<close>

text \<open>\<open>int64(1) << shift\<close>, as the \<open>uint64\<close> its uses convert it to: zero from 64 on.\<close>

definition sectorSize :: "u16 \<Rightarrow> u64" where
  "sectorSize shift = push_bit (unat shift) 1"

definition decodeHeader :: "bytes \<Rightarrow> header" where
  "decodeHeader buf =
     (let (sig, b) = rb_uint64 buf;
          (_, b) = rb_sub 16 b;
          (minor, b) = rb_uint16 b;
          (major, b) = rb_uint16 b;
          (order, b) = rb_uint16 b;
          (shift, b) = rb_uint16 b;
          (mini, b) = rb_uint16 b;
          (_, b) = rb_sub 6 b;
          (numDir, b) = rb_uint32 b;
          (numFAT, b) = rb_uint32 b;
          (firstDir, b) = rb_uint32 b;
          (_, b) = rb_uint32 b;
          (cutoff, b) = rb_uint32 b;
          (firstMiniFAT, b) = rb_uint32 b;
          (numMiniFAT, b) = rb_uint32 b;
          (firstDIFAT, b) = rb_uint32 b;
          (numDIFAT, b) = rb_uint32 b;
          (difat, b) = rb_many inlineDIFAT rb_uint32 b
      in \<lparr>h_Signature = sig, h_MinorVersion = minor, h_MajorVersion = major, h_ByteOrder = order,
          h_SectorShift = shift, h_MiniSectorShift = mini, h_NumDirSectors = numDir,
          h_NumFATSectors = numFAT, h_FirstDirSector = firstDir, h_MiniStreamCutoff = cutoff,
          h_FirstMiniFATSector = firstMiniFAT, h_NumMiniFATSectors = numMiniFAT,
          h_FirstDIFATSector = firstDIFAT, h_NumDIFATSectors = numDIFAT, h_DIFAT = difat\<rparr>)"

text \<open>The cases of the switch, in order; \<open>math.MaxInt\<close> is \<open>2 ^ 63 - 1\<close>.\<close>

definition validateHeader :: "header \<Rightarrow> goerr option" where
  "validateHeader h =
     (let secSize = sectorSize (h_SectorShift h);
          entriesPerFAT = secSize div 4;
          entriesPerDIFAT = entriesPerFAT - 1;
          major = h_MajorVersion h;
          numDir = ucast (h_NumDirSectors h) :: u64;
          numFAT = ucast (h_NumFATSectors h) :: u64;
          numMiniFAT = ucast (h_NumMiniFATSectors h) :: u64;
          numDIFAT = ucast (h_NumDIFATSectors h) :: u64
      in if h_Signature h \<noteq> headerSignature then Some (ErrFormat (BadSignature (h_Signature h)))
         else if major \<noteq> 3 \<and> major \<noteq> 4 then Some (ErrFormat (BadMajorVersion major))
         else if h_ByteOrder h \<noteq> byteOrderLE then Some (ErrFormat (BadByteOrder (h_ByteOrder h)))
         else if major = 3 \<and> h_SectorShift h \<noteq> sectorShiftV3
         then Some (ErrFormat (BadSectorShift (h_SectorShift h) 3))
         else if major = 4 \<and> h_SectorShift h \<noteq> sectorShiftV4
         then Some (ErrFormat (BadSectorShift (h_SectorShift h) 4))
         else if h_MiniSectorShift h \<noteq> miniSectorShift
         then Some (ErrFormat (BadMiniSectorShift (h_MiniSectorShift h)))
         else if major = 3 \<and> h_NumDirSectors h \<noteq> 0
         then Some (ErrFormat (NonZeroDirCount (h_NumDirSectors h)))
         else if numFAT * entriesPerFAT < numDir
         then Some (ErrFormat (DirCountExceedsFAT (h_NumDirSectors h)))
         else if h_NumFATSectors h = 0 then Some (ErrFormat NoFATSectors)
         else if (2 ^ 63 - 1) div secSize < numFAT then Some (ErrFormat FATCountTooLarge)
         else if h_MiniStreamCutoff h \<noteq> word_of_nat miniStreamCutoff
         then Some (ErrFormat (BadMiniStreamCutoff (h_MiniStreamCutoff h)))
         else if h_NumMiniFATSectors h = 0 \<and> h_FirstMiniFATSector h \<noteq> endOfChain
         then Some (ErrFormat MiniFATStartWithoutCount)
         else if 0 < h_NumMiniFATSectors h \<and> h_FirstMiniFATSector h = endOfChain
         then Some (ErrFormat MiniFATCountWithoutStart)
         else if numFAT * entriesPerFAT < numMiniFAT
         then Some (ErrFormat (MiniFATCountExceedsFAT (h_NumMiniFATSectors h)))
         else if numFAT div entriesPerDIFAT + 1 < numDIFAT
         then Some (ErrFormat (DIFATCountExceedsFAT (h_NumDIFATSectors h)))
         else None)"

text \<open>\<open>parseHeader\<close> fails on any error of \<open>ReadAt\<close>, also one that comes with a full buffer.\<close>

definition parseHeader :: "goerr readerAt \<Rightarrow> goerr + header" where
  "parseHeader rd =
     (let (buf, err) = rd 0 headerSize in
      case err of Some e \<Rightarrow> Inl e
      | None \<Rightarrow> let h = decodeHeader buf in
          case validateHeader h of Some e \<Rightarrow> Inl e | None \<Rightarrow> Inr h)"

definition h_secSize :: "header \<Rightarrow> nat" where
  "h_secSize h = unat (sectorSize (h_SectorShift h))"

definition probeThreshold :: nat where "probeThreshold = 2 ^ 22"

definition declaredSize :: "header \<Rightarrow> nat" where
  "declaredSize h = (1 + unat (h_NumFATSectors h) + unat (h_NumDIFATSectors h)
     + unat (h_NumMiniFATSectors h) + unat (h_NumDirSectors h)) * h_secSize h"

definition checkFileSize :: "goerr readerAt \<Rightarrow> header \<Rightarrow> goerr option" where
  "checkFileSize rd h =
     (let size = declaredSize h in
      if size \<le> probeThreshold then None
      else let (b, err) = rd (size - 1) 1 in
        if 1 \<le> length b then None
        else if err = None \<or> err = Some EOF then Some (ErrFormat SectorCountExceedsFile)
        else err)"

section \<open>Writing\<close>

record regions =
  rg_dirStart :: nat
  rg_dirSecs :: nat
  rg_miniFATStart :: nat
  rg_miniFATSecs :: nat
  rg_fatStart :: nat
  rg_fatCount :: nat
  rg_difatStart :: nat
  rg_difatCount :: nat

text \<open>\<open>bits.TrailingZeros\<close>.\<close>

function trailingZeros :: "nat \<Rightarrow> nat" where
  "trailingZeros n = (if n = 0 then 64 else if odd n then 0 else Suc (trailingZeros (n div 2)))"
  by pat_completeness auto
termination
  by (relation "measure id") auto

declare trailingZeros.simps [simp del]

definition majorOf :: "nat \<Rightarrow> u16" where
  "majorOf secSize = (if secSize = 4096 then 4 else 3)"

definition encodeHeader :: "nat \<Rightarrow> regions \<Rightarrow> bytes" where
  "encodeHeader secSize s =
     (let inline = min (rg_fatCount s) inlineDIFAT in
      wb_uint64 headerSignature
      @ wb_skip 16
      @ wb_uint16 minorVersion
      @ wb_uint16 (majorOf secSize)
      @ wb_uint16 byteOrderLE
      @ wb_uint16 (word_of_nat (trailingZeros secSize))
      @ wb_uint16 miniSectorShift
      @ wb_skip 6
      @ wb_uint32 (if majorOf secSize = 4 then word_of_nat (rg_dirSecs s) else 0)
      @ wb_uint32 (word_of_nat (rg_fatCount s))
      @ wb_uint32 (word_of_nat (rg_dirStart s))
      @ wb_uint32 0
      @ wb_uint32 (word_of_nat miniStreamCutoff)
      @ wb_uint32 (if 0 < rg_miniFATSecs s then word_of_nat (rg_miniFATStart s) else endOfChain)
      @ wb_uint32 (word_of_nat (rg_miniFATSecs s))
      @ wb_uint32 (if 0 < rg_difatCount s then word_of_nat (rg_difatStart s) else endOfChain)
      @ wb_uint32 (word_of_nat (rg_difatCount s))
      @ concat (map wb_uint32 (map (\<lambda>i. word_of_nat (rg_fatStart s) + word_of_nat i) [0..<inline]
          @ replicate (inlineDIFAT - inline) freeSect)))"

text \<open>The header sector: what \<open>patchHeader\<close> writes at offset 0.\<close>

definition headerSector :: "nat \<Rightarrow> regions \<Rightarrow> bytes" where
  "headerSector secSize s = encodeHeader secSize s @ wb_skip (secSize - headerSize)"

lemma length_encodeHeader: "length (encodeHeader secSize s) = headerSize"
  by (simp add: encodeHeader_def Let_def u32.length_puts size_defs del: map_append map_map)

section \<open>Round trip\<close>

text \<open>The header the regions describe.\<close>

definition headerOf :: "nat \<Rightarrow> regions \<Rightarrow> header" where
  "headerOf secSize s =
     (let inline = min (rg_fatCount s) inlineDIFAT in
      \<lparr>h_Signature = headerSignature, h_MinorVersion = minorVersion, h_MajorVersion = majorOf secSize,
       h_ByteOrder = byteOrderLE, h_SectorShift = word_of_nat (trailingZeros secSize),
       h_MiniSectorShift = miniSectorShift,
       h_NumDirSectors = (if majorOf secSize = 4 then word_of_nat (rg_dirSecs s) else 0),
       h_NumFATSectors = word_of_nat (rg_fatCount s),
       h_FirstDirSector = word_of_nat (rg_dirStart s),
       h_MiniStreamCutoff = word_of_nat miniStreamCutoff,
       h_FirstMiniFATSector = (if 0 < rg_miniFATSecs s then word_of_nat (rg_miniFATStart s) else endOfChain),
       h_NumMiniFATSectors = word_of_nat (rg_miniFATSecs s),
       h_FirstDIFATSector = (if 0 < rg_difatCount s then word_of_nat (rg_difatStart s) else endOfChain),
       h_NumDIFATSectors = word_of_nat (rg_difatCount s),
       h_DIFAT = map (\<lambda>i. word_of_nat (rg_fatStart s) + word_of_nat i) [0..<inline]
         @ replicate (inlineDIFAT - inline) freeSect\<rparr>)"

lemma decode_encodeHeader: "decodeHeader (encodeHeader secSize s) = headerOf secSize s"
proof -
  define vs where "vs = map (\<lambda>i. word_of_nat (rg_fatStart s) + word_of_nat i) [0..<min (rg_fatCount s) inlineDIFAT]
    @ replicate (inlineDIFAT - min (rg_fatCount s) inlineDIFAT) (freeSect :: u32)"
  have "length vs = inlineDIFAT" by (simp add: vs_def)
  then have "rb_many inlineDIFAT rb_uint32 (concat (map wb_uint32 vs)) = (vs, [])"
    using u32.rb_many_put [of vs "[]"] by simp
  then show ?thesis
    unfolding decodeHeader_def encodeHeader_def headerOf_def Let_def vs_def [symmetric]
    by (simp add: codec)
qed

text \<open>The regions of a file that the header can describe.\<close>

definition regions_fit :: "nat \<Rightarrow> regions \<Rightarrow> bool" where
  "regions_fit secSize s \<longleftrightarrow> (secSize = 512 \<or> secSize = 4096) \<and>
     0 < rg_fatCount s \<and> rg_fatCount s < 2 ^ 32 \<and>
     rg_dirSecs s < 2 ^ 32 \<and> rg_dirSecs s \<le> rg_fatCount s * (secSize div 4) \<and>
     rg_miniFATSecs s < 2 ^ 32 \<and> rg_miniFATSecs s \<le> rg_fatCount s * (secSize div 4) \<and>
     rg_miniFATStart s < unat endOfChain \<and>
     rg_difatCount s < 2 ^ 32 \<and> rg_difatCount s \<le> rg_fatCount s div (secSize div 4 - 1) + 1"

lemma trailingZeros_sizes: "trailingZeros 512 = 9" "trailingZeros 4096 = 12"
  by (simp_all add: trailingZeros.simps)

lemma sectorSize_shifts: "sectorSize 9 = 512" "sectorSize 12 = 4096"
  by (simp_all add: sectorSize_def push_bit_eq_mult)

lemma h_secSize_headerOf: "secSize = 512 \<or> secSize = 4096 \<Longrightarrow> h_secSize (headerOf secSize s) = secSize"
  by (auto simp: h_secSize_def headerOf_def Let_def trailingZeros_sizes sectorSize_shifts)

lemma unat_ucast_32_64: "unat (ucast (x :: u32) :: u64) = unat x"
proof -
  have "unat x < 2 ^ 32" using unsigned_less [of x] by simp
  then show ?thesis by (simp add: unsigned_ucast_eq take_bit_nat_eq_self_iff)
qed

lemma ucast_less_iff: "(a :: u64) * b < ucast (x :: u32) \<longleftrightarrow> unat a * unat b < unat x" if "unat a * unat b < 2 ^ 64"
proof -
  have "unat (a * b) = unat a * unat b" using that by (simp add: unat_word_ariths)
  then show ?thesis by (simp add: word_less_nat_alt unat_ucast_32_64)
qed

text \<open>What \<open>validateHeader\<close> accepts, over natural numbers.\<close>

definition valid_header :: "header \<Rightarrow> bool" where
  "valid_header h \<longleftrightarrow> h_Signature h = headerSignature \<and> h_ByteOrder h = byteOrderLE \<and>
     (h_MajorVersion h = 3 \<and> h_SectorShift h = sectorShiftV3 \<and> h_NumDirSectors h = 0 \<or>
      h_MajorVersion h = 4 \<and> h_SectorShift h = sectorShiftV4) \<and>
     h_MiniSectorShift h = miniSectorShift \<and> h_MiniStreamCutoff h = word_of_nat miniStreamCutoff \<and>
     0 < unat (h_NumFATSectors h) \<and>
     unat (h_NumDirSectors h) \<le> unat (h_NumFATSectors h) * (h_secSize h div 4) \<and>
     unat (h_NumMiniFATSectors h) \<le> unat (h_NumFATSectors h) * (h_secSize h div 4) \<and>
     (h_NumMiniFATSectors h = 0 \<longleftrightarrow> h_FirstMiniFATSector h = endOfChain) \<and>
     unat (h_NumDIFATSectors h) \<le> unat (h_NumFATSectors h) div (h_secSize h div 4 - 1) + 1"

lemma valid_header_secSize: "valid_header h \<Longrightarrow> h_secSize h = 512 \<or> h_secSize h = 4096"
  by (auto simp: valid_header_def h_secSize_def sectorShiftV3_def sectorShiftV4_def sectorSize_shifts)

text \<open>With the sector size one of the two, the checks that mention it do not overflow.\<close>

lemma size_checks:
  assumes "secSize = 512 \<or> secSize = (4096 :: u64)"
  shows "ucast (n :: u32) * (secSize div 4) < (ucast (m :: u32) :: u64) \<longleftrightarrow> unat n * (unat secSize div 4) < unat m"
    and "(2 ^ 63 - 1) div secSize < (ucast n :: u64) \<longleftrightarrow> False"
    and "(ucast n :: u64) div (secSize div 4 - 1) + 1 < ucast m \<longleftrightarrow>
      unat n div (unat secSize div 4 - 1) + 1 < unat m"
proof -
  have n: "unat n < 2 ^ 32" using unsigned_less [of n] by simp
  have d: "unat (secSize div 4) = unat secSize div 4" by (simp add: unat_div)
  have le: "unat secSize div 4 \<le> 1024" using assms by auto
  have "unat n * (unat secSize div 4) \<le> 2 ^ 32 * 1024" using n le by (intro mult_le_mono) auto
  then have "unat (ucast n :: u64) * unat (secSize div 4) < 2 ^ 64" by (simp add: d unat_ucast_32_64)
  then show "ucast n * (secSize div 4) < (ucast m :: u64) \<longleftrightarrow> unat n * (unat secSize div 4) < unat m"
    by (simp add: ucast_less_iff d unat_ucast_32_64)
  have "2 ^ 32 \<le> unat (((2 :: u64) ^ 63 - 1) div secSize)" using assms by auto
  then show "(2 ^ 63 - 1) div secSize < (ucast n :: u64) \<longleftrightarrow> False"
    using n unfolding word_less_nat_alt unat_ucast_32_64 by (metis less_le_trans not_less_iff_gr_or_eq)
  have e: "unat (secSize div 4 - 1) = unat secSize div 4 - 1" using assms by auto
  have q: "unat n div (unat secSize div 4 - 1) < 2 ^ 32"
    using div_le_dividend [of "unat n" "unat secSize div 4 - 1"] n by linarith
  have "unat ((ucast n :: u64) div (secSize div 4 - 1)) = unat n div (unat secSize div 4 - 1)"
    by (simp only: unat_div e unat_ucast_32_64)
  then have "unat ((ucast n :: u64) div (secSize div 4 - 1) + 1) = (unat n div (unat secSize div 4 - 1) + 1) mod 2 ^ 64"
    by (simp only: unat_word_ariths unat_1) simp
  also have "\<dots> = unat n div (unat secSize div 4 - 1) + 1" using q by (intro mod_less) simp
  finally have "unat ((ucast n :: u64) div (secSize div 4 - 1) + 1) = unat n div (unat secSize div 4 - 1) + 1" .
  then show "(ucast n :: u64) div (secSize div 4 - 1) + 1 < ucast m \<longleftrightarrow>
      unat n div (unat secSize div 4 - 1) + 1 < unat m"
    by (simp only: word_less_nat_alt unat_ucast_32_64)
qed

lemma validateHeader_iff: "validateHeader h = None \<longleftrightarrow> valid_header h"
proof (cases "h_MajorVersion h = 3 \<and> h_SectorShift h = sectorShiftV3 \<or>
    h_MajorVersion h = 4 \<and> h_SectorShift h = sectorShiftV4")
  case True
  define S where "S = sectorSize (h_SectorShift h)"
  have S: "S = 512 \<or> S = 4096"
    using True by (auto simp: S_def sectorShiftV3_def sectorShiftV4_def sectorSize_shifts)
  have hS: "h_secSize h = unat S" by (simp add: h_secSize_def S_def)
  have version: "h_MajorVersion h = 3 \<or> h_MajorVersion h = 4" using True by auto
  show ?thesis
    unfolding validateHeader_def valid_header_def Let_def S_def [symmetric] size_checks [OF S] hS
    using True by (auto simp: not_less word_gt_0 unat_gt_0 sectorShiftV3_def sectorShiftV4_def)
next
  case False
  then show ?thesis by (auto simp: validateHeader_def valid_header_def Let_def)
qed

lemma parseHeader_Inr:
  "parseHeader rd = Inr h \<longleftrightarrow>
   (\<exists>buf. rd 0 headerSize = (buf, None) \<and> h = decodeHeader buf \<and> valid_header h)"
  by (auto simp: parseHeader_def Let_def validateHeader_iff [symmetric] split: prod.splits option.splits)

lemma word_of_nat_eq_endOfChain: "n < unat endOfChain \<Longrightarrow> (word_of_nat n :: u32) \<noteq> endOfChain"
proof -
  assume n: "n < unat endOfChain"
  moreover have "unat endOfChain < 2 ^ 32" by (simp add: endOfChain_def)
  ultimately have "unat (word_of_nat n :: u32) = n" by (intro unat_u32) linarith
  then show ?thesis using n by auto
qed

lemma headerOf_valid:
  assumes "regions_fit secSize s"
  shows "valid_header (headerOf secSize s)"
proof -
  have "secSize = 512 \<or> secSize = 4096" using assms by (simp add: regions_fit_def)
  then show ?thesis
    using assms h_secSize_headerOf [of secSize s]
    unfolding regions_fit_def valid_header_def
    by (auto simp: headerOf_def Let_def unat_u32 majorOf_def sectorShiftV3_def sectorShiftV4_def
      trailingZeros_sizes word_of_nat_eq_endOfChain word_of_nat_eq_0_iff dest!: nat_dvd_not_less)
qed

lemma parse_headerSector:
  assumes fit: "regions_fit secSize s" and rd: "strict_reader_at rd src EOF"
    and src: "take (secSize) src = headerSector secSize s"
  shows "parseHeader rd = Inr (headerOf secSize s)"
proof -
  have S: "headerSize \<le> secSize" using fit by (auto simp: regions_fit_def headerSize_def)
  have "length (headerSector secSize s) = secSize"
    using S by (simp add: headerSector_def length_encodeHeader)
  then have len: "secSize \<le> length src" using src by (metis length_take min.cobounded1 min_def)
  have "take headerSize src = take headerSize (take secSize src)" using S by (simp add: min_def)
  also have "\<dots> = encodeHeader secSize s" unfolding src by (simp add: headerSector_def length_encodeHeader)
  finally have "slice 0 headerSize src = encodeHeader secSize s" by (simp add: slice_def)
  moreover have "rd 0 headerSize = (slice 0 headerSize src, None)"
    using S len by (intro strict_reader_at.full_read [OF rd]) (simp_all add: headerSize_def)
  ultimately show ?thesis
    using headerOf_valid [OF fit] by (simp add: parseHeader_Inr decode_encodeHeader)
qed

section \<open>Claims\<close>

text \<open>C21: \<open>validateHeader\<close> accepts exactly the headers its checks describe over natural numbers: the
  64-bit products and quotients it computes do not wrap for either sector size, so no header gets
  past the capacity checks by overflow, and the check on the largest FAT never fires.\<close>

theorem validateHeader_exact: "validateHeader h = None \<longleftrightarrow> valid_header h"
  by (rule validateHeader_iff)

text \<open>C11: The header sector \<open>patchHeader\<close> writes for any file whose regions fit is accepted by
  \<open>parseHeader\<close> and gives back the version, the sector size, and the counts and starts of all
  regions, with the first 109 FAT sectors inline.\<close>

theorem header_roundtrip:
  assumes "regions_fit secSize s" "strict_reader_at rd src EOF" "take secSize src = headerSector secSize s"
  shows "parseHeader rd = Inr (headerOf secSize s) \<and> h_secSize (headerOf secSize s) = secSize"
  using parse_headerSector [OF assms] h_secSize_headerOf assms(1) by (auto simp: regions_fit_def)

definition sample_regions :: regions where
  "sample_regions = \<lparr>rg_dirStart = 0, rg_dirSecs = 1, rg_miniFATStart = 1, rg_miniFATSecs = 0,
     rg_fatStart = 1, rg_fatCount = 1, rg_difatStart = 2, rg_difatCount = 0\<rparr>"

theorem header_roundtrip_witness:
  "\<exists>h. parseHeader (bytesReaderAt EOF (headerSector 512 sample_regions)) = Inr h \<and>
     h_MajorVersion h = 3 \<and> h_NumFATSectors h = 1 \<and> hd (h_DIFAT h) = 1"
proof -
  have fit: "regions_fit 512 sample_regions"
    by (simp add: regions_fit_def sample_regions_def endOfChain_def)
  have "length (headerSector 512 sample_regions) = 512"
    by (simp add: headerSector_def length_encodeHeader headerSize_def)
  then have "take 512 (headerSector 512 sample_regions) = headerSector 512 sample_regions" by simp
  from header_roundtrip [OF fit bytes_reader.strict_reader_at_axioms this] show ?thesis
    by (simp add: headerOf_def majorOf_def sample_regions_def inlineDIFAT_def)
qed

end
