(* ===== verification/Chains.thy ===== *)
theory Chains
  imports CfbConsts
begin

text \<open>
  The allocation tables. Reader side: \<open>walkChain\<close>, which follows a sector chain through a FAT or
  mini-FAT. Writer side: \<open>computeFATCounts\<close>, the loop that sizes the FAT and DIFAT regions, and
  the sectors \<open>writeChainTable\<close> produces from the runs of every chain.

  The specification of a chain is \<open>chain_path\<close>: the linked list through the table. \<open>walkChain\<close>
  returns exactly the path, rejecting everything else; the table written for a set of disjoint
  runs holds the cell of the run at each covered index and \<open>freeSect\<close> elsewhere.
\<close>

section \<open>walkChain\<close>

text \<open>
  The loop with its accumulated chain. It stops because a chain longer than the table is reported
  as cyclic. \<open>fat[sec]\<close> is read with its bounds check. The capacity hint of \<open>make\<close>, the length asked
  for or 64, is checked by \<open>make\<close> before the walk.
\<close>

function walkChain_loop :: "u32 list \<Rightarrow> nat \<Rightarrow> u32 \<Rightarrow> u32 list \<Rightarrow> goerr + u32 list" where
  "walkChain_loop fat numSectors sec chain =
     (if sec = endOfChain then
        (if 0 < numSectors \<and> length chain < numSectors
         then Inl (ErrFormat ChainTooShort) else Inr chain)
      else if maxRegSect < sec then Inl (ErrFormat ChainEntryTooLarge)
      else if length fat \<le> unat sec then Inl (ErrFormat ChainEntryNotInFAT)
      else let chain = chain @ [sec] in
        if 0 < numSectors \<and> numSectors < length chain then Inl (ErrFormat ChainTooLong)
        else if length fat < length chain then Inl (ErrFormat ChainCyclic)
        else bindE (index_at fat (unat sec)) (\<lambda>nxt. walkChain_loop fat numSectors nxt chain))"
  by pat_completeness auto
termination
  by (relation "measure (\<lambda>(fat, numSectors, sec, chain). Suc (length fat) - length chain)") auto

declare walkChain_loop.simps [simp del]

definition walkChain :: "u32 list \<Rightarrow> u32 \<Rightarrow> nat \<Rightarrow> goerr + u32 list" where
  "walkChain fat first numSectors =
     bindE (makeSlice (if numSectors = 0 then 64 else numSectors) 4) (\<lambda>_.
       walkChain_loop fat numSectors first [])"

text \<open>The guard before the index makes the check pass.\<close>

lemma walkChain_loop_total:
  "walkChain_loop fat numSectors sec chain =
     (if sec = endOfChain then
        (if 0 < numSectors \<and> length chain < numSectors
         then Inl (ErrFormat ChainTooShort) else Inr chain)
      else if maxRegSect < sec then Inl (ErrFormat ChainEntryTooLarge)
      else if length fat \<le> unat sec then Inl (ErrFormat ChainEntryNotInFAT)
      else let chain = chain @ [sec] in
        if 0 < numSectors \<and> numSectors < length chain then Inl (ErrFormat ChainTooLong)
        else if length fat < length chain then Inl (ErrFormat ChainCyclic)
        else walkChain_loop fat numSectors (fat ! unat sec) chain)"
  by (subst walkChain_loop.simps) (simp add: Let_def not_le)

subsection \<open>The linked list a table holds\<close>

inductive chain_path :: "u32 list \<Rightarrow> u32 \<Rightarrow> u32 list \<Rightarrow> bool" for fat where
  chain_end: "chain_path fat endOfChain []"
| chain_step: "sec \<le> maxRegSect \<Longrightarrow> unat sec < length fat \<Longrightarrow> chain_path fat (fat ! unat sec) path \<Longrightarrow>
    chain_path fat sec (sec # path)"

inductive_cases chain_path_NilE: "chain_path fat sec []"
inductive_cases chain_path_ConsE: "chain_path fat sec (s # path)"
inductive_simps chain_path_Nil: "chain_path fat sec []"
inductive_simps chain_path_Cons: "chain_path fat sec (s # path)"

lemma endOfChain_large: "maxRegSect < endOfChain"
  by (simp add: sect_defs)

lemma chain_path_small: "chain_path fat sec path \<Longrightarrow> sec \<le> maxRegSect \<Longrightarrow>
    \<exists>rest. path = sec # rest \<and> chain_path fat (fat ! unat sec) rest"
  using endOfChain_large by (cases path) (auto simp: chain_path_Cons chain_path_Nil)

lemma chain_path_det: "chain_path fat sec p \<Longrightarrow> chain_path fat sec q \<Longrightarrow> p = q"
proof (induction arbitrary: q rule: chain_path.induct)
  case chain_end
  have "q = []"
  proof (cases q)
    case (Cons s q')
    then have "endOfChain \<le> maxRegSect" using chain_end by (simp add: chain_path_Cons)
    then show ?thesis using endOfChain_large by simp
  qed simp
  then show ?case by simp
next
  case (chain_step sec path)
  then obtain rest where q: "q = sec # rest" "chain_path fat (fat ! unat sec) rest"
    using chain_path_small by blast
  from chain_step.IH [OF q(2)] show ?case using q(1) by simp
qed

lemma chain_path_suffix: "chain_path fat sec (p @ s # q) \<Longrightarrow> chain_path fat s (s # q)"
proof (induction p arbitrary: sec)
  case Nil
  then have "sec = s" by (simp add: chain_path_Cons)
  then show ?case using Nil by simp
next
  case (Cons a p)
  then have "chain_path fat (fat ! unat sec) (p @ s # q)" by (simp add: chain_path_Cons)
  then show ?case by (rule Cons.IH)
qed

text \<open>A finite walk never repeats a sector, so it is no longer than the table.\<close>

lemma chain_path_distinct: "chain_path fat sec path \<Longrightarrow> distinct path"
proof (induction rule: chain_path.induct)
  case chain_end
  then show ?case by simp
next
  case (chain_step sec path)
  have "sec \<notin> set path"
  proof
    assume "sec \<in> set path"
    then obtain p q where pq: "path = p @ sec # q" by (auto simp: in_set_conv_decomp)
    then have "chain_path fat sec (sec # q)"
      using chain_step.hyps(3) chain_path_suffix by blast
    moreover have "chain_path fat sec (sec # path)"
      using chain_step.hyps by (intro chain_path.chain_step)
    ultimately have "sec # path = sec # q" by (rule chain_path_det [rotated])
    then have "length path = length q" by simp
    then show False using pq by simp
  qed
  then show ?case using chain_step.IH by simp
qed

lemma chain_path_in_fat: "chain_path fat sec path \<Longrightarrow> \<forall>s \<in> set path. unat s < length fat \<and> s \<le> maxRegSect"
  by (induction rule: chain_path.induct) auto

lemma chain_path_length: "chain_path fat sec path \<Longrightarrow> length path \<le> length fat"
proof -
  assume p: "chain_path fat sec path"
  have "distinct (map unat path)"
    using chain_path_distinct [OF p] by (simp add: distinct_map inj_on_def word_unat_eq_iff)
  moreover have "set (map unat path) \<subseteq> {..< length fat}"
    using chain_path_in_fat [OF p] by auto
  ultimately have "length (map unat path) \<le> card {..< length fat}"
    by (metis card_mono distinct_card finite_lessThan)
  then show ?thesis by simp
qed

subsection \<open>walkChain follows it\<close>

lemma walkChain_loop_sound:
  "walkChain_loop fat n sec chain = Inr r \<Longrightarrow> n = 0 \<or> length chain \<le> n \<Longrightarrow>
   \<exists>path. r = chain @ path \<and> chain_path fat sec path \<and> (n = 0 \<or> length r = n)"
proof (induction fat n sec chain rule: walkChain_loop.induct)
  case (1 fat n sec chain)
  show ?case
  proof (cases "sec = endOfChain")
    case True
    then have "r = chain" "n = 0 \<or> n \<le> length chain"
      using "1.prems"(1)
      by (auto simp: walkChain_loop_total [of fat n endOfChain chain] split: if_splits)
    then show ?thesis using True "1.prems"(2) by (auto intro: chain_path.chain_end)
  next
    case False
    with "1.prems" have c: "\<not> maxRegSect < sec" "\<not> length fat \<le> unat sec"
      "\<not> (0 < n \<and> n < length (chain @ [sec]))" "\<not> length fat < length (chain @ [sec])"
      and rec: "walkChain_loop fat n (fat ! unat sec) (chain @ [sec]) = Inr r"
      by (auto simp: walkChain_loop_total [of fat n sec] Let_def split: if_splits)
    have "n = 0 \<or> length (chain @ [sec]) \<le> n" using c(3) by auto
    moreover have "index_at fat (unat sec) = Inr (fat ! unat sec)" using c(2) by simp
    ultimately obtain path where
      "r = (chain @ [sec]) @ path" "chain_path fat (fat ! unat sec) path" "n = 0 \<or> length r = n"
      using "1.IH" [OF False c(1,2) refl c(3,4) _ rec] by blast
    then show ?thesis
      using c by (intro exI [of _ "sec # path"]) (auto intro: chain_path.chain_step)
  qed
qed

lemma walkChain_loop_complete:
  "chain_path fat sec path \<Longrightarrow> length chain + length path \<le> length fat \<Longrightarrow>
   n = 0 \<or> n = length chain + length path \<Longrightarrow>
   walkChain_loop fat n sec chain = Inr (chain @ path)"
proof (induction arbitrary: chain rule: chain_path.induct)
  case chain_end
  then show ?case by (auto simp: walkChain_loop_total)
next
  case (chain_step sec path)
  then have "sec \<noteq> endOfChain" using endOfChain_large by (auto simp: not_le)
  then show ?case
    using chain_step.IH [of "chain @ [sec]"] chain_step.hyps chain_step.prems
    by (subst walkChain_loop_total) (auto simp: Let_def not_less not_le)
qed

text \<open>A path has no sector twice, so it has at most \<open>2 ^ 32\<close> and \<open>make\<close> takes its length.\<close>

lemma chain_path_card: "chain_path fat sec path \<Longrightarrow> length path \<le> 2 ^ 32"
proof -
  assume p: "chain_path fat sec path"
  have "length path = card (set path)" using chain_path_distinct [OF p] by (simp add: distinct_card)
  also have "\<dots> \<le> card (UNIV :: u32 set)" by (intro card_mono) simp_all
  also have "\<dots> = 2 ^ 32" by (simp add: card_word)
  finally show ?thesis .
qed

lemma chain_path_make: "chain_path fat sec path \<Longrightarrow> length path * 4 \<le> maxAlloc"
  using chain_path_card [of fat sec path] by (simp add: maxAlloc_def)

lemma walkChain_iff:
  "walkChain fat first n = Inr path \<longleftrightarrow> chain_path fat first path \<and> (n = 0 \<or> length path = n)"
proof
  assume "walkChain fat first n = Inr path"
  then obtain p where "path = [] @ p" "chain_path fat first p" "n = 0 \<or> length path = n"
    using walkChain_loop_sound [of fat n first "[]" path] by (auto simp: walkChain_def bindE_eq_Inr)
  then show "chain_path fat first path \<and> (n = 0 \<or> length path = n)" by auto
next
  assume "chain_path fat first path \<and> (n = 0 \<or> length path = n)"
  then show "walkChain fat first n = Inr path"
    using walkChain_loop_complete [of fat first path "[]" n] chain_path_length [of fat first path]
      chain_path_make [of fat first path]
    by (auto simp: walkChain_def maxAlloc_def bindE_eq_Inr)
qed

lemma walkChain_card: "walkChain fat first n = Inr path \<Longrightarrow> length path \<le> 2 ^ 32"
  using chain_path_card unfolding walkChain_iff by blast

lemma walkChain_loop_error:
  "walkChain_loop fat n sec chain = Inl e \<Longrightarrow> \<exists>reason. e = ErrFormat reason"
proof (induction fat n sec chain rule: walkChain_loop.induct)
  case (1 fat n sec chain)
  then show ?case
    by (subst (asm) (2) walkChain_loop_total) (auto simp: Let_def split: if_splits)
qed

text \<open>\<open>walkChain\<close> fails on a malformed chain, or in \<open>make\<close> when the length asked for is beyond any.\<close>

lemma walkChain_error:
  "walkChain fat first n = Inl e \<Longrightarrow> (\<exists>reason. e = ErrFormat reason) \<or> e = MakePanic \<and> maxAlloc < n * 4"
  by (auto simp: walkChain_def maxAlloc_def bindE_eq_Inl dest: walkChain_loop_error split: if_splits)

lemma walkChain_make: "maxAlloc < n * 4 \<Longrightarrow> walkChain fat first n = Inl MakePanic"
  by (simp add: walkChain_def makeSlice_def)

section \<open>computeFATCounts\<close>

text \<open>
  One round of the loop: how many FAT sectors cover the file so far, and how many DIFAT sectors
  list those beyond the header's 109. \<open>perFAT\<close> is 128 or 1024, so the Go subtractions do not go
  negative.
\<close>

definition fatRound :: "nat \<Rightarrow> nat \<Rightarrow> nat \<times> nat \<Rightarrow> nat \<times> nat" where
  "fatRound prefixSectors perFAT fd =
     (let (fatSectors, difatSectors) = fd;
          total = prefixSectors + fatSectors + difatSectors;
          nextFAT = max ((total + perFAT - 1) div perFAT) 1;
          nextDIFAT = (if inlineDIFAT < nextFAT
            then (nextFAT - inlineDIFAT + perFAT - 2) div (perFAT - 1) else 0)
      in (nextFAT, nextDIFAT))"

partial_function (option) computeFATCounts_loop :: "nat \<Rightarrow> nat \<Rightarrow> nat \<times> nat \<Rightarrow> (nat \<times> nat) option" where
  "computeFATCounts_loop prefixSectors perFAT fd =
     (if fatRound prefixSectors perFAT fd = fd then Some fd
      else computeFATCounts_loop prefixSectors perFAT (fatRound prefixSectors perFAT fd))"

definition computeFATCounts :: "nat \<Rightarrow> nat \<Rightarrow> (nat \<times> nat) option" where
  "computeFATCounts prefixSectors perFAT = computeFATCounts_loop prefixSectors perFAT (0, 0)"

lemma ceil_div_le_iff: "0 < (b::nat) \<Longrightarrow> (a + b - 1) div b \<le> c \<longleftrightarrow> a \<le> c * b"
proof -
  assume b: "0 < b"
  have "(a + b - 1) div b \<le> c \<longleftrightarrow> (a + b - 1) div b < Suc c" by auto
  also have "\<dots> \<longleftrightarrow> a + b - 1 < Suc c * b" using b by (rule div_less_iff_less_mult)
  also have "\<dots> \<longleftrightarrow> a \<le> c * b" using b by auto
  finally show ?thesis .
qed

text \<open>\<open>covers\<close>: \<open>f\<close> FAT sectors map the whole file and \<open>d\<close> DIFAT sectors list them.\<close>

definition covers :: "nat \<Rightarrow> nat \<Rightarrow> nat \<times> nat \<Rightarrow> bool" where
  "covers prefixSectors perFAT fd \<longleftrightarrow> 1 \<le> fst fd \<and>
     prefixSectors + fst fd + snd fd \<le> fst fd * perFAT \<and>
     fst fd \<le> inlineDIFAT + snd fd * (perFAT - 1)"

lemma fatRound_le_iff:
  assumes "2 \<le> perFAT"
  shows "fst (fatRound p perFAT fd) \<le> F \<longleftrightarrow> 1 \<le> F \<and> p + fst fd + snd fd \<le> F * perFAT"
    and "snd (fatRound p perFAT fd) \<le> D \<longleftrightarrow>
      fst (fatRound p perFAT fd) \<le> inlineDIFAT + D * (perFAT - 1)"
proof -
  show "fst (fatRound p perFAT fd) \<le> F \<longleftrightarrow> 1 \<le> F \<and> p + fst fd + snd fd \<le> F * perFAT"
    using assms ceil_div_le_iff [of perFAT "p + fst fd + snd fd" F]
    by (auto simp: fatRound_def Let_def split_beta)
  let ?n = "fst (fatRound p perFAT fd)"
  have snd: "snd (fatRound p perFAT fd) =
      (if inlineDIFAT < ?n then (?n - inlineDIFAT + (perFAT - 1) - 1) div (perFAT - 1) else 0)"
    using assms by (simp add: fatRound_def Let_def split_beta numeral_2_eq_2)
  show "snd (fatRound p perFAT fd) \<le> D \<longleftrightarrow> ?n \<le> inlineDIFAT + D * (perFAT - 1)"
    using assms ceil_div_le_iff [of "perFAT - 1" "?n - inlineDIFAT" D]
    by (auto simp: snd)
qed

lemma covers_round:
  assumes "2 \<le> perFAT" "covers p perFAT (F, D)" "fst fd \<le> F" "snd fd \<le> D"
  shows "fst (fatRound p perFAT fd) \<le> F \<and> snd (fatRound p perFAT fd) \<le> D"
proof -
  have c: "1 \<le> F" "p + F + D \<le> F * perFAT" "F \<le> inlineDIFAT + D * (perFAT - 1)"
    using assms(2) by (simp_all add: covers_def)
  then have F: "fst (fatRound p perFAT fd) \<le> F"
    using assms(3,4) fatRound_le_iff(1) [OF assms(1), of p fd F] by linarith
  with c(3) have "snd (fatRound p perFAT fd) \<le> D"
    using fatRound_le_iff(2) [OF assms(1), of p fd D] by linarith
  with F show ?thesis ..
qed

lemma fixpoint_covers:
  "2 \<le> perFAT \<Longrightarrow> fatRound p perFAT fd = fd \<Longrightarrow> covers p perFAT fd"
  using fatRound_le_iff [of perFAT p fd] by (auto simp: covers_def)

lemma fatRound_mono:
  assumes "2 \<le> perFAT" "fst a \<le> fst b" "snd a \<le> snd b"
  shows "fst (fatRound p perFAT a) \<le> fst (fatRound p perFAT b)"
    and "snd (fatRound p perFAT a) \<le> snd (fatRound p perFAT b)"
proof -
  let ?F = "fst (fatRound p perFAT b)" and ?D = "snd (fatRound p perFAT b)"
  have b: "1 \<le> ?F \<and> p + fst b + snd b \<le> ?F * perFAT" "?F \<le> inlineDIFAT + ?D * (perFAT - 1)"
    using fatRound_le_iff(1) [OF assms(1), of p b ?F] fatRound_le_iff(2) [OF assms(1), of p b ?D]
    by blast+
  then show F: "fst (fatRound p perFAT a) \<le> ?F"
    using assms(2,3) fatRound_le_iff(1) [OF assms(1), of p a ?F] by linarith
  show "snd (fatRound p perFAT a) \<le> ?D"
    using fatRound_le_iff(2) [OF assms(1), of p a ?D] F b(2) by linarith
qed

text \<open>A bound that covers everything, whatever the number of prefix sectors.\<close>

lemma covers_exists: "3 \<le> perFAT \<Longrightarrow> covers p perFAT (p + 1, p + 1)"
proof -
  assume "3 \<le> perFAT"
  then have "(p + 1) * 3 \<le> (p + 1) * perFAT" "(p + 1) * 2 \<le> (p + 1) * (perFAT - 1)"
    by (intro mult_le_mono; simp)+
  then show ?thesis by (simp add: covers_def)
qed

lemma computeFATCounts_loop_ex:
  assumes perFAT: "2 \<le> perFAT" and FD: "covers p perFAT (F, D)"
  shows "fst fd \<le> F \<Longrightarrow> snd fd \<le> D \<Longrightarrow>
    fst fd \<le> fst (fatRound p perFAT fd) \<Longrightarrow> snd fd \<le> snd (fatRound p perFAT fd) \<Longrightarrow>
    \<exists>r. computeFATCounts_loop p perFAT fd = Some r \<and> fatRound p perFAT r = r"
proof (induction "(F - fst fd) + (D - snd fd)" arbitrary: fd rule: less_induct)
  case less
  let ?n = "fatRound p perFAT fd"
  show ?case
  proof (cases "?n = fd")
    case True
    then show ?thesis by (subst computeFATCounts_loop.simps) auto
  next
    case False
    have le: "fst ?n \<le> F" "snd ?n \<le> D"
      using covers_round [OF perFAT FD less.prems(1,2)] by auto
    have "fst ?n \<noteq> fst fd \<or> snd ?n \<noteq> snd fd" using False by (auto simp: prod_eq_iff)
    then have "(F - fst ?n) + (D - snd ?n) < (F - fst fd) + (D - snd fd)"
      using less.prems le by auto
    then obtain r where "computeFATCounts_loop p perFAT ?n = Some r" "fatRound p perFAT r = r"
      using less.hyps [of ?n] le fatRound_mono [OF perFAT less.prems(3,4)] by auto
    then show ?thesis using False by (subst computeFATCounts_loop.simps) auto
  qed
qed

text \<open>Nothing the loop passes through exceeds a covering pair, so its result is the least one.\<close>

lemma computeFATCounts_loop_least:
  assumes ret: "computeFATCounts_loop p perFAT fd = Some r"
    and perFAT: "2 \<le> perFAT" and FD: "covers p perFAT (F, D)"
  shows "fst fd \<le> F \<Longrightarrow> snd fd \<le> D \<Longrightarrow> fst r \<le> F \<and> snd r \<le> D"
proof (rule computeFATCounts_loop.raw_induct
    [where P = "\<lambda>p' perFAT' fd r. p' = p \<longrightarrow> perFAT' = perFAT \<longrightarrow> fst fd \<le> F \<longrightarrow> snd fd \<le> D \<longrightarrow>
       fst r \<le> F \<and> snd r \<le> D", OF _ ret, rule_format])
  fix f p' perFAT' fd r
  assume IH: "\<And>p' perFAT' fd r. f p' perFAT' fd = Some r \<Longrightarrow> p' = p \<Longrightarrow> perFAT' = perFAT \<Longrightarrow>
      fst fd \<le> F \<Longrightarrow> snd fd \<le> D \<Longrightarrow> fst r \<le> F \<and> snd r \<le> D"
    and eq: "(if fatRound p' perFAT' fd = fd then Some fd else f p' perFAT' (fatRound p' perFAT' fd)) = Some r"
    and le: "p' = p" "perFAT' = perFAT" "fst fd \<le> F" "snd fd \<le> D"
  show "fst r \<le> F \<and> snd r \<le> D"
    using IH [of p perFAT "fatRound p perFAT fd" r] eq le covers_round [OF perFAT FD le(3,4)]
    by (auto split: if_splits)
qed auto

lemma computeFATCounts_spec:
  assumes "3 \<le> perFAT"
  obtains f d where "computeFATCounts p perFAT = Some (f, d)" "covers p perFAT (f, d)"
    "\<And>F D. covers p perFAT (F, D) \<Longrightarrow> f \<le> F \<and> d \<le> D"
proof -
  have two: "2 \<le> perFAT" using assms by simp
  obtain r where r: "computeFATCounts_loop p perFAT (0, 0) = Some r" "fatRound p perFAT r = r"
    using computeFATCounts_loop_ex [OF two covers_exists [OF assms, of p], of "(0, 0)"] by auto
  obtain f d where fd: "r = (f, d)" by (cases r)
  have "covers p perFAT (f, d)" using fixpoint_covers [OF two r(2)] fd by simp
  moreover have "f \<le> F \<and> d \<le> D" if "covers p perFAT (F, D)" for F D
    using computeFATCounts_loop_least [OF r(1) two that] fd by simp
  ultimately show thesis using that r(1) fd by (simp add: computeFATCounts_def)
qed

section \<open>Claims\<close>

text \<open>C18: \<open>walkChain\<close> returns a list of sectors exactly when it is the linked list through the table
  from the first sector to \<open>endOfChain\<close>, of the requested length if one was given: the guards on
  length and cycles reject nothing else.\<close>

theorem walkChain_exact:
  "walkChain fat first n = Inr path \<longleftrightarrow> chain_path fat first path \<and> (n = 0 \<or> length path = n)"
  by (rule walkChain_iff)

text \<open>A chain \<open>walkChain\<close> returns never repeats a sector, is no longer than the table, and each
  sector is a regular one with a cell in the table, so later indexing by its sectors is safe.\<close>

theorem walkChain_safe:
  assumes "walkChain fat first n = Inr path"
  shows "distinct path \<and> length path \<le> length fat \<and> list_all (\<lambda>s. unat s < length fat \<and> s \<le> maxRegSect) path"
proof -
  have "chain_path fat first path" using assms by (simp add: walkChain_iff)
  then show ?thesis
    using chain_path_distinct chain_path_length chain_path_in_fat by (auto simp: list_all_iff)
qed

theorem walkChain_safe_witness:
  "distinct [1, 0 :: u32] \<and> walkChain [endOfChain, 0] 1 2 = Inr [1, 0]"
proof -
  have w: "walkChain [endOfChain, 0] 1 2 = Inr [1, 0]"
    by (simp add: walkChain_def walkChain_loop_total sect_defs makeSlice_ok maxAlloc_def)
  from walkChain_safe [OF w] w show ?thesis by blast
qed

text \<open>C19: The loop of \<open>computeFATCounts\<close> ends, for every number of prefix sectors, with counts that
  cover the file (the FAT has a cell for every sector including its own and the DIFAT's, and
  header and DIFAT list every FAT sector), and no smaller counts would.\<close>

theorem computeFATCounts_least:
  assumes "3 \<le> perFAT"
  shows "\<exists>f d. computeFATCounts p perFAT = Some (f, d) \<and> covers p perFAT (f, d) \<and>
    (\<forall>F D. covers p perFAT (F, D) \<longrightarrow> f \<le> F \<and> d \<le> D)"
  using computeFATCounts_spec [OF assms, of p] by metis

theorem computeFATCounts_least_witness:
  "\<exists>f d. computeFATCounts 20000 128 = Some (f, d) \<and> covers 20000 128 (f, d)"
  using computeFATCounts_least [of 128 20000] by auto

end
