(* ===== verification/Sectors.thy ===== *)
theory Sectors
  imports Header Chains
begin

text \<open>
  Reading whole sectors in reader.go: \<open>readSectors\<close>, \<open>readDIFAT\<close>, and the batch loop that
  \<open>loadFAT\<close>, \<open>loadMiniFAT\<close> and \<open>parseEntries\<close> share.

  The buffer \<open>p.buf\<close> is scratch space; what matters of it is its length, which sets the batch. A
  \<open>ReadAt\<close> without error has filled its buffer (the contract of \<open>io.ReaderAt\<close>), so the buffer
  is the bytes read. The specifications: coalescing and batching do not change what is read.
\<close>

section \<open>readSectors\<close>

text \<open>The loop over \<open>i\<close>, with \<open>first\<close> the start of the current group of contiguous sectors.\<close>

function readSectors_loop :: "goerr readerAt \<Rightarrow> nat \<Rightarrow> u32 list \<Rightarrow> nat \<Rightarrow> nat \<Rightarrow> bytes \<Rightarrow> goerr + bytes" where
  "readSectors_loop rd secSize sectors first i out =
     (if length sectors < i then Inr out
      else bindE (if i < length sectors
          then bindE (index_at sectors i) (\<lambda>s. bindE (index_at sectors (i - 1)) (\<lambda>t. Inr (s = t + 1)))
          else Inr False) (\<lambda>contiguous.
        if contiguous then readSectors_loop rd secSize sectors first (i + 1) out
        else bindE (index_at sectors first) (\<lambda>s.
          let offset = (unat s + 1) * secSize;
              (got, err) = rd offset ((i - first) * secSize)
          in case err of Some e \<Rightarrow> Inl e
             | None \<Rightarrow> readSectors_loop rd secSize sectors i (i + 1) (out @ got))))"
  by pat_completeness auto
termination
  by (relation "measure (\<lambda>(rd, secSize, sectors, first, i, out). Suc (length sectors) - i)") auto

declare readSectors_loop.simps [simp del]

definition readSectors :: "goerr readerAt \<Rightarrow> nat \<Rightarrow> u32 list \<Rightarrow> goerr + bytes" where
  "readSectors rd secSize sectors = readSectors_loop rd secSize sectors 0 1 []"

text \<open>The indices are in range when the group starts inside the list, as it does at each call.\<close>

lemma readSectors_loop_total:
  assumes "first < length sectors \<or> length sectors < i"
  shows "readSectors_loop rd secSize sectors first i out =
     (if length sectors < i then Inr out
      else if i < length sectors \<and> sectors ! i = sectors ! (i - 1) + 1
      then readSectors_loop rd secSize sectors first (i + 1) out
      else let offset = (unat (sectors ! first) + 1) * secSize;
               (got, err) = rd offset ((i - first) * secSize)
           in case err of Some e \<Rightarrow> Inl e
              | None \<Rightarrow> readSectors_loop rd secSize sectors i (i + 1) (out @ got))"
  using assms by (subst readSectors_loop.simps) (auto simp: Let_def)

definition sector_bytes :: "bytes \<Rightarrow> nat \<Rightarrow> u32 \<Rightarrow> bytes" where
  "sector_bytes src secSize sec = slice ((unat sec + 1) * secSize) secSize src"

definition in_file :: "bytes \<Rightarrow> nat \<Rightarrow> u32 \<Rightarrow> bool" where
  "in_file src secSize sec \<longleftrightarrow> (unat sec + 2) * secSize \<le> length src"

text \<open>A group: \<open>k\<close> sectors with consecutive numbers, read at once.\<close>

lemma group_bytes:
  assumes "\<And>j. j < k \<Longrightarrow> unat (sectors ! (first + j)) = unat (sectors ! first) + j"
  shows "slice ((unat (sectors ! first) + 1) * secSize) (k * secSize) src =
    concat (map (\<lambda>j. sector_bytes src secSize (sectors ! (first + j))) [0..<k])"
  using assms
proof (induction k)
  case 0
  then show ?case by simp
next
  case (Suc k)
  let ?o = "(unat (sectors ! first) + 1) * secSize"
  have "slice ?o (Suc k * secSize) src = slice ?o (k * secSize) src @ slice (?o + k * secSize) secSize src"
    by (simp only: slice_add mult_Suc add.commute [of secSize])
  moreover have "?o + k * secSize = (unat (sectors ! (first + k)) + 1) * secSize"
    using Suc.prems [of k] by (simp add: algebra_simps)
  then have "slice (?o + k * secSize) secSize src = sector_bytes src secSize (sectors ! (first + k))"
    by (simp only: sector_bytes_def)
  moreover have "slice ?o (k * secSize) src = concat (map (\<lambda>j. sector_bytes src secSize (sectors ! (first + j))) [0..<k])"
    using Suc by simp
  ultimately show ?case by simp
qed

text \<open>The group of consecutive sectors \<open>first .. i - 1\<close> is one read.\<close>

lemma read_group:
  assumes rd: "strict_reader_at rd src EOF" and S: "0 < secSize"
    and secs: "\<forall>sec \<in> set sectors. in_file src secSize sec \<and> sec \<le> maxRegSect"
    and i: "first < i" "i \<le> length sectors"
    and grp: "\<And>j. j < i - first \<Longrightarrow> unat (sectors ! (first + j)) = unat (sectors ! first) + j"
  shows "rd ((unat (sectors ! first) + 1) * secSize) ((i - first) * secSize) =
    (concat (map (sector_bytes src secSize) (slice first (i - first) sectors)), None)"
proof -
  let ?o = "(unat (sectors ! first) + 1) * secSize" and ?k = "i - first"
  have k: "0 < ?k" "?k \<le> length sectors - first" using i by auto
  have last: "unat (sectors ! (first + (?k - 1))) = unat (sectors ! first) + (?k - 1)" using k by (intro grp) auto
  have "in_file src secSize (sectors ! (first + (?k - 1)))" using secs k by auto
  moreover have "(unat (sectors ! first) + (?k - 1) + 2) * secSize = ?o + ?k * secSize"
    using k(1) by (cases ?k) (auto simp: algebra_simps)
  ultimately have fits: "?o + ?k * secSize \<le> length src" unfolding in_file_def last by metis
  have "rd ?o (?k * secSize) = (slice ?o (?k * secSize) src, None)"
    using k S fits by (intro strict_reader_at.full_read [OF rd]) auto
  moreover have "slice ?o (?k * secSize) src = concat (map (\<lambda>j. sector_bytes src secSize (sectors ! (first + j))) [0..<?k])"
    using grp i by (intro group_bytes) auto
  moreover have "map (\<lambda>j. sector_bytes src secSize (sectors ! (first + j))) [0..<?k] = map (sector_bytes src secSize) (slice first ?k sectors)"
    using k by (intro nth_equalityI) (auto simp: slice_nth)
  ultimately show ?thesis by simp
qed

lemma readSectors_loop_ok:
  assumes rd: "strict_reader_at rd src EOF" and S: "0 < secSize"
    and secs: "\<forall>sec \<in> set sectors. in_file src secSize sec \<and> sec \<le> maxRegSect"
    and first: "first < i" "i \<le> Suc (length sectors)"  "first < length sectors \<or> i = Suc (length sectors)"
    and grp: "\<And>j. j < min i (length sectors) - first \<Longrightarrow> unat (sectors ! (first + j)) = unat (sectors ! first) + j"
    and out: "out = concat (map (sector_bytes src secSize) (take (if i = Suc (length sectors) then length sectors else first) sectors))"
  shows "readSectors_loop rd secSize sectors first i out = Inr (concat (map (sector_bytes src secSize) sectors))"
  using first grp out
proof (induction "Suc (length sectors) - i" arbitrary: first i out)
  case 0
  then show ?case by (simp add: readSectors_loop_total)
next
  case (Suc m)
  then have i: "i \<le> length sectors" "first < length sectors" by auto
  have seci: "unat (sectors ! i) = unat (sectors ! (i - 1)) + 1"
    if "i < length sectors" "sectors ! i = sectors ! (i - 1) + 1"
  proof -
    have "sectors ! (i - 1) \<le> maxRegSect" using secs that i by auto
    then have "unat (sectors ! (i - 1)) + 1 < 2 ^ 32" by (simp add: word_le_nat_alt maxRegSect_def)
    then show ?thesis using that(2) by (simp add: unat_word_ariths)
  qed
  show ?case
  proof (cases "i < length sectors \<and> sectors ! i = sectors ! (i - 1) + 1")
    case True
    have "readSectors_loop rd secSize sectors first (i + 1) out = Inr (concat (map (sector_bytes src secSize) sectors))"
    proof (rule Suc.hyps(1))
      show "m = Suc (length sectors) - (i + 1)" using Suc.hyps(2) by simp
      show "out = concat (map (sector_bytes src secSize)
          (take (if i + 1 = Suc (length sectors) then length sectors else first) sectors))"
        using Suc.prems(5) True by simp
      fix j assume j: "j < min (i + 1) (length sectors) - first"
      show "unat (sectors ! (first + j)) = unat (sectors ! first) + j"
      proof (cases "first + j = i")
        case eq: True
        then have "j - 1 < min i (length sectors) - first" "first + (j - 1) = i - 1" "0 < j"
          using j True Suc.prems(1) by auto
        then show ?thesis using Suc.prems(4) [of "j - 1"] seci True eq by simp
      next
        case False
        then show ?thesis using j True by (intro Suc.prems(4)) simp
      qed
    qed (use Suc.prems True in auto)
    then show ?thesis using True i(2) by (simp add: readSectors_loop_total [of first sectors i])
  next
    case False
    let ?k = "i - first"
    have rdg: "rd ((unat (sectors ! first) + 1) * secSize) (?k * secSize) =
        (concat (map (sector_bytes src secSize) (slice first ?k sectors)), None)"
      using Suc.prems(1,4) i by (intro read_group [OF rd S secs]) auto
    let ?out = "out @ concat (map (sector_bytes src secSize) (slice first ?k sectors))"
    have "take first sectors @ slice first ?k sectors = take i sectors"
      using Suc.prems(1) i by (simp add: slice_def flip: take_add)
    then have out: "?out = concat (map (sector_bytes src secSize) (take i sectors))"
      using Suc.prems(5) i by (simp flip: concat_append map_append)
    have "readSectors_loop rd secSize sectors i (i + 1) ?out = Inr (concat (map (sector_bytes src secSize) sectors))"
    proof (rule Suc.hyps(1))
      show "m = Suc (length sectors) - (i + 1)" "i < i + 1" "i + 1 \<le> Suc (length sectors)"
        "i < length sectors \<or> i + 1 = Suc (length sectors)"
        using Suc.hyps(2) i by auto
      show "?out = concat (map (sector_bytes src secSize)
          (take (if i + 1 = Suc (length sectors) then length sectors else i) sectors))"
        using out by simp
      fix j assume "j < min (i + 1) (length sectors) - i"
      then have "j = 0" by auto
      then show "unat (sectors ! (i + j)) = unat (sectors ! i) + j" by simp
    qed
    then show ?thesis
      using False i rdg by (subst readSectors_loop_total) (auto simp: Let_def)
  qed
qed

lemma readSectors_ok:
  assumes "strict_reader_at rd src EOF" "0 < secSize"
    and "\<forall>sec \<in> set sectors. in_file src secSize sec \<and> sec \<le> maxRegSect"
  shows "readSectors rd secSize sectors = Inr (concat (map (sector_bytes src secSize) sectors))"
  unfolding readSectors_def
  using assms by (cases "sectors = []")
    (simp add: readSectors_loop_total, rule readSectors_loop_ok, auto simp: less_Suc_eq)

section \<open>readDIFAT\<close>

text \<open>One pass over table cells: free cells are skipped, special values rejected.\<close>

fun difatCells :: "format_reason \<Rightarrow> u32 list \<Rightarrow> goerr + u32 list" where
  "difatCells reason [] = Inr []"
| "difatCells reason (v # vs) =
     (if v = freeSect then difatCells reason vs
      else if maxRegSect < v then Inl (ErrFormat reason)
      else bindE (difatCells reason vs) (\<lambda>out. Inr (v # out)))"

text \<open>The DIFAT chain: \<open>n\<close> more sectors from \<open>sec\<close>; the result has the sector after them.\<close>

primrec difat_loop :: "nat \<Rightarrow> goerr readerAt \<Rightarrow> nat \<Rightarrow> u32 \<Rightarrow> u32 list \<Rightarrow> goerr + u32 \<times> u32 list" where
  "difat_loop 0 rd secSize sec out = Inr (sec, out)"
| "difat_loop (Suc n) rd secSize sec out =
     (if sec = endOfChain then Inl (ErrFormat ShortDIFATChain)
      else if maxRegSect < sec then Inl (ErrFormat DIFATEntryTooLarge)
      else let (buf, err) = rd ((unat sec + 1) * secSize) secSize
        in case err of Some e \<Rightarrow> Inl e
           | None \<Rightarrow>
             let (cells, b) = rb_many (secSize div 4 - 1) rb_uint32 buf
             in bindE (difatCells DIFATSectorEntryTooLarge cells) (\<lambda>vs.
                  difat_loop n rd secSize (fst (rb_uint32 b)) (out @ vs)))"

text \<open>\<open>len(p.buf)\<close>, and the number of sectors a batch has.\<close>

definition bufLen :: "header \<Rightarrow> nat" where
  "bufLen h = min (unat (max (h_NumFATSectors h) (max (h_NumMiniFATSectors h) (h_NumDirSectors h))) * h_secSize h)
     (2 ^ 16)"

definition batchOf :: "header \<Rightarrow> nat" where
  "batchOf h = bufLen h div h_secSize h"

lemma bufLen_sector: "valid_header h \<Longrightarrow> h_secSize h \<le> bufLen h"
proof -
  assume v: "valid_header h"
  let ?m = "unat (max (h_NumFATSectors h) (max (h_NumMiniFATSectors h) (h_NumDirSectors h)))"
  have S: "h_secSize h = 512 \<or> h_secSize h = 4096" using v by (rule valid_header_secSize)
  have "h_NumFATSectors h \<le> max (h_NumFATSectors h) (max (h_NumMiniFATSectors h) (h_NumDirSectors h))" by simp
  then have "unat (h_NumFATSectors h) \<le> ?m" by (simp only: word_le_nat_alt)
  then have "1 \<le> ?m" using v by (simp add: valid_header_def)
  then have "1 * h_secSize h \<le> ?m * h_secSize h" by (rule mult_le_mono1)
  then show ?thesis using S by (auto simp: bufLen_def)
qed

lemma batch_pos: "valid_header h \<Longrightarrow> 0 < batchOf h"
  using bufLen_sector [of h] valid_header_secSize [of h] by (auto simp: batchOf_def div_greater_zero_iff)

definition readDIFAT :: "goerr readerAt \<Rightarrow> header \<Rightarrow> goerr + u32 list" where
  "readDIFAT rd h =
     bindE (makeSlice (unat (h_NumFATSectors h)) 4) (\<lambda>_.
     bindE (difatCells InlineDIFATEntryTooLarge (h_DIFAT h)) (\<lambda>out.
     if bufLen h < h_secSize h then Inl Panic \<comment> \<open>\<open>p.buf[:p.secSize]\<close>\<close>
     else bindE (difat_loop (unat (h_NumDIFATSectors h)) rd (h_secSize h) (h_FirstDIFATSector h) out) (\<lambda>(sec, out).
       if sec \<noteq> endOfChain then Inl (ErrFormat DIFATNotTerminated)
       else if length out \<noteq> unat (h_NumFATSectors h) then Inl (ErrFormat WrongFATSectorCount)
       else Inr out)))"

text \<open>With a valid header neither \<open>make\<close> nor the slice of the buffer can fail.\<close>

lemma readDIFAT_total:
  assumes "valid_header h"
  shows "readDIFAT rd h =
     bindE (difatCells InlineDIFATEntryTooLarge (h_DIFAT h)) (\<lambda>out.
     bindE (difat_loop (unat (h_NumDIFATSectors h)) rd (h_secSize h) (h_FirstDIFATSector h) out) (\<lambda>(sec, out).
       if sec \<noteq> endOfChain then Inl (ErrFormat DIFATNotTerminated)
       else if length out \<noteq> unat (h_NumFATSectors h) then Inl (ErrFormat WrongFATSectorCount)
       else Inr out))"
proof -
  have "unat (h_NumFATSectors h) < 2 ^ 32" using unsigned_less [of "h_NumFATSectors h"] by simp
  then have "unat (h_NumFATSectors h) * 4 \<le> maxAlloc" by (simp add: maxAlloc_def)
  moreover have "h_secSize h \<le> bufLen h" using assms by (rule bufLen_sector)
  ultimately show ?thesis by (simp add: readDIFAT_def makeSlice_ok)
qed

lemma difatCells_Inr:
  "difatCells reason vs = Inr out \<Longrightarrow>
   out = filter (\<lambda>v. v \<noteq> freeSect) vs \<and> (\<forall>v \<in> set out. v \<le> maxRegSect)"
  by (induction vs arbitrary: out) (auto simp: bindE_eq_Inr split: if_splits)

lemma difatCells_ok:
  "\<forall>v \<in> set vs. v = freeSect \<or> v \<le> maxRegSect \<Longrightarrow>
   difatCells reason vs = Inr (filter (\<lambda>v. v \<noteq> freeSect) vs)"
  by (induction vs) auto

lemma difat_loop_regular:
  "difat_loop n rd secSize sec out = Inr (sec', out') \<Longrightarrow> \<forall>v \<in> set out. v \<le> maxRegSect \<Longrightarrow>
   \<forall>v \<in> set out'. v \<le> maxRegSect"
proof (induction n arbitrary: sec out)
  case (Suc n)
  obtain buf cells b vs where "difatCells DIFATSectorEntryTooLarge cells = Inr vs"
    and step: "difat_loop n rd secSize (fst (rb_uint32 b)) (out @ vs) = Inr (sec', out')"
    using Suc.prems(1) by (auto simp: bindE_eq_Inr Let_def split: if_splits prod.splits option.splits)
  then have "\<forall>v \<in> set (out @ vs). v \<le> maxRegSect"
    using Suc.prems(2) difatCells_Inr by fastforce
  then show ?case using Suc.IH [OF step] by blast
qed simp

text \<open>Whatever the input, an accepted DIFAT lists as many regular sectors as the header declares.\<close>

lemma readDIFAT_regular:
  assumes "readDIFAT rd h = Inr secs"
  shows "length secs = unat (h_NumFATSectors h)" "\<forall>sec \<in> set secs. sec \<le> maxRegSect"
  using assms by (auto simp: readDIFAT_def bindE_eq_Inr split: if_splits
      dest!: difatCells_Inr difat_loop_regular)

section \<open>Reading in batches\<close>

text \<open>
  \<open>for i := 0; i < len(secs); i += batch\<close>: read the next \<open>batch\<close> sectors, as many as the buffer of
  \<open>bufSize\<close> bytes holds, parse the buffer, append. An empty batch would not advance; \<open>NewReader\<close> never
  makes one (\<open>batch_pos\<close>). The slice \<open>p.buf[:(end-i)*secSize]\<close> is checked.
\<close>

function loadBatches :: "(bytes \<Rightarrow> goerr + 'a list) \<Rightarrow> goerr readerAt \<Rightarrow> nat \<Rightarrow> nat \<Rightarrow> u32 list \<Rightarrow> goerr + 'a list" where
  "loadBatches f rd secSize bufSize secs =
     (let batch = bufSize div secSize in
      if secs = [] then Inr []
      else if batch = 0 then Inl OutOfFuel
      else if bufSize < length (take batch secs) * secSize then Inl Panic
      else bindE (readSectors rd secSize (take batch secs)) (\<lambda>buf.
           bindE (f buf) (\<lambda>xs.
           bindE (loadBatches f rd secSize bufSize (drop batch secs)) (\<lambda>ys. Inr (xs @ ys)))))"
  by pat_completeness auto
termination
  by (relation "measure (\<lambda>(f, rd, secSize, bufSize, secs). length secs)") auto

declare loadBatches.simps [simp del]

text \<open>A batch never outgrows the buffer.\<close>

lemma loadBatches_total:
  "batch = bufSize div secSize \<Longrightarrow> loadBatches f rd secSize bufSize secs =
     (if secs = [] then Inr []
      else if batch = 0 then Inl OutOfFuel
      else bindE (readSectors rd secSize (take batch secs)) (\<lambda>buf.
           bindE (f buf) (\<lambda>xs.
           bindE (loadBatches f rd secSize bufSize (drop batch secs)) (\<lambda>ys. Inr (xs @ ys)))))"
proof -
  assume batch: "batch = bufSize div secSize"
  have "length (take batch secs) * secSize \<le> batch * secSize" by (intro mult_le_mono1) simp
  also have "\<dots> \<le> bufSize" unfolding batch by (rule div_times_less_eq_dividend)
  finally have "\<not> bufSize < length (take batch secs) * secSize" by simp
  then show ?thesis unfolding batch by (subst loadBatches.simps) (simp only: Let_def if_False)
qed

text \<open>A parser of whole sectors: what it makes of two buffers is what it makes of each.\<close>

locale sector_parser =
  fixes unit_size :: nat and f :: "bytes \<Rightarrow> goerr + 'a list"
  assumes f_nil: "f [] = Inr []"
    and f_append: "unit_size dvd length a \<Longrightarrow>
      f (a @ b) = bindE (f a) (\<lambda>xs. bindE (f b) (\<lambda>ys. Inr (xs @ ys)))"
begin

lemma loadBatches_eq:
  assumes "strict_reader_at rd src EOF" "0 < secSize" "unit_size dvd secSize" "0 < bufSize div secSize"
    and "\<forall>sec \<in> set secs. in_file src secSize sec \<and> sec \<le> maxRegSect"
  shows "loadBatches f rd secSize bufSize secs = f (concat (map (sector_bytes src secSize) secs))"
  using assms(5)
proof (induction "length secs" arbitrary: secs rule: less_induct)
  case less
  show ?case
  proof (cases "secs = []")
    case True
    then show ?thesis by (simp add: loadBatches_total [OF refl] f_nil)
  next
    case False
    define batch where b: "batch = bufSize div secSize"
    let ?a = "concat (map (sector_bytes src secSize) (take batch secs))"
    let ?b = "concat (map (sector_bytes src secSize) (drop batch secs))"
    have "length (sector_bytes src secSize sec) = secSize" if "sec \<in> set secs" for sec
      using that less.prems by (auto simp: sector_bytes_def in_file_def)
    then have "length ?a = length (take batch secs) * secSize"
      by (intro length_concat_const) (auto dest: in_set_takeD)
    then have "unit_size dvd length ?a" using assms(3) by simp
    then have "f (?a @ ?b) = bindE (f ?a) (\<lambda>xs. bindE (f ?b) (\<lambda>ys. Inr (xs @ ys)))" by (rule f_append)
    moreover have "?a @ ?b = concat (map (sector_bytes src secSize) secs)"
      by (simp flip: concat_append map_append)
    moreover have "readSectors rd secSize (take batch secs) = Inr ?a"
      using less.prems by (intro readSectors_ok [OF assms(1,2)]) (auto dest: in_set_takeD)
    moreover have "loadBatches f rd secSize bufSize (drop batch secs) = f ?b"
      using False assms(4) b less.prems by (intro less.hyps) (auto dest: in_set_dropD)
    ultimately show ?thesis
      using False assms(4) b by (simp add: loadBatches_total [OF b, of f rd secs])
  qed
qed

end

text \<open>\<open>for range len(buf) / 4 { out = append(out, b.uint32()) }\<close>\<close>

definition u32s :: "bytes \<Rightarrow> u32 list" where
  "u32s buf = fst (rb_many (length buf div 4) rb_uint32 buf)"

lemma u32s_append: "4 dvd length a \<Longrightarrow> u32s (a @ b) = u32s a @ u32s b"
proof -
  assume "4 dvd length a"
  then obtain k where k: "length a = k * 4" by (metis dvdE mult.commute)
  have "fst (rb_many k rb_uint32 (a @ b)) = fst (rb_many k rb_uint32 a)"
    using k by (intro u32.rb_many_prefix) simp
  then show ?thesis
    using k u32.rb_many_append [of k "length b div 4" "a @ b"] by (simp add: u32s_def)
qed

lemma length_u32s: "length (u32s buf) = length buf div 4"
  by (simp add: u32s_def u32.length_rb_many)

interpretation table_parser: sector_parser 4 "\<lambda>buf. Inr (u32s buf)"
  by unfold_locales (simp_all add: u32s_append, simp add: u32s_def)

section \<open>Claims\<close>

text \<open>C22: Coalescing contiguous sectors into one \<open>ReadAt\<close> does not change what is read:
  \<open>readSectors\<close> returns the bytes of the sectors one after the other, in the order asked for.\<close>

theorem readSectors_exact:
  assumes "strict_reader_at rd src EOF" "0 < secSize"
    and "\<forall>sec \<in> set sectors. in_file src secSize sec \<and> sec \<le> maxRegSect"
  shows "readSectors rd secSize sectors = Inr (concat (map (sector_bytes src secSize) sectors))"
  by (rule readSectors_ok [OF assms])

theorem readSectors_exact_witness:
  "readSectors (bytesReaderAt EOF [0, 1, 2, 3, 4, 5, 6, 7]) 2 [1, 2, 0] = Inr [4, 5, 6, 7, 2, 3]"
proof -
  have "\<forall>sec \<in> set [1, 2, 0]. in_file [0, 1, 2, 3, 4, 5, 6, 7] 2 sec \<and> sec \<le> maxRegSect"
    by (simp add: in_file_def maxRegSect_def)
  from readSectors_exact [OF bytes_reader.strict_reader_at_axioms _ this] show ?thesis
    by (simp add: sector_bytes_def slice_def)
qed

text \<open>Whatever the file, an accepted DIFAT lists exactly as many FAT sectors as the header declares,
  all with regular numbers, so the FAT has the size the header promises.\<close>

theorem readDIFAT_guarantee:
  assumes "readDIFAT rd h = Inr secs"
  shows "length secs = unat (h_NumFATSectors h) \<and> list_all (\<lambda>sec. sec \<le> maxRegSect) secs"
  using readDIFAT_regular [OF assms] by (simp add: list_all_iff)

theorem readDIFAT_guarantee_witness:
  "\<exists>secs. readDIFAT (bytesReaderAt EOF []) (headerOf 512 sample_regions) = Inr secs \<and> length secs = 1"
proof -
  have v: "valid_header (headerOf 512 sample_regions)"
    by (rule headerOf_valid) (simp add: regions_fit_def sample_regions_def endOfChain_def)
  have "h_DIFAT (headerOf 512 sample_regions) = 1 # replicate 108 freeSect"
    by (simp add: headerOf_def sample_regions_def inlineDIFAT_def)
  moreover have "difatCells r (replicate n freeSect) = Inr []" for r n by (induction n) simp_all
  ultimately have d: "readDIFAT (bytesReaderAt EOF []) (headerOf 512 sample_regions) = Inr [1]"
    unfolding readDIFAT_total [OF v]
    by (simp add: headerOf_def sample_regions_def sect_defs inlineDIFAT_def)
  then show ?thesis using readDIFAT_guarantee [OF d] by auto
qed

definition eofReaderAt :: "bytes \<Rightarrow> goerr readerAt" where
  "eofReaderAt s off n =
     (let (b, err) = bytesReaderAt EOF s off n in (b, if length s \<le> off + n then Some EOF else err))"

lemma eof_reader: "reader_at (eofReaderAt s) s EOF"
  by unfold_locales (auto simp: eofReaderAt_def bytesReaderAt_def Let_def slice_def split: prod.splits if_splits)

text \<open>A read that ends before the end of the input has no error; one that ends there has \<open>EOF\<close>.\<close>

lemma eofReaderAt_full:
  "off + n \<le> length s \<Longrightarrow> eofReaderAt s off n = (slice off n s, if off + n = length s then Some EOF else None)"
  by (auto simp: eofReaderAt_def bytesReaderAt_def slice_def Let_def)

text \<open>
  Some group of contiguous sectors holds the sector at the end of the input, and the read of this group
  fails whatever the groups before it gave.
\<close>

lemma readSectors_loop_eof:
  assumes S: "0 < secSize" and secs: "\<forall>sec \<in> set sectors. in_file s secSize sec \<and> sec \<le> maxRegSect"
    and first: "first < i" "i \<le> length sectors"
    and grp: "\<And>j. j < i - first \<Longrightarrow> unat (sectors ! (first + j)) = unat (sectors ! first) + j"
    and last: "k < length sectors" "first \<le> k" "(unat (sectors ! k) + 2) * secSize = length s"
  shows "readSectors_loop (eofReaderAt s) secSize sectors first i out = Inl EOF"
  using first grp last(2)
proof (induction "length sectors - i" arbitrary: first i out rule: less_induct)
  case less
  have fits: "(unat (sectors ! j) + 2) * secSize \<le> length s" if "j < length sectors" for j
    using secs that by (auto simp: in_file_def)
  have first: "first < length sectors \<or> length sectors < i" using less.prems by simp
  show ?case
  proof (cases "i < length sectors \<and> sectors ! i = sectors ! (i - 1) + 1")
    case True
    have "sectors ! (i - 1) \<le> maxRegSect" using secs True by auto
    then have "unat (sectors ! (i - 1)) + 1 < 2 ^ 32" by (simp add: word_le_nat_alt maxRegSect_def)
    then have seci: "unat (sectors ! i) = unat (sectors ! (i - 1)) + 1" using True by (simp add: unat_word_ariths)
    have "unat (sectors ! (first + j)) = unat (sectors ! first) + j" if "j < i + 1 - first" for j
    proof (cases "first + j = i")
      case eq: True
      then have "j - 1 < i - first" "first + (j - 1) = i - 1" "0 < j" using less.prems(1) by auto
      then show ?thesis using less.prems(3) [of "j - 1"] seci eq by simp
    qed (use that less.prems(3) in simp)
    then have "readSectors_loop (eofReaderAt s) secSize sectors first (i + 1) out = Inl EOF"
      using True less.prems by (intro less.hyps) auto
    then show ?thesis using True by (simp add: readSectors_loop_total [OF first])
  next
    case False
    define g where "g = i - 1 - first"
    have g: "i - first = Suc g" "i - 1 = first + g" using less.prems(1) by (auto simp: g_def)
    let ?o = "(unat (sectors ! first) + 1) * secSize"
    have e: "?o + (i - first) * secSize = (unat (sectors ! (i - 1)) + 2) * secSize"
      unfolding g using less.prems(3) [of g] by (simp add: g(1) algebra_simps)
    have "?o + (i - first) * secSize \<le> length s" unfolding e using less.prems by (intro fits) simp
    note rd = eofReaderAt_full [OF this]
    have n: "\<not> length sectors < i" using less.prems(2) by simp
    have step: "readSectors_loop (eofReaderAt s) secSize sectors first i out =
        (if ?o + (i - first) * secSize = length s then Inl EOF
         else readSectors_loop (eofReaderAt s) secSize sectors i (i + 1) (out @ slice ?o ((i - first) * secSize) s))"
      unfolding readSectors_loop_total [OF first] if_not_P [OF n] if_not_P [OF False] Let_def rd by simp
    show ?thesis
    proof (cases "?o + (i - first) * secSize = length s")
      case True
      then show ?thesis unfolding step by (rule if_P)
    next
      case more: False
      have "i \<le> k"
      proof (rule ccontr)
        assume "\<not> i \<le> k"
        then have k: "k - first < i - first" "first + (k - first) = k" "k - first \<le> g"
          using less.prems(4) g by auto
        have "unat (sectors ! k) \<le> unat (sectors ! (i - 1))"
          unfolding g using less.prems(3) [of "k - first"] less.prems(3) [of g] k by (simp add: g(1))
        then have "(unat (sectors ! k) + 2) * secSize \<le> (unat (sectors ! (i - 1)) + 2) * secSize"
          by (intro mult_le_mono1) simp
        moreover have "(unat (sectors ! (i - 1)) + 2) * secSize \<noteq> length s" using more unfolding e .
        moreover have "(unat (sectors ! (i - 1)) + 2) * secSize \<le> length s"
          using less.prems(1,2) by (intro fits) simp
        ultimately show False using last(3) by linarith
      qed
      then have "readSectors_loop (eofReaderAt s) secSize sectors i (i + 1) (out @ slice ?o ((i - first) * secSize) s) = Inl EOF"
        using last(1) less.prems(1) by (intro less.hyps) auto
      then show ?thesis unfolding step if_not_P [OF more] .
    qed
  qed
qed

text \<open>C40: The parsing phases need every read to return no error, which is more than \<open>io.ReaderAt\<close>
  promises. A conforming reader may return \<open>io.EOF\<close> with a full buffer when a read ends at the end
  of the input (\<open>eofReaderAt\<close>, which meets the contract on every input). With it \<open>readSectors\<close> fails
  with \<open>io.EOF\<close> whenever one of the sectors asked for is the last of the input, whatever the sector
  size and the other sectors, all of them whole in the input; a reader of the same bytes that returns
  no error with a full buffer gives them all.\<close>

theorem readSectors_rejects_eof:
  assumes "0 < secSize" "\<forall>sec \<in> set sectors. in_file s secSize sec \<and> sec \<le> maxRegSect"
    and "\<exists>sec \<in> set sectors. (unat sec + 2) * secSize = length s"
  shows "reader_at (eofReaderAt s) s EOF \<and>
    readSectors (eofReaderAt s) secSize sectors = Inl EOF \<and>
    readSectors (bytesReaderAt EOF s) secSize sectors = Inr (concat (map (sector_bytes s secSize) sectors))"
proof (intro conjI)
  obtain k where k: "k < length sectors" "(unat (sectors ! k) + 2) * secSize = length s"
    using assms(3) by (auto simp: in_set_conv_nth)
  then show "readSectors (eofReaderAt s) secSize sectors = Inl EOF"
    unfolding readSectors_def by (intro readSectors_loop_eof [OF assms(1,2), where k = k]) auto
qed (rule eof_reader, rule readSectors_ok [OF bytes_reader.strict_reader_at_axioms assms(1,2)])

theorem readSectors_rejects_eof_witness:
  "readSectors (eofReaderAt (replicate 1536 7)) 512 [0, 1] = Inl EOF \<and>
   readSectors (bytesReaderAt EOF (replicate 1536 7)) 512 [0, 1] = Inr (replicate 1024 7)"
proof -
  let ?s = "replicate 1536 7 :: bytes"
  have "\<forall>sec \<in> set [0, 1]. in_file ?s 512 sec \<and> sec \<le> maxRegSect"
    "\<exists>sec \<in> set [0, 1 :: u32]. (unat sec + 2) * 512 = length ?s"
    by (simp_all add: in_file_def maxRegSect_def)
  from readSectors_rejects_eof [OF _ this] show ?thesis
    by (simp add: sector_bytes_def slice_def flip: replicate_add)
qed

end
