(* ===== verification/DirWalk.thy ===== *)
theory DirWalk
  imports Runs Sectors
begin

text \<open>
  From directory entries to the tree of storages and streams in reader.go: \<open>buildStorage\<close>,
  \<open>walkBST\<close>, \<open>buildStream\<close>, and the lookups \<open>OpenStream\<close> and \<open>OpenStorage\<close>.

  The \<open>visited\<close> flags of \<open>p.entries\<close> are the state of the walk and are threaded through it. The
  recursion has fuel; a walk visits each entry at most once, so as much fuel as there are unvisited
  entries is enough (\<open>walkBST_fuel\<close>). The specification is \<open>dir_tree\<close>: the in-order contents of the
  binary tree at an id together with the ids it is made of.
\<close>

datatype entry = StorageE storageInfo "entry list" | StreamE stream

record parser =
  pr_h :: header
  pr_secSize :: nat
  pr_fat :: "u32 list"
  pr_miniFAT :: "u32 list"
  pr_miniStream :: "u32 list"
  pr_entries :: "rawEntry list"

section \<open>buildStream\<close>

text \<open>\<open>(de.streamSize + secSize - 1) / secSize\<close> in \<open>uint64\<close>.\<close>

definition numSectorsOf :: "u64 \<Rightarrow> nat \<Rightarrow> nat" where
  "numSectorsOf streamSize secSize =
     unat ((streamSize + word_of_nat secSize - 1) div word_of_nat secSize)"

definition buildStream :: "parser \<Rightarrow> rawEntry \<Rightarrow> goerr + stream" where
  "buildStream p de =
     (case re_stream de of None \<Rightarrow> Inl Panic
      | Some st \<Rightarrow>
        if re_streamSize de = 0 then Inr st
        else if re_startSector de = endOfChain then Inl (ErrFormat SizeWithoutChain)
        else
          let mini = re_streamSize de < word_of_nat miniStreamCutoff;
              fat = (if mini then pr_miniFAT p else pr_fat p);
              secSize = (if mini then miniSectorSize else pr_secSize p)
          in bindE (walkChain fat (re_startSector de) (numSectorsOf (re_streamSize de) secSize)) (\<lambda>chain.
             if mini then
               bindE (resolveMiniRuns (pr_miniStream p) (pr_secSize p) chain (nat (smSize st))) (\<lambda>runs.
                 Inr (st\<lparr>smRuns := runs\<rparr>))
             else Inr (st\<lparr>smRuns := resolveRegularRuns chain (pr_secSize p) (nat (smSize st))\<rparr>)))"

section \<open>walkBST\<close>

definition buildStorage ::
  "(u32 \<Rightarrow> rawEntry list \<Rightarrow> goerr + rawEntry list \<times> entry list) \<Rightarrow> rawEntry list \<Rightarrow> u32 \<Rightarrow>
   goerr + rawEntry list \<times> entry" where
  "buildStorage walk es eid =
     bindE (index_at es (unat eid)) (\<lambda>de.
      case re_storage de of None \<Rightarrow> Inl Panic
      | Some s \<Rightarrow>
        if re_childID de = noStream then Inr (es, StorageE s [])
        else bindE (walk (re_childID de) es) (\<lambda>(es, children). Inr (es, StorageE s children)))"

primrec walkBST :: "nat \<Rightarrow> parser \<Rightarrow> u32 \<Rightarrow> rawEntry list \<Rightarrow> entry list \<Rightarrow> goerr + rawEntry list \<times> entry list" where
  "walkBST 0 p eid es out = Inl OutOfFuel"
| "walkBST (Suc n) p eid es out =
     (if eid = noStream then Inr (es, out)
      else if length es \<le> unat eid then Inl (ErrFormat BadEntryReference)
      else bindE (index_at es (unat eid)) (\<lambda>e.
        if re_visited e then Inl (ErrFormat DuplicateEntryReference)
        else
        let es = es[unat eid := e\<lparr>re_visited := True\<rparr>]
        in bindE (index_at es (unat eid)) (\<lambda>de.
           let ot = re_objectType de
           in bindE (walkBST n p (re_leftSib de) es out) (\<lambda>(es, out).
              bindE (if ot = objectStorage then
                       bindE (buildStorage (\<lambda>eid es. walkBST n p eid es []) es eid) (\<lambda>(es, sub). Inr (es, out @ [sub]))
                     else if ot = objectStream then
                       bindE (index_at es (unat eid)) (\<lambda>de.
                       bindE (buildStream p de) (\<lambda>st. Inr (es, out @ [StreamE st])))
                     else if ot = objectUnallocated then Inr (es, out)
                     else if ot = objectRoot then Inl (ErrFormat DuplicateRoot)
                     else Inl (ErrFormat (BadObjectType ot)))
                (\<lambda>(es, out). walkBST n p (re_rightSib de) es out)))))"

text \<open>\<open>p.buildStorage(0)\<close>, the last step of \<open>NewReader\<close>.\<close>

definition buildRoot :: "parser \<Rightarrow> goerr + entry" where
  "buildRoot p =
     (let es = pr_entries p in
      bindE (buildStorage (\<lambda>eid es. walkBST (Suc (length es)) p eid es []) es 0) (\<lambda>(es, root). Inr root))"

section \<open>Lookups\<close>

fun entryName :: "entry \<Rightarrow> gostring" where
  "entryName (StorageE s children) = stName s"
| "entryName (StreamE st) = smName st"

definition openStream :: "entry list \<Rightarrow> gostring \<Rightarrow> goerr + stream" where
  "openStream entries name =
     (case find (\<lambda>e. (case e of StreamE st \<Rightarrow> True | StorageE s cs \<Rightarrow> False) \<and> compareNamesStr name (entryName e) = 0)
        entries of
        Some (StreamE st) \<Rightarrow> Inr st
      | _ \<Rightarrow> Inl ErrNotFound)"

definition openStorage :: "entry list \<Rightarrow> gostring \<Rightarrow> goerr + entry" where
  "openStorage entries name =
     (case find (\<lambda>e. (case e of StorageE s cs \<Rightarrow> True | StreamE st \<Rightarrow> False) \<and> compareNamesStr name (entryName e) = 0)
        entries of
        Some e \<Rightarrow> Inr e
      | None \<Rightarrow> Inl ErrNotFound)"

section \<open>The binary tree in the entries\<close>

text \<open>
  \<open>dir_tree p es eid ids out\<close>: the tree at \<open>eid\<close> is made of the entries \<open>ids\<close> (with those of the storages
  in it) and its contents in order are \<open>out\<close>. Flags play no part.
\<close>

inductive dir_tree :: "parser \<Rightarrow> rawEntry list \<Rightarrow> u32 \<Rightarrow> nat list \<Rightarrow> entry list \<Rightarrow> bool" for p es where
  tree_none: "dir_tree p es noStream [] []"
| tree_storage: "eid \<noteq> noStream \<Longrightarrow> unat eid < length es \<Longrightarrow> re_objectType (es ! unat eid) = objectStorage \<Longrightarrow>
    re_storage (es ! unat eid) = Some s \<Longrightarrow> dir_tree p es (re_leftSib (es ! unat eid)) ls lout \<Longrightarrow>
    dir_tree p es (re_childID (es ! unat eid)) cs cout \<Longrightarrow> dir_tree p es (re_rightSib (es ! unat eid)) rs rout \<Longrightarrow>
    dir_tree p es eid (unat eid # ls @ cs @ rs) (lout @ StorageE s cout # rout)"
| tree_stream: "eid \<noteq> noStream \<Longrightarrow> unat eid < length es \<Longrightarrow> re_objectType (es ! unat eid) = objectStream \<Longrightarrow>
    buildStream p (es ! unat eid) = Inr st \<Longrightarrow> dir_tree p es (re_leftSib (es ! unat eid)) ls lout \<Longrightarrow>
    dir_tree p es (re_rightSib (es ! unat eid)) rs rout \<Longrightarrow>
    dir_tree p es eid (unat eid # ls @ rs) (lout @ StreamE st # rout)"
| tree_unallocated: "eid \<noteq> noStream \<Longrightarrow> unat eid < length es \<Longrightarrow> re_objectType (es ! unat eid) = objectUnallocated \<Longrightarrow>
    dir_tree p es (re_leftSib (es ! unat eid)) ls lout \<Longrightarrow> dir_tree p es (re_rightSib (es ! unat eid)) rs rout \<Longrightarrow>
    dir_tree p es eid (unat eid # ls @ rs) (lout @ rout)"

inductive_cases dir_tree_NoneE: "dir_tree p es noStream ids out"
inductive_simps dir_tree_none: "dir_tree p es noStream ids out"

text \<open>The entries with the flags of \<open>ids\<close> set, and the entries without flags.\<close>

definition mark :: "nat list \<Rightarrow> rawEntry list \<Rightarrow> rawEntry list" where
  "mark ids es = foldl (\<lambda>es i. es[i := (es ! i)\<lparr>re_visited := True\<rparr>]) es ids"

lemma mark_simps [simp]: "mark [] es = es" "mark (i # ids) es = mark ids (es[i := (es ! i)\<lparr>re_visited := True\<rparr>])"
  "mark (xs @ ys) es = mark ys (mark xs es)"
  by (simp_all add: mark_def)

lemma length_mark [simp]: "length (mark ids es) = length es"
  by (induction ids arbitrary: es) simp_all

lemma nth_mark: "i < length es \<Longrightarrow> mark ids es ! i = (if i \<in> set ids then (es ! i)\<lparr>re_visited := True\<rparr> else es ! i)"
proof (induction ids arbitrary: es)
  case (Cons a ids)
  then show ?case by (cases "a = i") simp_all
qed simp

definition same :: "rawEntry list \<Rightarrow> rawEntry list \<Rightarrow> bool" where
  "same es es' \<longleftrightarrow> map (re_visited_update (\<lambda>_. True)) es = map (re_visited_update (\<lambda>_. True)) es'"

lemma same_mark: "same (mark ids es) es" "same es (mark ids es)"
  by (auto simp: same_def nth_mark intro!: nth_equalityI)

lemma same_length: "same es es' \<Longrightarrow> length es' = length es"
  by (auto simp: same_def dest: map_eq_imp_length_eq)

lemma buildStream_visited [simp]: "buildStream p (de\<lparr>re_visited := b\<rparr>) = buildStream p de"
  by (cases "re_stream de") (simp_all add: buildStream_def)

lemma same_sel:
  assumes "same es es'" "i < length es"
  shows "re_objectType (es' ! i) = re_objectType (es ! i)" "re_storage (es' ! i) = re_storage (es ! i)"
    "re_leftSib (es' ! i) = re_leftSib (es ! i)" "re_rightSib (es' ! i) = re_rightSib (es ! i)"
    "re_childID (es' ! i) = re_childID (es ! i)" "buildStream p (es' ! i) = buildStream p (es ! i)"
proof -
  have eq: "(es' ! i)\<lparr>re_visited := True\<rparr> = (es ! i)\<lparr>re_visited := True\<rparr>"
    using arg_cong [OF assms(1) [unfolded same_def], of "\<lambda>xs. xs ! i"] assms(2) same_length [OF assms(1)]
    by simp
  show "re_objectType (es' ! i) = re_objectType (es ! i)" "re_storage (es' ! i) = re_storage (es ! i)"
    "re_leftSib (es' ! i) = re_leftSib (es ! i)" "re_rightSib (es' ! i) = re_rightSib (es ! i)"
    "re_childID (es' ! i) = re_childID (es ! i)"
    using arg_cong [OF eq, of re_objectType] arg_cong [OF eq, of re_storage] arg_cong [OF eq, of re_leftSib]
      arg_cong [OF eq, of re_rightSib] arg_cong [OF eq, of re_childID] by simp_all
  show "buildStream p (es' ! i) = buildStream p (es ! i)" using arg_cong [OF eq, of "buildStream p"] by simp
qed

lemma dir_tree_same: "dir_tree p es eid ids out \<Longrightarrow> same es es' \<Longrightarrow> dir_tree p es' eid ids out"
proof (induction rule: dir_tree.induct)
  case tree_none
  then show ?case by (simp add: dir_tree.tree_none)
next
  case (tree_storage eid s ls lout cs cout rs rout)
  note sel = same_sel [OF tree_storage.prems tree_storage.hyps(2)]
  show ?case
    using tree_storage by (intro dir_tree.tree_storage) (simp_all add: sel same_length)
next
  case (tree_stream eid st ls lout rs rout)
  note sel = same_sel [OF tree_stream.prems tree_stream.hyps(2)]
  show ?case
    using tree_stream by (intro dir_tree.tree_stream) (simp_all add: sel same_length)
next
  case (tree_unallocated eid ls lout rs rout)
  note sel = same_sel [OF tree_unallocated.prems tree_unallocated.hyps(2)]
  show ?case
    using tree_unallocated by (intro dir_tree.tree_unallocated) (simp_all add: sel same_length)
qed

lemma dir_tree_ids: "dir_tree p es eid ids out \<Longrightarrow> \<forall>i \<in> set ids. i < length es"
  by (induction rule: dir_tree.induct) auto

text \<open>What a walk adds: entries not visited before, each once.\<close>

definition fresh :: "rawEntry list \<Rightarrow> nat list \<Rightarrow> bool" where
  "fresh es ids \<longleftrightarrow> distinct ids \<and> (\<forall>i \<in> set ids. i < length es \<and> \<not> re_visited (es ! i))"

lemma fresh_append: "fresh es (xs @ ys) \<longleftrightarrow> fresh es xs \<and> fresh (mark xs es) ys"
proof -
  have "i < length es \<Longrightarrow> re_visited (mark xs es ! i) \<longleftrightarrow> i \<in> set xs \<or> re_visited (es ! i)" for i
    by (simp add: nth_mark)
  then show ?thesis unfolding fresh_def distinct_append set_append length_mark by blast
qed

lemma fresh_Cons:
  "fresh es (i # ids) \<longleftrightarrow> i < length es \<and> \<not> re_visited (es ! i) \<and> fresh (es[i := (es ! i)\<lparr>re_visited := True\<rparr>]) ids"
  using fresh_append [of es "[i]" ids] by (simp add: fresh_def)

lemma fresh_Nil [simp]: "fresh es []"
  by (simp add: fresh_def)

text \<open>The walk changes flags only, so an id in range stays in range and its index does not panic.\<close>

lemma walkBST_length: "walkBST n p eid es out = Inr (es', out') \<Longrightarrow> length es' = length es"
proof (induction n arbitrary: eid es out es' out')
  case (Suc n)
  then show ?case
    by (auto simp: bindE_eq_Inr buildStorage_def Let_def split: if_splits option.splits dest!: Suc.IH)
qed simp

lemma buildStorage_total:
  "unat eid < length es \<Longrightarrow> buildStorage walk es eid =
     (case re_storage (es ! unat eid) of None \<Rightarrow> Inl Panic
      | Some s \<Rightarrow>
        if re_childID (es ! unat eid) = noStream then Inr (es, StorageE s [])
        else bindE (walk (re_childID (es ! unat eid)) es) (\<lambda>(es, children). Inr (es, StorageE s children)))"
  by (simp add: buildStorage_def)

text \<open>One entry between its two subtrees: the ids and the contents it adds.\<close>

definition visit_entry :: "nat \<Rightarrow> parser \<Rightarrow> u32 \<Rightarrow> rawEntry \<Rightarrow> rawEntry list \<Rightarrow> entry list \<Rightarrow> goerr + rawEntry list \<times> entry list" where
  "visit_entry n p eid de es out =
     (if re_objectType de = objectStorage then
        bindE (buildStorage (\<lambda>eid es. walkBST n p eid es []) es eid) (\<lambda>(es, sub). Inr (es, out @ [sub]))
      else if re_objectType de = objectStream then
        bindE (index_at es (unat eid)) (\<lambda>de. bindE (buildStream p de) (\<lambda>st. Inr (es, out @ [StreamE st])))
      else if re_objectType de = objectUnallocated then Inr (es, out)
      else if re_objectType de = objectRoot then Inl (ErrFormat DuplicateRoot)
      else Inl (ErrFormat (BadObjectType (re_objectType de))))"

lemma walkBST_Suc:
  "walkBST (Suc n) p eid es out =
     (if eid = noStream then Inr (es, out)
      else if length es \<le> unat eid then Inl (ErrFormat BadEntryReference)
      else if re_visited (es ! unat eid) then Inl (ErrFormat DuplicateEntryReference)
      else
        let es1 = mark [unat eid] es; de = es1 ! unat eid
        in bindE (walkBST n p (re_leftSib de) es1 out) (\<lambda>(es2, out).
           bindE (visit_entry n p eid de es2 out) (\<lambda>(es3, out). walkBST n p (re_rightSib de) es3 out)))"
  by (cases "unat eid < length es") (simp_all add: visit_entry_def Let_def cong: if_cong)

lemmas object_distinct = objectUnallocated_def objectStorage_def objectStream_def objectRoot_def

definition entry_node :: "parser \<Rightarrow> rawEntry list \<Rightarrow> nat \<Rightarrow> nat list \<Rightarrow> entry list \<Rightarrow> bool" where
  "entry_node p es i ms me \<longleftrightarrow>
     (\<exists>s ce. re_objectType (es ! i) = objectStorage \<and> re_storage (es ! i) = Some s \<and>
        dir_tree p es (re_childID (es ! i)) ms ce \<and> me = [StorageE s ce]) \<or>
     (\<exists>st. re_objectType (es ! i) = objectStream \<and> buildStream p (es ! i) = Inr st \<and> ms = [] \<and> me = [StreamE st]) \<or>
     re_objectType (es ! i) = objectUnallocated \<and> ms = [] \<and> me = []"

lemma dir_tree_node:
  assumes "eid \<noteq> noStream" "unat eid < length es" "entry_node p es (unat eid) ms me"
    "dir_tree p es (re_leftSib (es ! unat eid)) ls le" "dir_tree p es (re_rightSib (es ! unat eid)) rs re"
  shows "dir_tree p es eid (unat eid # ls @ ms @ rs) (le @ me @ re)"
  using assms(3) unfolding entry_node_def
proof (elim disjE exE conjE)
  fix s ce
  assume "re_objectType (es ! unat eid) = objectStorage" "re_storage (es ! unat eid) = Some s"
    "dir_tree p es (re_childID (es ! unat eid)) ms ce" "me = [StorageE s ce]"
  then show ?thesis using dir_tree.tree_storage [OF assms(1,2) _ _ assms(4) _ assms(5)] by simp
next
  fix st
  assume "re_objectType (es ! unat eid) = objectStream" "buildStream p (es ! unat eid) = Inr st"
    "ms = []" "me = [StreamE st]"
  then show ?thesis using dir_tree.tree_stream [OF assms(1,2) _ _ assms(4,5)] by simp
next
  assume "re_objectType (es ! unat eid) = objectUnallocated" "ms = []" "me = []"
  then show ?thesis using dir_tree.tree_unallocated [OF assms(1,2) _ assms(4,5)] by simp
qed

lemma entry_node_same:
  assumes "entry_node p es i ms me" "same es es'" "i < length es"
  shows "entry_node p es' i ms me"
  using assms(1) dir_tree_same [OF _ assms(2)] unfolding entry_node_def same_sel [OF assms(2,3)] by blast

lemma visit_sound:
  assumes v: "visit_entry n p eid de es out = Inr (es', out')" and de: "re_objectType de = re_objectType (es ! unat eid)"
    and IH: "\<And>c es' ce. walkBST n p c es [] = Inr (es', ce) \<Longrightarrow>
      \<exists>ids. dir_tree p es c ids ce \<and> es' = mark ids es \<and> fresh es ids"
  shows "\<exists>ms me. entry_node p es (unat eid) ms me \<and> out' = out @ me \<and> es' = mark ms es \<and> fresh es ms"
proof -
  let ?e = "es ! unat eid"
  consider (st) "re_objectType ?e = objectStorage" | (sm) "re_objectType ?e = objectStream"
    | (un) "re_objectType ?e = objectUnallocated"
    using v de by (auto simp: visit_entry_def split: if_splits)
  then show ?thesis
  proof cases
    case st
    then obtain s where s: "re_storage ?e = Some s" and i: "unat eid < length es"
      using v de by (auto simp: visit_entry_def buildStorage_def Let_def bindE_eq_Inr split: option.splits)
    note build = buildStorage_total [OF i]
    have "\<exists>cs ce. dir_tree p es (re_childID ?e) cs ce \<and> es' = mark cs es \<and> fresh es cs \<and> out' = out @ [StorageE s ce]"
    proof (cases "re_childID ?e = noStream")
      case True
      then show ?thesis using v st de s dir_tree.tree_none [of p es]
        by (auto simp: visit_entry_def build intro!: exI [of _ "[]"])
    next
      case False
      then obtain ce where "walkBST n p (re_childID ?e) es [] = Inr (es', ce)" "out' = out @ [StorageE s ce]"
        using v st de s by (auto simp: visit_entry_def build bindE_eq_Inr)
      then show ?thesis using IH by blast
    qed
    then show ?thesis using st s unfolding entry_node_def by blast
  next
    case sm
    have "objectStream \<noteq> objectStorage" by (simp add: object_distinct)
    then obtain st where "buildStream p ?e = Inr st" "es' = es" "out' = out @ [StreamE st]"
      using v sm de by (auto simp: visit_entry_def bindE_eq_Inr)
    moreover from this have "entry_node p es (unat eid) [] [StreamE st]" using sm by (simp add: entry_node_def)
    ultimately show ?thesis by (intro exI conjI) (auto simp: fresh_Nil)
  next
    case un
    then have "objectUnallocated \<noteq> objectStorage" "objectUnallocated \<noteq> objectStream" by (simp_all add: object_distinct)
    then have "es' = es" "out' = out" using v un de by (auto simp: visit_entry_def)
    moreover have "entry_node p es (unat eid) [] []" using un by (simp add: entry_node_def)
    ultimately show ?thesis by (intro exI conjI) (auto simp: fresh_Nil)
  qed
qed

lemma walkBST_sound:
  "walkBST n p eid es out = Inr (es', out') \<Longrightarrow>
   \<exists>ids ents. dir_tree p es eid ids ents \<and> out' = out @ ents \<and> es' = mark ids es \<and> fresh es ids"
proof (induction n arbitrary: eid es out es' out')
  case 0
  then show ?case by simp
next
  case (Suc n)
  show ?case
  proof (cases "eid = noStream")
    case True
    then show ?thesis using Suc.prems dir_tree.tree_none [of p es] by (auto intro!: exI [of _ "[]"])
  next
    case False
    let ?i = "unat eid"
    let ?es1 = "mark [?i] es" and ?de = "es ! ?i"
    obtain es2 out2 es3 out3 where i: "?i < length es" "\<not> re_visited (es ! ?i)"
      and l: "walkBST n p (re_leftSib ?de) ?es1 out = Inr (es2, out2)"
      and v: "visit_entry n p eid (?es1 ! ?i) es2 out2 = Inr (es3, out3)"
      and r: "walkBST n p (re_rightSib ?de) es3 out3 = Inr (es', out')"
      using Suc.prems False
      by (auto simp: walkBST_Suc Let_def nth_mark bindE_eq_Inr simp del: walkBST.simps split: if_splits)
    obtain ls le where left: "dir_tree p ?es1 (re_leftSib ?de) ls le" "out2 = out @ le"
      "es2 = mark ls ?es1" "fresh ?es1 ls"
      using Suc.IH [OF l] by blast
    have es2: "es2 = mark (?i # ls) es" using left(3) by simp
    have "same es es2" unfolding es2 by (rule same_mark)
    note sel = same_sel [OF this i(1)]
    obtain ms me where mid: "entry_node p es2 ?i ms me" "out3 = out2 @ me" "es3 = mark ms es2" "fresh es2 ms"
      using visit_sound [OF v] Suc.IH sel i by (fastforce simp: nth_mark)
    obtain rs re where right: "dir_tree p es3 (re_rightSib ?de) rs re" "out' = out3 @ re"
      "es' = mark rs es3" "fresh es3 rs"
      using Suc.IH [OF r] by blast
    have es3: "es3 = mark (?i # ls @ ms) es" using mid(3) es2 by simp
    have "dir_tree p es (re_leftSib ?de) ls le" "dir_tree p es (re_rightSib ?de) rs re"
      using left(1) right(1) dir_tree_same same_mark(1) es3 by blast+
    moreover have "entry_node p es ?i ms me"
      using mid(1) entry_node_same same_mark(1) [of "?i # ls" es] i(1) by (simp add: es2 del: mark_simps(2))
    ultimately have "dir_tree p es eid (?i # ls @ ms @ rs) (le @ me @ re)"
      using False i(1) by (intro dir_tree_node)
    moreover have "fresh es (?i # ls @ ms @ rs)"
      using i left(4) mid(4) right(4) es2 es3 by (simp add: fresh_Cons fresh_append)
    ultimately show ?thesis using left(2) mid(2) right(2,3) es3 by (intro exI conjI) auto
  qed
qed

section \<open>Every tree is walked\<close>

lemma same_trans: "same a b \<Longrightarrow> same b c \<Longrightarrow> same a c"
  by (simp add: same_def)

lemma same_sym: "same a b \<Longrightarrow> same b a"
  by (simp add: same_def)

lemma same_marked: "same es es0 \<Longrightarrow> same es (mark ids es0)"
  using same_mark(2) same_trans by blast

text \<open>What the walk does at an entry, given what it does at the subtrees.\<close>

lemma walkBST_step:
  assumes i: "eid \<noteq> noStream" "unat eid < length es" "\<not> re_visited (es ! unat eid)"
    and l: "walkBST n p (re_leftSib (es ! unat eid)) (mark [unat eid] es) out = Inr (es2, out2)"
    and v: "visit_entry n p eid (mark [unat eid] es ! unat eid) es2 out2 = Inr (es3, out3)"
    and r: "walkBST n p (re_rightSib (es ! unat eid)) es3 out3 = res"
  shows "walkBST (Suc n) p eid es out = res"
proof -
  have "re_leftSib (mark [unat eid] es ! unat eid) = re_leftSib (es ! unat eid)"
    "re_rightSib (mark [unat eid] es ! unat eid) = re_rightSib (es ! unat eid)"
    using i(2) by (simp_all add: nth_mark)
  then show ?thesis
    using i l v r by (simp add: walkBST_Suc Let_def del: walkBST.simps mark_simps)
qed

text \<open>The walk at an entry whose two subtrees and whose own visit do what the tree says.\<close>

lemma walk_entry:
  assumes eid: "eid \<noteq> noStream" "unat eid < length es" and sm: "same es es0" and fr: "fresh es0 (unat eid # ls @ ids @ rs)"
    and left: "\<And>es1 out. same es es1 \<Longrightarrow> fresh es1 ls \<Longrightarrow> walkBST m p (re_leftSib (es ! unat eid)) es1 out = Inr (mark ls es1, out @ lout)"
    and mid: "\<And>es1 es2 out. same es es1 \<Longrightarrow> same es es2 \<Longrightarrow> fresh es2 ids \<Longrightarrow>
      visit_entry m p eid (es1 ! unat eid) es2 out = Inr (mark ids es2, out @ mout)"
    and right: "\<And>es1 out. same es es1 \<Longrightarrow> fresh es1 rs \<Longrightarrow> walkBST m p (re_rightSib (es ! unat eid)) es1 out = Inr (mark rs es1, out @ rout)"
  shows "walkBST (Suc m) p eid es0 out = Inr (mark (unat eid # ls @ ids @ rs) es0, out @ lout @ mout @ rout)"
proof -
  let ?i = "unat eid"
  let ?es1 = "mark [?i] es0" let ?es2 = "mark (?i # ls) es0" let ?es3 = "mark (?i # ls @ ids) es0"
  have i: "?i < length es0" and sms: "same es ?es1" "same es ?es2" "same es ?es3"
    using eid(2) sm same_length [OF sm] by (simp_all only: same_marked)
  have f: "\<not> re_visited (es0 ! ?i)" "fresh ?es1 ls" "fresh ?es2 ids" "fresh ?es3 rs"
    using fr by (simp_all add: fresh_Cons fresh_append)
  note sel = same_sel [OF sm eid(2)]
  have "walkBST m p (re_leftSib (es0 ! ?i)) ?es1 out = Inr (?es2, out @ lout)"
    using left [OF sms(1) f(2)] sel by simp
  moreover have "visit_entry m p eid (?es1 ! ?i) ?es2 (out @ lout) = Inr (?es3, (out @ lout) @ mout)"
    using mid [OF sms(1,2) f(3)] by simp
  moreover have "walkBST m p (re_rightSib (es0 ! ?i)) ?es3 ((out @ lout) @ mout) = Inr (mark rs ?es3, ((out @ lout) @ mout) @ rout)"
    using right [OF sms(3) f(4)] sel by simp
  ultimately have "walkBST (Suc m) p eid es0 out = Inr (mark rs ?es3, ((out @ lout) @ mout) @ rout)"
    by (rule walkBST_step [OF eid(1) i f(1)])
  then show ?thesis by simp
qed

lemma visit_storage:
  assumes i: "unat eid < length es" "re_objectType (es ! unat eid) = objectStorage" "re_storage (es ! unat eid) = Some s"
    and sm: "same es es1" "same es es2"
    and child: "re_childID (es ! unat eid) = noStream \<Longrightarrow> ids = [] \<and> cout = []"
      "re_childID (es ! unat eid) \<noteq> noStream \<Longrightarrow> walkBST m p (re_childID (es ! unat eid)) es2 [] = Inr (mark ids es2, cout)"
  shows "visit_entry m p eid (es1 ! unat eid) es2 out = Inr (mark ids es2, out @ [StorageE s cout])"
  using i child same_sel [OF sm(1) i(1)] same_sel [OF sm(2) i(1)] same_length [OF sm(2)]
  by (cases "re_childID (es ! unat eid) = noStream") (simp_all add: visit_entry_def buildStorage_total)

lemma walkBST_complete:
  "dir_tree p es eid ids ents \<Longrightarrow> same es es0 \<Longrightarrow> fresh es0 ids \<Longrightarrow> length ids < n \<Longrightarrow>
   walkBST n p eid es0 out = Inr (mark ids es0, out @ ents)"
proof (induction arbitrary: es0 n out rule: dir_tree.induct)
  case tree_none
  then show ?case by (cases n) simp_all
next
  case (tree_storage eid s ls lout cs cout rs rout)
  obtain m where n: "n = Suc m" using tree_storage.prems by (cases n) auto
  have "walkBST (Suc m) p eid es0 out = Inr (mark (unat eid # ls @ cs @ rs) es0, out @ lout @ [StorageE s cout] @ rout)"
  proof (rule walk_entry [OF tree_storage.hyps(1,2) tree_storage.prems(1,2)])
    fix es1 es2 o2 assume sm: "same es es1" "same es es2" and f: "fresh es2 cs"
    show "visit_entry m p eid (es1 ! unat eid) es2 o2 = Inr (mark cs es2, o2 @ [StorageE s cout])"
    proof (rule visit_storage [OF tree_storage.hyps(2-4) sm])
      show "cs = [] \<and> cout = []" if "re_childID (es ! unat eid) = noStream"
        using that tree_storage.hyps(6) by (simp add: dir_tree_none)
      show "walkBST m p (re_childID (es ! unat eid)) es2 [] = Inr (mark cs es2, cout)"
        using tree_storage.IH(2) [OF sm(2) f, of m "[]"] tree_storage.prems(3) n by simp
    qed
  qed (use tree_storage.IH(1,3) tree_storage.prems(3) n in auto)
  then show ?case by (simp add: n)
next
  case (tree_stream eid st ls lout rs rout)
  obtain m where n: "n = Suc m" using tree_stream.prems by (cases n) auto
  have fr: "fresh es0 (unat eid # ls @ [] @ rs)" using tree_stream.prems(2) by simp
  have "walkBST (Suc m) p eid es0 out = Inr (mark (unat eid # ls @ [] @ rs) es0, out @ lout @ [StreamE st] @ rout)"
  proof (rule walk_entry [OF tree_stream.hyps(1,2) tree_stream.prems(1) fr])
    fix es1 es2 o2 assume sm: "same es es1" "same es es2"
    show "visit_entry m p eid (es1 ! unat eid) es2 o2 = Inr (mark [] es2, o2 @ [StreamE st])"
      using same_sel [OF sm(1) tree_stream.hyps(2)] same_sel [OF sm(2) tree_stream.hyps(2)]
        same_length [OF sm(2)] tree_stream.hyps(2-4)
      by (simp add: visit_entry_def object_distinct)
  qed (use tree_stream.IH tree_stream.prems(3) n in auto)
  then show ?case by (simp add: n)
next
  case (tree_unallocated eid ls lout rs rout)
  obtain m where n: "n = Suc m" using tree_unallocated.prems by (cases n) auto
  have fr: "fresh es0 (unat eid # ls @ [] @ rs)" using tree_unallocated.prems(2) by simp
  have "walkBST (Suc m) p eid es0 out = Inr (mark (unat eid # ls @ [] @ rs) es0, out @ lout @ [] @ rout)"
  proof (rule walk_entry [OF tree_unallocated.hyps(1,2) tree_unallocated.prems(1) fr])
    fix es1 es2 o2 assume "same es es1"
    from same_sel [OF this tree_unallocated.hyps(2)]
    show "visit_entry m p eid (es1 ! unat eid) es2 o2 = Inr (mark [] es2, o2 @ [])"
      using tree_unallocated.hyps(3) by (simp add: visit_entry_def object_distinct)
  qed (use tree_unallocated.IH tree_unallocated.prems(3) n in auto)
  then show ?case by (simp add: n)
qed

section \<open>The fuel is enough\<close>

definition unvisited :: "rawEntry list \<Rightarrow> nat" where
  "unvisited es = length (filter (\<lambda>e. \<not> re_visited e) es)"

lemma unvisited_update:
  "i < length es \<Longrightarrow> \<not> re_visited (es ! i) \<Longrightarrow> Suc (unvisited (es[i := (es ! i)\<lparr>re_visited := True\<rparr>])) = unvisited es"
  unfolding unvisited_def
proof (induction es arbitrary: i)
  case (Cons e es)
  then show ?case by (cases i) auto
qed simp

lemma unvisited_mark: "fresh es ids \<Longrightarrow> unvisited (mark ids es) \<le> unvisited es"
proof (induction ids arbitrary: es)
  case (Cons i ids)
  then have "unvisited (mark ids (es[i := (es ! i)\<lparr>re_visited := True\<rparr>])) \<le> unvisited (es[i := (es ! i)\<lparr>re_visited := True\<rparr>])"
    by (simp add: fresh_Cons)
  then show ?case using Cons.prems unvisited_update [of i es] by (simp add: fresh_Cons)
qed simp

lemma walkBST_unvisited: "walkBST n p eid es out = Inr (es', out') \<Longrightarrow> unvisited es' \<le> unvisited es"
  using walkBST_sound unvisited_mark by blast

lemma mapE_Inl: "mapE f xs = Inl e \<Longrightarrow> \<exists>x \<in> set xs. f x = Inl e"
  by (induction xs) (auto simp: bindE_eq_Inl)

lemma resolveMiniRuns_Inl: "resolveMiniRuns ms secSize chain sz = Inl e \<Longrightarrow> e = ErrFormat MiniSectorExceedsMiniStream"
proof -
  assume r: "resolveMiniRuns ms secSize chain sz = Inl e"
  show ?thesis
  proof (cases "mapE (miniOffset ms secSize) chain")
    case (Inl e')
    then have "e = e'" using resolveMiniRuns_error [OF Inl] r by simp
    then show ?thesis using mapE_Inl [OF Inl] by (auto simp: miniOffset_total Let_def split: if_splits)
  next
    case (Inr offs)
    then show ?thesis using r
      by (cases chain) (auto simp: resolveMiniRuns_def bindE_eq_Inl bindE_eq_Inr mini_loop_coalesce Let_def split: prod.splits)
  qed
qed

text \<open>
  Building a stream from an entry that has one fails on a malformed file, or when its size asks for a
  chain that \<open>make\<close> refuses.
\<close>

lemma buildStream_Inl:
  "buildStream p de = Inl e \<Longrightarrow> e = Panic \<and> re_stream de = None \<or> (\<exists>r. e = ErrFormat r) \<or>
     e = MakePanic \<and> maxAlloc < numSectorsOf (re_streamSize de)
       (if re_streamSize de < word_of_nat miniStreamCutoff then miniSectorSize else pr_secSize p) * 4"
  by (cases "re_stream de")
    (auto simp: buildStream_def Let_def bindE_eq_Inl bindE_eq_Inr split: if_splits dest!: walkChain_error resolveMiniRuns_Inl)

lemma walkBST_fuel: "walkBST n p eid es out = Inl OutOfFuel \<Longrightarrow> n \<le> unvisited es"
proof (induction n arbitrary: eid es out)
  case (Suc n)
  show ?case
  proof (cases "eid = noStream \<or> length es \<le> unat eid \<or> re_visited (es ! unat eid)")
    case True
    then show ?thesis using Suc.prems by (auto split: if_splits)
  next
    case False
    let ?i = "unat eid" and ?es1 = "mark [unat eid] es"
    let ?de = "?es1 ! ?i"
    have u: "Suc (unvisited ?es1) = unvisited es" using False unvisited_update [of ?i es] by simp
    have w: "bindE (walkBST n p (re_leftSib ?de) ?es1 out) (\<lambda>(es2, out).
        bindE (visit_entry n p eid ?de es2 out) (\<lambda>(es3, out). walkBST n p (re_rightSib ?de) es3 out)) = Inl OutOfFuel"
      using Suc.prems False by (simp add: walkBST_Suc Let_def del: walkBST.simps mark_simps)
    have "n \<le> unvisited ?es1"
    proof (cases "walkBST n p (re_leftSib ?de) ?es1 out")
      case (Inl e)
      then show ?thesis using w Suc.IH [of "re_leftSib ?de" ?es1 out] by simp
    next
      case (Inr l)
      obtain es2 out2 where l: "l = (es2, out2)" by fastforce
      have u2: "unvisited es2 \<le> unvisited ?es1" using walkBST_unvisited Inr l by blast
      show ?thesis
      proof (cases "visit_entry n p eid ?de es2 out2")
        case vl: (Inl e)
        then have "visit_entry n p eid ?de es2 out2 = Inl OutOfFuel" using w Inr l by simp
        then obtain c where "walkBST n p c es2 [] = Inl OutOfFuel"
          by (auto simp: visit_entry_def buildStorage_def Let_def bindE_eq_Inl
              split: if_splits option.splits dest: buildStream_Inl)
        then show ?thesis using Suc.IH u2 by fastforce
      next
        case vr: (Inr v)
        obtain es3 out3 where v: "v = (es3, out3)" by fastforce
        have "unvisited es3 \<le> unvisited es2"
          using vr v by (auto simp: visit_entry_def buildStorage_def Let_def bindE_eq_Inr
              split: if_splits option.splits dest: walkBST_unvisited)
        moreover have "walkBST n p (re_rightSib ?de) es3 out3 = Inl OutOfFuel" using w Inr l vr v by simp
        ultimately show ?thesis using Suc.IH u2 by fastforce
      qed
    qed
    then show ?thesis using u by simp
  qed
qed simp

lemma buildRoot_fuel: "buildRoot p \<noteq> Inl OutOfFuel"
proof
  assume "buildRoot p = Inl OutOfFuel"
  then obtain c where "walkBST (Suc (length (pr_entries p))) p c (pr_entries p) [] = Inl OutOfFuel"
    by (auto simp: buildRoot_def buildStorage_def Let_def bindE_eq_Inl simp del: walkBST.simps
        split: if_splits option.splits)
  then have "Suc (length (pr_entries p)) \<le> unvisited (pr_entries p)" by (rule walkBST_fuel)
  then show False using length_filter_le [of "\<lambda>e. \<not> re_visited e" "pr_entries p"] by (simp add: unvisited_def)
qed

section \<open>Every stream can be read\<close>

text \<open>The runs of a stream cover exactly its size.\<close>

definition readable :: "stream \<Rightarrow> bool" where
  "readable st \<longleftrightarrow> runs_ok 0 (smRuns st) \<and> smSize st = int (length (runs_addrs (smRuns st)))"

fun entry_streams :: "entry \<Rightarrow> stream list" where
  "entry_streams (StorageE s children) = concat (map entry_streams children)"
| "entry_streams (StreamE st) = [st]"

text \<open>An entry as \<open>parseEntries\<close> accepts it.\<close>

definition entry_valid :: "rawEntry \<Rightarrow> bool" where
  "entry_valid e \<longleftrightarrow> (\<exists>v. wf_rawEntry v e) \<and> (re_objectType e = objectStream \<longrightarrow> unat (re_streamSize e) < 2 ^ 63)"

lemma numSectorsOf_eq:
  assumes "unat sz < 2 ^ 63" "0 < S" "S < 2 ^ 32"
  shows "numSectorsOf sz S = (unat sz + S - 1) div S"
proof -
  have S: "unat (word_of_nat S :: u64) = S"
    using assms(3) by (simp add: unsigned_of_nat take_bit_nat_eq_self_iff)
  then have "unat (sz + word_of_nat S :: u64) = unat sz + S"
    using assms by (simp add: unat_word_ariths)
  then have "unat (sz + word_of_nat S - 1 :: u64) = unat sz + S - 1"
    using assms(2) by (simp add: unat_minus_one word_neq_0_conv unat_eq_zero [symmetric] del: unat_eq_zero)
  then show ?thesis by (simp add: numSectorsOf_def unat_div S)
qed

text \<open>A size and the number of sectors it takes.\<close>

lemma ceil_div_bounds:
  fixes sz S :: nat
  assumes "0 < S" "n = (sz + S - 1) div S"
  shows "sz \<le> n * S" "n * S < sz + S" "0 < sz \<Longrightarrow> 0 < n"
proof -
  show "sz \<le> n * S" using assms ceil_div_le_iff [of S sz n] by simp
  have "n * S \<le> sz + S - 1" using assms by (metis div_times_less_eq_dividend)
  then show "n * S < sz + S" using assms(1) by linarith
  show "0 < sz \<Longrightarrow> 0 < n" using \<open>sz \<le> n * S\<close> by (cases n) auto
qed

lemma smSize_nat: "unat (sz :: u64) < 2 ^ 63 \<Longrightarrow> sint sz = int (unat sz)"
proof -
  assume "unat sz < 2 ^ 63"
  then have "uint sz < 2 ^ 63" by (metis of_nat_less_iff of_nat_numeral of_nat_power uint_nat)
  moreover have "- (2 ^ 63) \<le> uint sz" using uint_ge_0 [of sz] by (rule order_trans [rotated]) simp
  ultimately have "signed_take_bit 63 (uint sz) = uint sz" by (simp only: signed_take_bit_int_eq_self_iff)
  moreover have "sint sz = signed_take_bit 63 (uint sz)" by (simp add: sint_uint)
  ultimately show ?thesis using uint_nat [of sz] by metis
qed

lemma buildStream_readable:
  assumes "entry_valid de" "re_objectType de = objectStream" "buildStream p de = Inr st"
    and S: "pr_secSize p = 512 \<or> pr_secSize p = 4096"
  shows "readable st" and "smSize st = int (unat (re_streamSize de))"
proof -
  let ?sz = "unat (re_streamSize de)"
  have sz: "?sz < 2 ^ 63" using assms(1,2) by (simp add: entry_valid_def)
  obtain s0 where s0: "re_stream de = Some s0" "smSize s0 = int ?sz" "smRuns s0 = []"
    using assms(1,2) smSize_nat [OF sz] by (auto simp: entry_valid_def wf_rawEntry_def)
  have "readable st \<and> smSize st = int ?sz"
  proof (cases "re_streamSize de = 0")
    case True
    then show ?thesis using s0 assms(3) by (simp add: buildStream_def readable_def)
  next
    case False
    then have pos: "0 < ?sz" by (simp add: unat_gt_0)
    show ?thesis
    proof (cases "re_streamSize de < word_of_nat miniStreamCutoff")
      case True
      obtain chain runs where c: "walkChain (pr_miniFAT p) (re_startSector de) (numSectorsOf (re_streamSize de) miniSectorSize) = Inr chain"
        and r: "resolveMiniRuns (pr_miniStream p) (pr_secSize p) chain ?sz = Inr runs" "st = s0\<lparr>smRuns := runs\<rparr>"
        using assms(3) s0 False True
        by (auto simp: buildStream_def Let_def bindE_eq_Inr split: if_splits)
      have n: "numSectorsOf (re_streamSize de) miniSectorSize = (?sz + miniSectorSize - 1) div miniSectorSize"
        using sz by (intro numSectorsOf_eq) (simp_all add: miniSectorSize_def)
      note b = ceil_div_bounds [OF _ n]
      have m0: "0 < miniSectorSize" by (simp add: miniSectorSize_def)
      have len: "length chain = numSectorsOf (re_streamSize de) miniSectorSize"
        using c b(3) [OF m0 pos] by (simp add: walkChain_iff)
      then have ne: "chain \<noteq> []" using b(3) [OF m0 pos] by auto
      obtain offs where offs: "mapE (miniOffset (pr_miniStream p) (pr_secSize p)) chain = Inr offs"
        using r(1) resolveMiniRuns_error by (cases "mapE (miniOffset (pr_miniStream p) (pr_secSize p)) chain") force+
      obtain runs' where "resolveMiniRuns (pr_miniStream p) (pr_secSize p) chain ?sz = Inr runs'" "runs_ok 0 runs'"
        "runs_addrs runs' = take ?sz (blocks miniSectorSize offs)"
        using resolveMiniRuns_ok [OF ne _ offs] b(2) [OF m0] len by metis
      moreover have "length (blocks miniSectorSize offs) = length chain * miniSectorSize"
        using mapE_length [OF offs] by (simp add: length_blocks)
      ultimately show ?thesis using r s0 b(1) [OF m0] len by (simp add: readable_def)
    next
      case big: False
      obtain chain where c: "walkChain (pr_fat p) (re_startSector de) (numSectorsOf (re_streamSize de) (pr_secSize p)) = Inr chain"
        and r: "st = s0\<lparr>smRuns := resolveRegularRuns chain (pr_secSize p) ?sz\<rparr>"
        using assms(3) s0 False big
        by (auto simp: buildStream_def Let_def bindE_eq_Inr split: if_splits)
      have S0: "0 < pr_secSize p" "pr_secSize p < 2 ^ 32" using S by auto
      note n = numSectorsOf_eq [OF sz S0]
      note b = ceil_div_bounds [OF S0(1) n]
      have len: "length chain = numSectorsOf (re_streamSize de) (pr_secSize p)"
        using c b(3) [OF pos] by (simp add: walkChain_iff)
      then have ne: "chain \<noteq> []" using b(3) [OF pos] by auto
      have "length (sector_addrs (pr_secSize p) chain) = length chain * pr_secSize p"
        by (simp add: sector_addrs_def length_blocks)
      then show ?thesis
        using resolveRegularRuns_ok [OF ne S0(1), of ?sz] b(1,2) len r s0 by (simp add: readable_def)
    qed
  qed
  then show "readable st" "smSize st = int ?sz" by auto
qed

lemma dir_tree_readable:
  "dir_tree p es eid ids out \<Longrightarrow> \<forall>e \<in> set es. entry_valid e \<Longrightarrow> pr_secSize p = 512 \<or> pr_secSize p = 4096 \<Longrightarrow>
   \<forall>e \<in> set out. \<forall>st \<in> set (entry_streams e). readable st"
  by (induction rule: dir_tree.induct) (auto dest: buildStream_readable)

lemma buildRoot_total:
  "pr_entries p \<noteq> [] \<Longrightarrow> buildRoot p =
     (case re_storage (pr_entries p ! 0) of None \<Rightarrow> Inl Panic
      | Some s \<Rightarrow>
        if re_childID (pr_entries p ! 0) = noStream then Inr (StorageE s [])
        else bindE (walkBST (Suc (length (pr_entries p))) p (re_childID (pr_entries p ! 0)) (pr_entries p) [])
          (\<lambda>(es, children). Inr (StorageE s children)))"
  by (cases "walkBST (Suc (length (pr_entries p))) p (re_childID (pr_entries p ! 0)) (pr_entries p) []")
    (auto simp: buildRoot_def buildStorage_def Let_def simp del: walkBST.simps split: option.splits)

lemma buildRoot_ne: "buildRoot p = Inr root \<Longrightarrow> pr_entries p \<noteq> []"
  by (auto simp: buildRoot_def buildStorage_def Let_def bindE_eq_Inr)

lemma buildRoot_tree:
  assumes "buildRoot p = Inr root"
  obtains s ids out where "root = StorageE s out" "re_storage (pr_entries p ! 0) = Some s"
    "dir_tree p (pr_entries p) (re_childID (pr_entries p ! 0)) ids out" "distinct ids"
proof -
  note total = buildRoot_total [OF buildRoot_ne [OF assms]]
  obtain s where s: "re_storage (pr_entries p ! 0) = Some s"
    using assms by (auto simp: total split: option.splits)
  show thesis
  proof (cases "re_childID (pr_entries p ! 0) = noStream")
    case True
    then show thesis
      using that [of s "[]" "[]"] assms s dir_tree.tree_none [of p "pr_entries p"]
      by (auto simp: total)
  next
    case False
    obtain es' out where w: "walkBST (Suc (length (pr_entries p))) p (re_childID (pr_entries p ! 0)) (pr_entries p) [] = Inr (es', out)"
      "root = StorageE s out"
      using assms s False
      by (auto simp: total bindE_eq_Inr simp del: walkBST.simps)
    then show thesis using walkBST_sound [OF w(1)] that [OF w(2) s] by (auto simp: fresh_def)
  qed
qed

section \<open>The errors of the walk\<close>

text \<open>
  Entries that have the data of their type, so that building them does not dereference nil, and
  streams of sizes whose chains \<open>make\<close> takes.
\<close>

definition has_data :: "nat \<Rightarrow> rawEntry list \<Rightarrow> bool" where
  "has_data secSize es \<longleftrightarrow> (\<forall>e \<in> set es. (re_objectType e = objectStorage \<longrightarrow> re_storage e \<noteq> None) \<and>
     (re_objectType e = objectStream \<longrightarrow> re_stream e \<noteq> None \<and> numSectorsOf (re_streamSize e) secSize * 4 \<le> maxAlloc))"

lemma has_data_mark: "has_data S es \<Longrightarrow> has_data S (mark ids es)"
proof (induction ids arbitrary: es)
  case (Cons i ids)
  have "has_data S (es[i := (es ! i)\<lparr>re_visited := True\<rparr>])"
  proof (cases "i < length es")
    case True
    then show ?thesis
      using Cons.prems nth_mem [OF True] set_update_subset_insert [of es i]
      by (fastforce simp: has_data_def)
  next
    case False
    then show ?thesis using Cons.prems by (simp add: list_update_beyond)
  qed
  then show ?case using Cons.IH by simp
qed simp

text \<open>The chain of a stream in the mini stream has at most 64 mini sectors.\<close>

lemma mini_make: "sz < word_of_nat miniStreamCutoff \<Longrightarrow> numSectorsOf sz miniSectorSize * 4 \<le> maxAlloc"
proof -
  assume "sz < word_of_nat miniStreamCutoff"
  then have sz: "unat sz < 4096" by (simp add: word_less_nat_alt miniStreamCutoff_def)
  then have n: "numSectorsOf sz miniSectorSize = (unat sz + miniSectorSize - 1) div miniSectorSize"
    by (intro numSectorsOf_eq) (simp_all add: miniSectorSize_def)
  have "(unat sz + miniSectorSize - 1) div miniSectorSize \<le> unat sz + miniSectorSize - 1" by (rule div_le_dividend)
  also have "\<dots> \<le> 2 ^ 13" using sz by (simp add: miniSectorSize_def)
  finally show ?thesis unfolding n [symmetric] by (simp add: maxAlloc_def)
qed

lemma buildStream_malformed:
  assumes "buildStream p de = Inl e" "has_data (pr_secSize p) es" "de \<in> set es" "re_objectType de = objectStream"
  shows "\<exists>r. e = ErrFormat r"
proof -
  have "re_stream de \<noteq> None" "numSectorsOf (re_streamSize de) (pr_secSize p) * 4 \<le> maxAlloc"
    using assms(2-4) by (auto simp: has_data_def)
  moreover have "numSectorsOf (re_streamSize de) miniSectorSize * 4 \<le> maxAlloc"
    if "re_streamSize de < word_of_nat miniStreamCutoff" using that by (rule mini_make)
  ultimately show ?thesis using buildStream_Inl [OF assms(1)] by (auto split: if_splits)
qed

lemma walkBST_Inl:
  "walkBST n p eid es out = Inl e \<Longrightarrow> has_data (pr_secSize p) es \<Longrightarrow> e = OutOfFuel \<or> (\<exists>r. e = ErrFormat r)"
proof (induction n arbitrary: eid es out)
  case (Suc n)
  show ?case
  proof (cases "eid = noStream \<or> length es \<le> unat eid \<or> re_visited (es ! unat eid)")
    case True
    then show ?thesis using Suc.prems by (auto split: if_splits)
  next
    case False
    let ?i = "unat eid" and ?es1 = "mark [unat eid] es"
    let ?de = "?es1 ! ?i"
    have d1: "has_data (pr_secSize p) ?es1" using Suc.prems(2) by (rule has_data_mark)
    have i: "?i < length ?es1" using False by simp
    have w: "bindE (walkBST n p (re_leftSib ?de) ?es1 out) (\<lambda>(es2, out).
        bindE (visit_entry n p eid ?de es2 out) (\<lambda>(es3, out). walkBST n p (re_rightSib ?de) es3 out)) = Inl e"
      using Suc.prems False by (simp add: walkBST_Suc Let_def del: walkBST.simps mark_simps)
    show ?thesis
    proof (cases "walkBST n p (re_leftSib ?de) ?es1 out")
      case (Inl e1)
      then have "walkBST n p (re_leftSib ?de) ?es1 out = Inl e" using w by simp
      then show ?thesis using d1 by (rule Suc.IH)
    next
      case (Inr l)
      obtain es2 out2 where l: "l = (es2, out2)" by fastforce
      obtain ls where es2: "es2 = mark ls ?es1" using walkBST_sound Inr l by blast
      then have d2: "has_data (pr_secSize p) es2" using has_data_mark d1 by simp
      have "same ?es1 es2" unfolding es2 by (rule same_mark)
      note sel = same_sel [OF this i]
      have i2: "?i < length es2" and at: "es2 ! ?i \<in> set es2" using es2 i by simp_all
      show ?thesis
      proof (cases "visit_entry n p eid ?de es2 out2")
        case vl: (Inl e')
        then have "e' = e" using w Inr l by simp
        then show ?thesis
          using vl d2 at sel(1) Suc.IH [OF _ d2] buildStream_malformed [OF _ d2 at]
          by (auto simp: visit_entry_def buildStorage_total [OF i2] i2 bindE_eq_Inl has_data_def
              split: if_splits option.splits)
      next
        case vr: (Inr v)
        obtain es3 out3 where v: "v = (es3, out3)" by fastforce
        obtain ms where "es3 = mark ms es2"
          using visit_sound [of n p eid ?de es2 out2 es3 out3] vr v sel(1) walkBST_sound [of n p _ es2 "[]"]
          by (metis append_Nil)
        then have "has_data (pr_secSize p) es3" using has_data_mark d2 by simp
        moreover have "walkBST n p (re_rightSib ?de) es3 out3 = Inl e" using w Inr l vr v by simp
        ultimately show ?thesis using Suc.IH by blast
      qed
    qed
  qed
qed simp

section \<open>Claims\<close>

lemma fresh_length: "fresh es ids \<Longrightarrow> length ids \<le> unvisited es"
proof (induction ids arbitrary: es)
  case (Cons i ids)
  then have "length ids \<le> unvisited (es[i := (es ! i)\<lparr>re_visited := True\<rparr>])" by (simp add: fresh_Cons)
  then show ?case using Cons.prems unvisited_update [of i es] by (simp add: fresh_Cons)
qed simp

text \<open>C7: \<open>walkBST\<close> with its visited flags accepts a directory tree exactly when it is a finite binary
  tree (with the trees of its storages) that uses no entry twice, and then appends its contents in
  order and flags exactly the entries of the tree. As much fuel as there are unvisited entries is
  enough, so the recursion of the code is at most that deep.\<close>

theorem walkBST_exact:
  assumes "unvisited es < n"
  shows "walkBST n p eid es out = Inr (es', out') \<longleftrightarrow>
    (\<exists>ids ents. dir_tree p es eid ids ents \<and> fresh es ids \<and> es' = mark ids es \<and> out' = out @ ents)"
proof
  assume "walkBST n p eid es out = Inr (es', out')"
  then show "\<exists>ids ents. dir_tree p es eid ids ents \<and> fresh es ids \<and> es' = mark ids es \<and> out' = out @ ents"
    using walkBST_sound by blast
next
  assume "\<exists>ids ents. dir_tree p es eid ids ents \<and> fresh es ids \<and> es' = mark ids es \<and> out' = out @ ents"
  then obtain ids ents where t: "dir_tree p es eid ids ents" "fresh es ids" and r: "es' = mark ids es" "out' = out @ ents"
    by blast
  have "length ids < n" using fresh_length [OF t(2)] assms by simp
  then show "walkBST n p eid es out = Inr (es', out')"
    using walkBST_complete [OF t(1) _ t(2)] r by (simp add: same_def)
qed

definition sample_entry :: "u8 \<Rightarrow> u32 \<Rightarrow> u32 \<Rightarrow> rawEntry" where
  "sample_entry ot l r =
     \<lparr>re_storage = Some \<lparr>stName = [], stCLSID = [], stStateBits = 0, stCreated = zeroTime, stModified = zeroTime\<rparr>,
      re_stream = Some \<lparr>smName = [], smStateBits = 0, smSize = 0, smRuns = []\<rparr>, re_objectType = ot,
      re_leftSib = l, re_rightSib = r, re_childID = noStream, re_startSector = 0, re_streamSize = 0,
      re_visited = False\<rparr>"

definition sample_parser :: parser where
  "sample_parser = \<lparr>pr_h = decodeHeader [], pr_secSize = 512, pr_fat = [], pr_miniFAT = [], pr_miniStream = [],
     pr_entries = []\<rparr>"

theorem walkBST_exact_witness:
  "\<exists>ids ents. dir_tree sample_parser [sample_entry objectStream 1 noStream, sample_entry objectStorage noStream noStream]
     0 ids ents \<and> length ents = 2"
proof -
  let ?es = "[sample_entry objectStream 1 noStream, sample_entry objectStorage noStream noStream]"
  have u: "unvisited ?es < 3" by (simp add: unvisited_def sample_entry_def)
  have n: "noStream \<noteq> 0" "noStream \<noteq> 1" by (simp_all add: noStream_def)
  obtain es' out' where w: "walkBST (Suc (Suc (Suc 0))) sample_parser 0 ?es [] = Inr (es', out')" "length out' = 2"
    by (simp add: sample_entry_def n n [symmetric] object_defs buildStorage_def buildStream_def)
  then have "walkBST 3 sample_parser 0 ?es [] = Inr (es', out')" by (simp only: numeral_3_eq_3)
  then show ?thesis unfolding walkBST_exact [OF u] using w(2) by auto
qed

text \<open>C20: Every stream that is built from an accepted directory entry can be read to its end: its runs
  cover exactly its declared size, whatever the FAT holds.\<close>

theorem buildStream_covers_size:
  assumes "entry_valid de" "re_objectType de = objectStream" "buildStream p de = Inr st"
    and "pr_secSize p = 512 \<or> pr_secSize p = 4096"
  shows "readable st \<and> smSize st = int (unat (re_streamSize de))"
  using buildStream_readable [OF assms] by blast

definition sample_stream_entry :: rawEntry where
  "sample_stream_entry =
     \<lparr>re_storage = None, re_stream = Some \<lparr>smName = [0x41], smStateBits = 0, smSize = 70, smRuns = []\<rparr>,
      re_objectType = objectStream, re_leftSib = noStream, re_rightSib = noStream, re_childID = noStream,
      re_startSector = 1, re_streamSize = 70, re_visited = False\<rparr>"

theorem buildStream_covers_size_witness:
  "\<exists>st. buildStream (sample_parser\<lparr>pr_miniFAT := [endOfChain, 0], pr_miniStream := [9]\<rparr>) sample_stream_entry = Inr st \<and>
     readable st"
proof -
  let ?p = "sample_parser\<lparr>pr_miniFAT := [endOfChain, 0], pr_miniStream := [9]\<rparr>"
  have v: "entry_valid sample_stream_entry"
    by (auto simp: entry_valid_def wf_rawEntry_def sample_stream_entry_def object_defs)
  have n: "numSectorsOf 70 64 = 2" by (simp add: numSectorsOf_def)
  have c: "walkChain [endOfChain, 0] 1 2 = Inr [1, 0]"
    by (simp add: walkChain_def walkChain_loop_total sect_defs makeSlice_ok maxAlloc_def)
  obtain st where st: "buildStream ?p sample_stream_entry = Inr st"
    by (simp add: buildStream_def sample_stream_entry_def sample_parser_def endOfChain_def
        miniStreamCutoff_def miniSectorSize_def n c [unfolded endOfChain_def] resolveMiniRuns_def miniOffset_total)
  have "re_objectType sample_stream_entry = objectStream" "pr_secSize ?p = 512 \<or> pr_secSize ?p = 4096"
    by (simp_all add: sample_stream_entry_def sample_parser_def)
  from buildStream_covers_size [OF v this(1) st this(2)] show ?thesis using st by blast
qed

text \<open>C12: \<open>Stream.ReadAt\<close> on such a stream returns the bytes of the file at the addresses of its runs
  from the offset on, as many as asked for and left, with \<open>io.EOF\<close> exactly when fewer are left;
  whether the file's reader reports its own end with the last byte makes no difference.\<close>

theorem streamReadAt_exact:
  assumes "reader_at rd src EOF" "readable s" "\<forall>a \<in> set (runs_addrs (smRuns s)). a < length src"
    and "0 \<le> off" "off < smSize s"
  shows "streamReadAt rd s plen off =
    (slice (nat off) plen (gather src (runs_addrs (smRuns s))), if smSize s - off < int plen then Some EOF else None)"
  using assms streamReadAt_ok unfolding readable_def by blast

theorem streamReadAt_exact_witness:
  "streamReadAt (bytesReaderAt EOF [10, 11, 12, 13, 14, 15, 16, 17, 18, 19])
     \<lparr>smName = [], smStateBits = 0, smSize = 5,
      smRuns = [\<lparr>run_off = 6, run_length = 3, run_start = 0\<rparr>, \<lparr>run_off = 1, run_length = 2, run_start = 3\<rparr>]\<rparr> 9 2 =
   ([18, 11, 12], Some EOF)"
proof -
  let ?s = "\<lparr>smName = [], smStateBits = 0, smSize = 5,
      smRuns = [\<lparr>run_off = 6, run_length = 3, run_start = 0\<rparr>, \<lparr>run_off = 1, run_length = 2, run_start = 3\<rparr>]\<rparr>"
  have a: "runs_addrs (smRuns ?s) = [6, 7, 8, 1, 2]" by (simp add: run_addrs_def upt_rec)
  then have "readable ?s" "\<forall>a \<in> set (runs_addrs (smRuns ?s)). a < length [10, 11, 12, 13, 14, 15, 16, 17, 18, 19 :: u8]"
    by (simp_all add: readable_def)
  from streamReadAt_exact [OF bytes_reader.reader_at_axioms this, of 2 9] show ?thesis
    by (simp add: gather_def slice_def run_addrs_def upt_rec)
qed

lemma find_first: "find P xs = Some x \<longleftrightarrow> (\<exists>pre post. xs = pre @ x # post \<and> P x \<and> list_all (\<lambda>y. \<not> P y) pre)"
proof (induction xs)
  case (Cons a xs)
  show ?case
  proof (cases "P a")
    case True
    then show ?thesis by (fastforce simp: Cons_eq_append_conv)
  next
    case False
    then have "find P (a # xs) = Some x \<longleftrightarrow> (\<exists>pre post. xs = pre @ x # post \<and> P x \<and> list_all (\<lambda>y. \<not> P y) pre)"
      using Cons by simp
    also have "\<dots> \<longleftrightarrow> (\<exists>pre post. a # xs = pre @ x # post \<and> P x \<and> list_all (\<lambda>y. \<not> P y) pre)"
    proof (intro iffI; elim exE conjE)
      fix pre post
      assume "xs = pre @ x # post" "P x" "list_all (\<lambda>y. \<not> P y) pre"
      then have "a # xs = (a # pre) @ x # post \<and> P x \<and> list_all (\<lambda>y. \<not> P y) (a # pre)" using False by simp
      then show "\<exists>pre post. a # xs = pre @ x # post \<and> P x \<and> list_all (\<lambda>y. \<not> P y) pre" by blast
    qed (use False in \<open>auto simp: Cons_eq_append_conv\<close>)
    finally show ?thesis .
  qed
qed simp

definition names_stream :: "gostring \<Rightarrow> entry \<Rightarrow> bool" where
  "names_stream name e \<longleftrightarrow> (case e of StreamE st \<Rightarrow> True | StorageE s cs \<Rightarrow> False) \<and> compareNamesStr name (entryName e) = 0"

lemma names_stream_alt:
  "names_stream name e \<longleftrightarrow> (case e of StorageE s cs \<Rightarrow> False
     | StreamE st \<Rightarrow> map toUpper (utf16_encode name) = map toUpper (utf16_encode (smName st)))"
  by (cases e) (simp_all add: names_stream_def compareNamesStr_eq compareNames_0)

text \<open>\<open>OpenStream\<close> returns the first stream of the storage whose name equals the given one up to
  case, skipping storages of that name, and reports \<open>ErrNotFound\<close> when there is none.\<close>

theorem openStream_first:
  "openStream entries name = Inr st \<longleftrightarrow>
   (\<exists>pre post. entries = pre @ StreamE st # post \<and>
      map toUpper (utf16_encode name) = map toUpper (utf16_encode (smName st)) \<and>
      list_all (\<lambda>e. \<not> (case e of StorageE s cs \<Rightarrow> False
        | StreamE st' \<Rightarrow> map toUpper (utf16_encode name) = map toUpper (utf16_encode (smName st')))) pre)"
proof -
  have "openStream entries name = Inr st \<longleftrightarrow> find (names_stream name) entries = Some (StreamE st)"
  proof -
    have "openStream entries name =
        (case find (names_stream name) entries of Some (StreamE st) \<Rightarrow> Inr st | _ \<Rightarrow> Inl ErrNotFound)"
      by (simp add: openStream_def names_stream_def [abs_def])
    then show ?thesis by (auto split: option.splits entry.splits)
  qed
  also have "\<dots> \<longleftrightarrow> (\<exists>pre post. entries = pre @ StreamE st # post \<and> names_stream name (StreamE st) \<and>
      list_all (\<lambda>e. \<not> names_stream name e) pre)"
    by (rule find_first)
  finally show ?thesis unfolding names_stream_alt by (simp cong: entry.case_cong)
qed

end
