(* ===== verification/Reader.thy ===== *)
theory Reader
  imports DirWalk
begin

text \<open>
  \<open>NewReader\<close>: the phases of reader.go in the order it runs them, \<open>parseHeader\<close>, \<open>checkFileSize\<close>,
  \<open>loadFAT\<close>, \<open>loadMiniFAT\<close>, \<open>parseEntries\<close>, \<open>loadMiniStream\<close> and \<open>buildStorage(0)\<close>. The fields of
  \<open>parser\<close> that a later phase fills are arguments here and the record is made when all are known.

  Every index, slice, pointer and \<open>make\<close> that could panic is checked where the code has it
  (\<open>index_at\<close>, \<open>makeSlice\<close>, \<open>Panic\<close>); the lemmas whose name ends in \<open>_total\<close> give each operation without
  the checks that cannot fail. The theorems: over any \<open>io.ReaderAt\<close> that keeps its contract
  \<open>NewReader\<close> returns, an error or a \<open>Reader\<close> whose streams have runs that cover exactly their size, and
  panics for one kind of file only, a root entry whose size \<open>make\<close> cannot allocate.
\<close>

section \<open>The phases\<close>

definition loadFAT :: "goerr readerAt \<Rightarrow> header \<Rightarrow> goerr + u32 list" where
  "loadFAT rd h =
     bindE (readDIFAT rd h) (\<lambda>fatSecs.
     bindE (makeSlice (length fatSecs * (h_secSize h div 4)) 4) (\<lambda>_.
       loadBatches (\<lambda>buf. Inr (u32s buf)) rd (h_secSize h) (bufLen h) fatSecs))"

definition loadMiniFAT :: "goerr readerAt \<Rightarrow> header \<Rightarrow> u32 list \<Rightarrow> goerr + u32 list" where
  "loadMiniFAT rd h fat =
     (if h_NumMiniFATSectors h = 0 then Inr []
      else bindE (walkChain fat (h_FirstMiniFATSector h) (unat (h_NumMiniFATSectors h))) (\<lambda>chain.
        bindE (makeSlice (length chain * h_secSize h div 4) 4) (\<lambda>_.
          loadBatches (\<lambda>buf. Inr (u32s buf)) rd (h_secSize h) (bufLen h) chain)))"

text \<open>The checks on the size of a stream entry; \<open>math.MaxInt64\<close> is \<open>2 ^ 63 - 1\<close>.\<close>

definition checkStreamSize :: "header \<Rightarrow> nat \<Rightarrow> nat \<Rightarrow> rawEntry \<Rightarrow> goerr + rawEntry" where
  "checkStreamSize h fatLen miniFATLen re =
     (if re_objectType re = objectStream then
        let sz = re_streamSize re in
        if 2 ^ 63 - 1 < sz \<or> h_MajorVersion h = 3 \<and> word_of_nat streamSizeMaxV3 < sz
        then Inl (ErrFormat StreamSizeExceedsMax)
        else let maxBytes = (if sz < word_of_nat miniStreamCutoff
                  then word_of_nat miniFATLen * word_of_nat miniSectorSize
                  else word_of_nat fatLen * word_of_nat (h_secSize h))
          in if maxBytes < sz then Inl (ErrFormat StreamSizeExceedsFAT) else Inr re
      else Inr re)"

text \<open>The entries of one buffer.\<close>

definition parseEntryBuf :: "header \<Rightarrow> nat \<Rightarrow> nat \<Rightarrow> bytes \<Rightarrow> goerr + rawEntry list" where
  "parseEntryBuf h fatLen miniFATLen buf =
     mapE (\<lambda>j. bindE (parseEntry (drop (j * direntrySize) buf) (h_MajorVersion h))
                 (checkStreamSize h fatLen miniFATLen))
       [0..<length buf div direntrySize]"

text \<open>A \<open>rawEntry\<close> takes 56 bytes: two pointers, the type, four 32-bit numbers, the size and the flag.\<close>

definition rawEntrySize :: nat where "rawEntrySize = 56"

definition parseEntries :: "goerr readerAt \<Rightarrow> header \<Rightarrow> u32 list \<Rightarrow> u32 list \<Rightarrow> goerr + rawEntry list" where
  "parseEntries rd h fat miniFAT =
     bindE (walkChain fat (h_FirstDirSector h) (unat (h_NumDirSectors h))) (\<lambda>chain.
       if length chain * h_secSize h mod direntrySize \<noteq> 0 then Inl (ErrFormat BadDirArraySize)
       else bindE (makeSlice (length chain * h_secSize h div direntrySize) rawEntrySize) (\<lambda>_.
       bindE (loadBatches (parseEntryBuf h (length fat) (length miniFAT)) rd (h_secSize h) (bufLen h) chain) (\<lambda>es.
         if es = [] then Inl (ErrFormat NoDirEntries)
         else bindE (index_at es 0) (\<lambda>de.
           if re_objectType de \<noteq> objectRoot then Inl (ErrFormat FirstEntryNotRoot)
           else Inr es))))"

definition loadMiniStream :: "header \<Rightarrow> u32 list \<Rightarrow> rawEntry list \<Rightarrow> goerr + u32 list" where
  "loadMiniStream h fat es =
     bindE (index_at es 0) (\<lambda>de.
       if re_streamSize de = 0 \<or> re_startSector de = endOfChain then Inr []
       else walkChain fat (re_startSector de) (numSectorsOf (re_streamSize de) (h_secSize h)))"

text \<open>The header and the root storage of a \<open>Reader\<close>; its \<open>Version\<close> is \<open>h_MajorVersion\<close>.\<close>

definition loadParser :: "goerr readerAt \<Rightarrow> goerr + parser" where
  "loadParser rd =
     bindE (parseHeader rd) (\<lambda>h.
     case checkFileSize rd h of Some e \<Rightarrow> Inl e | None \<Rightarrow>
     bindE (loadFAT rd h) (\<lambda>fat.
     bindE (loadMiniFAT rd h fat) (\<lambda>miniFAT.
     bindE (parseEntries rd h fat miniFAT) (\<lambda>es.
     bindE (loadMiniStream h fat es) (\<lambda>miniStream.
       Inr \<lparr>pr_h = h, pr_secSize = h_secSize h, pr_fat = fat, pr_miniFAT = miniFAT,
            pr_miniStream = miniStream, pr_entries = es\<rparr>)))))"

definition newReader :: "goerr readerAt \<Rightarrow> goerr + header \<times> entry" where
  "newReader rd = bindE (loadParser rd) (\<lambda>p. bindE (buildRoot p) (\<lambda>root. Inr (pr_h p, root)))"

section \<open>The checks that cannot fail\<close>

text \<open>
  With a valid header the tables fit: a FAT of \<open>2 ^ 32\<close> sectors of 4096 bytes has \<open>2 ^ 44\<close>
  bytes, and the directory no more than \<open>2 ^ 43\<close>.
\<close>

lemma make_table:
  assumes "valid_header h" "n \<le> 2 ^ 32"
  shows "makeSlice (n * (h_secSize h div 4)) 4 = Inr ()" "makeSlice (n * h_secSize h div 4) 4 = Inr ()"
    "makeSlice (n * h_secSize h div direntrySize) rawEntrySize = Inr ()"
  using valid_header_secSize [OF assms(1)] assms(2)
  by (auto intro!: makeSlice_ok simp: maxAlloc_def direntrySize_def rawEntrySize_def)

lemma loadFAT_total:
  assumes "valid_header h"
  shows "loadFAT rd h = bindE (readDIFAT rd h) (\<lambda>fatSecs.
    loadBatches (\<lambda>buf. Inr (u32s buf)) rd (h_secSize h) (bufLen h) fatSecs)"
proof (cases "readDIFAT rd h")
  case (Inr secs)
  have "unat (h_NumFATSectors h) < 2 ^ 32" using unsigned_less [of "h_NumFATSectors h"] by simp
  then have "length secs \<le> 2 ^ 32" using readDIFAT_regular(1) [OF Inr] by simp
  from make_table(1) [OF assms this] show ?thesis by (simp only: loadFAT_def Inr bindE.simps)
qed (simp add: loadFAT_def)

lemma loadMiniFAT_total:
  assumes "valid_header h"
  shows "loadMiniFAT rd h fat =
    (if h_NumMiniFATSectors h = 0 then Inr []
     else bindE (walkChain fat (h_FirstMiniFATSector h) (unat (h_NumMiniFATSectors h))) (\<lambda>chain.
       loadBatches (\<lambda>buf. Inr (u32s buf)) rd (h_secSize h) (bufLen h) chain))"
proof (cases "walkChain fat (h_FirstMiniFATSector h) (unat (h_NumMiniFATSectors h))")
  case (Inr chain)
  from make_table(2) [OF assms walkChain_card [OF Inr]] show ?thesis
    by (simp only: loadMiniFAT_def Inr bindE.simps)
qed (simp add: loadMiniFAT_def)

lemma parseEntries_total:
  assumes "valid_header h"
  shows "parseEntries rd h fat miniFAT =
     bindE (walkChain fat (h_FirstDirSector h) (unat (h_NumDirSectors h))) (\<lambda>chain.
       if length chain * h_secSize h mod direntrySize \<noteq> 0 then Inl (ErrFormat BadDirArraySize)
       else bindE (loadBatches (parseEntryBuf h (length fat) (length miniFAT)) rd (h_secSize h) (bufLen h) chain) (\<lambda>es.
         if es = [] then Inl (ErrFormat NoDirEntries)
         else if re_objectType (hd es) \<noteq> objectRoot then Inl (ErrFormat FirstEntryNotRoot)
         else Inr es))"
proof (cases "walkChain fat (h_FirstDirSector h) (unat (h_NumDirSectors h))")
  case (Inr chain)
  note m = make_table(3) [OF assms walkChain_card [OF Inr]]
  show ?thesis
    unfolding parseEntries_def Inr bindE.simps m
    by (cases "loadBatches (parseEntryBuf h (length fat) (length miniFAT)) rd (h_secSize h) (bufLen h) chain")
      (simp_all add: hd_conv_nth)
qed (simp add: parseEntries_def)

lemma loadMiniStream_total:
  "es \<noteq> [] \<Longrightarrow> loadMiniStream h fat es =
     (if re_streamSize (hd es) = 0 \<or> re_startSector (hd es) = endOfChain then Inr []
      else walkChain fat (re_startSector (hd es)) (numSectorsOf (re_streamSize (hd es)) (h_secSize h)))"
  by (simp add: loadMiniStream_def hd_conv_nth)

section \<open>Batches\<close>

lemma parseHeader_valid: "parseHeader rd = Inr h \<Longrightarrow> valid_header h"
  by (auto simp: parseHeader_Inr)

lemma mapE_append: "mapE f (xs @ ys) = bindE (mapE f xs) (\<lambda>as. bindE (mapE f ys) (\<lambda>bs. Inr (as @ bs)))"
proof (induction xs)
  case Nil
  then show ?case by (cases "mapE f ys") simp_all
next
  case (Cons x xs)
  then show ?case by (cases "f x"; cases "mapE f xs"; cases "mapE f ys") simp_all
qed

lemma mapE_cong [fundef_cong]: "xs = ys \<Longrightarrow> (\<And>x. x \<in> set ys \<Longrightarrow> f x = g x) \<Longrightarrow> mapE f xs = mapE g ys"
proof (induction ys arbitrary: xs)
  case (Cons y ys)
  have "mapE f ys = mapE g ys" using Cons by simp
  then show ?case using Cons.prems by simp
qed simp

lemma mapE_map: "mapE f (map g xs) = mapE (\<lambda>x. f (g x)) xs"
  by (induction xs) simp_all

lemma parseEntry_at:
  assumes "j * direntrySize + direntrySize \<le> length a"
  shows "parseEntry (drop (j * direntrySize) (a @ b)) v = parseEntry (drop (j * direntrySize) a) v"
proof -
  let ?d = "drop (j * direntrySize) a"
  have "take direntrySize ?d @ (drop direntrySize ?d @ b) = drop (j * direntrySize) (a @ b)"
    using assms by (simp add: append_assoc [symmetric] del: append_assoc drop_drop)
  moreover have "parseEntry (take direntrySize ?d @ drop direntrySize ?d) v = parseEntry (take direntrySize ?d) v"
    using assms by (intro parseEntry_prefix) simp
  moreover have "parseEntry (take direntrySize ?d @ (drop direntrySize ?d @ b)) v = parseEntry (take direntrySize ?d) v"
    using assms by (intro parseEntry_prefix) simp
  ultimately show ?thesis by (simp only: append_take_drop_id)
qed

lemma parseEntryBuf_append:
  assumes "direntrySize dvd length a"
  shows "parseEntryBuf h n m (a @ b) = bindE (parseEntryBuf h n m a) (\<lambda>xs. bindE (parseEntryBuf h n m b) (\<lambda>ys. Inr (xs @ ys)))"
proof -
  obtain k where k: "length a = k * direntrySize" using assms by (metis dvdE mult.commute)
  let ?l = "length b div direntrySize"
  let ?f = "\<lambda>buf j. bindE (parseEntry (drop (j * direntrySize) buf) (h_MajorVersion h)) (checkStreamSize h n m)"
  have d: "0 < direntrySize" by (simp add: direntrySize_def)
  have "length (a @ b) div direntrySize = k + ?l" using k d by simp
  then have "parseEntryBuf h n m (a @ b) = mapE (?f (a @ b)) ([0..<k] @ [k..<k + ?l])"
    using upt_add_eq_append [of 0 k ?l] by (simp add: parseEntryBuf_def)
  moreover have "mapE (?f (a @ b)) [0..<k] = parseEntryBuf h n m a"
  proof -
    have "j * direntrySize + direntrySize \<le> length a" if "j < k" for j
      using that mult_le_mono1 [of "Suc j" k direntrySize] by (simp add: k)
    then have "mapE (?f (a @ b)) [0..<k] = mapE (?f a) [0..<k]"
      by (intro mapE_cong refl) (simp add: parseEntry_at del: drop_append)
    then show ?thesis using k d by (simp add: parseEntryBuf_def)
  qed
  moreover have "mapE (?f (a @ b)) [k..<k + ?l] = parseEntryBuf h n m b"
  proof -
    have "[k..<k + ?l] = map (\<lambda>j. k + j) [0..<?l]" by (simp add: map_add_upt add.commute)
    then show ?thesis using k by (simp add: mapE_map parseEntryBuf_def add_mult_distrib)
  qed
  ultimately show ?thesis by (simp only: mapE_append)
qed

interpretation entry_parser: sector_parser direntrySize "parseEntryBuf h fatLen miniFATLen"
  by unfold_locales (simp add: parseEntryBuf_def, rule parseEntryBuf_append)

section \<open>What an accepted file guarantees\<close>

lemma loadBatches_all:
  "loadBatches f rd secSize bufSize secs = Inr xs \<Longrightarrow> (\<And>buf ys. f buf = Inr ys \<Longrightarrow> \<forall>y \<in> set ys. P y) \<Longrightarrow>
   \<forall>x \<in> set xs. P x"
proof (induction "length secs" arbitrary: secs xs rule: less_induct)
  case less
  let ?batch = "bufSize div secSize"
  show ?case
  proof (cases "secs = []")
    case True
    then show ?thesis using less.prems by (simp add: loadBatches_total [OF refl])
  next
    case False
    then have b: "?batch \<noteq> 0" using less.prems(1) by (subst (asm) loadBatches_total [OF refl]) (auto split: if_splits)
    obtain buf as bs where r: "readSectors rd secSize (take ?batch secs) = Inr buf" "f buf = Inr as"
      "loadBatches f rd secSize bufSize (drop ?batch secs) = Inr bs" "xs = as @ bs"
      using less.prems(1) False b by (subst (asm) loadBatches_total [OF refl]) (auto simp: bindE_eq_Inr)
    have "length (drop ?batch secs) < length secs" using False b by simp
    then have "\<forall>x \<in> set bs. P x" using less.hyps r(3) less.prems(2) by blast
    then show ?thesis using less.prems(2) [OF r(2)] r(4) by auto
  qed
qed

lemma mapE_all: "mapE f xs = Inr ys \<Longrightarrow> \<forall>y \<in> set ys. \<exists>x \<in> set xs. f x = Inr y"
  by (induction xs arbitrary: ys) (fastforce simp: bindE_eq_Inr)+

lemma checkStreamSize_Inr:
  assumes "checkStreamSize h n m re = Inr re'"
  shows "re' = re" and "re_objectType re = objectStream \<Longrightarrow> unat (re_streamSize re) < 2 ^ 63"
proof -
  show "re' = re" using assms by (auto simp: checkStreamSize_def Let_def split: if_splits)
  assume "re_objectType re = objectStream"
  then have "\<not> 2 ^ 63 - 1 < re_streamSize re"
    using assms by (auto simp: checkStreamSize_def Let_def split: if_splits)
  then show "unat (re_streamSize re) < 2 ^ 63" by (simp add: word_less_nat_alt)
qed

lemma parseEntryBuf_valid:
  "parseEntryBuf h n m buf = Inr es \<Longrightarrow> \<forall>e \<in> set es. entry_valid e \<and> wf_rawEntry (h_MajorVersion h) e"
proof
  fix e assume "parseEntryBuf h n m buf = Inr es" "e \<in> set es"
  then obtain j re where "parseEntry (drop (j * direntrySize) buf) (h_MajorVersion h) = Inr re"
    "checkStreamSize h n m re = Inr e"
    unfolding parseEntryBuf_def by (fastforce simp: bindE_eq_Inr dest!: mapE_all)
  then show "entry_valid e \<and> wf_rawEntry (h_MajorVersion h) e"
    using checkStreamSize_Inr [of h n m re e] parseEntry_wf unfolding entry_valid_def by blast
qed

lemma parseEntries_Inr:
  assumes "parseEntries rd h fat miniFAT = Inr es"
  shows "es \<noteq> []" "re_objectType (hd es) = objectRoot" "\<forall>e \<in> set es. entry_valid e"
    "\<forall>e \<in> set es. wf_rawEntry (h_MajorVersion h) e"
  using assms by (auto simp: parseEntries_def bindE_eq_Inr hd_conv_nth split: if_splits
      dest!: loadBatches_all [where P = "\<lambda>e. entry_valid e \<and> wf_rawEntry (h_MajorVersion h) e"] parseEntryBuf_valid)

definition sizes_fit :: "nat \<Rightarrow> rawEntry list \<Rightarrow> bool" where
  "sizes_fit secSize es \<longleftrightarrow>
     (\<forall>e \<in> set es. re_objectType e = objectStream \<longrightarrow> numSectorsOf (re_streamSize e) secSize * 4 \<le> maxAlloc)"

lemma entry_valid_data: "\<forall>e \<in> set es. entry_valid e \<Longrightarrow> sizes_fit secSize es \<Longrightarrow> has_data secSize es"
  by (auto simp: has_data_def entry_valid_def wf_rawEntry_def sizes_fit_def)

lemma loadParser_Inr:
  assumes "loadParser rd = Inr p"
  shows "valid_header (pr_h p)" "pr_secSize p = h_secSize (pr_h p)" "pr_entries p \<noteq> []"
    "re_objectType (hd (pr_entries p)) = objectRoot" "\<forall>e \<in> set (pr_entries p). entry_valid e"
  using assms by (auto simp: loadParser_def bindE_eq_Inr split: option.splits
      dest: parseHeader_valid parseEntries_Inr)

lemma newReader_Inr:
  assumes "newReader rd = Inr (h, root)"
  obtains p s ids out where "loadParser rd = Inr p" "h = pr_h p" "root = StorageE s out"
    "re_storage (hd (pr_entries p)) = Some s"
    "dir_tree p (pr_entries p) (re_childID (hd (pr_entries p))) ids out" "distinct ids"
proof -
  obtain p where p: "loadParser rd = Inr p" "buildRoot p = Inr root" "h = pr_h p"
    using assms by (auto simp: newReader_def bindE_eq_Inr)
  have "pr_entries p ! 0 = hd (pr_entries p)" using loadParser_Inr(3) [OF p(1)] by (simp add: hd_conv_nth)
  then show thesis using buildRoot_tree [OF p(2)] that [OF p(1,3)] by metis
qed

lemma newReader_readable:
  assumes "newReader rd = Inr (h, root)"
  shows "\<forall>st \<in> set (entry_streams root). readable st"
proof -
  obtain p s ids out where p: "loadParser rd = Inr p" "root = StorageE s out"
    "dir_tree p (pr_entries p) (re_childID (hd (pr_entries p))) ids out"
    using newReader_Inr [OF assms] by metis
  have "pr_secSize p = 512 \<or> pr_secSize p = 4096"
    using loadParser_Inr(1,2) [OF p(1)] valid_header_secSize by metis
  then show ?thesis using dir_tree_readable [OF p(3) loadParser_Inr(5) [OF p(1)]] p(2) by auto
qed

section \<open>A reader that keeps its contract\<close>

text \<open>
  What \<open>io.ReaderAt\<close> promises for any input: at most the bytes asked for, all of them when there is
  no error; and an error it returns is a value, not a panic.
\<close>

definition conforming :: "goerr readerAt \<Rightarrow> bool" where
  "conforming rd \<longleftrightarrow> (\<forall>off n. length (fst (rd off n)) \<le> n \<and>
     (snd (rd off n) = None \<longrightarrow> length (fst (rd off n)) = n) \<and>
     snd (rd off n) \<notin> {Some Panic, Some MakePanic, Some OutOfFuel})"

lemma conforming_bytes: "conforming (bytesReaderAt EOF src)"
  by (auto simp: conforming_def bytesReaderAt_def Let_def slice_def split: prod.splits if_splits)

lemma readSectors_loop_length:
  "readSectors_loop rd secSize sectors first i out = Inr buf \<Longrightarrow> conforming rd \<Longrightarrow> first < i \<Longrightarrow>
   first < length sectors \<or> length sectors < i \<Longrightarrow> first \<le> length sectors \<Longrightarrow> i \<le> Suc (length sectors) \<Longrightarrow>
   length sectors < i \<longrightarrow> first = length sectors \<Longrightarrow>
   length buf = length out + (length sectors - first) * secSize"
proof (induction "Suc (length sectors) - i" arbitrary: first i out rule: less_induct)
  case less
  note total = readSectors_loop_total [OF less.prems(4), of rd secSize out]
  show ?case
  proof (cases "length sectors < i")
    case True
    then show ?thesis using less.prems(1,7) unfolding total if_P [OF True] by simp
  next
    case i: False
    show ?thesis
    proof (cases "i < length sectors \<and> sectors ! i = sectors ! (i - 1) + 1")
      case True
      then have rec: "readSectors_loop rd secSize sectors first (i + 1) out = Inr buf"
        using less.prems(1) i by (simp add: total)
      show ?thesis using less.prems(2,3) True by (intro less.hyps [OF _ rec]) auto
    next
      case False
      obtain got where got: "rd ((unat (sectors ! first) + 1) * secSize) ((i - first) * secSize) = (got, None)"
        and rec: "readSectors_loop rd secSize sectors i (i + 1) (out @ got) = Inr buf"
        using less.prems(1) unfolding total if_not_P [OF i] if_not_P [OF False] Let_def
        by (auto split: prod.splits option.splits)
      have "length got = (i - first) * secSize" using less.prems(2) got unfolding conforming_def by (metis fst_conv snd_conv)
      moreover have "length buf = length (out @ got) + (length sectors - i) * secSize"
        using less.prems(2) i by (intro less.hyps [OF _ rec]) auto
      moreover have "(i - first) * secSize + (length sectors - i) * secSize = (length sectors - first) * secSize"
        using less.prems(3,5,6) i by (simp flip: add_mult_distrib)
      ultimately show ?thesis by simp
    qed
  qed
qed

lemma readSectors_length:
  "readSectors rd secSize sectors = Inr buf \<Longrightarrow> conforming rd \<Longrightarrow> length buf = length sectors * secSize"
  using readSectors_loop_length [of rd secSize sectors 0 1 "[]" buf]
  by (cases "sectors = []") (auto simp: readSectors_def)

text \<open>A parser that makes one item of every \<open>unit_size\<close> bytes makes as many as the sectors hold.\<close>

lemma loadBatches_length:
  assumes rd: "conforming rd" and unit_size: "unit_size dvd secSize" "0 < unit_size"
    and f: "\<And>buf ys. f buf = Inr ys \<Longrightarrow> length ys = length buf div unit_size"
  shows "loadBatches f rd secSize bufSize secs = Inr xs \<Longrightarrow> length xs = length secs * (secSize div unit_size)"
proof (induction "length secs" arbitrary: secs xs rule: less_induct)
  case less
  let ?batch = "bufSize div secSize"
  show ?case
  proof (cases "secs = []")
    case True
    then show ?thesis using less.prems by (simp add: loadBatches_total [OF refl])
  next
    case False
    then have b: "?batch \<noteq> 0" using less.prems by (subst (asm) loadBatches_total [OF refl]) (auto split: if_splits)
    obtain buf as bs where r: "readSectors rd secSize (take ?batch secs) = Inr buf" "f buf = Inr as"
      "loadBatches f rd secSize bufSize (drop ?batch secs) = Inr bs" "xs = as @ bs"
      using less.prems False b by (subst (asm) loadBatches_total [OF refl]) (auto simp: bindE_eq_Inr)
    have "length as = length (take ?batch secs) * secSize div unit_size"
      using f [OF r(2)] readSectors_length [OF r(1) rd] by simp
    also have "\<dots> = length (take ?batch secs) * (secSize div unit_size)" using unit_size by (simp add: div_mult_swap)
    finally have "length xs = (length (take ?batch secs) + length (drop ?batch secs)) * (secSize div unit_size)"
      using less.hyps [OF _ r(3)] False b r(4) by (simp add: add_mult_distrib)
    moreover have "length (take ?batch secs) + length (drop ?batch secs) = length secs"
      by (metis append_take_drop_id length_append)
    ultimately show ?thesis by simp
  qed
qed

lemma loadFAT_length:
  assumes "conforming rd" "valid_header h" "loadFAT rd h = Inr fat"
  shows "length fat = unat (h_NumFATSectors h) * (h_secSize h div 4)"
proof -
  obtain secs where "readDIFAT rd h = Inr secs"
    "loadBatches (\<lambda>buf. Inr (u32s buf)) rd (h_secSize h) (bufLen h) secs = Inr fat"
    using assms(3) unfolding loadFAT_total [OF assms(2)] by (auto simp: bindE_eq_Inr)
  moreover have "4 dvd h_secSize h" using valid_header_secSize [OF assms(2)] by auto
  ultimately show ?thesis
    using loadBatches_length [OF assms(1), of 4 "h_secSize h" "\<lambda>buf. Inr (u32s buf)" "bufLen h" secs fat]
      readDIFAT_regular(1) by (auto simp: length_u32s)
qed

text \<open>As many entries are parsed as the directory has room for, so \<open>p.entries[id]\<close> stays in range.\<close>

lemma parseEntryBuf_length: "parseEntryBuf h n m buf = Inr es \<Longrightarrow> length es = length buf div direntrySize"
  by (auto simp: parseEntryBuf_def dest!: mapE_length)

lemma parseEntries_length:
  assumes "conforming rd" "valid_header h" "parseEntries rd h fat miniFAT = Inr es"
  obtains chain where "walkChain fat (h_FirstDirSector h) (unat (h_NumDirSectors h)) = Inr chain"
    "length es = length chain * (h_secSize h div direntrySize)"
proof -
  obtain chain where c: "walkChain fat (h_FirstDirSector h) (unat (h_NumDirSectors h)) = Inr chain"
    "loadBatches (parseEntryBuf h (length fat) (length miniFAT)) rd (h_secSize h) (bufLen h) chain = Inr es"
    using assms(3) unfolding parseEntries_total [OF assms(2)] by (auto simp: bindE_eq_Inr split: if_splits)
  have "direntrySize dvd h_secSize h" "0 < direntrySize"
    using valid_header_secSize [OF assms(2)] by (auto simp: direntrySize_def)
  from loadBatches_length [OF assms(1) this _ c(2)] have "length es = length chain * (h_secSize h div direntrySize)"
    using parseEntryBuf_length by blast
  then show thesis by (rule that [OF c(1)])
qed

section \<open>Its errors\<close>

text \<open>\<open>file_error rd e\<close>: the file is malformed, or \<open>e\<close> is an error of a read.\<close>

definition file_error :: "goerr readerAt \<Rightarrow> goerr \<Rightarrow> bool" where
  "file_error rd e \<longleftrightarrow> (\<exists>r. e = ErrFormat r) \<or> (\<exists>off n. snd (rd off n) = Some e)"

text \<open>
  The one input for which \<open>NewReader\<close> panics: everything before the mini stream is accepted, and the
  size of the root entry, which nothing has checked against the FAT, is of so many sectors that
  \<open>walkChain\<close> asks \<open>make\<close> for more than \<open>2 ^ 48\<close> bytes. The addition is that of \<open>uint64\<close>.
\<close>

definition root_too_big :: "goerr readerAt \<Rightarrow> bool" where
  "root_too_big rd \<longleftrightarrow> (\<exists>h fat miniFAT es.
     parseHeader rd = Inr h \<and> checkFileSize rd h = None \<and> loadFAT rd h = Inr fat \<and>
     loadMiniFAT rd h fat = Inr miniFAT \<and> parseEntries rd h fat miniFAT = Inr es \<and>
     re_startSector (hd es) \<noteq> endOfChain \<and>
     2 ^ 46 < (unat (re_streamSize (hd es)) + h_secSize h - 1) mod 2 ^ 64 div h_secSize h)"

lemma numSectorsOf_mod:
  assumes "0 < S" "S < 2 ^ 32"
  shows "numSectorsOf sz S = (unat sz + S - 1) mod 2 ^ 64 div S"
proof -
  have S: "unat (word_of_nat S :: u64) = S"
    using assms(2) by (simp add: unsigned_of_nat take_bit_nat_eq_self_iff)
  have "sz + word_of_nat S - 1 = word_of_nat (unat sz + S - 1)" using assms(1) by (simp add: of_nat_diff)
  then have "unat (sz + word_of_nat S - 1 :: u64) = (unat sz + S - 1) mod 2 ^ 64"
    by (simp add: unsigned_of_nat take_bit_eq_mod)
  then show ?thesis by (simp add: numSectorsOf_def unat_div S)
qed

lemma file_error_format [simp]: "file_error rd (ErrFormat r)"
  by (simp add: file_error_def)

lemma file_error_rd: "rd off n = (got, Some e) \<Longrightarrow> file_error rd e"
  by (metis file_error_def snd_conv)

lemma readSectors_loop_Inl:
  "readSectors_loop rd secSize sectors first i out = Inl e \<Longrightarrow> first < length sectors \<or> length sectors < i \<Longrightarrow>
   file_error rd e"
proof (induction "Suc (length sectors) - i" arbitrary: first i out rule: less_induct)
  case less
  note total = readSectors_loop_total [OF less.prems(2), of rd secSize out]
  show ?case
  proof (cases "length sectors < i \<or> i < length sectors \<and> sectors ! i = sectors ! (i - 1) + 1")
    case True
    then have "readSectors_loop rd secSize sectors first (i + 1) out = Inl e" "i \<le> length sectors"
      using less.prems(1) unfolding total by (auto split: if_splits)
    then show ?thesis using less.prems(2) by (intro less.hyps) auto
  next
    case False
    obtain got err where r: "rd ((unat (sectors ! first) + 1) * secSize) ((i - first) * secSize) = (got, err)"
      by fastforce
    then have "(case err of Some e \<Rightarrow> Inl e | None \<Rightarrow> readSectors_loop rd secSize sectors i (i + 1) (out @ got)) = Inl e"
      using less.prems(1) False unfolding total Let_def by (simp only: prod.case split: if_split_asm) auto
    moreover have "readSectors_loop rd secSize sectors i (i + 1) (out @ got) = Inl e \<Longrightarrow> file_error rd e"
      using False by (intro less.hyps) auto
    ultimately show ?thesis using r by (cases err) (auto dest: file_error_rd)
  qed
qed

lemma readSectors_Inl: "readSectors rd secSize sectors = Inl e \<Longrightarrow> file_error rd e"
  unfolding readSectors_def by (erule readSectors_loop_Inl) auto

lemma difatCells_Inl: "difatCells r vs = Inl e \<Longrightarrow> e = ErrFormat r"
  by (induction vs) (auto simp: bindE_eq_Inl split: if_splits)

lemma difat_loop_Inl: "difat_loop n rd secSize sec out = Inl e \<Longrightarrow> file_error rd e"
proof (induction n arbitrary: sec out)
  case (Suc n)
  obtain buf err where r: "rd ((unat sec + 1) * secSize) secSize = (buf, err)" by fastforce
  then show ?case
    using Suc by (cases err) (auto simp: Let_def split_beta bindE_eq_Inl split: if_splits
        dest: difatCells_Inl file_error_rd)
qed simp

lemma loadBatches_Nil: "loadBatches f rd secSize bufSize [] = Inr []"
  by (simp add: loadBatches_total [OF refl])

lemma loadBatches_Inl:
  "loadBatches f rd secSize bufSize secs = Inl e \<Longrightarrow> 0 < bufSize div secSize \<Longrightarrow> (\<And>buf e. f buf = Inl e \<Longrightarrow> file_error rd e) \<Longrightarrow>
   file_error rd e"
proof (induction "length secs" arbitrary: secs rule: less_induct)
  case less
  let ?batch = "bufSize div secSize"
  note total = loadBatches_total [OF refl, of f rd secSize bufSize secs]
  show ?case
  proof (cases "secs = []")
    case True
    then show ?thesis using less.prems(1) by (simp add: loadBatches_Nil)
  next
    case False
    have b: "?batch \<noteq> 0" using less.prems(2) by simp
    note eq = less.prems(1) [unfolded total if_not_P [OF False] if_not_P [OF b]]
    from eq consider "readSectors rd secSize (take ?batch secs) = Inl e"
      | buf where "readSectors rd secSize (take ?batch secs) = Inr buf" "f buf = Inl e"
      | buf xs where "readSectors rd secSize (take ?batch secs) = Inr buf" "f buf = Inr xs"
        "loadBatches f rd secSize bufSize (drop ?batch secs) = Inl e"
      by (auto simp: bindE_eq_Inl bindE_eq_Inr)
    then show ?thesis
    proof cases
      case 1
      then show ?thesis by (rule readSectors_Inl)
    next
      case 2
      then show ?thesis using less.prems(3) by blast
    next
      case 3
      have "length (drop ?batch secs) < length secs" using False b by simp
      from less.hyps [OF this 3(3) less.prems(2,3)] show ?thesis .
    qed
  qed
qed

lemma parseEntryName_Inl: "parseEntryName ot us l = Inl e \<Longrightarrow> length us = nameMaxUnits \<Longrightarrow> \<exists>r. e = ErrFormat r"
  by (auto simp: parseEntryName_total Let_def split: if_splits)

lemma parseEntry_Inl: "parseEntry buf v = Inl e \<Longrightarrow> direntrySize \<le> length buf \<Longrightarrow> \<exists>r. e = ErrFormat r"
  by (auto simp: parseEntry_def Let_def split_beta bindE_eq_Inl u16.length_rb_many dest!: parseEntryName_Inl split: if_splits)

lemma parseEntryBuf_Inl: "parseEntryBuf h n m buf = Inl e \<Longrightarrow> \<exists>r. e = ErrFormat r"
proof -
  assume "parseEntryBuf h n m buf = Inl e"
  then obtain j where j: "j < length buf div direntrySize"
    "bindE (parseEntry (drop (j * direntrySize) buf) (h_MajorVersion h)) (checkStreamSize h n m) = Inl e"
    unfolding parseEntryBuf_def by (fastforce dest!: mapE_Inl)
  have "Suc j * direntrySize \<le> length buf div direntrySize * direntrySize" using j(1) by (intro mult_le_mono1) simp
  also have "\<dots> \<le> length buf" by (rule div_times_less_eq_dividend)
  finally have "direntrySize \<le> length (drop (j * direntrySize) buf)" by simp
  then show ?thesis
    using j(2) parseEntry_Inl by (auto simp: bindE_eq_Inl checkStreamSize_def Let_def split: if_splits)
qed

lemma walkChain_word:
  fixes n :: u32
  assumes "walkChain fat first (unat n) = Inl e"
  shows "file_error rd e"
proof -
  have "unat n < 2 ^ 32" using unsigned_less [of n] by simp
  then show ?thesis using walkChain_error [OF assms] by (auto simp: maxAlloc_def)
qed

lemma loadParser_Inl:
  assumes "loadParser rd = Inl e"
  shows "file_error rd e \<or> e = MakePanic \<and> root_too_big rd"
proof (cases "parseHeader rd")
  case (Inl e')
  then show ?thesis
    using assms by (auto simp: loadParser_def parseHeader_def Let_def file_error_rd validateHeader_def
        split: prod.splits option.splits if_splits)
next
  case (Inr h)
  note v = parseHeader_valid [OF Inr]
  note b = batch_pos [OF v, unfolded batchOf_def]
  have table: "loadBatches (\<lambda>buf. Inr (u32s buf)) rd (h_secSize h) (bufLen h) secs = Inl e' \<Longrightarrow> file_error rd e'" for secs e'
    by (rule loadBatches_Inl [OF _ b]) auto
  have entries: "loadBatches (parseEntryBuf h n m) rd (h_secSize h) (bufLen h) secs = Inl e' \<Longrightarrow> file_error rd e'" for n m secs e'
    by (rule loadBatches_Inl [OF _ b]) (auto dest!: parseEntryBuf_Inl)
  have difat: "readDIFAT rd h = Inl e' \<Longrightarrow> file_error rd e'" for e'
    by (auto simp: readDIFAT_total [OF v] bindE_eq_Inl dest!: difatCells_Inl dest: difat_loop_Inl split: if_splits)
  have size: "checkFileSize rd h = Some e' \<Longrightarrow> file_error rd e'" for e'
    by (auto simp: checkFileSize_def Let_def file_error_rd split: prod.splits if_splits)
  have fat: "loadFAT rd h = Inl e' \<Longrightarrow> file_error rd e'" for e'
    by (auto simp: loadFAT_total [OF v] bindE_eq_Inl dest: difat table)
  have miniFAT: "loadMiniFAT rd h fat = Inl e' \<Longrightarrow> file_error rd e'" for fat e'
    by (auto simp: loadMiniFAT_total [OF v] bindE_eq_Inl dest: walkChain_word table split: if_splits)
  have dir: "parseEntries rd h fat miniFAT = Inl e' \<Longrightarrow> file_error rd e'" for fat miniFAT e'
    by (auto simp: parseEntries_total [OF v] bindE_eq_Inl dest: walkChain_word entries split: if_splits)
  have S: "0 < h_secSize h" "h_secSize h < 2 ^ 32" using valid_header_secSize [OF v] by auto
  have mini: "file_error rd e' \<or> e' = MakePanic \<and> root_too_big rd"
    if "checkFileSize rd h = None" "loadFAT rd h = Inr fat" "loadMiniFAT rd h fat = Inr miniFAT"
      "parseEntries rd h fat miniFAT = Inr es" "loadMiniStream h fat es = Inl e'" for fat miniFAT es e'
  proof -
    have "es \<noteq> []" using that(4) by (rule parseEntries_Inr)
    then have "re_startSector (hd es) \<noteq> endOfChain"
      "walkChain fat (re_startSector (hd es)) (numSectorsOf (re_streamSize (hd es)) (h_secSize h)) = Inl e'"
      using that(5) by (auto simp: loadMiniStream_total split: if_splits)
    then show ?thesis
      using walkChain_error that(1-4) Inr unfolding root_too_big_def maxAlloc_def numSectorsOf_mod [OF S]
      by fastforce
  qed
  show ?thesis
    using assms Inr by (auto simp: loadParser_def bindE_eq_Inl dest: size fat miniFAT dir mini split: option.splits)
qed

text \<open>The sizes \<open>parseEntries\<close> accepts for streams are bounded by the FAT.\<close>

lemma checkStreamSize_fit:
  assumes "checkStreamSize h n m re = Inr re'" "re_objectType re = objectStream"
    and n: "n \<le> 2 ^ 42" and S: "h_secSize h = 512 \<or> h_secSize h = 4096"
  shows "numSectorsOf (re_streamSize re) (h_secSize h) * 4 \<le> maxAlloc"
proof -
  let ?S = "h_secSize h" and ?sz = "re_streamSize re"
  have "unat ?sz < 2 ^ 63" "0 < ?S" "?S < 2 ^ 32" using checkStreamSize_Inr(2) [OF assms(1,2)] S by auto
  then have num: "numSectorsOf ?sz ?S = (unat ?sz + ?S - 1) div ?S" by (rule numSectorsOf_eq)
  have "numSectorsOf ?sz ?S \<le> 2 ^ 42"
  proof (cases "?sz < word_of_nat miniStreamCutoff")
    case True
    then have "unat ?sz < 4096" by (simp add: word_less_nat_alt miniStreamCutoff_def)
    moreover have "(unat ?sz + ?S - 1) div ?S \<le> unat ?sz + ?S - 1" by (rule div_le_dividend)
    ultimately show ?thesis using S num by auto
  next
    case False
    have "?sz \<le> word_of_nat n * word_of_nat ?S"
      using assms(1,2) False by (auto simp: checkStreamSize_def Let_def not_less split: if_splits)
    then have "unat ?sz \<le> unat (word_of_nat (n * ?S) :: u64)" by (simp add: word_le_nat_alt)
    also have "\<dots> = n * ?S mod 2 ^ 64" by (simp add: unsigned_of_nat take_bit_eq_mod del: of_nat_mult)
    also have "\<dots> \<le> n * ?S" by (rule mod_less_eq_dividend)
    finally have "(unat ?sz + ?S - 1) div ?S \<le> n" using ceil_div_le_iff [OF \<open>0 < ?S\<close>] by blast
    then show ?thesis using n num by simp
  qed
  then show ?thesis by (simp add: maxAlloc_def)
qed

lemma parseEntries_fit:
  assumes "conforming rd" "valid_header h" "loadFAT rd h = Inr fat" "parseEntries rd h fat miniFAT = Inr es"
  shows "sizes_fit (h_secSize h) es"
proof -
  let ?P = "\<lambda>e. re_objectType e = objectStream \<longrightarrow> numSectorsOf (re_streamSize e) (h_secSize h) * 4 \<le> maxAlloc"
  have S: "h_secSize h = 512 \<or> h_secSize h = 4096" using assms(2) by (rule valid_header_secSize)
  have "unat (h_NumFATSectors h) < 2 ^ 32" using unsigned_less [of "h_NumFATSectors h"] by simp
  then have "unat (h_NumFATSectors h) \<le> 2 ^ 32" by simp
  then have "unat (h_NumFATSectors h) * (h_secSize h div 4) \<le> 2 ^ 32 * 2 ^ 10" using S by (intro mult_le_mono) auto
  then have n: "length fat \<le> 2 ^ 42" using loadFAT_length [OF assms(1-3)] by simp
  have "\<forall>e \<in> set ys. ?P e" if ys: "parseEntryBuf h (length fat) (length miniFAT) buf = Inr ys" for buf ys
  proof
    fix e assume "e \<in> set ys"
    then obtain j re where "checkStreamSize h (length fat) (length miniFAT) re = Inr e"
      using ys unfolding parseEntryBuf_def by (fastforce simp: bindE_eq_Inr dest!: mapE_all)
    then show "?P e" using checkStreamSize_fit [OF _ _ n S] checkStreamSize_Inr(1) by metis
  qed
  moreover obtain chain where
    "loadBatches (parseEntryBuf h (length fat) (length miniFAT)) rd (h_secSize h) (bufLen h) chain = Inr es"
    using assms(4) unfolding parseEntries_total [OF assms(2)] by (auto simp: bindE_eq_Inr split: if_splits)
  ultimately show ?thesis using loadBatches_all [where P = ?P] unfolding sizes_fit_def by blast
qed

lemma loadParser_fit:
  assumes "conforming rd" "loadParser rd = Inr p"
  shows "sizes_fit (pr_secSize p) (pr_entries p)"
proof -
  obtain h fat miniFAT where "parseHeader rd = Inr h" "loadFAT rd h = Inr fat"
    "parseEntries rd h fat miniFAT = Inr (pr_entries p)" "pr_secSize p = h_secSize h"
    using assms(2) by (auto simp: loadParser_def bindE_eq_Inr split: option.splits)
  then show ?thesis using parseEntries_fit [OF assms(1) parseHeader_valid] by metis
qed

text \<open>\<open>NewReader\<close> returns on every input, and panics for a root entry that is too big only.\<close>

lemma newReader_Inl:
  assumes "conforming rd" "newReader rd = Inl e"
  shows "file_error rd e \<or> e = MakePanic \<and> root_too_big rd"
proof (cases "loadParser rd")
  case (Inl e')
  then show ?thesis using assms(2) loadParser_Inl by (simp add: newReader_def)
next
  case (Inr p)
  note p = loadParser_Inr [OF Inr]
  have e: "buildRoot p = Inl e" using assms(2) Inr by (auto simp: newReader_def bindE_eq_Inl)
  then have "e \<noteq> OutOfFuel" using buildRoot_fuel by blast
  have root: "pr_entries p ! 0 \<in> set (pr_entries p)" "re_objectType (pr_entries p ! 0) = objectRoot"
    using p(3,4) by (simp_all add: hd_conv_nth)
  then have "re_storage (pr_entries p ! 0) \<noteq> None" using p(5) by (auto simp: entry_valid_def wf_rawEntry_def)
  then obtain c where "walkBST (Suc (length (pr_entries p))) p c (pr_entries p) [] = Inl e"
    using e by (auto simp: buildRoot_total [OF p(3)] bindE_eq_Inl simp del: walkBST.simps
        split: if_splits option.splits)
  from walkBST_Inl [OF this entry_valid_data [OF p(5) loadParser_fit [OF assms(1) Inr]]] show ?thesis
    using \<open>e \<noteq> OutOfFuel\<close> by (auto simp: file_error_def)
qed

lemma root_too_big_panics:
  assumes "root_too_big rd"
  shows "newReader rd = Inl MakePanic" and "\<exists>h. parseHeader rd = Inr h \<and> h_MajorVersion h = 4"
proof -
  obtain h fat miniFAT es where r: "parseHeader rd = Inr h" "checkFileSize rd h = None" "loadFAT rd h = Inr fat"
    "loadMiniFAT rd h fat = Inr miniFAT" "parseEntries rd h fat miniFAT = Inr es"
    "re_startSector (hd es) \<noteq> endOfChain"
    and big: "2 ^ 46 < (unat (re_streamSize (hd es)) + h_secSize h - 1) mod 2 ^ 64 div h_secSize h"
    using assms unfolding root_too_big_def by blast
  note v = parseHeader_valid [OF r(1)]
  have S: "0 < h_secSize h" "h_secSize h < 2 ^ 32" "h_secSize h - 1 < 2 ^ 46" using valid_header_secSize [OF v] by auto
  have num: "2 ^ 46 < numSectorsOf (re_streamSize (hd es)) (h_secSize h)" using big unfolding numSectorsOf_mod [OF S(1,2)] .
  have "re_streamSize (hd es) \<noteq> 0"
  proof
    assume "re_streamSize (hd es) = 0"
    then have "numSectorsOf (re_streamSize (hd es)) (h_secSize h) = 0"
      using S by (simp add: numSectorsOf_mod)
    then show False using num by simp
  qed
  moreover have "walkChain fat (re_startSector (hd es)) (numSectorsOf (re_streamSize (hd es)) (h_secSize h)) = Inl MakePanic"
    using num by (intro walkChain_make) (simp add: maxAlloc_def)
  ultimately have "loadMiniStream h fat es = Inl MakePanic"
    using r(6) parseEntries_Inr(1) [OF r(5)] by (simp add: loadMiniStream_total)
  then show "newReader rd = Inl MakePanic" using r by (simp add: newReader_def loadParser_def)
  have "h_MajorVersion h \<noteq> 3"
  proof
    assume "h_MajorVersion h = 3"
    then have "unat (re_streamSize (hd es)) < 2 ^ 32"
      using parseEntries_Inr(1,4) [OF r(5)] by (auto simp: wf_rawEntry_def)
    then have "unat (re_streamSize (hd es)) + h_secSize h - 1 < 2 ^ 46"
      using valid_header_secSize [OF v] by auto
    moreover have "(unat (re_streamSize (hd es)) + h_secSize h - 1) mod 2 ^ 64 div h_secSize h
        \<le> unat (re_streamSize (hd es)) + h_secSize h - 1"
      by (rule order_trans [OF div_le_dividend mod_less_eq_dividend])
    ultimately show False using big by linarith
  qed
  then show "\<exists>h. parseHeader rd = Inr h \<and> h_MajorVersion h = 4" using v r(1) by (auto simp: valid_header_def)
qed

section \<open>A file that panics\<close>

lemma loadFAT_sectors:
  assumes "strict_reader_at rd src EOF" "valid_header h" "readDIFAT rd h = Inr secs"
    and "\<forall>sec \<in> set secs. in_file src (h_secSize h) sec"
  shows "loadFAT rd h = Inr (u32s (concat (map (sector_bytes src (h_secSize h)) secs)))"
proof -
  have "h_secSize h = 512 \<or> h_secSize h = 4096" using assms(2) by (rule valid_header_secSize)
  then have S: "0 < h_secSize h" "4 dvd h_secSize h" by auto
  have "\<forall>sec \<in> set secs. in_file src (h_secSize h) sec \<and> sec \<le> maxRegSect"
    using assms(4) readDIFAT_regular(2) [OF assms(3)] by blast
  then show ?thesis
    using table_parser.loadBatches_eq [OF assms(1) S batch_pos [OF assms(2), unfolded batchOf_def]] assms(3)
    by (simp add: loadFAT_total [OF assms(2)])
qed

text \<open>
  A file of three sectors that panics: the header, a directory sector of 32 equal root entries
  whose size is \<open>2 ^ 63\<close>, and a FAT sector in which the directory is one sector.
\<close>

definition big_root :: direntry where
  "big_root = \<lparr>de_name = [0x52], de_clsid = replicate 16 0, de_stateBits = 0, de_created = 0,
     de_modified = 0, de_size = 2 ^ 63, de_objectType = objectRoot, de_leftSib = noStream,
     de_rightSib = noStream, de_childID = noStream, de_startSec = 0\<rparr>"

definition big_root_file :: bytes where
  "big_root_file = headerSector 4096 sample_regions @
     (case encodeDirentry big_root of Inl e \<Rightarrow> [] | Inr b \<Rightarrow> concat (replicate 32 b)) @
     concat (map wb_uint32 (endOfChain # replicate 1023 freeSect))"

lemma big_root_entry:
  obtains b re where "encodeDirentry big_root = Inr b" "length b = direntrySize"
    "\<And>rest. parseEntry (b @ rest) 4 = Inr re" "re_objectType re = objectRoot" "re_startSector re = 0"
    "re_streamSize re = 2 ^ 63"
proof -
  obtain b where b: "encodeDirentry big_root = Inr b"
    by (simp add: encodeDirentry_def big_root_def nameMaxUnits_def)
  have "wf_direntry big_root" "de_name big_root \<noteq> []" "de_objectType big_root \<noteq> objectUnallocated"
    "\<not> containsAny (utf16_decode (de_name big_root)) forbiddenRunes"
    by (simp_all add: big_root_def wf_direntry_def object_defs containsAny_def forbiddenRunes_def)
  note parse = parse_encodeDirentry [OF this b, of _ 4]
  have "length b = direntrySize" using encodeDirentry_length [OF b] by (simp add: big_root_def)
  from that [OF b this parse] show thesis by (simp add: big_root_def version_size_def)
qed

lemma parseEntryBuf_replicate:
  assumes "length b = direntrySize" "\<And>rest. parseEntry (b @ rest) (h_MajorVersion h) = Inr re"
    "re_objectType re \<noteq> objectStream"
  shows "parseEntryBuf h n m (concat (replicate k b)) = Inr (replicate k re)"
proof (induction k)
  case 0
  then show ?case by (simp add: parseEntryBuf_def)
next
  case (Suc k)
  have "parseEntryBuf h n m b = Inr [re]"
    using assms(1,3) assms(2) [of "[]"] by (simp add: parseEntryBuf_def checkStreamSize_def direntrySize_def)
  then show ?case using Suc by (simp add: parseEntryBuf_append assms(1))
qed

lemma big_root_too_big: "root_too_big (bytesReaderAt EOF big_root_file)"
proof -
  obtain b re where b: "encodeDirentry big_root = Inr b" "length b = direntrySize"
    "\<And>rest. parseEntry (b @ rest) 4 = Inr re" "re_objectType re = objectRoot" "re_startSector re = 0"
    "re_streamSize re = 2 ^ 63"
    using big_root_entry by blast
  let ?rd = "bytesReaderAt EOF big_root_file" and ?h = "headerOf 4096 sample_regions"
  let ?dir = "concat (replicate 32 b)" and ?cells = "endOfChain # replicate 1023 freeSect :: u32 list"
  let ?fat = "concat (map wb_uint32 ?cells)"
  note rd = bytes_reader.strict_reader_at_axioms [of EOF big_root_file]
  have fit: "regions_fit 4096 sample_regions"
    by (simp add: regions_fit_def sample_regions_def endOfChain_def)
  note v = headerOf_valid [OF fit]
  have S: "h_secSize ?h = 4096" by (simp add: h_secSize_headerOf)
  have src: "big_root_file = headerSector 4096 sample_regions @ ?dir @ ?fat" by (simp add: big_root_file_def b(1))
  have len: "length (headerSector 4096 sample_regions) = 4096" "length ?dir = 4096" "length ?fat = 4096"
    by (simp_all only: u32.length_puts)
      (simp_all add: headerSector_def length_encodeHeader headerSize_def length_concat sum_list_replicate b(2) direntrySize_def)
  have sec: "sector_bytes big_root_file 4096 0 = ?dir" "sector_bytes big_root_file 4096 1 = ?fat"
    unfolding src sector_bytes_def slice_def using len by (simp_all del: map_replicate list.map(2))
  have inf: "in_file big_root_file 4096 0" "in_file big_root_file 4096 1"
    unfolding src in_file_def length_append len by simp_all
  have header: "parseHeader ?rd = Inr ?h"
    by (rule parse_headerSector [OF fit rd]) (simp add: src len del: map_replicate list.map(2))
  have h: "h_NumFATSectors ?h = 1" "h_FirstDirSector ?h = 0" "h_NumDirSectors ?h = 1" "h_NumMiniFATSectors ?h = 0"
    "h_NumDIFATSectors ?h = 0" "h_FirstDIFATSector ?h = endOfChain" "h_MajorVersion ?h = 4"
    by (simp_all add: headerOf_def sample_regions_def majorOf_def Let_def)
  have "declaredSize ?h \<le> probeThreshold" by (simp add: declaredSize_def S probeThreshold_def h)
  then have size: "checkFileSize ?rd ?h = None" by (simp add: checkFileSize_def)
  have "h_DIFAT ?h = 1 # replicate 108 freeSect"
    by (simp add: headerOf_def sample_regions_def inlineDIFAT_def)
  moreover have "difatCells r (replicate n freeSect) = Inr []" for r n by (induction n) simp_all
  ultimately have d: "readDIFAT ?rd ?h = Inr [1]"
    unfolding readDIFAT_total [OF v] by (simp add: h sect_defs)
  have "u32s ?fat = ?cells" using u32.rb_many_put [of ?cells "[]"] len(3) by (simp add: u32s_def del: map_replicate list.map(2))
  then have fat: "loadFAT ?rd ?h = Inr ?cells"
    using loadFAT_sectors [OF rd v d] by (simp add: S sec inf)
  have mini: "loadMiniFAT ?rd ?h ?cells = Inr []"
    by (simp add: loadMiniFAT_def h)
  have "walkChain ?cells 0 1 = Inr [0]"
    by (simp add: walkChain_iff chain_path_Cons chain_path_Nil sect_defs)
  moreover have "loadBatches (parseEntryBuf ?h 1024 0) ?rd 4096 (bufLen ?h) [0] = Inr (replicate 32 re)"
    using entry_parser.loadBatches_eq [OF rd, of 4096 "bufLen ?h" "[0]" ?h 1024 0]
      parseEntryBuf_replicate [of b ?h re 1024 0 32] b(2-4) h(7) batch_pos [OF v]
    by (simp add: sec inf S batchOf_def direntrySize_def object_defs)
  ultimately have dir: "parseEntries ?rd ?h ?cells [] = Inr (replicate 32 re)"
    by (simp add: parseEntries_total [OF v] S direntrySize_def b(4) h)
  show ?thesis
    unfolding root_too_big_def using header size fat mini dir b(5,6) S
    by (intro exI conjI) (auto simp: endOfChain_def)
qed

section \<open>Claims\<close>



text \<open>C17: \<open>loadFAT\<close> reads the FAT whole: its cells are the 32-bit words of all FAT sectors in DIFAT
  order, however the sectors are grouped into batches of the 64 KiB buffer and into single reads.\<close>

theorem loadFAT_exact:
  assumes "strict_reader_at rd src EOF" "valid_header h" "readDIFAT rd h = Inr secs"
    and "\<forall>sec \<in> set secs. in_file src (h_secSize h) sec"
  shows "loadFAT rd h = Inr (u32s (concat (map (sector_bytes src (h_secSize h)) secs)))"
  by (rule loadFAT_sectors [OF assms])

theorem loadFAT_exact_witness:
  "\<exists>fat. loadFAT (bytesReaderAt EOF (replicate 2048 1)) (headerOf 512 sample_regions) = Inr fat \<and> length fat = 128"
proof -
  let ?h = "headerOf 512 sample_regions" and ?src = "replicate 2048 1 :: bytes"
  have S: "h_secSize ?h = 512" by (simp add: h_secSize_headerOf)
  have v: "valid_header ?h"
    by (rule headerOf_valid) (simp add: regions_fit_def sample_regions_def endOfChain_def)
  have "h_DIFAT ?h = 1 # replicate 108 freeSect"
    by (simp add: headerOf_def sample_regions_def inlineDIFAT_def)
  moreover have "difatCells r (replicate n freeSect) = Inr []" for r n by (induction n) simp_all
  ultimately have d: "readDIFAT (bytesReaderAt EOF ?src) ?h = Inr [1]"
    unfolding readDIFAT_total [OF v]
    by (simp add: headerOf_def sample_regions_def sect_defs inlineDIFAT_def)
  have "\<forall>sec \<in> set [1]. in_file ?src (h_secSize ?h) sec" by (simp add: in_file_def S)
  from loadFAT_exact [OF bytes_reader.strict_reader_at_axioms v d this] show ?thesis
    by (simp add: S length_u32s sector_bytes_def)
qed

text \<open>A batch of the parsing loops always holds at least one sector: the scratch buffer is sized from
  the header's counts, of which the FAT count is not zero, so the loops advance.\<close>

theorem batch_never_empty:
  assumes "parseHeader rd = Inr h"
  shows "0 < batchOf h \<and> bufLen h \<le> 2 ^ 16"
  using batch_pos [OF parseHeader_valid [OF assms]] by (simp add: bufLen_def)

theorem batch_never_empty_witness:
  "0 < batchOf (headerOf 512 sample_regions)"
proof -
  have fit: "regions_fit 512 sample_regions"
    by (simp add: regions_fit_def sample_regions_def endOfChain_def)
  have "length (headerSector 512 sample_regions) = 512"
    by (simp add: headerSector_def length_encodeHeader headerSize_def)
  then have "take 512 (headerSector 512 sample_regions) = headerSector 512 sample_regions" by simp
  from parse_headerSector [OF fit bytes_reader.strict_reader_at_axioms this] show ?thesis
    by (rule batch_never_empty [THEN conjunct1])
qed

end
