(* ===== verification/OpenFile.thy ===== *)
theory OpenFile
  imports Reader
begin

text \<open>
  \<open>OpenReader\<close> and \<open>ReadCloser\<close> of reader.go: a reader that owns the file it reads. The files are the parameter
  \<open>osfs\<close>: package os as functions of the state \<open>'w\<close> of the file system. A panic of \<open>NewReader\<close> leaves
  \<open>OpenReader\<close> before its call of \<open>Close\<close>, which is not deferred.
\<close>

record ('w, 'f) osfs =
  os_open :: "gostring \<Rightarrow> 'w \<Rightarrow> (goerr + 'f) \<times> 'w"
  os_close :: "'f \<Rightarrow> 'w \<Rightarrow> goerr option \<times> 'w"
  os_readAt :: "'w \<Rightarrow> 'f \<Rightarrow> goerr readerAt"

record 'f readCloser =
  rc_header :: header
  rc_root :: entry
  rc_f :: 'f

definition openReader :: "('w, 'f) osfs \<Rightarrow> gostring \<Rightarrow> 'w \<Rightarrow> (goerr + 'f readCloser) \<times> 'w" where
  "openReader os name w =
     (case os_open os name w of (Inl e, w) \<Rightarrow> (Inl e, w)
      | (Inr f, w) \<Rightarrow>
        case newReader (os_readAt os w f) of
          Inl e \<Rightarrow>
            if e \<in> {Panic, MakePanic} then (Inl e, w)
            else (case os_close os f w of (ignored, w) \<Rightarrow> (Inl e, w))
        | Inr (h, root) \<Rightarrow> (Inr \<lparr>rc_header = h, rc_root = root, rc_f = f\<rparr>, w))"

definition closeReader :: "('w, 'f) osfs \<Rightarrow> 'f readCloser \<Rightarrow> 'w \<Rightarrow> goerr option \<times> 'w" where
  "closeReader os rc w = os_close os (rc_f rc) w"

text \<open>
  A file that is opened is closed exactly once: by \<open>OpenReader\<close> where \<open>NewReader\<close> refuses it, by \<open>Close\<close> where not; it
  stays open where \<open>NewReader\<close> panics. \<open>owned\<close> are the files open in a state.
\<close>

lemma openReader_owns:
  assumes opens: "\<And>v f v'. os_open os name v = (Inr f, v') \<Longrightarrow> owned v' = add_mset f (owned v)"
    and fails: "\<And>v e v'. os_open os name v = (Inl e, v') \<Longrightarrow> owned v' = owned v"
    and closes: "\<And>f v e v'. os_close os f v = (e, v') \<Longrightarrow> owned v' = owned v - {#f#}"
    and o: "openReader os name w = (r, w')"
  shows "(\<forall>e. r = Inl e \<and> e \<notin> {Panic, MakePanic} \<longrightarrow> owned w' = owned w) \<and>
    (\<forall>rc. r = Inr rc \<longrightarrow> owned w' = add_mset (rc_f rc) (owned w) \<and> list_all readable (entry_streams (rc_root rc)) \<and>
      owned (snd (closeReader os rc w')) = owned w)"
proof (cases "os_open os name w")
  case (Pair op v)
  show ?thesis
  proof (cases op)
    case (Inl e)
    then show ?thesis using Pair o fails by (auto simp: openReader_def)
  next
    case (Inr f)
    obtain e v' where c: "os_close os f v = (e, v')" by fastforce
    have ow: "owned v = add_mset f (owned w)" using opens Pair Inr by blast
    show ?thesis
    proof (cases "newReader (os_readAt os v f)")
      case (Inl x)
      then show ?thesis using Pair Inr o c closes [OF c] ow by (auto simp: openReader_def split: if_splits)
    next
      case (Inr hr)
      obtain h root where hr: "hr = (h, root)" by fastforce
      have rb: "list_all readable (entry_streams root)"
        using newReader_readable [of "os_readAt os v f" h root] Inr hr by (auto simp: list_all_iff)
      show ?thesis
        using Pair \<open>op = Inr f\<close> Inr hr o c closes [OF c] ow rb by (auto simp: openReader_def closeReader_def)
    qed
  qed
qed

end
