(* ===== verification/Writer.thy ===== *)
theory Writer
  imports Names Filetime
begin

text \<open>
  The writing side before \<open>Writer.Close\<close>: \<open>Writer\<close>, \<open>StorageWriter\<close>, \<open>StreamWriter\<close> and their
  operations.

  The storages form a tree (\<open>storageW\<close>), and a \<open>*StorageWriter\<close> the caller holds is the path of
  child indices from the root: storages are only ever appended before \<open>Close\<close>. Streams live in an
  arena (\<open>w_streams\<close>), a \<open>*StreamWriter\<close> is an index into it, and the tree lists the streams of
  each storage by index. Each operation runs under the writer's mutex where the code takes it, so
  concurrent calls are sequences of these operations.

  The underlying writer is the parameter \<open>wr\<close>: given all the bytes it has accepted so far and the
  bytes to write, how many it accepts and its error. \<open>cw_out\<close> is what it has accepted, which is
  the file from byte \<open>secSize\<close> on (\<open>seekOnce\<close> skips the header sector). File positions are Go
  \<open>int64\<close> and stream sizes \<open>uint64\<close>; a file cannot reach those bounds, so they are \<open>nat\<close>. Sector
  numbers are kept at their 32 bits, with the conversions the code has.
\<close>

type_synonym sink = "bytes \<Rightarrow> bytes \<Rightarrow> nat \<times> goerr option"

record countWriter =
  cw_out :: bytes
  cw_count :: nat

record sectorRun =
  sr_first :: u32
  sr_count :: u32

record streamW =
  sw_stateBits :: u32
  sw_name :: "u16 list"
  sw_closed :: bool
  sw_buf :: bytes
  sw_chain :: "sectorRun list"
  sw_size :: nat

record storageMeta =
  sg_clsid :: bytes
  sg_stateBits :: u32
  sg_created :: gotime
  sg_modified :: gotime
  sg_name :: "u16 list"

datatype storageW = StorageW (sg_meta: storageMeta) (sg_storages: "storageW list") (sg_streams: "nat list")

record writer =
  w_secSize :: nat
  w_cw :: countWriter
  w_miniBuf :: bytes
  w_miniSecs :: "u32 list"
  w_descendants :: u32
  w_closed :: bool
  w_root :: storageW
  w_streams :: "streamW list"

section \<open>newWriter\<close>

definition rootName :: "u16 list" where
  "rootName = utf16_encode [0x52, 0x6F, 0x6F, 0x74, 0x20, 0x45, 0x6E, 0x74, 0x72, 0x79]"

definition newMeta :: "u16 list \<Rightarrow> storageMeta" where
  "newMeta name = \<lparr>sg_clsid = replicate 16 0, sg_stateBits = 0, sg_created = zeroTime,
     sg_modified = zeroTime, sg_name = name\<rparr>"

definition newWriter :: "nat \<Rightarrow> writer" where
  "newWriter secSize =
     \<lparr>w_secSize = secSize, w_cw = \<lparr>cw_out = [], cw_count = secSize\<rparr>, w_miniBuf = [],
      w_miniSecs = [], w_descendants = 1, w_closed = False,
      w_root = StorageW (newMeta rootName) [] [], w_streams = []\<rparr>"

definition newWriterV3 :: writer where "newWriterV3 = newWriter 512"

definition newWriterV4 :: writer where "newWriterV4 = newWriter 4096"

section \<open>countWriter and the mini stream\<close>

definition cw_write :: "sink \<Rightarrow> countWriter \<Rightarrow> bytes \<Rightarrow> countWriter \<times> goerr option" where
  "cw_write wr cw p =
     (let (n, err) = wr (cw_out cw) p
      in (\<lparr>cw_out = cw_out cw @ take n p, cw_count = cw_count cw + n\<rparr>, err))"

definition sectorIdx :: "writer \<Rightarrow> nat" where
  "sectorIdx w = cw_count (w_cw w) div w_secSize w - 1"

text \<open>
  \<open>writeMini\<close>. A buffer beyond a sector would make \<open>p[:n]\<close> slice with a negative length, and a
  zero sector size would make \<open>sectorIdx\<close> divide by zero; neither happens to a \<open>newWriter\<close>.
\<close>

function writeMini :: "sink \<Rightarrow> writer \<Rightarrow> bytes \<Rightarrow> writer \<times> goerr option" where
  "writeMini wr w p =
     (if p = [] then (w, None)
      else if w_secSize w < length (w_miniBuf w) \<or> w_secSize w = 0 then (w, Some Panic)
      else
       let n = min (length p) (w_secSize w - length (w_miniBuf w));
           w = w\<lparr>w_miniBuf := w_miniBuf w @ take n p\<rparr>;
           p = drop n p
       in if length (w_miniBuf w) = w_secSize w then
            let sec = word_of_nat (sectorIdx w);
                (cw, err) = cw_write wr (w_cw w) (w_miniBuf w);
                w = w\<lparr>w_cw := cw\<rparr>
            in case err of
                 Some e \<Rightarrow> (w, Some e)
               | None \<Rightarrow> writeMini wr (w\<lparr>w_miniSecs := w_miniSecs w @ [sec], w_miniBuf := []\<rparr>) p
          else writeMini wr w p)"
  by pat_completeness auto
termination
  by (relation "measures [\<lambda>(wr, w, p). length p, \<lambda>(wr, w, p). length (w_miniBuf w)]") auto

declare writeMini.simps [simp del]

section \<open>StreamWriter\<close>

definition w_upd :: "writer \<Rightarrow> nat \<Rightarrow> streamW \<Rightarrow> writer" where
  "w_upd w sid s = w\<lparr>w_streams := (w_streams w)[sid := s]\<rparr>"

definition addRun :: "sectorRun list \<Rightarrow> u32 \<Rightarrow> u32 \<Rightarrow> sectorRun list" where
  "addRun chain first sectors =
     (if chain \<noteq> [] \<and> sr_first (last chain) + sr_count (last chain) = first
      then butlast chain @ [(last chain)\<lparr>sr_count := sr_count (last chain) + sectors\<rparr>]
      else chain @ [\<lparr>sr_first = first, sr_count = sectors\<rparr>])"

definition flush :: "sink \<Rightarrow> writer \<Rightarrow> nat \<Rightarrow> bytes \<Rightarrow> writer \<times> goerr option" where
  "flush wr w sid b =
     (let s = w_streams w ! sid;
          sectors = word_of_nat ((length (sw_buf s) + length b) div w_secSize w);
          first = word_of_nat (sectorIdx w);
          (cw, err) = cw_write wr (w_cw w) (sw_buf s);
          w = w\<lparr>w_cw := cw\<rparr>
      in case err of Some e \<Rightarrow> (w, Some e) | None \<Rightarrow>
         let (cw, err) = cw_write wr (w_cw w) b;
             w = w\<lparr>w_cw := cw\<rparr>
         in case err of Some e \<Rightarrow> (w, Some e) | None \<Rightarrow>
            (w_upd w sid (s\<lparr>sw_chain := addRun (sw_chain s) first sectors, sw_buf := []\<rparr>), None))"

text \<open>One round of the loop of \<open>Write\<close>: the new state and either the rest of \<open>p\<close> or the end.\<close>

definition writeRoom :: "writer \<Rightarrow> nat \<Rightarrow> bytes \<Rightarrow> int" where
  "writeRoom w sid p =
     (let s = w_streams w ! sid in
      if sw_size s < miniStreamCutoff then int miniStreamCutoff - int (sw_size s)
      else if sw_buf s \<noteq> [] then int (w_secSize w) - int (length (sw_buf s))
      else int (length p div w_secSize w * w_secSize w))"

definition write_iter :: "sink \<Rightarrow> writer \<Rightarrow> nat \<Rightarrow> bytes \<Rightarrow> writer \<times> nat \<times> goerr option" where
  "write_iter wr w sid p =
     (let s = w_streams w ! sid; room = writeRoom w sid p in
      if room = 0 \<or> int (length p) < room then
        (w_upd w sid (s\<lparr>sw_buf := sw_buf s @ p, sw_size := sw_size s + length p\<rparr>), length p, None)
      else if room < 0 then (w, 0, Some Panic)
      else let (w, err) = flush wr w sid (take (nat room) p) in
        case err of Some e \<Rightarrow> (w, 0, Some e) | None \<Rightarrow>
          let s = w_streams w ! sid
          in (w_upd w sid (s\<lparr>sw_size := sw_size s + nat room\<rparr>), nat room, None))"

lemma write_iter_progress:
  assumes "p \<noteq> []" "write_iter wr w sid p = (w', k, None)"
  shows "0 < k" "k \<le> length p"
  using assms by (auto simp: write_iter_def Let_def split: if_splits option.splits prod.splits)

lemma write_iter_shorter:
  "p \<noteq> [] \<Longrightarrow> (w', k, None) = write_iter wr w sid p \<Longrightarrow> length p - k < length p"
  using write_iter_progress [of p wr w sid w' k] by (cases p) auto

text \<open>The loop \<open>for len(p) > 0\<close>; \<open>n\<close> counts the bytes written.\<close>

function write_loop :: "sink \<Rightarrow> writer \<Rightarrow> nat \<Rightarrow> bytes \<Rightarrow> nat \<Rightarrow> writer \<times> nat \<times> goerr option" where
  "write_loop wr w sid p n =
     (if p = [] then (w, n, None)
      else case write_iter wr w sid p of
        (w, k, Some e) \<Rightarrow> (w, n, Some e)
      | (w, k, None) \<Rightarrow> write_loop wr w sid (drop k p) (n + k))"
  by pat_completeness auto

termination
  by (relation "measure (\<lambda>(wr, w, sid, p, n). length p)") (auto intro: write_iter_shorter)

declare write_loop.simps [simp del]

definition writeStream :: "sink \<Rightarrow> writer \<Rightarrow> nat \<Rightarrow> bytes \<Rightarrow> writer \<times> nat \<times> goerr option" where
  "writeStream wr w sid p =
     (let s = w_streams w ! sid in
      if sw_closed s then (w, 0, Some ErrWriteOnClosed)
      else if p = [] then (w, 0, None)
      else if w_secSize w = 512 \<and> streamSizeMaxV3 < sw_size s + length p then (w, 0, Some ErrV3Cap)
      else write_loop wr w sid p 0)"

definition padMini :: "bytes \<Rightarrow> bytes" where
  "padMini b = (let rem = length b mod miniSectorSize
     in if rem \<noteq> 0 then b @ replicate (miniSectorSize - rem) 0 else b)"

definition closeStream :: "sink \<Rightarrow> writer \<Rightarrow> nat \<Rightarrow> writer \<times> goerr option" where
  "closeStream wr w sid =
     (let s = w_streams w ! sid in
      if sw_closed s then (w, None)
      else if sw_size s = 0 then (w_upd w sid (s\<lparr>sw_closed := True\<rparr>), None)
      else if miniStreamCutoff \<le> sw_size s then
        (let (w, err) = (if w_secSize w < length (sw_buf s) then (w, Some Panic)
             else if sw_buf s \<noteq> []
             then flush wr w sid (replicate (w_secSize w - length (sw_buf s)) 0) else (w, None))
         in case err of Some e \<Rightarrow> (w, Some e) | None \<Rightarrow>
           (w_upd w sid ((w_streams w ! sid)\<lparr>sw_buf := [], sw_closed := True\<rparr>), None))
      else
        (let padded = padMini (sw_buf s);
             totalMini = length (w_miniSecs w) * w_secSize w + length (w_miniBuf w);
             first = word_of_nat (totalMini div miniSectorSize);
             count = word_of_nat (length padded div miniSectorSize);
             (w, err) = writeMini wr w padded
         in case err of Some e \<Rightarrow> (w, Some e) | None \<Rightarrow>
           (w_upd w sid (s\<lparr>sw_chain := [\<lparr>sr_first = first, sr_count = count\<rparr>],
              sw_buf := [], sw_closed := True\<rparr>), None)))"

section \<open>StorageWriter\<close>

text \<open>The storage at a path, and its replacement.\<close>

fun sg_at :: "storageW \<Rightarrow> nat list \<Rightarrow> storageW option" where
  "sg_at sg [] = Some sg"
| "sg_at (StorageW m sgs sts) (i # path) = (if i < length sgs then sg_at (sgs ! i) path else None)"

fun sg_map_at :: "(storageW \<Rightarrow> storageW) \<Rightarrow> storageW \<Rightarrow> nat list \<Rightarrow> storageW" where
  "sg_map_at f sg [] = f sg"
| "sg_map_at f (StorageW m sgs sts) (i # path) =
     (if i < length sgs then StorageW m (sgs[i := sg_map_at f (sgs ! i) path]) sts
      else StorageW m sgs sts)"

fun sg_add_storage :: "storageW \<Rightarrow> storageW \<Rightarrow> storageW" where
  "sg_add_storage c (StorageW m sgs sts) = StorageW m (sgs @ [c]) sts"

fun sg_add_stream :: "nat \<Rightarrow> storageW \<Rightarrow> storageW" where
  "sg_add_stream sid (StorageW m sgs sts) = StorageW m sgs (sts @ [sid])"

definition sg_name_of :: "storageW \<Rightarrow> u16 list" where
  "sg_name_of sg = sg_name (sg_meta sg)"

definition stream_name :: "writer \<Rightarrow> nat \<Rightarrow> u16 list" where
  "stream_name w sid = sw_name (w_streams w ! sid)"

definition validateChildName :: "writer \<Rightarrow> storageW \<Rightarrow> gostring \<Rightarrow> goerr + u16 list" where
  "validateChildName w sg name =
     (if w_closed w then Inl ErrWriterClosed
      else bindE (encodeName name) (\<lambda>enc.
        if list_ex (\<lambda>c. compareNames enc (sg_name_of c) = 0) (sg_storages sg) then Inl ErrDuplicateName
        else if list_ex (\<lambda>c. compareNames enc (stream_name w c) = 0) (sg_streams sg)
        then Inl ErrDuplicateName
        else Inr enc))"

definition newStream :: "u16 list \<Rightarrow> streamW" where
  "newStream enc = \<lparr>sw_stateBits = 0, sw_name = enc, sw_closed = False, sw_buf = [], sw_chain = [],
     sw_size = 0\<rparr>"

text \<open>A path that is no storage of this writer is not a \<open>*StorageWriter\<close> of it.\<close>

definition createStream :: "writer \<Rightarrow> nat list \<Rightarrow> gostring \<Rightarrow> goerr + writer \<times> nat" where
  "createStream w path name = (case sg_at (w_root w) path of None \<Rightarrow> Inl Panic | Some sg \<Rightarrow>
     bindE (validateChildName w sg name) (\<lambda>enc.
       let sid = length (w_streams w)
       in Inr (w\<lparr>w_streams := w_streams w @ [newStream enc],
                w_root := sg_map_at (sg_add_stream sid) (w_root w) path,
                w_descendants := w_descendants w + 1\<rparr>, sid)))"

definition createStorage :: "writer \<Rightarrow> nat list \<Rightarrow> gostring \<Rightarrow> goerr + writer \<times> nat list" where
  "createStorage w path name = (case sg_at (w_root w) path of None \<Rightarrow> Inl Panic | Some sg \<Rightarrow>
     bindE (validateChildName w sg name) (\<lambda>enc.
       Inr (w\<lparr>w_root := sg_map_at (sg_add_storage (StorageW (newMeta enc) [] [])) (w_root w) path,
             w_descendants := w_descendants w + 1\<rparr>, path @ [length (sg_storages sg)])))"

end
