(* ===== verification/WriterInv.thy ===== *)
theory WriterInv
  imports Writer
begin

text \<open>
  What the writer keeps true while streams are written in any interleaving: the file is whole
  sectors, each owned by exactly one chain; the runs of a regular stream hold, in order, what was
  written to it, followed by its buffer; the mini stream is the miniSecs followed by \<open>miniBuf\<close>,
  and a closed small stream is a run of mini sectors in it.

  The bounds \<open>fits\<close> say that sector and mini-sector numbers have not outgrown their 32 bits: the
  code has no check for that (see the root theory).
\<close>

section \<open>Geometry\<close>

definition sink_ok :: "sink \<Rightarrow> bool" where
  "sink_ok wr \<longleftrightarrow> (\<forall>h p. wr h p = (length p, None))"

definition outB :: "writer \<Rightarrow> bytes" where
  "outB w = cw_out (w_cw w)"

definition nsec :: "writer \<Rightarrow> nat" where
  "nsec w = length (outB w) div w_secSize w"

definition mini_len :: "writer \<Rightarrow> nat" where
  "mini_len w = length (w_miniSecs w) * w_secSize w + length (w_miniBuf w)"

definition fits :: "writer \<Rightarrow> bool" where
  "fits w \<longleftrightarrow> nsec w < 2 ^ 32 \<and> mini_len w div miniSectorSize < 2 ^ 32"

definition geom :: "writer \<Rightarrow> bool" where
  "geom w \<longleftrightarrow> (w_secSize w = 512 \<or> w_secSize w = 4096) \<and>
     cw_count (w_cw w) = w_secSize w + length (outB w) \<and> w_secSize w dvd length (outB w) \<and>
     length (w_miniBuf w) < w_secSize w \<and> miniSectorSize dvd length (w_miniBuf w)"

lemma geom_secSize: "geom w \<Longrightarrow> 0 < w_secSize w" "geom w \<Longrightarrow> w_secSize w dvd miniStreamCutoff"
  "geom w \<Longrightarrow> miniSectorSize dvd w_secSize w"
  by (auto simp: geom_def size_defs)

lemma geom_out: "geom w \<Longrightarrow> length (outB w) = nsec w * w_secSize w"
  by (simp add: geom_def nsec_def)

lemma geom_sectorIdx: "geom w \<Longrightarrow> sectorIdx w = nsec w"
  by (auto simp: geom_def sectorIdx_def nsec_def)

section \<open>Runs of sectors in a byte sequence\<close>

definition rdata :: "nat \<Rightarrow> bytes \<Rightarrow> sectorRun \<Rightarrow> bytes" where
  "rdata S out r = slice (unat (sr_first r) * S) (unat (sr_count r) * S) out"

definition rsecs :: "sectorRun \<Rightarrow> nat list" where
  "rsecs r = [unat (sr_first r) ..< unat (sr_first r) + unat (sr_count r)]"

definition cdata :: "nat \<Rightarrow> bytes \<Rightarrow> sectorRun list \<Rightarrow> bytes" where
  "cdata S out chain = concat (map (rdata S out) chain)"

definition csecs :: "sectorRun list \<Rightarrow> nat list" where
  "csecs chain = concat (map rsecs chain)"

text \<open>Every run lies within the first \<open>n\<close> sectors and is not empty.\<close>

definition runs_in :: "nat \<Rightarrow> sectorRun list \<Rightarrow> bool" where
  "runs_in n chain \<longleftrightarrow> (\<forall>r \<in> set chain. sr_count r \<noteq> 0 \<and> unat (sr_first r) + unat (sr_count r) \<le> n)"

lemma runs_in_mono: "runs_in n chain \<Longrightarrow> n \<le> m \<Longrightarrow> runs_in m chain"
  by (force simp: runs_in_def)

lemma rdata_append:
  assumes "unat (sr_first r) + unat (sr_count r) \<le> n" "length out = n * S"
  shows "rdata S (out @ new) r = rdata S out r"
proof -
  have "(unat (sr_first r) + unat (sr_count r)) * S \<le> n * S" using assms(1) by (rule mult_le_mono1)
  then show ?thesis using assms(2) by (simp add: rdata_def slice_append add_mult_distrib)
qed

lemma cdata_append: "runs_in n chain \<Longrightarrow> length out = n * S \<Longrightarrow> cdata S (out @ new) chain = cdata S out chain"
  by (auto simp: cdata_def runs_in_def intro!: arg_cong [of _ _ concat] rdata_append)

lemma length_cdata: "runs_in n chain \<Longrightarrow> length out = n * S \<Longrightarrow> length (cdata S out chain) = length (csecs chain) * S"
proof (induction chain)
  case Nil
  then show ?case by (simp add: cdata_def csecs_def)
next
  case (Cons r chain)
  have "(unat (sr_first r) + unat (sr_count r)) * S \<le> n * S"
    using Cons.prems(1) by (intro mult_le_mono1) (simp add: runs_in_def)
  then have "length (rdata S out r) = unat (sr_count r) * S"
    using Cons.prems(2) by (simp add: rdata_def add_mult_distrib)
  then show ?case
    using Cons by (simp add: cdata_def csecs_def rsecs_def runs_in_def add_mult_distrib)
qed

text \<open>Appending \<open>k\<close> sectors at the end of the file to a chain, merged with its last run or not.\<close>

lemma addRun_appends:
  assumes chain: "runs_in n chain" and out: "length out = n * S" "length new = k * S"
    and k: "0 < k" "n + k < 2 ^ 32"
  defines "chain' \<equiv> addRun chain (word_of_nat n) (word_of_nat k)"
  shows "runs_in (n + k) chain'" and "csecs chain' = csecs chain @ [n..<n + k]"
    and "cdata S (out @ new) chain' = cdata S out chain @ new"
proof -
  let ?N = "word_of_nat n :: u32" and ?K = "word_of_nat k :: u32"
  have w: "unat ?N = n" "unat ?K = k"
    using k by (simp_all add: unsigned_of_nat take_bit_nat_eq_self_iff)
  have K0: "?K \<noteq> 0" using w(2) k(1) by (metis unat_0 less_irrefl)
  have new: "slice (n * S) (k * S) (out @ new) = new" using out by (simp add: slice_def)
  have old: "cdata S (out @ new) chain = cdata S out chain"
    using chain out(1) by (rule cdata_append)
  have "runs_in (n + k) chain' \<and> csecs chain' = csecs chain @ [n..<n + k] \<and>
    cdata S (out @ new) chain' = cdata S out chain @ new"
  proof (cases "chain \<noteq> [] \<and> sr_first (last chain) + sr_count (last chain) = ?N")
    case False
    then have "chain' = chain @ [\<lparr>sr_first = ?N, sr_count = ?K\<rparr>]"
      by (auto simp: chain'_def addRun_def)
    then show ?thesis
      using runs_in_mono [OF chain, of "n + k"] K0 w new old
      by (simp add: runs_in_def csecs_def cdata_def rsecs_def rdata_def)
  next
    case True
    then obtain pre l where c: "chain = pre @ [l]" by (metis append_butlast_last_id)
    let ?l = "l\<lparr>sr_count := sr_count l + ?K\<rparr>"
    have c': "chain' = pre @ [?l]" using True c by (simp add: chain'_def addRun_def)
    have l: "unat (sr_first l) + unat (sr_count l) \<le> n" using chain c by (simp add: runs_in_def)
    then have "unat (sr_first l + sr_count l) = unat (sr_first l) + unat (sr_count l)"
      using k(2) by (simp add: unat_word_ariths)
    then have adj: "unat (sr_first l) + unat (sr_count l) = n" using True c w(1) by simp
    have cnt: "unat (sr_count ?l) = unat (sr_count l) + k"
      using adj k(2) w(2) by (simp add: unat_word_ariths)
    have first: "sr_first ?l = sr_first l" by simp
    have "sr_count ?l \<noteq> 0" using cnt k(1) by (metis add_gr_0 less_irrefl unat_0)
    moreover have "rsecs ?l = rsecs l @ [n..<n + k]"
    proof -
      have "unat (sr_first l) + unat (sr_count ?l) = n + k" using adj cnt by linarith
      then show ?thesis
        using adj upt_add_eq_append [of "unat (sr_first l)" n k] by (simp only: rsecs_def first)
    qed
    moreover have "rdata S (out @ new) ?l = rdata S (out @ new) l @ new"
    proof -
      have "unat (sr_first l) * S + unat (sr_count l) * S = n * S"
        by (simp flip: adj add: add_mult_distrib)
      then show ?thesis
        using slice_add [of "unat (sr_first l) * S" "unat (sr_count l) * S" "out @ new" "k * S"] new
        by (simp only: rdata_def cnt add_mult_distrib first)
    qed
    ultimately show ?thesis
      using runs_in_mono [OF chain, of "n + k"] c c' old cnt adj
      by (simp add: runs_in_def csecs_def cdata_def)
  qed
  then show "runs_in (n + k) chain'" "csecs chain' = csecs chain @ [n..<n + k]"
    "cdata S (out @ new) chain' = cdata S out chain @ new" by auto
qed

section \<open>The invariant\<close>

definition mini_data :: "writer \<Rightarrow> bytes" where
  "mini_data w = concat (map (\<lambda>s. slice (unat s * w_secSize w) (w_secSize w) (outB w)) (w_miniSecs w))
     @ w_miniBuf w"

text \<open>
  \<open>stream_ok w st d\<close>: stream \<open>st\<close> has been given exactly the bytes \<open>d\<close>. Below the cutoff they
  are all in the buffer; from the cutoff on, in the sectors of the chain and then the buffer; a
  closed stream is padded to whole sectors, or is one run of padded mini sectors.
\<close>

definition stream_ok :: "writer \<Rightarrow> streamW \<Rightarrow> bytes \<Rightarrow> bool" where
  "stream_ok w st d \<longleftrightarrow> length d = sw_size st \<and> runs_in (if sw_size st < miniStreamCutoff then 2 ^ 32 else nsec w) (sw_chain st) \<and>
     (if sw_size st < miniStreamCutoff then
        (if \<not> sw_closed st then sw_chain st = [] \<and> sw_buf st = d
         else if sw_size st = 0 then sw_chain st = []
         else \<exists>r. sw_chain st = [r] \<and> unat (sr_count r) * miniSectorSize = length (padMini d) \<and>
           (unat (sr_first r) + unat (sr_count r)) * miniSectorSize \<le> length (mini_data w) \<and>
           rdata miniSectorSize (mini_data w) r = padMini d)
      else
        (if \<not> sw_closed st then cdata (w_secSize w) (outB w) (sw_chain st) @ sw_buf st = d \<and>
           length (sw_buf st) < w_secSize w
         else \<exists>z < w_secSize w. cdata (w_secSize w) (outB w) (sw_chain st) = d @ replicate z 0))"

definition regular_secs :: "streamW \<Rightarrow> nat list" where
  "regular_secs st = (if miniStreamCutoff \<le> sw_size st then csecs (sw_chain st) else [])"

definition mini_secs :: "streamW \<Rightarrow> nat list" where
  "mini_secs st = (if sw_size st < miniStreamCutoff then csecs (sw_chain st) else [])"

text \<open>Every sector of the file has one owner, and so has every sector of the mini stream.\<close>

definition owned :: "writer \<Rightarrow> nat multiset" where
  "owned w = mset (map unat (w_miniSecs w)) + mset (concat (map regular_secs (w_streams w)))"

definition winv :: "writer \<Rightarrow> (nat \<Rightarrow> bytes) \<Rightarrow> bool" where
  "winv w D \<longleftrightarrow> geom w \<and> (\<forall>s \<in> set (w_miniSecs w). unat s < nsec w) \<and>
     (\<forall>sid < length (w_streams w). stream_ok w (w_streams w ! sid) (D sid)) \<and>
     owned w = mset [0..<nsec w] \<and>
     mset (concat (map mini_secs (w_streams w))) = mset [0..<mini_len w div miniSectorSize]"

lemma winv_new: "secSize = 512 \<or> secSize = 4096 \<Longrightarrow> winv (newWriter secSize) D"
  by (auto simp: winv_def geom_def newWriter_def nsec_def outB_def owned_def mini_len_def size_defs)

text \<open>Updating one stream of the arena adds to the sectors its chain already had.\<close>

lemma mset_concat_update:
  assumes "i < length xs" "mset (f y) = mset (f (xs ! i)) + N"
  shows "mset (concat (map f (xs[i := y]))) = mset (concat (map f xs)) + N"
  using assms
proof (induction xs arbitrary: i)
  case Nil
  then show ?case by simp
next
  case (Cons x xs)
  then show ?case by (cases i) (simp_all add: ac_simps)
qed

lemma length_mini_data:
  assumes "geom w" "\<forall>s \<in> set (w_miniSecs w). unat s < nsec w"
  shows "length (mini_data w) = mini_len w"
proof -
  have "length (slice (unat s * w_secSize w) (w_secSize w) (outB w)) = w_secSize w"
    if "s \<in> set (w_miniSecs w)" for s
  proof -
    have "Suc (unat s) * w_secSize w \<le> nsec w * w_secSize w"
      using that assms(2) by (intro mult_le_mono1) auto
    then show ?thesis using geom_out [OF assms(1)] by simp
  qed
  then show ?thesis
    using length_concat_const [of "w_miniSecs w" "\<lambda>s. slice (unat s * w_secSize w) (w_secSize w) (outB w)"]
    by (simp add: mini_data_def mini_len_def)
qed

section \<open>Growing the file\<close>

text \<open>\<open>extends w w' new p\<close>: the file has grown by \<open>new\<close>, the mini stream by \<open>p\<close>.\<close>

definition extends :: "writer \<Rightarrow> writer \<Rightarrow> bytes \<Rightarrow> bytes \<Rightarrow> bool" where
  "extends w w' new p \<longleftrightarrow> geom w \<and> geom w' \<and> w_secSize w' = w_secSize w \<and>
     outB w' = outB w @ new \<and> mini_data w' = mini_data w @ p"

lemma extends_nsec: "extends w w' new p \<Longrightarrow> nsec w \<le> nsec w'"
  by (simp add: extends_def nsec_def div_le_mono)

lemma slice_append_ge: "length (slice i n xs) = n \<Longrightarrow> slice i n (xs @ ys) = slice i n xs"
  by (cases "n = 0") (auto simp: slice_def)

text \<open>Growth keeps what the streams hold, also when it stops inside a sector.\<close>

lemma stream_ok_grown:
  assumes g: "geom w" and S: "w_secSize w' = w_secSize w" and out: "outB w' = outB w @ new"
    and mini: "mini_data w' = mini_data w @ p" and ok: "stream_ok w st d"
  shows "stream_ok w' st d"
proof -
  have n: "length (outB w) = nsec w * w_secSize w" using geom_out [OF g] .
  have "nsec w \<le> nsec w'" by (simp add: nsec_def S out div_le_mono)
  then have ri: "runs_in (if sw_size st < miniStreamCutoff then 2 ^ 32 else nsec w') (sw_chain st)"
    using ok runs_in_mono [of "nsec w"] by (auto simp: stream_ok_def)
  show ?thesis
  proof (cases "sw_size st < miniStreamCutoff")
    case True
    have "rdata miniSectorSize (mini_data w @ p) r = rdata miniSectorSize (mini_data w) r"
      if "(unat (sr_first r) + unat (sr_count r)) * miniSectorSize \<le> length (mini_data w)" for r
      using that by (simp add: rdata_def slice_append add_mult_distrib)
    then show ?thesis
      using True ok ri mini by (auto simp: stream_ok_def split: if_splits)
  next
    case False
    then have "cdata (w_secSize w') (outB w') (sw_chain st) = cdata (w_secSize w) (outB w) (sw_chain st)"
      using ok n cdata_append [of "nsec w"] by (simp add: S out stream_ok_def)
    then show ?thesis using False ok ri S by (auto simp: stream_ok_def)
  qed
qed

lemma stream_ok_extends: "extends w w' new p \<Longrightarrow> stream_ok w st d \<Longrightarrow> stream_ok w' st d"
  using stream_ok_grown [of w w' new p] by (simp add: extends_def)

definition grow :: "writer \<Rightarrow> bytes \<Rightarrow> writer" where
  "grow w new = w\<lparr>w_cw := \<lparr>cw_out = outB w @ new, cw_count = cw_count (w_cw w) + length new\<rparr>\<rparr>"

lemma cw_write_ok:
  "sink_ok wr \<Longrightarrow> cw_write wr cw p = (\<lparr>cw_out = cw_out cw @ p, cw_count = cw_count cw + length p\<rparr>, None)"
  by (simp add: cw_write_def sink_ok_def)

lemma grow_sel [simp]:
  "w_secSize (grow w new) = w_secSize w" "outB (grow w new) = outB w @ new"
  "w_streams (grow w new) = w_streams w" "w_miniSecs (grow w new) = w_miniSecs w"
  "w_miniBuf (grow w new) = w_miniBuf w" "w_root (grow w new) = w_root w"
  "mini_len (grow w new) = mini_len w"
  by (simp_all add: grow_def outB_def mini_len_def)

lemma w_upd_sel [simp]:
  "w_secSize (w_upd w sid s) = w_secSize w" "outB (w_upd w sid s) = outB w"
  "w_streams (w_upd w sid s) = (w_streams w)[sid := s]" "w_miniSecs (w_upd w sid s) = w_miniSecs w"
  "w_miniBuf (w_upd w sid s) = w_miniBuf w" "w_cw (w_upd w sid s) = w_cw w"
  "w_root (w_upd w sid s) = w_root w" "nsec (w_upd w sid s) = nsec w"
  "mini_len (w_upd w sid s) = mini_len w" "mini_data (w_upd w sid s) = mini_data w"
  by (simp_all add: w_upd_def outB_def nsec_def mini_len_def mini_data_def)

lemma geom_upd [simp]: "geom (w_upd w sid s) = geom w"
  by (simp add: geom_def)

lemma stream_ok_upd [simp]: "stream_ok (w_upd w sid s) st d = stream_ok w st d"
  by (simp add: stream_ok_def)

lemma nsec_grow: "geom w \<Longrightarrow> length new = k * w_secSize w \<Longrightarrow> nsec (grow w new) = nsec w + k"
  using geom_secSize(1) [of w] geom_out [of w] by (simp add: nsec_def)

lemma geom_grow: "geom w \<Longrightarrow> length new = k * w_secSize w \<Longrightarrow> geom (grow w new)"
  by (auto simp: geom_def) (simp_all add: grow_def outB_def)

lemma mini_data_grow:
  assumes "geom w" "\<forall>s \<in> set (w_miniSecs w). unat s < nsec w"
  shows "mini_data (grow w new) = mini_data w"
proof -
  have "slice (unat s * w_secSize w) (w_secSize w) (outB w @ new) = slice (unat s * w_secSize w) (w_secSize w) (outB w)"
    if "s \<in> set (w_miniSecs w)" for s
  proof -
    have "Suc (unat s) * w_secSize w \<le> nsec w * w_secSize w"
      using that assms(2) by (intro mult_le_mono1) auto
    then show ?thesis using geom_out [OF assms(1)] by (intro slice_append) simp
  qed
  then show ?thesis by (simp add: mini_data_def cong: map_cong)
qed

lemma extends_grow:
  "geom w \<Longrightarrow> \<forall>s \<in> set (w_miniSecs w). unat s < nsec w \<Longrightarrow> length new = k * w_secSize w \<Longrightarrow>
   extends w (grow w new) new []"
  by (auto simp: extends_def mini_data_grow intro: geom_grow)

section \<open>flush\<close>

lemma flush_spec:
  assumes "sink_ok wr" "geom w" "length (sw_buf (w_streams w ! sid)) + length b = k * w_secSize w"
  defines "s \<equiv> w_streams w ! sid"
  shows "flush wr w sid b =
    (w_upd (grow w (sw_buf s @ b)) sid
       (s\<lparr>sw_chain := addRun (sw_chain s) (word_of_nat (nsec w)) (word_of_nat k), sw_buf := []\<rparr>), None)"
proof -
  have "(length (sw_buf s) + length b) div w_secSize w = k"
    using assms geom_secSize(1) [of w] by simp
  moreover have "sectorIdx w = nsec w" using assms(2) by (rule geom_sectorIdx)
  ultimately show ?thesis
    by (simp add: flush_def Let_def cw_write_ok [OF assms(1)] s_def [symmetric] grow_def outB_def add.assoc)
qed

text \<open>The invariant after one stream has been given \<open>k\<close> new sectors.\<close>

lemma winv_grow_stream:
  assumes inv: "winv w D" and sid: "sid < length (w_streams w)" and new: "length new = k * w_secSize w"
    and ok: "stream_ok (grow w new) s' d'"
    and reg: "regular_secs s' = regular_secs (w_streams w ! sid) @ [nsec w ..< nsec w + k]"
    and mini: "mini_secs s' = mini_secs (w_streams w ! sid)"
  shows "winv (w_upd (grow w new) sid s') (D(sid := d'))"
proof -
  have g: "geom w" and ms: "\<forall>s \<in> set (w_miniSecs w). unat s < nsec w"
    using inv by (auto simp: winv_def)
  have n: "nsec (grow w new) = nsec w + k" using g new by (rule nsec_grow)
  have streams: "stream_ok (grow w new) ((w_streams w)[sid := s'] ! i) ((D(sid := d')) i)"
    if "i < length (w_streams w)" for i
    using that ok inv stream_ok_extends [OF extends_grow [OF g ms new]]
    by (cases "i = sid") (auto simp: winv_def)
  have own: "mset (concat (map regular_secs ((w_streams w)[sid := s']))) =
      mset (concat (map regular_secs (w_streams w))) + mset [nsec w ..< nsec w + k]"
    using sid reg by (intro mset_concat_update) (simp_all)
  have mown: "mset (concat (map mini_secs ((w_streams w)[sid := s']))) = mset (concat (map mini_secs (w_streams w)))"
    using mset_concat_update [OF sid, of mini_secs s' "{#}"] mini by simp
  have "mset [0..<nsec w + k] = mset [0..<nsec w] + mset [nsec w ..< nsec w + k]"
    using upt_add_eq_append [of 0 "nsec w" k] by simp
  moreover have "owned (w_upd (grow w new) sid s') = owned w + mset [nsec w ..< nsec w + k]"
    using own by (simp add: owned_def)
  moreover have "\<forall>s \<in> set (w_miniSecs w). unat s < nsec w + k" using ms by auto
  ultimately show ?thesis
    using inv streams mown n geom_grow [OF g new] by (simp add: winv_def)
qed

section \<open>Write\<close>

text \<open>A run of sectors added to a regular stream.\<close>

lemma stream_ok_addRun:
  assumes inv: "winv w D" and new: "length new = k * w_secSize w" "0 < k" "nsec w + k < 2 ^ 32"
    and chain: "runs_in (nsec w) (sw_chain s)"
    and s': "sw_chain s' = addRun (sw_chain s) (word_of_nat (nsec w)) (word_of_nat k)"
      "\<not> sw_size s' < miniStreamCutoff" "length d' = sw_size s'"
    and d': "if \<not> sw_closed s' then sw_buf s' = [] \<and> d' = cdata (w_secSize w) (outB w) (sw_chain s) @ new
      else \<exists>z < w_secSize w. d' @ replicate z 0 = cdata (w_secSize w) (outB w) (sw_chain s) @ new"
  shows "stream_ok (grow w new) s' d'"
    and "regular_secs s' = csecs (sw_chain s) @ [nsec w ..< nsec w + k]"
proof -
  have g: "geom w" using inv by (simp add: winv_def)
  note add = addRun_appends [OF chain geom_out [OF g] new(1,2,3)]
  have "runs_in (nsec (grow w new)) (sw_chain s')"
    using add(1) nsec_grow [OF g new(1)] by (simp add: s'(1))
  then show "stream_ok (grow w new) s' d'"
    using s'(2,3) d' add(3) geom_secSize(1) [OF g] by (auto simp: stream_ok_def s'(1) eq_commute)
  show "regular_secs s' = csecs (sw_chain s) @ [nsec w ..< nsec w + k]"
    using add(2) s'(2) by (simp add: regular_secs_def s'(1))
qed

text \<open>Bytes added to the buffer only.\<close>

lemma winv_buffer:
  assumes inv: "winv w D" and sid: "sid < length (w_streams w)"
    and ok: "stream_ok w s' d'"
    and reg: "regular_secs s' = regular_secs (w_streams w ! sid)"
    and mini: "mini_secs s' = mini_secs (w_streams w ! sid)"
  shows "winv (w_upd w sid s') (D(sid := d'))"
proof -
  have same: "mset (concat (map f ((w_streams w)[sid := s']))) = mset (concat (map f (w_streams w)))"
    if "f s' = f (w_streams w ! sid)" for f
    using mset_concat_update [OF sid, of f s' "{#}"] that by simp
  have "stream_ok w ((w_streams w)[sid := s'] ! i) ((D(sid := d')) i)" if "i < length (w_streams w)" for i
    using that ok inv by (cases "i = sid") (auto simp: winv_def)
  then show ?thesis
    using inv same [of regular_secs] same [of mini_secs] reg mini
    by (simp add: winv_def owned_def)
qed

definition open_stream :: "writer \<Rightarrow> nat \<Rightarrow> bool" where
  "open_stream w sid \<longleftrightarrow> sid < length (w_streams w) \<and> \<not> sw_closed (w_streams w ! sid)"

lemma open_stream_cases:
  assumes "winv w D" "open_stream w sid"
  defines "s \<equiv> w_streams w ! sid"
  obtains (small) "sw_size s < miniStreamCutoff" "sw_chain s = []" "sw_buf s = D sid" "length (D sid) = sw_size s"
  | (regular) "\<not> sw_size s < miniStreamCutoff" "runs_in (nsec w) (sw_chain s)"
      "cdata (w_secSize w) (outB w) (sw_chain s) @ sw_buf s = D sid" "length (D sid) = sw_size s"
      "length (sw_buf s) < w_secSize w"
proof -
  have ok: "stream_ok w s (D sid)" and "\<not> sw_closed s"
    using assms by (simp_all add: winv_def open_stream_def)
  then show thesis
    using small regular by (cases "sw_size s < miniStreamCutoff") (simp_all add: stream_ok_def)
qed

text \<open>One round that only fills the buffer.\<close>

lemma write_iter_fill:
  assumes inv: "winv w D" and op: "open_stream w sid"
    and room: "writeRoom w sid p = 0 \<or> int (length p) < writeRoom w sid p"
  defines "s \<equiv> w_streams w ! sid"
  shows "winv (w_upd w sid (s\<lparr>sw_buf := sw_buf s @ p, sw_size := sw_size s + length p\<rparr>)) (D(sid := D sid @ p))"
proof -
  have g: "geom w" and sid: "sid < length (w_streams w)" and ncl: "\<not> sw_closed s"
    using inv op by (auto simp: winv_def open_stream_def s_def)
  let ?s' = "s\<lparr>sw_buf := sw_buf s @ p, sw_size := sw_size s + length p\<rparr>"
  from inv op show ?thesis
  proof (cases rule: open_stream_cases)
    case small
    then have "sw_size s + length p < miniStreamCutoff"
      using room by (auto simp: writeRoom_def s_def Let_def)
    then show ?thesis
      using small ncl s_def by (intro winv_buffer [OF inv sid])
        (auto simp: stream_ok_def runs_in_def regular_secs_def mini_secs_def)
  next
    case regular
    have "length (sw_buf s) + length p < w_secSize w"
    proof (cases "sw_buf s = []")
      case True
      then have "writeRoom w sid p = int (length p div w_secSize w * w_secSize w)"
        using regular(1) by (simp add: writeRoom_def s_def Let_def)
      moreover have "length p div w_secSize w * w_secSize w \<le> length p"
        by (rule div_times_less_eq_dividend)
      ultimately have "length p div w_secSize w * w_secSize w = 0" using room by linarith
      then show ?thesis using True geom_secSize(1) [OF g] by (auto simp: div_eq_0_iff)
    next
      case False
      then show ?thesis using room regular by (auto simp: writeRoom_def s_def Let_def)
    qed
    then show ?thesis
      using regular ncl s_def by (intro winv_buffer [OF inv sid])
        (auto simp: stream_ok_def regular_secs_def mini_secs_def simp flip: append_assoc)
  qed
qed

end
