(* ===== verification/WriterSteps.thy ===== *)
theory WriterSteps
  imports WriterInv
begin

text \<open>
  The operations of the writer keep the invariant of \<open>WriterInv\<close>, and what each of them does to the
  contents of the streams; then the writer as a transition system whose steps are the operations of
  concurrent callers, a \<open>Write\<close> being interruptible between the rounds of its loop.
\<close>

section \<open>Write\<close>

lemma w_upd_upd [simp]: "w_upd (w_upd w sid a) sid b = w_upd w sid b"
  by (simp add: w_upd_def)

lemma open_stream_upd: "open_stream w sid \<Longrightarrow> \<not> sw_closed s \<Longrightarrow> open_stream (w_upd (grow w new) sid s) sid"
  by (simp add: open_stream_def)

text \<open>The bytes a round that flushes sends to the file are whole sectors.\<close>

lemma flush_sectors:
  assumes inv: "winv w D" and op: "open_stream w sid"
    and room: "0 < writeRoom w sid p" "writeRoom w sid p \<le> int (length p)"
  defines "s \<equiv> w_streams w ! sid" and "r \<equiv> nat (writeRoom w sid p)"
  obtains k where "0 < k" "length (sw_buf s) + length (take r p) = k * w_secSize w"
    "miniStreamCutoff \<le> sw_size s + r" "0 < r" "r \<le> length p"
proof -
  have g: "geom w" using inv by (simp add: winv_def)
  have S: "0 < w_secSize w" "w_secSize w dvd miniStreamCutoff" using geom_secSize [OF g] by auto
  have r: "0 < r" "r \<le> length p" using room by (auto simp: r_def)
  have ex: "\<exists>k. length (sw_buf s) + r = k * w_secSize w \<and> miniStreamCutoff \<le> sw_size s + r"
    using inv op
  proof (cases rule: open_stream_cases)
    case small
    then have "length (sw_buf s) + r = miniStreamCutoff" "sw_size s + r = miniStreamCutoff"
      by (auto simp: r_def writeRoom_def s_def Let_def)
    moreover have "miniStreamCutoff = miniStreamCutoff div w_secSize w * w_secSize w" using S by simp
    ultimately show ?thesis by (metis order_refl)
  next
    case regular
    show ?thesis
    proof (cases "sw_buf s = []")
      case True
      then have "r = length p div w_secSize w * w_secSize w"
        using regular(1) by (simp add: r_def writeRoom_def s_def Let_def del: of_nat_mult)
      then show ?thesis using True regular(1) by (auto simp: s_def)
    next
      case False
      then have "length (sw_buf s) + r = 1 * w_secSize w"
        using regular(1,5) by (simp add: r_def writeRoom_def s_def Let_def)
      then show ?thesis using regular(1) unfolding s_def by (metis not_less trans_le_add1)
    qed
  qed
  then obtain k where k: "length (sw_buf s) + r = k * w_secSize w" "miniStreamCutoff \<le> sw_size s + r"
    by blast
  have "0 < k" using k(1) r(1) by (cases k) auto
  then show thesis using that k r by simp
qed

lemma write_iter_flush:
  assumes inv: "winv w D" and op: "open_stream w sid" and wr: "sink_ok wr"
    and room: "0 < writeRoom w sid p" "writeRoom w sid p \<le> int (length p)"
  defines "r \<equiv> nat (writeRoom w sid p)"
  obtains w' where "write_iter wr w sid p = (w', r, None)" "0 < r" "r \<le> length p"
    "w_secSize w' = w_secSize w" "length (w_streams w') = length (w_streams w)"
    "\<exists>x. outB w' = outB w @ x" "open_stream w' sid"
    "mini_len w' = mini_len w"
    "nsec w' < 2 ^ 32 \<longrightarrow> winv w' (D(sid := D sid @ take r p))"
proof -
  let ?s = "w_streams w ! sid"
  have g: "geom w" and sid: "sid < length (w_streams w)" and ncl: "\<not> sw_closed ?s"
    using inv op by (auto simp: winv_def open_stream_def)
  obtain k where k: "0 < k" "length (sw_buf ?s) + length (take r p) = k * w_secSize w"
    "miniStreamCutoff \<le> sw_size ?s + r" "0 < r" "r \<le> length p"
    using flush_sectors [OF inv op room] unfolding r_def by blast
  let ?new = "sw_buf ?s @ take r p"
  let ?c = "addRun (sw_chain ?s) (word_of_nat (nsec w)) (word_of_nat k)"
  let ?s' = "?s\<lparr>sw_chain := ?c, sw_buf := [], sw_size := sw_size ?s + r\<rparr>"
  let ?w' = "w_upd (grow w ?new) sid ?s'"
  have new: "length ?new = k * w_secSize w" using k(2) by simp
  have it: "write_iter wr w sid p = (?w', r, None)"
    using room sid flush_spec [OF wr g k(2)] by (simp add: write_iter_def Let_def r_def)
  have ch: "runs_in (nsec w) (sw_chain ?s) \<and> D sid = cdata (w_secSize w) (outB w) (sw_chain ?s) @ sw_buf ?s
     \<and> length (D sid) = sw_size ?s \<and> regular_secs ?s = csecs (sw_chain ?s) \<and> mini_secs ?s = []"
    using inv op by (cases rule: open_stream_cases)
      (auto simp: runs_in_def cdata_def regular_secs_def csecs_def mini_secs_def)
  have "winv ?w' (D(sid := D sid @ take r p))" if fit: "nsec ?w' < 2 ^ 32"
  proof (rule winv_grow_stream [OF inv sid new])
    have fit': "nsec w + k < 2 ^ 32" using fit nsec_grow [OF g new] by simp
    have "runs_in (nsec w) (sw_chain ?s)" "sw_chain ?s' = ?c" "\<not> sw_size ?s' < miniStreamCutoff"
      using ch k by simp_all
    moreover have "length (D sid @ take r p) = sw_size ?s'"
      using conjunct1 [OF conjunct2 [OF conjunct2 [OF ch]]] k(5) by simp
    moreover have "if \<not> sw_closed ?s' then sw_buf ?s' = [] \<and>
        D sid @ take r p = cdata (w_secSize w) (outB w) (sw_chain ?s) @ ?new
      else \<exists>z < w_secSize w. (D sid @ take r p) @ replicate z 0 = cdata (w_secSize w) (outB w) (sw_chain ?s) @ ?new"
      using ch ncl by simp
    ultimately have "stream_ok (grow w ?new) ?s' (D sid @ take r p)"
      "regular_secs ?s' = csecs (sw_chain ?s) @ [nsec w ..< nsec w + k]"
      by (rule stream_ok_addRun [OF inv new k(1) fit'])+
    then show "stream_ok (grow w ?new) ?s' (D sid @ take r p)"
      "regular_secs ?s' = regular_secs ?s @ [nsec w ..< nsec w + k]"
      "mini_secs ?s' = mini_secs ?s"
      using ch k(3) by (auto simp: mini_secs_def)
  qed
  moreover have "open_stream ?w' sid" using op ncl by (intro open_stream_upd) auto
  ultimately show thesis using that [OF it] k(4,5) by auto
qed

lemma write_iter_ok:
  assumes inv: "winv w D" and op: "open_stream w sid" and wr: "sink_ok wr" and p: "p \<noteq> []"
  obtains w' k where "write_iter wr w sid p = (w', k, None)" "0 < k" "k \<le> length p"
    "w_secSize w' = w_secSize w" "length (w_streams w') = length (w_streams w)"
    "\<exists>x. outB w' = outB w @ x" "open_stream w' sid" "mini_len w' = mini_len w"
    "nsec w' < 2 ^ 32 \<longrightarrow> winv w' (D(sid := D sid @ take k p))"
proof (cases "writeRoom w sid p = 0 \<or> int (length p) < writeRoom w sid p")
  case True
  let ?s = "w_streams w ! sid"
  let ?w' = "w_upd w sid (?s\<lparr>sw_buf := sw_buf ?s @ p, sw_size := sw_size ?s + length p\<rparr>)"
  have "write_iter wr w sid p = (?w', length p, None)"
    using True by (simp add: write_iter_def Let_def)
  moreover have "open_stream ?w' sid" using op by (simp add: open_stream_def)
  ultimately show thesis
    using that [of ?w' "length p"] write_iter_fill [OF inv op True] p by auto
next
  case False
  have "0 \<le> writeRoom w sid p"
    using inv op by (cases rule: open_stream_cases) (auto simp: writeRoom_def Let_def)
  then have "0 < writeRoom w sid p" "writeRoom w sid p \<le> int (length p)" using False by auto
  from write_iter_flush [OF inv op wr this] show thesis using that by metis
qed

text \<open>The whole loop. Output only grows, so if it fits at the end it fitted in every round.\<close>

definition out_mono :: "writer \<Rightarrow> writer \<Rightarrow> bool" where
  "out_mono w w' \<longleftrightarrow> w_secSize w' = w_secSize w \<and> (\<exists>x. outB w' = outB w @ x)"

lemma out_mono_refl [intro]: "out_mono w w"
  by (simp add: out_mono_def)

lemma out_mono_trans [trans]: "out_mono w1 w2 \<Longrightarrow> out_mono w2 w3 \<Longrightarrow> out_mono w1 w3"
  by (auto simp: out_mono_def)

lemma out_mono_nsec: "out_mono w w' \<Longrightarrow> nsec w \<le> nsec w'"
  by (auto simp: out_mono_def nsec_def div_le_mono)

lemma out_mono_upd [simp]: "out_mono w (w_upd w' sid s) = out_mono w w'"
  by (simp add: out_mono_def)

lemma out_mono_cw: "cw_write wr c p = (cw, e) \<Longrightarrow> out_mono w (v\<lparr>w_cw := c\<rparr>) \<Longrightarrow> out_mono w (v\<lparr>w_cw := cw\<rparr>)"
  by (auto simp: out_mono_def cw_write_def outB_def split: prod.splits)

lemma flush_mono:
  assumes "flush wr w sid b = (w', err)"
  shows "out_mono w w'"
proof -
  obtain c1 e1 where 1: "cw_write wr (w_cw w) (sw_buf (w_streams w ! sid)) = (c1, e1)" by fastforce
  obtain c2 e2 where 2: "cw_write wr c1 b = (c2, e2)" by fastforce
  have m1: "out_mono w (w\<lparr>w_cw := c1\<rparr>)" using 1 by (rule out_mono_cw) auto
  have "out_mono w (w\<lparr>w_cw := c2\<rparr>)" using 2 m1 by (rule out_mono_cw)
  then show ?thesis
    using assms m1 1 2 by (auto simp: flush_def Let_def split: option.splits)
qed

lemma write_iter_mono: "write_iter wr w sid p = (w', k, err) \<Longrightarrow> out_mono w w'"
  by (auto simp: write_iter_def Let_def dest!: flush_mono split: if_splits prod.splits option.splits)

lemma write_loop_mono: "write_loop wr w sid p n = (w', m, err) \<Longrightarrow> out_mono w w'"
proof (induction wr w sid p n arbitrary: w' rule: write_loop.induct)
  case (1 wr w sid p n)
  show ?case
  proof (cases "p = []")
    case True
    then show ?thesis using "1.prems" by (auto simp: write_loop.simps)
  next
    case False
    obtain w1 k e where it: "write_iter wr w sid p = (w1, k, e)" by (cases "write_iter wr w sid p") auto
    note m = write_iter_mono [OF it]
    show ?thesis
    proof (cases e)
      case None
      then have "out_mono w1 w'" using "1.IH" False it "1.prems" by (simp add: write_loop.simps [of wr w])
      then show ?thesis using m by (rule out_mono_trans [rotated])
    next
      case (Some x)
      then show ?thesis using m False it "1.prems" by (simp add: write_loop.simps)
    qed
  qed
qed

lemma write_loop_ok:
  assumes "winv w D" "open_stream w sid" "sink_ok wr"
    "write_loop wr w sid p n = (w', m, err)" "nsec w' < 2 ^ 32"
  shows "err = None \<and> m = n + length p \<and> winv w' (D(sid := D sid @ p)) \<and> open_stream w' sid \<and>
    mini_len w' = mini_len w \<and> length (w_streams w') = length (w_streams w)"
  using assms
proof (induction wr w sid p n arbitrary: D w' rule: write_loop.induct)
  case (1 wr w sid p n)
  show ?case
  proof (cases "p = []")
    case True
    then show ?thesis using "1.prems" by (auto simp: write_loop.simps)
  next
    case False
    obtain w1 k where it: "write_iter wr w sid p = (w1, k, None)" and k: "k \<le> length p"
      and w1: "length (w_streams w1) = length (w_streams w)" "open_stream w1 sid" "mini_len w1 = mini_len w"
        "nsec w1 < 2 ^ 32 \<longrightarrow> winv w1 (D(sid := D sid @ take k p))"
      using write_iter_ok [OF "1.prems"(1,2,3) False] by metis
    have l: "write_loop wr w1 sid (drop k p) (n + k) = (w', m, err)"
      using "1.prems"(4) False it by (simp add: write_loop.simps [of wr w])
    then have "nsec w1 < 2 ^ 32" using out_mono_nsec [OF write_loop_mono [OF l]] "1.prems"(5) by linarith
    then have i: "winv w1 (D(sid := D sid @ take k p))" using w1(4) by blast
    have "err = None \<and> m = n + k + length (drop k p) \<and>
      winv w' ((D(sid := D sid @ take k p))(sid := (D(sid := D sid @ take k p)) sid @ drop k p)) \<and>
      open_stream w' sid \<and> mini_len w' = mini_len w1 \<and> length (w_streams w') = length (w_streams w1)"
      using "1.IH" [OF False it [symmetric] refl refl i w1(2) "1.prems"(3) l "1.prems"(5)] .
    moreover have "(D(sid := D sid @ take k p))(sid := (D(sid := D sid @ take k p)) sid @ drop k p) =
      D(sid := D sid @ p)" by simp
    ultimately show ?thesis using k w1(1,3) by (simp del: fun_upd_apply)
  qed
qed

section \<open>writeMini\<close>

definition mini_ok :: "writer \<Rightarrow> bool" where
  "mini_ok w \<longleftrightarrow> geom w \<and> (\<forall>s \<in> set (w_miniSecs w). unat s < nsec w)"

definition mini_fill :: "writer \<Rightarrow> bytes \<Rightarrow> writer" where
  "mini_fill w q = (grow w (w_miniBuf w @ q))
     \<lparr>w_miniSecs := w_miniSecs w @ [word_of_nat (nsec w)], w_miniBuf := []\<rparr>"

lemma mini_fill_sel [simp]:
  "w_secSize (mini_fill w q) = w_secSize w" "outB (mini_fill w q) = outB w @ w_miniBuf w @ q"
  "w_streams (mini_fill w q) = w_streams w" "w_miniBuf (mini_fill w q) = []"
  "w_root (mini_fill w q) = w_root w" "w_miniSecs (mini_fill w q) = w_miniSecs w @ [word_of_nat (nsec w)]"
  by (simp_all add: mini_fill_def grow_def outB_def)

lemma nsec_mini_fill:
  "geom w \<Longrightarrow> length (w_miniBuf w) + length q = w_secSize w \<Longrightarrow> nsec (mini_fill w q) = Suc (nsec w)"
  using geom_secSize(1) [of w] div_add_self2 [of "w_secSize w" "length (outB w)"] by (simp add: nsec_def)

lemma mini_fill_ok:
  assumes ok: "mini_ok w" and q: "length (w_miniBuf w) + length q = w_secSize w"
    and fit: "Suc (nsec w) < 2 ^ 32"
  shows "mini_ok (mini_fill w q)" "mini_data (mini_fill w q) = mini_data w @ q"
proof -
  have g: "geom w" and ms: "\<forall>s \<in> set (w_miniSecs w). unat s < nsec w" using ok by (auto simp: mini_ok_def)
  have u: "unat (word_of_nat (nsec w) :: u32) = nsec w"
    using fit by (simp add: unsigned_of_nat take_bit_nat_eq_self_iff)
  have "geom (mini_fill w q)"
    using g q geom_secSize(1) [OF g] by (simp add: geom_def) (simp add: mini_fill_def grow_def)
  then show "mini_ok (mini_fill w q)"
    using ms u nsec_mini_fill [OF g q] by (auto simp: mini_ok_def)
  have last: "slice (nsec w * w_secSize w) (w_secSize w) (outB w @ w_miniBuf w @ q) = w_miniBuf w @ q"
    using geom_out [OF g] q by (simp add: slice_def)
  have "mini_data (mini_fill w q) = concat (map (\<lambda>s. slice (unat s * w_secSize w) (w_secSize w)
      (outB (grow w (w_miniBuf w @ q)))) (w_miniSecs w)) @ w_miniBuf w @ q"
    by (simp add: mini_data_def u last)
  also have "\<dots> = mini_data (grow w (w_miniBuf w @ q)) @ q"
    by (simp add: mini_data_def)
  finally show "mini_data (mini_fill w q) = mini_data w @ q"
    by (simp add: mini_data_grow [OF g ms])
qed

lemma mini_buf_ok:
  assumes "mini_ok w" "length (w_miniBuf w) + length q < w_secSize w" "miniSectorSize dvd length q"
  shows "mini_ok (w\<lparr>w_miniBuf := w_miniBuf w @ q\<rparr>)" "mini_data (w\<lparr>w_miniBuf := w_miniBuf w @ q\<rparr>) = mini_data w @ q"
  using assms by (auto simp: mini_ok_def geom_def nsec_def outB_def mini_data_def)

lemma writeMini_Nil [simp]: "writeMini wr w [] = (w, None)"
  by (simp add: writeMini.simps)

text \<open>One unfolding of the loop, in these terms.\<close>

lemma writeMini_step:
  assumes wr: "sink_ok wr" and ok: "mini_ok w" and p: "p \<noteq> []"
  defines "n \<equiv> w_secSize w - length (w_miniBuf w)"
  shows "writeMini wr w p = (if length p < n then (w\<lparr>w_miniBuf := w_miniBuf w @ p\<rparr>, None)
    else writeMini wr (mini_fill w (take n p)) (drop n p))"
proof -
  have g: "geom w" using ok by (simp add: mini_ok_def)
  have b: "length (w_miniBuf w) < w_secSize w" using g by (simp add: geom_def)
  show ?thesis
  proof (cases "length p < n")
    case True
    then have "length (w_miniBuf w) + length p \<noteq> w_secSize w" by (simp add: n_def)
    then show ?thesis using True b p
      by (subst writeMini.simps) (simp add: n_def Let_def)
  next
    case False
    have si: "sectorIdx (w\<lparr>w_miniBuf := x\<rparr>) = nsec w" for x
      using geom_sectorIdx [OF g] by (simp add: sectorIdx_def)
    let ?b = "w_miniBuf w @ take n p"
    have full: "length ?b = w_secSize w" and n: "min (length p) n = n" using False b by (simp_all add: n_def)
    have cw: "cw_write wr (w_cw w) ?b = (w_cw (grow w ?b), None)"
      by (simp add: cw_write_ok [OF wr] grow_def outB_def)
    have "w\<lparr>w_miniBuf := ?b, w_cw := w_cw (grow w ?b), w_miniSecs := w_miniSecs w @ [word_of_nat (nsec w)],
        w_miniBuf := []\<rparr> = mini_fill w (take n p)" by (simp add: mini_fill_def grow_def)
    then show ?thesis using False b p full
      by (subst writeMini.simps) (simp add: n_def [symmetric] Let_def cw si n)
  qed
qed

lemma mini_dvd:
  "mini_ok w \<Longrightarrow> miniSectorSize dvd w_secSize w - length (w_miniBuf w)"
  using geom_secSize(3) [of w] by (auto simp: mini_ok_def geom_def)

definition mini_frame :: "writer \<Rightarrow> writer \<Rightarrow> bool" where
  "mini_frame w w' \<longleftrightarrow> w_streams w' = w_streams w \<and> w_root w' = w_root w \<and>
     w_descendants w' = w_descendants w \<and> w_closed w' = w_closed w \<and> out_mono w w'"

lemma mini_frame_refl: "mini_frame w w"
  by (auto simp: mini_frame_def)

lemma mini_frame_trans: "mini_frame w1 w2 \<Longrightarrow> mini_frame w2 w3 \<Longrightarrow> mini_frame w1 w3"
  by (auto simp: mini_frame_def intro: out_mono_trans)

lemma mini_frame_upd: "mini_frame w (w\<lparr>w_miniBuf := b\<rparr>)" "mini_frame w (w\<lparr>w_miniSecs := m, w_miniBuf := b\<rparr>)"
  by (auto simp: mini_frame_def out_mono_def outB_def)

lemma writeMini_frame: "writeMini wr w p = (w', err) \<Longrightarrow> mini_frame w w'"
proof (induction "length p + length (w_miniBuf w)" arbitrary: w p rule: less_induct)
  case less
  show ?case
  proof (cases "p = [] \<or> w_secSize w < length (w_miniBuf w) \<or> w_secSize w = 0")
    case True
    then show ?thesis using less.prems by (subst (asm) writeMini.simps) (auto simp: mini_frame_refl split: if_splits)
  next
    case False
    define n where "n = min (length p) (w_secSize w - length (w_miniBuf w))"
    define w1 where "w1 = w\<lparr>w_miniBuf := w_miniBuf w @ take n p\<rparr>"
    have w1: "mini_frame w w1" by (simp add: w1_def mini_frame_upd)
    show ?thesis
    proof (cases "length (w_miniBuf w1) = w_secSize w1")
      case full: True
      obtain cw e where cw: "cw_write wr (w_cw w1) (w_miniBuf w1) = (cw, e)" by fastforce
      let ?w2 = "w1\<lparr>w_cw := cw\<rparr>"
      let ?w3 = "?w2\<lparr>w_miniSecs := w_miniSecs w1 @ [word_of_nat (sectorIdx w1)], w_miniBuf := []\<rparr>"
      have "out_mono w1 ?w2" using cw by (rule out_mono_cw) auto
      then have "mini_frame w1 ?w2" by (simp add: mini_frame_def)
      then have w2: "mini_frame w ?w2" using w1 by (blast intro: mini_frame_trans)
      have "length (w_miniBuf w) + length (take n p) = w_secSize w" using full by (simp add: w1_def)
      then have step: "writeMini wr w p = (case e of Some e \<Rightarrow> (?w2, Some e) | None \<Rightarrow> writeMini wr ?w3 (drop n p))"
        using False full cw by (subst writeMini.simps) (simp add: n_def [symmetric] w1_def [symmetric] Let_def del: length_take)
      show ?thesis
      proof (cases e)
        case None
        have "mini_frame ?w3 w'"
          using step None less.prems False full
          by (intro less.hyps [of "drop n p" ?w3]) (auto simp: w1_def)
        moreover have "mini_frame ?w2 ?w3" by (rule mini_frame_upd)
        ultimately show ?thesis using w2 by (blast intro: mini_frame_trans)
      next
        case (Some x)
        then show ?thesis using step less.prems w2 by simp
      qed
    next
      case nfull: False
      then have "n = length p" using False by (simp add: n_def w1_def) linarith
      moreover from this have "length (w_miniBuf w) + length p \<noteq> w_secSize w" using nfull by (simp add: w1_def)
      ultimately have "writeMini wr w p = (w1, None)"
        using False by (subst writeMini.simps) (simp add: n_def [symmetric] w1_def Let_def)
      then show ?thesis using w1 less.prems by simp
    qed
  qed
qed

lemma writeMini_ok:
  assumes "sink_ok wr" "mini_ok w" "miniSectorSize dvd length p" "writeMini wr w p = (w', err)" "nsec w' < 2 ^ 32"
  shows "err = None \<and> mini_ok w' \<and> mini_data w' = mini_data w @ p \<and>
    map unat (w_miniSecs w') = map unat (w_miniSecs w) @ [nsec w ..< nsec w']"
  using assms
proof (induction "length p" arbitrary: w p rule: less_induct)
  case less
  let ?n = "w_secSize w - length (w_miniBuf w)"
  have g: "geom w" using less.prems(2) by (simp add: mini_ok_def)
  then have b: "length (w_miniBuf w) < w_secSize w" by (simp add: geom_def)
  show ?case
  proof (cases "p = []")
    case True
    then show ?thesis using less.prems by auto
  next
    case False
    note step = writeMini_step [OF less.prems(1,2) False]
    show ?thesis
    proof (cases "length p < ?n")
      case True
      then have "w' = w\<lparr>w_miniBuf := w_miniBuf w @ p\<rparr>" "err = None" using step less.prems(4) by auto
      then show ?thesis using mini_buf_ok [OF less.prems(2) _ less.prems(3)] True b
        by (simp add: nsec_def outB_def)
    next
      case nf: False
      let ?w = "mini_fill w (take ?n p)"
      have rec: "writeMini wr ?w (drop ?n p) = (w', err)" using step less.prems(4) nf by simp
      have q: "length (w_miniBuf w) + length (take ?n p) = w_secSize w" using nf b by simp
      have n1: "nsec ?w = Suc (nsec w)" using g q by (rule nsec_mini_fill)
      have le: "Suc (nsec w) \<le> nsec w'"
        using out_mono_nsec [of ?w w'] writeMini_frame [OF rec] n1 by (simp add: mini_frame_def)
      then have fit: "Suc (nsec w) < 2 ^ 32" using less.prems(5) by linarith
      have u: "unat (word_of_nat (nsec w) :: u32) = nsec w"
        using fit by (simp add: unsigned_of_nat take_bit_nat_eq_self_iff)
      have "miniSectorSize dvd length (drop ?n p)"
        using less.prems(3) mini_dvd [OF less.prems(2)] nf by simp
      moreover have "length (drop ?n p) < length p" using False b nf by (cases p) auto
      ultimately have "err = None \<and> mini_ok w' \<and> mini_data w' = mini_data ?w @ drop ?n p \<and>
          map unat (w_miniSecs w') = map unat (w_miniSecs ?w) @ [nsec ?w ..< nsec w']"
        using less.hyps [of "drop ?n p" ?w] less.prems(1,5) mini_fill_ok(1) [OF less.prems(2) q fit] rec by blast
      moreover have "[nsec w ..< nsec w'] = nsec w # [Suc (nsec w) ..< nsec w']"
        using le by (simp add: upt_conv_Cons)
      ultimately show ?thesis
        using mini_fill_ok(2) [OF less.prems(2) q fit] u n1 by simp
    qed
  qed
qed

section \<open>StreamWriter.Close\<close>

lemma pad_dvd: "0 < n mod 64 \<Longrightarrow> 64 dvd n + 64 - n mod (64::nat)"
proof -
  have "n + 64 - n mod 64 = (n div 64 + 1) * (64::nat)"
    using Nat.diff_add_assoc2 [OF mod_less_eq_dividend [of n 64], of 64] minus_mod_eq_div_mult [of n 64]
    by (simp add: add_mult_distrib)
  then show ?thesis by simp
qed

lemma pad_le: "n < 4096 \<Longrightarrow> n + 64 - n mod 64 \<le> (4096::nat)"
proof -
  assume "n < 4096"
  then have "n div 64 < 64" by (simp add: div_less_iff_less_mult)
  then have "n div 64 * 64 \<le> 63 * 64" by (intro mult_le_mono1) simp
  then show ?thesis using minus_mod_eq_div_mult [of n 64] mod_less_eq_dividend [of n 64] by linarith
qed

lemma padMini_length: "miniSectorSize dvd length (padMini d)" "length d \<le> length (padMini d)"
  "take (length d) (padMini d) = d" "padMini d = [] \<longleftrightarrow> d = []"
  by (auto simp: padMini_def Let_def pad_dvd miniSectorSize_def)

lemma length_padMini: "length d < miniStreamCutoff \<Longrightarrow> length (padMini d) \<le> miniStreamCutoff"
  using pad_le [of "length d"] by (auto simp: padMini_def Let_def miniSectorSize_def miniStreamCutoff_def)

text \<open>Closing a stream whose sectors are final: only its buffer and flag change.\<close>

lemma close_regular_full:
  assumes inv: "winv w D" and op: "open_stream w sid" and big: "miniStreamCutoff \<le> sw_size (w_streams w ! sid)"
    and buf: "sw_buf (w_streams w ! sid) = []"
  shows "winv (w_upd w sid ((w_streams w ! sid)\<lparr>sw_buf := [], sw_closed := True\<rparr>)) (D(sid := D sid))"
proof -
  have sid: "sid < length (w_streams w)" and g: "geom w" using op inv by (auto simp: open_stream_def winv_def)
  show ?thesis
    using inv op
  proof (cases rule: open_stream_cases)
    case small
    then show ?thesis using big by simp
  next
    case regular
    then show ?thesis
      using buf geom_secSize(1) [OF g]
      by (intro winv_buffer [OF inv sid]) (auto simp: stream_ok_def regular_secs_def mini_secs_def intro!: exI [of _ 0])
  qed
qed

lemma close_regular_pad:
  assumes inv: "winv w D" and op: "open_stream w sid" and big: "miniStreamCutoff \<le> sw_size (w_streams w ! sid)"
    and buf: "sw_buf (w_streams w ! sid) \<noteq> []"
  defines "s \<equiv> w_streams w ! sid"
  defines "new \<equiv> sw_buf s @ replicate (w_secSize w - length (sw_buf s)) 0"
  defines "w' \<equiv> w_upd (grow w new) sid (s\<lparr>sw_chain := addRun (sw_chain s) (word_of_nat (nsec w)) (word_of_nat 1),
    sw_buf := [], sw_closed := True\<rparr>)"
  assumes fit: "nsec w' < 2 ^ 32"
  shows "winv w' (D(sid := D sid))"
proof -
  have sid: "sid < length (w_streams w)" and g: "geom w" using op inv by (auto simp: open_stream_def winv_def)
  have reg: "runs_in (nsec w) (sw_chain s)" "cdata (w_secSize w) (outB w) (sw_chain s) @ sw_buf s = D sid"
    "length (D sid) = sw_size s" "length (sw_buf s) < w_secSize w"
    using inv op big by (cases rule: open_stream_cases; simp add: s_def)+
  have new: "length new = 1 * w_secSize w" using reg(4) by (simp add: new_def)
  have fit1: "nsec w + 1 < 2 ^ 32" using fit nsec_grow [OF g new] by (simp add: w'_def)
  let ?s' = "s\<lparr>sw_chain := addRun (sw_chain s) (word_of_nat (nsec w)) (word_of_nat 1), sw_buf := [], sw_closed := True\<rparr>"
  let ?z = "w_secSize w - length (sw_buf s)"
  have "?z < w_secSize w" using buf reg(4) by (simp add: s_def)
  moreover have "D sid @ replicate ?z 0 = cdata (w_secSize w) (outB w) (sw_chain s) @ new"
    by (simp add: new_def flip: reg(2))
  ultimately have "if \<not> sw_closed ?s' then sw_buf ?s' = [] \<and> D sid = cdata (w_secSize w) (outB w) (sw_chain s) @ new
      else \<exists>z < w_secSize w. D sid @ replicate z 0 = cdata (w_secSize w) (outB w) (sw_chain s) @ new"
    by auto
  moreover have "sw_chain ?s' = addRun (sw_chain s) (word_of_nat (nsec w)) (word_of_nat 1)"
    "\<not> sw_size ?s' < miniStreamCutoff" "length (D sid) = sw_size ?s'"
    using big reg(3) by (simp_all add: s_def)
  ultimately have "stream_ok (grow w new) ?s' (D sid)"
    "regular_secs ?s' = csecs (sw_chain s) @ [nsec w ..< nsec w + 1]"
    using stream_ok_addRun [OF inv new _ fit1 reg(1), of ?s' "D sid"] by auto
  then show ?thesis
    unfolding w'_def
    by (intro winv_grow_stream [OF inv sid new])
      (use big in \<open>auto simp: regular_secs_def mini_secs_def s_def\<close>)
qed

text \<open>A small stream goes to the mini stream as one run of padded mini sectors.\<close>

lemma mini_len_dvd: "geom w \<Longrightarrow> miniSectorSize dvd mini_len w"
  using geom_secSize(3) [of w] by (auto simp: geom_def mini_len_def)

lemma mini_ok_len: "mini_ok w \<Longrightarrow> length (mini_data w) = mini_len w"
  by (simp add: mini_ok_def length_mini_data)

definition mini_run :: "writer \<Rightarrow> bytes \<Rightarrow> sectorRun" where
  "mini_run w d = \<lparr>sr_first = word_of_nat (mini_len w div miniSectorSize),
     sr_count = word_of_nat (length (padMini d) div miniSectorSize)\<rparr>"

lemma mini_run_sel:
  assumes g: "geom w" and d: "d \<noteq> []" "length d < miniStreamCutoff"
    and fit: "mini_len w' div miniSectorSize < 2 ^ 32" "mini_len w' = mini_len w + length (padMini d)"
  defines "r \<equiv> mini_run w d"
  shows "unat (sr_first r) * miniSectorSize = mini_len w" "unat (sr_count r) * miniSectorSize = length (padMini d)"
    "sr_count r \<noteq> 0" "unat (sr_first r) + unat (sr_count r) = mini_len w' div miniSectorSize"
    "unat (sr_first r) = mini_len w div miniSectorSize"
proof -
  note dvd = mini_len_dvd [OF g] padMini_length(1) [of d]
  have sum: "mini_len w' div miniSectorSize = mini_len w div miniSectorSize + length (padMini d) div miniSectorSize"
    using dvd fit(2) by (simp add: div_add)
  then have f: "unat (sr_first r) = mini_len w div miniSectorSize"
    "unat (sr_count r) = length (padMini d) div miniSectorSize"
    using fit(1) by (simp_all add: r_def mini_run_def unsigned_of_nat take_bit_nat_eq_self_iff)
  show "unat (sr_first r) * miniSectorSize = mini_len w" "unat (sr_count r) * miniSectorSize = length (padMini d)"
    "unat (sr_first r) = mini_len w div miniSectorSize"
    "unat (sr_first r) + unat (sr_count r) = mini_len w' div miniSectorSize"
    using f dvd sum by simp_all
  have "length (padMini d) \<noteq> 0" using d(1) by (simp add: padMini_length)
  then show "sr_count r \<noteq> 0" using \<open>unat (sr_count r) * miniSectorSize = length (padMini d)\<close>
    by (metis mult_0 unat_0)
qed

lemma close_mini:
  assumes inv: "winv w D" and op: "open_stream w sid" and small: "sw_size (w_streams w ! sid) < miniStreamCutoff"
    and nz: "sw_size (w_streams w ! sid) \<noteq> 0" and wr: "sink_ok wr"
    and wm: "writeMini wr w (padMini (D sid)) = (w', err)" and fit: "fits w'"
  defines "s' \<equiv> (w_streams w ! sid)\<lparr>sw_chain := [mini_run w (D sid)], sw_buf := [], sw_closed := True\<rparr>"
  shows "err = None" "winv (w_upd w' sid s') (D(sid := D sid))"
proof -
  let ?s = "w_streams w ! sid" and ?d = "D sid" and ?r = "mini_run w (D sid)"
  have sid: "sid < length (w_streams w)" and g: "geom w" and ok: "mini_ok w"
    using op inv by (auto simp: open_stream_def winv_def mini_ok_def)
  have s: "sw_chain ?s = []" "length ?d = sw_size ?s"
    using inv op small by (cases rule: open_stream_cases; simp)+
  have w': "err = None \<and> mini_ok w' \<and> mini_data w' = mini_data w @ padMini ?d \<and>
      map unat (w_miniSecs w') = map unat (w_miniSecs w) @ [nsec w ..< nsec w']"
    using fit by (intro writeMini_ok [OF wr ok padMini_length(1) wm]) (simp add: fits_def)
  then show "err = None" by blast
  have fr: "w_streams w' = w_streams w" "w_secSize w' = w_secSize w" "nsec w \<le> nsec w'"
    using writeMini_frame [OF wm] out_mono_nsec by (auto simp: mini_frame_def out_mono_def)
  have len: "length (mini_data w) = mini_len w" "length (mini_data w') = mini_len w'"
    using ok w' by (blast intro: mini_ok_len)+
  then have ml: "mini_len w' = mini_len w + length (padMini ?d)" using w' by simp
  have dne: "D sid \<noteq> []" using s(2) nz by auto
  have r: "unat (sr_first ?r) * miniSectorSize = mini_len w" "unat (sr_count ?r) * miniSectorSize = length (padMini ?d)"
    "sr_count ?r \<noteq> 0" "unat (sr_first ?r) + unat (sr_count ?r) = mini_len w' div miniSectorSize"
    "unat (sr_first ?r) = mini_len w div miniSectorSize"
    using mini_run_sel [OF g dne _ _ ml] fit s(2) small by (simp_all add: fits_def)
  obtain x where ext: "extends w w' x (padMini ?d)"
    using writeMini_frame [OF wm] w' g by (auto simp: extends_def mini_frame_def out_mono_def mini_ok_def)
  have "rdata miniSectorSize (mini_data w') ?r = padMini ?d"
    using w' r(1,2) len by (simp add: rdata_def slice_def)
  moreover have "(unat (sr_first ?r) + unat (sr_count ?r)) * miniSectorSize \<le> length (mini_data w')"
    using r(4) len by simp
  moreover have "unat (sr_first ?r) + unat (sr_count ?r) \<le> 2 ^ 32"
    using r(4) fit by (simp add: fits_def)
  ultimately have "stream_ok w' s' ?d"
    using small nz s r(2,3) by (simp add: stream_ok_def s'_def runs_in_def)
  then have streams: "stream_ok w' ((w_streams w)[sid := s'] ! i) (D i)" if "i < length (w_streams w)" for i
    using that inv stream_ok_extends [OF ext] by (cases "i = sid") (auto simp: winv_def)
  have "mset (concat (map regular_secs ((w_streams w)[sid := s']))) = mset (concat (map regular_secs (w_streams w)))"
    using mset_concat_update [OF sid, of regular_secs s' "{#}"] small by (simp add: regular_secs_def s'_def)
  moreover have "mset [0..<nsec w'] = mset [0..<nsec w] + mset [nsec w ..< nsec w']"
    using fr(3) upt_add_eq_append [of 0 "nsec w" "nsec w' - nsec w"] by simp
  moreover have "mset (map unat (w_miniSecs w')) = mset (map unat (w_miniSecs w)) + mset [nsec w ..< nsec w']"
    using w' by (metis mset_append)
  ultimately have own: "owned (w_upd w' sid s') = mset [0..<nsec w']"
    using inv by (simp add: owned_def winv_def fr(1) del: mset_map)
  have "mini_len w div miniSectorSize \<le> mini_len w' div miniSectorSize" by (simp add: ml div_le_mono)
  then have "mset [0..<mini_len w' div miniSectorSize] =
      mset [0..<mini_len w div miniSectorSize] + mset [mini_len w div miniSectorSize ..< mini_len w' div miniSectorSize]"
    using upt_add_eq_append [of 0 "mini_len w div miniSectorSize" "mini_len w' div miniSectorSize - mini_len w div miniSectorSize"]
    by simp
  moreover have "mset (concat (map mini_secs ((w_streams w)[sid := s']))) = mset (concat (map mini_secs (w_streams w))) +
      mset [mini_len w div miniSectorSize ..< mini_len w' div miniSectorSize]"
    using sid small s(1) r(4,5)
    by (intro mset_concat_update) (simp_all add: mini_secs_def s'_def csecs_def rsecs_def)
  ultimately show "winv (w_upd w' sid s') (D(sid := D sid))"
    using inv w' streams own by (simp add: winv_def mini_ok_def fr(1))
qed

lemma closeStream_ok:
  assumes inv: "winv w D" and op: "open_stream w sid" and wr: "sink_ok wr"
    and cl: "closeStream wr w sid = (w', err)" and fit: "fits w'"
  shows "err = None" "winv w' D" "sw_closed (w_streams w' ! sid)"
    "length (w_streams w') = length (w_streams w)"
proof -
  let ?s = "w_streams w ! sid"
  have sid: "sid < length (w_streams w)" and ncl: "\<not> sw_closed ?s" and g: "geom w"
    using op inv by (auto simp: open_stream_def winv_def)
  consider (empty) "sw_size ?s = 0" | (small) "sw_size ?s \<noteq> 0" "sw_size ?s < miniStreamCutoff"
    | (full) "miniStreamCutoff \<le> sw_size ?s" "sw_buf ?s = []"
    | (pad) "miniStreamCutoff \<le> sw_size ?s" "sw_buf ?s \<noteq> []" by linarith
  then have "err = None \<and> winv w' D \<and> sw_closed (w_streams w' ! sid) \<and> length (w_streams w') = length (w_streams w)"
  proof cases
    case empty
    have "winv (w_upd w sid (?s\<lparr>sw_closed := True\<rparr>)) (D(sid := D sid))"
      using inv op empty by (cases rule: open_stream_cases)
        (auto intro!: winv_buffer [OF inv sid] simp: stream_ok_def runs_in_def regular_secs_def mini_secs_def)
    then show ?thesis using cl ncl empty sid by (auto simp: closeStream_def Let_def)
  next
    case small
    obtain w1 e1 where wm: "writeMini wr w (padMini (D sid)) = (w1, e1)" by fastforce
    have buf: "sw_buf ?s = D sid" using inv op small by (cases rule: open_stream_cases) auto
    let ?s' = "?s\<lparr>sw_chain := [mini_run w (D sid)], sw_buf := [], sw_closed := True\<rparr>"
    have cl': "(w', err) = (case e1 of Some e \<Rightarrow> (w1, Some e) | None \<Rightarrow> (w_upd w1 sid ?s', None))"
      using cl [symmetric] ncl small
      by (simp add: closeStream_def Let_def buf wm) (simp add: mini_run_def mini_len_def split: option.splits)
    then have "fits w1" using fit by (auto simp: fits_def split: option.splits)
    note c = close_mini [OF inv op small(2,1) wr wm this]
    have "w_streams w1 = w_streams w" using writeMini_frame [OF wm] by (simp add: mini_frame_def)
    then show ?thesis using cl' c sid by simp
  next
    case full
    then have "sw_size ?s \<noteq> 0" "\<not> w_secSize w < length (sw_buf ?s)"
      by (auto simp: miniStreamCutoff_def)
    then have "closeStream wr w sid = (w_upd w sid (?s\<lparr>sw_buf := [], sw_closed := True\<rparr>), None)"
      using full ncl by (simp add: closeStream_def)
    then show ?thesis
      using cl sid close_regular_full [OF inv op full] by simp
  next
    case pad
    have b: "length (sw_buf ?s) < w_secSize w"
      using inv op pad by (cases rule: open_stream_cases) auto
    have "length (sw_buf ?s) + length (replicate (w_secSize w - length (sw_buf ?s)) (0::u8)) = 1 * w_secSize w"
      using b by simp
    note fl = flush_spec [OF wr g this]
    let ?w' = "w_upd (grow w (sw_buf ?s @ replicate (w_secSize w - length (sw_buf ?s)) 0)) sid
      (?s\<lparr>sw_chain := addRun (sw_chain ?s) (word_of_nat (nsec w)) (word_of_nat 1), sw_buf := [], sw_closed := True\<rparr>)"
    have "sw_size ?s \<noteq> 0" using pad by (auto simp: miniStreamCutoff_def)
    then have "closeStream wr w sid = (?w', None)"
      using pad ncl b sid by (simp add: closeStream_def Let_def fl)
    then show ?thesis
      using cl sid close_regular_pad [OF inv op pad] fit by (auto simp: fits_def simp del: of_nat_1)
  qed
  then show "err = None" "winv w' D" "sw_closed (w_streams w' ! sid)"
    "length (w_streams w') = length (w_streams w)" by auto
qed

end
