(* ===== verification/WriterReach.thy ===== *)
theory WriterReach
  imports WriterSteps
begin

text \<open>
  The storage tree and its invariant (every stream in the tree once, siblings with names that differ
  under the order of the directory, the number of descendants), and the writer as a transition system:
  any interleaving of the operations of concurrent callers keeps the invariants of the sectors, of
  the contents and of the tree.
\<close>

section \<open>The storage tree\<close>

fun sg_sids :: "storageW \<Rightarrow> nat list" where
  "sg_sids (StorageW m sgs sts) = sts @ concat (map sg_sids sgs)"

fun sg_nodes :: "storageW \<Rightarrow> nat" where
  "sg_nodes (StorageW m sgs sts) = 1 + sum_list (map sg_nodes sgs) + length sts"

definition child_names :: "(nat \<Rightarrow> u16 list) \<Rightarrow> storageW \<Rightarrow> u16 list list" where
  "child_names nm sg = map sg_name_of (sg_storages sg) @ map nm (sg_streams sg)"

definition upper_distinct :: "u16 list list \<Rightarrow> bool" where
  "upper_distinct ns \<longleftrightarrow> distinct (map (map toUpper) ns)"

definition valid_name :: "u16 list \<Rightarrow> bool" where
  "valid_name enc \<longleftrightarrow> (\<exists>s. encodeName s = Inr enc)"

definition node_ok :: "(nat \<Rightarrow> u16 list) \<Rightarrow> storageW \<Rightarrow> bool" where
  "node_ok nm sg \<longleftrightarrow> upper_distinct (child_names nm sg) \<and> list_all valid_name (child_names nm sg)"

fun sg_ok :: "(nat \<Rightarrow> u16 list) \<Rightarrow> storageW \<Rightarrow> bool" where
  "sg_ok nm (StorageW m sgs sts) \<longleftrightarrow> node_ok nm (StorageW m sgs sts) \<and> list_all (sg_ok nm) sgs"

definition tree_ok :: "writer \<Rightarrow> bool" where
  "tree_ok w \<longleftrightarrow> mset (sg_sids (w_root w)) = mset [0..<length (w_streams w)] \<and>
     sg_ok (stream_name w) (w_root w) \<and> w_descendants w = word_of_nat (sg_nodes (w_root w))"

lemma tree_ok_new: "tree_ok (newWriter S)"
  by (simp add: tree_ok_def newWriter_def node_ok_def child_names_def upper_distinct_def)

lemma sum_list_update_nat: "i < length xs \<Longrightarrow> sum_list (xs[i := y]) + xs ! i = sum_list xs + (y :: nat)"
  by (induction xs arbitrary: i) (auto split: nat.splits)

lemma sg_map_at_sids:
  "sg_at sg path = Some x \<Longrightarrow> mset (sg_sids (f x)) = mset (sg_sids x) + N \<Longrightarrow>
   mset (sg_sids (sg_map_at f sg path)) = mset (sg_sids sg) + N"
proof (induction f sg path rule: sg_map_at.induct)
  case (2 f m sgs sts i path)
  then have i: "i < length sgs" by (auto split: if_splits)
  then have "mset (concat (map sg_sids (sgs[i := sg_map_at f (sgs ! i) path]))) = mset (concat (map sg_sids sgs)) + N"
    using 2 by (intro mset_concat_update) auto
  then show ?case using i by simp
qed auto

lemma sg_map_at_nodes_same:
  "(\<And>x. sg_nodes (f x) = sg_nodes x) \<Longrightarrow> sg_nodes (sg_map_at f sg path) = sg_nodes sg"
proof (induction f sg path rule: sg_map_at.induct)
  case (2 f m sgs sts i path)
  then show ?case by (auto simp: map_update) (metis list_update_id nth_map)
qed simp

lemma sg_map_at_nodes:
  "sg_at sg path = Some x \<Longrightarrow> sg_nodes (f x) = Suc (sg_nodes x) \<Longrightarrow>
   sg_nodes (sg_map_at f sg path) = Suc (sg_nodes sg)"
proof (induction f sg path rule: sg_map_at.induct)
  case (2 f m sgs sts i path)
  then have i: "i < length sgs" by (auto split: if_splits)
  then have "sg_nodes (sg_map_at f (sgs ! i) path) = Suc (sg_nodes (sgs ! i))" using 2 by auto
  then show ?case
    using i sum_list_update_nat [of i "map sg_nodes sgs" "Suc (sg_nodes (sgs ! i))"]
    by (simp add: map_update)
qed auto

lemma sg_name_map_at: "(\<And>x. sg_name_of (f x) = sg_name_of x) \<Longrightarrow> sg_name_of (sg_map_at f sg path) = sg_name_of sg"
  by (induction f sg path rule: sg_map_at.induct) (simp_all add: sg_name_of_def)

lemma sg_map_at_ok:
  "sg_at sg path = Some x \<Longrightarrow> sg_ok nm sg \<Longrightarrow> (sg_ok nm x \<Longrightarrow> sg_ok nm (f x)) \<Longrightarrow>
   (\<And>x. sg_name_of (f x) = sg_name_of x) \<Longrightarrow> sg_ok nm (sg_map_at f sg path)"
proof (induction f sg path rule: sg_map_at.induct)
  case (2 f m sgs sts i path)
  then have i: "i < length sgs" by (auto split: if_splits)
  have "map sg_name_of (sgs[i := sg_map_at f (sgs ! i) path]) = map sg_name_of sgs"
    using sg_name_map_at [of f "sgs ! i" path] "2.prems"(4) i
    by (simp add: map_update) (metis list_update_id nth_map)
  moreover have "sg_ok nm (sg_map_at f (sgs ! i) path)"
    using 2 i by (auto simp: list_all_length)
  then have "list_all (sg_ok nm) (sgs[i := sg_map_at f (sgs ! i) path])"
    using "2.prems"(2) by (auto simp: list_all_iff dest!: set_update_subset_insert [THEN subsetD])
  ultimately show ?case
    using "2.prems"(2) i by (simp add: node_ok_def child_names_def)
qed auto

lemma sg_at_ok: "sg_at sg path = Some x \<Longrightarrow> sg_ok nm sg \<Longrightarrow> sg_ok nm x"
  by (induction sg path rule: sg_at.induct) (auto simp: list_all_length split: if_splits)

text \<open>The names of the tree do not change when streams are added to the arena.\<close>

lemma sg_ok_cong: "(\<And>i. i \<in> set (sg_sids sg) \<Longrightarrow> nm i = nm' i) \<Longrightarrow> sg_ok nm sg = sg_ok nm' sg"
proof (induction nm sg rule: sg_ok.induct)
  case (1 nm m sgs sts)
  have "map nm sts = map nm' sts" using "1.prems" by auto
  moreover have "list_all (sg_ok nm) sgs = list_all (sg_ok nm') sgs"
    using 1 by (auto simp: list_all_iff)
  ultimately show ?case by (simp only: sg_ok.simps node_ok_def child_names_def storageW.sel)
qed

section \<open>Creating entries\<close>

lemma validateChildName_Inr:
  "validateChildName w sg name = Inr enc \<longleftrightarrow>
   \<not> w_closed w \<and> encodeName name = Inr enc \<and>
   map toUpper enc \<notin> set (map (map toUpper) (child_names (stream_name w) sg))"
  by (auto simp: validateChildName_def child_names_def list_ex_iff compareNames_0 bindE_eq_Inr image_iff
      split: if_splits)

lemma createStream_Inr:
  "createStream w path name = Inr (w', sid) \<longleftrightarrow> (\<exists>sg enc. sg_at (w_root w) path = Some sg \<and>
     validateChildName w sg name = Inr enc \<and> sid = length (w_streams w) \<and>
     w' = w\<lparr>w_streams := w_streams w @ [newStream enc],
        w_root := sg_map_at (sg_add_stream sid) (w_root w) path, w_descendants := w_descendants w + 1\<rparr>)"
  by (auto simp: createStream_def Let_def bindE_eq_Inr split: option.splits)

lemma createStorage_Inr:
  "createStorage w path name = Inr (w', path') \<longleftrightarrow> (\<exists>sg enc. sg_at (w_root w) path = Some sg \<and>
     validateChildName w sg name = Inr enc \<and> path' = path @ [length (sg_storages sg)] \<and>
     w' = w\<lparr>w_root := sg_map_at (sg_add_storage (StorageW (newMeta enc) [] [])) (w_root w) path,
        w_descendants := w_descendants w + 1\<rparr>)"
  by (auto simp: createStorage_def bindE_eq_Inr split: option.splits)

lemma sg_meta_add [simp]: "sg_meta (sg_add_stream sid x) = sg_meta x" "sg_meta (sg_add_storage c x) = sg_meta x"
  by (cases x; simp)+

lemma sg_name_add [simp]: "sg_name_of (sg_add_stream sid x) = sg_name_of x" "sg_name_of (sg_add_storage c x) = sg_name_of x"
  by (simp_all add: sg_name_of_def)

lemma sg_storages_add: "sg_storages (sg_add_stream sid x) = sg_storages x"
  by (cases x) simp

lemma sg_sids_add: "mset (sg_sids (sg_add_stream sid x)) = mset (sg_sids x) + {#sid#}"
  "mset (sg_sids (sg_add_storage (StorageW m [] []) x)) = mset (sg_sids x) + {#}"
  by (cases x; simp)+

lemma sg_nodes_add: "sg_nodes (sg_add_stream sid x) = Suc (sg_nodes x)"
  "sg_nodes (sg_add_storage (StorageW m [] []) x) = Suc (sg_nodes x)"
  by (cases x; simp)+

lemma child_names_add:
  "mset (child_names nm (sg_add_stream sid x)) = mset (child_names nm x) + {#nm sid#}"
  "mset (child_names nm (sg_add_storage c x)) = mset (child_names nm x) + {#sg_name_of c#}"
  by (cases x; simp add: child_names_def)+

lemma node_ok_mset:
  "node_ok nm sg \<longleftrightarrow> distinct (map (map toUpper) (child_names nm sg)) \<and> (\<forall>n \<in># mset (child_names nm sg). valid_name n)"
  by (simp add: node_ok_def upper_distinct_def list_all_iff)

lemma node_ok_add:
  assumes "node_ok nm x" "mset (child_names nm' y) = mset (child_names nm x) + {#n#}"
    "valid_name n" "map toUpper n \<notin> set (map (map toUpper) (child_names nm x))"
  shows "node_ok nm' y"
proof -
  have "mset (map (map toUpper) (child_names nm' y)) = add_mset (map toUpper n) (mset (map (map toUpper) (child_names nm x)))"
    using arg_cong [OF assms(2), of "image_mset (map toUpper)"] by simp
  then have "distinct (map (map toUpper) (child_names nm' y))"
    using assms(1,4) by (metis distinct.simps(2) mset.simps(2) mset_eq_imp_distinct_iff node_ok_mset)
  moreover have "\<forall>n \<in># mset (child_names nm' y). valid_name n"
    using assms(1-3) by (simp only: node_ok_mset) simp
  ultimately show ?thesis by (simp only: node_ok_mset)
qed

lemma sg_ok_node: "sg_ok nm x \<longleftrightarrow> node_ok nm x \<and> list_all (sg_ok nm) (sg_storages x)"
  by (cases x) simp

lemma sg_ok_leaf: "sg_ok nm (StorageW m [] [])"
  by (simp add: node_ok_def child_names_def upper_distinct_def)

lemma sg_at_sids: "sg_at sg path = Some x \<Longrightarrow> set (sg_sids x) \<subseteq> set (sg_sids sg)"
  by (induction sg path rule: sg_at.induct) (force split: if_splits)+

lemma child_names_cong:
  "(\<And>i. i \<in> set (sg_sids sg) \<Longrightarrow> nm i = nm' i) \<Longrightarrow> child_names nm sg = child_names nm' sg"
  by (cases sg) (auto simp: child_names_def)

lemma createStream_tree:
  assumes ok: "tree_ok w" and c: "createStream w path name = Inr (w', sid)"
  shows "tree_ok w'"
proof -
  obtain sg enc where at: "sg_at (w_root w) path = Some sg" and v: "validateChildName w sg name = Inr enc"
    and sid: "sid = length (w_streams w)" and w': "w' = w\<lparr>w_streams := w_streams w @ [newStream enc],
      w_root := sg_map_at (sg_add_stream sid) (w_root w) path, w_descendants := w_descendants w + 1\<rparr>"
    using c by (auto simp: createStream_Inr)
  have sids: "mset (sg_sids (w_root w)) = mset [0..<sid]" using ok sid by (simp add: tree_ok_def)
  have set: "set (sg_sids (w_root w)) = {0..<sid}" using arg_cong [OF sids, of set_mset] by simp
  then have old: "sg_ok (stream_name w') (w_root w)" if "sg_ok (stream_name w) (w_root w)"
    using that sg_ok_cong [of "w_root w" "stream_name w" "stream_name w'"] sid
    by (simp add: stream_name_def w' nth_append)
  then have root: "sg_ok (stream_name w') (w_root w)" using ok by (simp add: tree_ok_def)
  have "sg_ok (stream_name w') (sg_add_stream sid sg)"
  proof -
    have new: "stream_name w' sid = enc" by (simp add: stream_name_def w' sid newStream_def)
    have "node_ok (stream_name w) sg" "list_all (sg_ok (stream_name w')) (sg_storages sg)"
      using sg_at_ok [OF at] ok root by (auto simp: tree_ok_def sg_ok_node)
    moreover have "child_names (stream_name w') sg = child_names (stream_name w) sg"
      using sg_at_sids [OF at] set by (intro child_names_cong) (auto simp: stream_name_def w' nth_append sid)
    ultimately show ?thesis
      using v child_names_add(1) [of "stream_name w'" sid sg] new sg_storages_add
      by (auto simp: sg_ok_node validateChildName_Inr valid_name_def intro!: node_ok_add [of "stream_name w" sg])
  qed
  then have "sg_ok (stream_name w') (w_root w')"
    using root at by (simp add: w') (rule sg_map_at_ok; simp add: sg_name_of_def)
  moreover have "mset (sg_sids (w_root w')) = mset [0..<length (w_streams w')]"
    using sg_map_at_sids [OF at, of "sg_add_stream sid", OF sg_sids_add(1)] sids by (simp add: w' sid)
  moreover have "w_descendants w' = word_of_nat (sg_nodes (w_root w'))"
    using sg_map_at_nodes [OF at, of "sg_add_stream sid", OF sg_nodes_add(1)] ok by (simp add: w' tree_ok_def)
  ultimately show ?thesis by (simp add: tree_ok_def)
qed

lemma createStorage_tree:
  assumes ok: "tree_ok w" and c: "createStorage w path name = Inr (w', path')"
  shows "tree_ok w'"
proof -
  obtain sg enc where at: "sg_at (w_root w) path = Some sg" and v: "validateChildName w sg name = Inr enc"
    and w': "w' = w\<lparr>w_root := sg_map_at (sg_add_storage (StorageW (newMeta enc) [] [])) (w_root w) path,
      w_descendants := w_descendants w + 1\<rparr>"
    using c by (auto simp: createStorage_Inr)
  let ?f = "sg_add_storage (StorageW (newMeta enc) [] [])"
  have nm: "stream_name w' = stream_name w" by (simp add: fun_eq_iff stream_name_def w')
  have "sg_ok (stream_name w) sg" using sg_at_ok [OF at] ok by (simp add: tree_ok_def)
  moreover have "sg_name_of (StorageW (newMeta enc) [] []) = enc" by (simp add: sg_name_of_def newMeta_def)
  moreover have "sg_storages (?f sg) = sg_storages sg @ [StorageW (newMeta enc) [] []]" by (cases sg) simp
  ultimately have "sg_ok (stream_name w) (?f sg)"
    using v child_names_add(2) [of "stream_name w" "StorageW (newMeta enc) [] []" sg] sg_ok_leaf
    by (auto simp: sg_ok_node [of _ sg] sg_ok_node [of _ "?f sg"] validateChildName_Inr valid_name_def
        intro!: node_ok_add [of "stream_name w" sg])
  then have "sg_ok (stream_name w') (w_root w')"
    using ok at unfolding nm by (simp add: w' tree_ok_def) (rule sg_map_at_ok; simp add: sg_name_of_def)
  moreover have "mset (sg_sids (w_root w')) = mset [0..<length (w_streams w')]"
    using sg_map_at_sids [OF at, of ?f, OF sg_sids_add(2)] ok by (simp add: w' tree_ok_def)
  moreover have "w_descendants w' = word_of_nat (sg_nodes (w_root w'))"
    using sg_map_at_nodes [OF at, of ?f, OF sg_nodes_add(2)] ok by (simp add: w' tree_ok_def)
  ultimately show ?thesis by (simp add: tree_ok_def)
qed

text \<open>Setting the exported fields of a storage: the name is not one of them.\<close>

fun sg_set_meta :: "storageMeta \<Rightarrow> storageW \<Rightarrow> storageW" where
  "sg_set_meta m (StorageW m0 sgs sts) = StorageW (m\<lparr>sg_name := sg_name m0\<rparr>) sgs sts"

lemma sg_set_meta_simps [simp]: "sg_name_of (sg_set_meta m x) = sg_name_of x" "sg_nodes (sg_set_meta m x) = sg_nodes x"
  "sg_sids (sg_set_meta m x) = sg_sids x" "sg_ok nm (sg_set_meta m x) = sg_ok nm x"
  by (cases x; simp add: sg_name_of_def node_ok_def child_names_def)+

lemma set_meta_tree: "tree_ok w \<Longrightarrow> sg_at (w_root w) path = Some x \<Longrightarrow>
    tree_ok (w\<lparr>w_root := sg_map_at (sg_set_meta m) (w_root w) path\<rparr>)"
  using sg_map_at_sids [of "w_root w" path x "sg_set_meta m" "{#}"]
  by (auto simp: tree_ok_def stream_name_def [abs_def] sg_map_at_nodes_same intro: sg_map_at_ok)

text \<open>The sectors and the contents.\<close>

lemma winv_cong:
  assumes "winv w D" "w_cw w' = w_cw w" "w_secSize w' = w_secSize w" "w_miniSecs w' = w_miniSecs w"
    "w_miniBuf w' = w_miniBuf w" "w_streams w' = w_streams w"
  shows "winv w' D"
proof -
  have eqs: "outB w' = outB w" "mini_len w' = mini_len w" using assms by (simp_all add: outB_def mini_len_def)
  moreover from this have "nsec w' = nsec w" "mini_data w' = mini_data w"
    using assms by (simp_all add: nsec_def mini_data_def)
  ultimately have "geom w' = geom w" "owned w' = owned w" "\<And>st d. stream_ok w' st d = stream_ok w st d"
    "nsec w' = nsec w" "mini_len w' = mini_len w"
    using assms eqs by (simp_all add: geom_def stream_ok_def owned_def)
  then show ?thesis using assms by (simp add: winv_def)
qed

lemma stream_ok_newStream: "stream_ok w (newStream enc) []"
  by (simp add: stream_ok_def newStream_def runs_in_def miniStreamCutoff_def)

lemma createStream_winv:
  assumes inv: "winv w D" and c: "createStream w path name = Inr (w', sid)"
  shows "winv w' (D(sid := []))"
proof -
  obtain enc where sid: "sid = length (w_streams w)"
    and w': "w_streams w' = w_streams w @ [newStream enc]" "w_cw w' = w_cw w" "w_secSize w' = w_secSize w"
      "w_miniSecs w' = w_miniSecs w" "w_miniBuf w' = w_miniBuf w"
    using c by (auto simp: createStream_Inr)
  have eqs: "outB w' = outB w" "mini_len w' = mini_len w" "nsec w' = nsec w" "mini_data w' = mini_data w"
    using w' by (simp_all add: outB_def mini_len_def nsec_def mini_data_def)
  have ok: "stream_ok w' st d = stream_ok w st d" for st d using w' eqs by (simp add: stream_ok_def)
  have "stream_ok w' (w_streams w' ! i) ((D(sid := [])) i)" if "i < length (w_streams w')" for i
    using that inv by (auto simp: ok w' sid nth_append winv_def less_Suc_eq stream_ok_newStream)
  moreover have "mset (concat (map regular_secs (w_streams w'))) = mset (concat (map regular_secs (w_streams w)))"
    "mset (concat (map mini_secs (w_streams w'))) = mset (concat (map mini_secs (w_streams w)))"
    by (simp_all add: w' regular_secs_def mini_secs_def newStream_def csecs_def)
  ultimately show ?thesis
    using inv w' eqs by (simp add: winv_def geom_def owned_def)
qed

section \<open>The transition system\<close>

text \<open>
  \<open>cs_pend sid\<close> is what a \<open>Write\<close> in progress on stream \<open>sid\<close> has still to write (its \<open>p\<close>), and
  \<open>cs_data sid\<close> the bytes its rounds have taken so far. A \<open>Write\<close> takes the mutex in \<open>flush\<close> only,
  so the rounds of several of them interleave; a \<open>StreamWriter\<close> itself has one caller at a time.
  \<open>step_meta\<close> and \<open>step_bits\<close> are the caller setting exported fields.
\<close>

record cstate =
  cs_w :: writer
  cs_pend :: "nat \<Rightarrow> bytes"
  cs_data :: "nat \<Rightarrow> bytes"

definition write_guard :: "writer \<Rightarrow> nat \<Rightarrow> bytes \<Rightarrow> bool" where
  "write_guard w sid p \<longleftrightarrow> sid < length (w_streams w) \<and> \<not> sw_closed (w_streams w ! sid) \<and>
     \<not> (w_secSize w = 512 \<and> streamSizeMaxV3 < sw_size (w_streams w ! sid) + length p)"

inductive wstep :: "sink \<Rightarrow> cstate \<Rightarrow> cstate \<Rightarrow> bool" for wr :: sink where
  step_stream: "createStream (cs_w c) path name = Inr (w', sid) \<Longrightarrow>
    wstep wr c (c\<lparr>cs_w := w', cs_pend := (cs_pend c)(sid := []), cs_data := (cs_data c)(sid := [])\<rparr>)"
| step_storage: "createStorage (cs_w c) path name = Inr (w', path') \<Longrightarrow> wstep wr c (c\<lparr>cs_w := w'\<rparr>)"
| step_write: "cs_pend c sid = [] \<Longrightarrow> write_guard (cs_w c) sid p \<Longrightarrow>
    wstep wr c (c\<lparr>cs_pend := (cs_pend c)(sid := p)\<rparr>)"
| step_round: "cs_pend c sid \<noteq> [] \<Longrightarrow> write_iter wr (cs_w c) sid (cs_pend c sid) = (w', k, None) \<Longrightarrow>
    wstep wr c (c\<lparr>cs_w := w', cs_pend := (cs_pend c)(sid := drop k (cs_pend c sid)),
      cs_data := (cs_data c)(sid := cs_data c sid @ take k (cs_pend c sid))\<rparr>)"
| step_close: "cs_pend c sid = [] \<Longrightarrow> sid < length (w_streams (cs_w c)) \<Longrightarrow>
    closeStream wr (cs_w c) sid = (w', None) \<Longrightarrow> wstep wr c (c\<lparr>cs_w := w'\<rparr>)"
| step_meta: "sg_at (w_root (cs_w c)) path = Some sg \<Longrightarrow> length (sg_clsid m) = 16 \<Longrightarrow>
    wstep wr c (c\<lparr>cs_w := (cs_w c)\<lparr>w_root := sg_map_at (sg_set_meta m) (w_root (cs_w c)) path\<rparr>\<rparr>)"
| step_bits: "sid < length (w_streams (cs_w c)) \<Longrightarrow>
    wstep wr c (c\<lparr>cs_w := w_upd (cs_w c) sid ((w_streams (cs_w c) ! sid)\<lparr>sw_stateBits := b\<rparr>)\<rparr>)"

definition winit :: "nat \<Rightarrow> cstate" where
  "winit S = \<lparr>cs_w = newWriter S, cs_pend = (\<lambda>_. []), cs_data = (\<lambda>_. [])\<rparr>"

inductive wreach :: "sink \<Rightarrow> nat \<Rightarrow> cstate \<Rightarrow> bool" for wr :: sink and S :: nat where
  reach_init: "wreach wr S (winit S)"
| reach_step: "wreach wr S c \<Longrightarrow> wstep wr c c' \<Longrightarrow> wreach wr S c'"

inductive_cases wstep_cases: "wstep wr c c'"

text \<open>What is in progress is on open streams of the arena.\<close>

definition cinv :: "cstate \<Rightarrow> bool" where
  "cinv c \<longleftrightarrow> winv (cs_w c) (cs_data c) \<and> (\<forall>sid. cs_pend c sid \<noteq> [] \<longrightarrow> open_stream (cs_w c) sid)"

text \<open>Each operation changes one stream of the arena, and the file and the mini stream only grow.\<close>

definition one_stream :: "writer \<Rightarrow> nat \<Rightarrow> writer \<Rightarrow> bool" where
  "one_stream w sid w' \<longleftrightarrow> (\<exists>s. w_streams w' = (w_streams w)[sid := s]) \<and> w_root w' = w_root w \<and>
     w_descendants w' = w_descendants w \<and> w_closed w' = w_closed w \<and> (\<forall>i. sw_name (w_streams w' ! i) = sw_name (w_streams w ! i))"

lemma one_stream_upd:
  "w_streams v = w_streams w \<Longrightarrow> w_root v = w_root w \<Longrightarrow> w_descendants v = w_descendants w \<Longrightarrow>
   w_closed v = w_closed w \<Longrightarrow> sw_name s = sw_name (w_streams w ! sid) \<Longrightarrow> one_stream w sid (w_upd v sid s)"
  unfolding one_stream_def w_upd_def
  by (cases "sid < length (w_streams w)") (auto simp: nth_list_update list_update_beyond
      intro!: exI [of _ s] split: if_split)

lemma one_stream_same:
  "w_streams v = w_streams w \<Longrightarrow> w_root v = w_root w \<Longrightarrow> w_descendants v = w_descendants w \<Longrightarrow>
   w_closed v = w_closed w \<Longrightarrow> one_stream w sid v"
  unfolding one_stream_def by (metis list_update_id)

lemma one_stream_trans: "one_stream w1 sid w2 \<Longrightarrow> one_stream w2 sid w3 \<Longrightarrow> one_stream w1 sid w3"
  unfolding one_stream_def by (metis list_update_overwrite)

lemma one_stream_open: "one_stream w sid w' \<Longrightarrow> i \<noteq> sid \<Longrightarrow> open_stream w i \<Longrightarrow> open_stream w' i"
  by (auto simp: one_stream_def open_stream_def)

lemma one_stream_tree:
  assumes a: "one_stream w sid w'" "tree_ok w"
  shows "tree_ok w'"
proof -
  have "stream_name w' = stream_name w" using a by (simp add: fun_eq_iff one_stream_def stream_name_def)
  then show ?thesis using a by (auto simp: one_stream_def tree_ok_def)
qed

definition grows :: "writer \<Rightarrow> writer \<Rightarrow> bool" where
  "grows w w' \<longleftrightarrow> out_mono w w' \<and> mini_len w \<le> mini_len w'"

lemma grows_fits: "grows w w' \<Longrightarrow> fits w' \<Longrightarrow> fits w"
  using out_mono_nsec [of w w'] div_le_mono [of "mini_len w" "mini_len w'" miniSectorSize]
  by (auto simp: grows_def fits_def)

lemma grows_upd [simp]: "grows w (w_upd v sid s) = grows w v"
  by (simp add: grows_def)

lemma flush_frame:
  assumes "flush wr w sid b = (w', err)"
  shows "one_stream w sid w'" "grows w w'"
proof -
  let ?s = "(w_streams w ! sid)\<lparr>sw_chain := addRun (sw_chain (w_streams w ! sid)) (word_of_nat (sectorIdx w))
      (word_of_nat ((length (sw_buf (w_streams w ! sid)) + length b) div w_secSize w)), sw_buf := []\<rparr>"
  obtain cw where "w' = w\<lparr>w_cw := cw\<rparr> \<or> w' = w_upd (w\<lparr>w_cw := cw\<rparr>) sid ?s"
    using assms by (auto simp: flush_def Let_def split: prod.splits option.splits)
  then show "one_stream w sid w'" "grows w w'"
    using flush_mono [OF assms]
    by (auto simp: grows_def mini_len_def intro: one_stream_same one_stream_upd)
qed

lemma grows_refl: "grows w w"
  by (auto simp: grows_def)

lemma grows_trans: "grows w1 w2 \<Longrightarrow> grows w2 w3 \<Longrightarrow> grows w1 w3"
  by (auto simp: grows_def intro: out_mono_trans)

lemma write_iter_frame:
  assumes it: "write_iter wr w sid p = (w', k, err)"
  shows "one_stream w sid w'" "grows w w'"
proof -
  let ?room = "writeRoom w sid p" and ?s = "w_streams w ! sid"
  have "one_stream w sid w' \<and> grows w w'"
  proof (cases "?room = 0 \<or> int (length p) < ?room \<or> ?room < 0")
    case True
    then have "w' = w_upd w sid (?s\<lparr>sw_buf := sw_buf ?s @ p, sw_size := sw_size ?s + length p\<rparr>) \<or> w' = w"
      using it by (auto simp: write_iter_def Let_def split: if_splits)
    then show ?thesis by (auto simp: grows_refl intro: one_stream_same one_stream_upd)
  next
    case False
    obtain v e where fl: "flush wr w sid (take (nat ?room) p) = (v, e)" by fastforce
    have "w' = v \<or> w' = w_upd v sid ((w_streams v ! sid)\<lparr>sw_size := sw_size (w_streams v ! sid) + nat ?room\<rparr>)"
      using it False fl by (auto simp: write_iter_def Let_def split: option.splits)
    then show ?thesis
      using flush_frame [OF fl] one_stream_trans [OF _ one_stream_upd [OF refl refl refl refl]] by auto
  qed
  then show "one_stream w sid w'" "grows w w'" by auto
qed

lemma writeMini_len:
  "writeMini wr w p = (w', None) \<Longrightarrow> mini_len w' = mini_len w + length p"
proof (induction "length p + length (w_miniBuf w)" arbitrary: w p rule: less_induct)
  case less
  show ?case
  proof (cases "p = []")
    case True
    then show ?thesis using less.prems by simp
  next
    case False
    have S: "\<not> w_secSize w < length (w_miniBuf w)" "w_secSize w \<noteq> 0"
      using less.prems False by (auto simp: writeMini.simps [of wr w p] split: if_splits)
    define n where "n = min (length p) (w_secSize w - length (w_miniBuf w))"
    define w1 where "w1 = w\<lparr>w_miniBuf := w_miniBuf w @ take n p\<rparr>"
    have w1: "length (w_miniBuf w) + length (take n p) = length (w_miniBuf w1)" by (simp add: w1_def)
    show ?thesis
    proof (cases "length (w_miniBuf w1) = w_secSize w")
      case full: True
      obtain cw e where cw: "cw_write wr (w_cw w1) (w_miniBuf w1) = (cw, e)" by fastforce
      let ?w3 = "w1\<lparr>w_cw := cw, w_miniSecs := w_miniSecs w1 @ [word_of_nat (sectorIdx w1)], w_miniBuf := []\<rparr>"
      have "writeMini wr w p = (case e of Some e \<Rightarrow> (w1\<lparr>w_cw := cw\<rparr>, Some e) | None \<Rightarrow> writeMini wr ?w3 (drop n p))"
        using False S full cw
        by (subst writeMini.simps) (simp add: n_def [symmetric] w1_def [symmetric] Let_def w1 del: length_take)
      then have "writeMini wr ?w3 (drop n p) = (w', None)" using less.prems by (auto split: option.splits)
      then have "mini_len w' = mini_len ?w3 + length (drop n p)"
        using False S full by (intro less.hyps) (auto simp: w1_def)
      moreover have "mini_len ?w3 + length (drop n p) = mini_len w + length p"
        using full by (auto simp: mini_len_def w1_def)
      ultimately show ?thesis by simp
    next
      case nfull: False
      then have n: "n = length p" using S by (simp add: w1_def n_def)
      then show ?thesis
        using False S nfull less.prems
        by (subst (asm) writeMini.simps) (auto simp: n_def [symmetric] w1_def Let_def mini_len_def split: if_splits)
    qed
  qed
qed

lemma closeStream_frame:
  assumes cl: "closeStream wr w sid = (w', None)"
  shows "one_stream w sid w'" "grows w w'"
proof -
  let ?s = "w_streams w ! sid"
  have "one_stream w sid w' \<and> grows w w'"
  proof (cases "sw_closed ?s \<or> sw_size ?s = 0")
    case True
    then show ?thesis
      using cl by (auto simp: closeStream_def Let_def grows_refl split: if_splits intro: one_stream_same one_stream_upd)
  next
    case False
    show ?thesis
    proof (cases "miniStreamCutoff \<le> sw_size ?s")
      case big: True
      obtain v where v: "v = w \<or> flush wr w sid (replicate (w_secSize w - length (sw_buf ?s)) 0) = (v, None)"
        "w' = w_upd v sid ((w_streams v ! sid)\<lparr>sw_buf := [], sw_closed := True\<rparr>)"
        using cl False big by (auto simp: closeStream_def Let_def split: if_splits prod.splits option.splits)
      then have "one_stream w sid v" "grows w v" using flush_frame by (auto simp: grows_refl intro: one_stream_same)
      then show ?thesis using v one_stream_trans [OF _ one_stream_upd [OF refl refl refl refl]] by auto
    next
      case small: False
      obtain v s' where wm: "writeMini wr w (padMini (sw_buf ?s)) = (v, None)"
        and w': "w' = w_upd v sid s'" "sw_name s' = sw_name ?s"
        using cl False small by (auto simp: closeStream_def Let_def split: prod.splits option.splits)
      have "one_stream w sid v" "grows w v" "w_streams v = w_streams w"
        using writeMini_frame [OF wm] writeMini_len [OF wm] by (auto simp: mini_frame_def grows_def intro!: one_stream_same)
      then show ?thesis using w' one_stream_trans [OF _ one_stream_upd [OF refl refl refl refl]] by auto
    qed
  qed
  then show "one_stream w sid w'" "grows w w'" by auto
qed

section \<open>Every reachable state\<close>

lemma wstep_grows: "wstep wr c c' \<Longrightarrow> grows (cs_w c) (cs_w c')"
proof (induction rule: wstep.induct)
  case (step_stream c path name w' sid)
  then show ?case
    by (auto simp: createStream_Inr grows_def out_mono_def outB_def mini_len_def)
next
  case (step_storage c path name w' path')
  then show ?case
    by (auto simp: createStorage_Inr grows_def out_mono_def outB_def mini_len_def)
next
  case (step_meta c path sg m)
  then show ?case by (simp add: grows_def out_mono_def outB_def mini_len_def)
qed (auto simp: grows_refl dest: write_iter_frame closeStream_frame)

lemma cinv_step:
  assumes "wstep wr c c'" "cinv c" "sink_ok wr" "fits (cs_w c')"
  shows "cinv c'"
  using assms
proof (cases rule: wstep.cases)
  case (step_stream path name w' sid)
  then have "open_stream w' i" if "open_stream (cs_w c) i" for i
    using that by (auto simp: createStream_Inr open_stream_def nth_append)
  then show ?thesis
    using step_stream createStream_winv [OF _ step_stream(2)] assms(2) by (auto simp: cinv_def)
next
  case (step_storage path name w' path')
  then have "winv w' (cs_data c)" "w_streams w' = w_streams (cs_w c)"
    using assms(2) by (auto simp: createStorage_Inr cinv_def intro: winv_cong)
  then show ?thesis using step_storage assms(2) by (auto simp: cinv_def open_stream_def)
next
  case (step_write sid p)
  then show ?thesis using assms(2) by (auto simp: cinv_def write_guard_def open_stream_def)
next
  case (step_round sid w' k)
  have op: "open_stream (cs_w c) sid" and inv: "winv (cs_w c) (cs_data c)"
    using assms(2) step_round(2) by (auto simp: cinv_def)
  from write_iter_ok [OF inv op assms(3) step_round(2)]
  have "open_stream w' sid" "nsec w' < 2 ^ 32 \<longrightarrow> winv w' ((cs_data c)(sid := cs_data c sid @ take k (cs_pend c sid)))"
    using step_round(3) by (metis Pair_inject)+
  then show ?thesis
    using step_round assms(2,4) one_stream_open [OF write_iter_frame(1) [OF step_round(3)]]
    by (auto simp: cinv_def fits_def)
next
  case (step_close sid w')
  have inv: "winv (cs_w c) (cs_data c)" using assms(2) by (simp add: cinv_def)
  have "winv w' (cs_data c)"
  proof (cases "sw_closed (w_streams (cs_w c) ! sid)")
    case True
    then show ?thesis using step_close(4) inv by (simp add: closeStream_def Let_def)
  next
    case False
    then have "open_stream (cs_w c) sid" using step_close(3) by (simp add: open_stream_def)
    then show ?thesis using closeStream_ok(2) [OF inv _ assms(3) step_close(4)] assms(4) step_close(1) by simp
  qed
  moreover have "open_stream w' i" if "cs_pend c i \<noteq> []" for i
    using that step_close(2) assms(2) one_stream_open [OF closeStream_frame(1) [OF step_close(4)], of i]
    by (cases "i = sid") (auto simp: cinv_def)
  ultimately show ?thesis using step_close(1) by (simp add: cinv_def)
next
  case (step_meta path sg m)
  have "winv (cs_w c') (cs_data c')" using assms(2) unfolding step_meta(1) cinv_def by (auto intro: winv_cong)
  then show ?thesis using step_meta(1) assms(2) by (auto simp: cinv_def open_stream_def)
next
  case (step_bits sid b)
  let ?s = "w_streams (cs_w c) ! sid"
  have inv: "winv (cs_w c) (cs_data c)" using assms(2) by (simp add: cinv_def)
  then have ok: "stream_ok (cs_w c) ?s (cs_data c sid)" using step_bits(2) by (simp add: winv_def)
  then have "stream_ok (cs_w c) (?s\<lparr>sw_stateBits := b\<rparr>) (cs_data c sid)" by (simp add: stream_ok_def)
  from winv_buffer [OF inv step_bits(2) this] have "winv (cs_w c') (cs_data c)"
    by (simp add: step_bits(1) regular_secs_def mini_secs_def)
  then show ?thesis using step_bits assms(2) by (auto simp: cinv_def open_stream_def nth_list_update)
qed

lemma wreach_cinv:
  "wreach wr S c \<Longrightarrow> sink_ok wr \<Longrightarrow> S = 512 \<or> S = 4096 \<Longrightarrow> fits (cs_w c) \<Longrightarrow> cinv c"
proof (induction rule: wreach.induct)
  case reach_init
  then show ?case by (auto simp: cinv_def winit_def intro: winv_new)
next
  case (reach_step c c')
  then show ?case using cinv_step grows_fits [OF wstep_grows] by blast
qed

lemma wstep_tree: "wstep wr c c' \<Longrightarrow> tree_ok (cs_w c) \<Longrightarrow> tree_ok (cs_w c')"
proof (induction rule: wstep.induct)
  case (step_bits sid c b)
  have "one_stream (cs_w c) sid (w_upd (cs_w c) sid ((w_streams (cs_w c) ! sid)\<lparr>sw_stateBits := b\<rparr>))"
    by (rule one_stream_upd) simp_all
  then show ?case using step_bits(2) by (simp add: one_stream_tree)
qed (auto intro: createStream_tree createStorage_tree one_stream_tree set_meta_tree
      dest: write_iter_frame(1) closeStream_frame(1))

lemma wreach_tree: "wreach wr S c \<Longrightarrow> tree_ok (cs_w c)"
  by (induction rule: wreach.induct) (auto simp: winit_def tree_ok_new wstep_tree)

lemma wreach_secSize: "wreach wr S c \<Longrightarrow> w_secSize (cs_w c) = S"
  by (induction rule: wreach.induct)
    (auto simp: winit_def newWriter_def grows_def out_mono_def dest!: wstep_grows)

text \<open>The name of the root, and the sizes of the CLSIDs.\<close>

fun metas_ok :: "storageW \<Rightarrow> bool" where
  "metas_ok (StorageW m sgs sts) \<longleftrightarrow> length (sg_clsid m) = 16 \<and> list_all metas_ok sgs"

definition root_ok :: "writer \<Rightarrow> bool" where
  "root_ok w \<longleftrightarrow> sg_name_of (w_root w) = rootName \<and> metas_ok (w_root w)"

lemma metas_ok_map_at: "(\<And>x. metas_ok x \<Longrightarrow> metas_ok (f x)) \<Longrightarrow> metas_ok sg \<Longrightarrow> metas_ok (sg_map_at f sg path)"
proof (induction f sg path rule: sg_map_at.induct)
  case (2 f m sgs sts i path)
  show ?case
  proof (cases "i < length sgs")
    case True
    then have "metas_ok (sg_map_at f (sgs ! i) path)" using 2 by (auto simp: list_all_length)
    then show ?thesis
      using "2.prems"(2) True by (auto simp: list_all_iff dest!: set_update_subset_insert [THEN subsetD])
  qed (use "2.prems"(2) in simp)
qed simp

lemma metas_ok_add: "metas_ok x \<Longrightarrow> metas_ok (sg_add_stream sid x)"
  "metas_ok x \<Longrightarrow> metas_ok (sg_add_storage (StorageW (newMeta enc) [] []) x)"
  "metas_ok x \<Longrightarrow> length (sg_clsid m) = 16 \<Longrightarrow> metas_ok (sg_set_meta m x)"
  by (cases x; simp add: newMeta_def)+

lemma wstep_root: "wstep wr c c' \<Longrightarrow> root_ok (cs_w c) \<Longrightarrow> root_ok (cs_w c')"
proof (induction rule: wstep.induct)
  case (step_meta c path sg m)
  then have "metas_ok (sg_map_at (sg_set_meta m) (w_root (cs_w c)) path)"
    by (intro metas_ok_map_at) (auto simp: root_ok_def metas_ok_add)
  then show ?case using step_meta by (simp add: root_ok_def sg_name_map_at)
next
  case (step_bits sid c b)
  then show ?case by (simp add: root_ok_def w_upd_def)
qed (auto simp: root_ok_def one_stream_def createStream_Inr createStorage_Inr sg_name_map_at metas_ok_map_at metas_ok_add
  dest!: write_iter_frame(1) closeStream_frame(1))

lemma wreach_root: "wreach wr S c \<Longrightarrow> root_ok (cs_w c)"
proof (induction rule: wreach.induct)
  case reach_init
  then show ?case by (simp add: winit_def newWriter_def root_ok_def newMeta_def sg_name_of_def)
qed (rule wstep_root)

text \<open>Only \<open>Close\<close> of the writer sets its flag.\<close>

lemma wreach_open: "wreach wr S c \<Longrightarrow> \<not> w_closed (cs_w c)"
proof (induction rule: wreach.induct)
  case reach_init
  then show ?case by (simp add: winit_def newWriter_def)
next
  case (reach_step c c')
  from reach_step(2) reach_step(3) show ?case
    by (cases rule: wstep.cases)
      (auto simp: createStream_Inr createStorage_Inr w_upd_def one_stream_def dest: write_iter_frame(1) closeStream_frame(1))
qed

text \<open>The cap on the size of a version 3 stream counts what is still to be written.\<close>

definition cap_ok :: "cstate \<Rightarrow> bool" where
  "cap_ok c \<longleftrightarrow> (w_secSize (cs_w c) = 512 \<longrightarrow> (\<forall>sid. length (cs_data c sid) + length (cs_pend c sid) \<le> streamSizeMaxV3))"

lemma wstep_cap:
  assumes st: "wstep wr c c'" and cap: "cap_ok c" and inv: "cinv c"
  shows "cap_ok c'"
proof -
  have S: "w_secSize (cs_w c') = w_secSize (cs_w c)" using wstep_grows [OF st] by (simp add: grows_def out_mono_def)
  show ?thesis
    using st
  proof (cases rule: wstep.cases)
    case (step_write sid p)
    then have "stream_ok (cs_w c) (w_streams (cs_w c) ! sid) (cs_data c sid)"
      using inv by (simp add: cinv_def winv_def write_guard_def)
    then show ?thesis using step_write cap by (auto simp: cap_ok_def write_guard_def stream_ok_def)
  next
    case (step_round sid w' k)
    then show ?thesis using cap S by (auto simp: cap_ok_def min_def)
  qed (use cap S in \<open>auto simp: cap_ok_def\<close>)
qed

lemma wreach_cap:
  "wreach wr S c \<Longrightarrow> sink_ok wr \<Longrightarrow> S = 512 \<or> S = 4096 \<Longrightarrow> fits (cs_w c) \<Longrightarrow> cap_ok c"
proof (induction rule: wreach.induct)
  case reach_init
  then show ?case by (simp add: cap_ok_def winit_def streamSizeMaxV3_def)
next
  case (reach_step c c')
  then have "fits (cs_w c)" using grows_fits [OF wstep_grows] by blast
  then show ?case using reach_step wstep_cap wreach_cinv by blast
qed

end
