(* ===== verification/WriterStore.thy ===== *)
theory WriterStore
  imports WriterReach
begin

text \<open>
  The writer seen from outside: the bytes each stream holds (\<open>streamBytes\<close>), the abstract store of
  byte files the writer refines (\<open>store_step\<close>), and the properties of its operations and of every
  reachable state. A short run of the writer (create, write, close) serves as their example.
\<close>

section \<open>An example run\<close>

definition full_sink :: sink where
  "full_sink h p = (length p, None)"

lemma full_sink_ok: "sink_ok full_sink"
  by (simp add: sink_ok_def full_sink_def)

definition sample_stream :: "bool \<Rightarrow> bytes \<Rightarrow> sectorRun list \<Rightarrow> streamW" where
  "sample_stream closed buf chain = \<lparr>sw_stateBits = 0, sw_name = [0x41], sw_closed = closed, sw_buf = buf,
     sw_chain = chain, sw_size = 3\<rparr>"

definition sample_writer :: "bytes \<Rightarrow> streamW \<Rightarrow> writer" where
  "sample_writer mini st = (newWriter 512)\<lparr>w_miniBuf := mini, w_descendants := 2,
     w_root := StorageW (newMeta rootName) [] [0], w_streams := [st]\<rparr>"

definition sample_open :: cstate where
  "sample_open = \<lparr>cs_w = sample_writer [] (sample_stream False [1, 2, 3] []), cs_pend = (\<lambda>_. []),
     cs_data = (\<lambda>_. [])(0 := [1, 2, 3])\<rparr>"

definition sample_closed :: cstate where
  "sample_closed = \<lparr>cs_w = sample_writer (padMini [1, 2, 3])
     (sample_stream True [] [\<lparr>sr_first = 0, sr_count = 1\<rparr>]), cs_pend = (\<lambda>_. []),
     cs_data = (\<lambda>_. [])(0 := [1, 2, 3])\<rparr>"

lemma encodeName_A: "encodeName [0x41] = Inr [0x41]"
  by (simp add: encodeName_def containsAny_def Let_def utf16_encode_def appendRune_def forbiddenRunes_def)

lemma sample_open_reach: "wreach full_sink 512 sample_open"
proof -
  define c1 where "c1 = \<lparr>cs_w = sample_writer [] (newStream [0x41]), cs_pend = (\<lambda>_. []), cs_data = (\<lambda>_. [])\<rparr>"
  have "createStream (newWriter 512) [] [0x41] = Inr (cs_w c1, 0)"
    by (simp add: createStream_def validateChildName_def encodeName_A newWriter_def c1_def sample_writer_def)
  then have "wstep full_sink (winit 512) c1"
    using wstep.step_stream [of "winit 512" "[]" "[0x41]" "cs_w c1" 0 full_sink]
    by (simp add: winit_def c1_def fun_upd_idem)
  then have r1: "wreach full_sink 512 c1" using wreach.intros by blast
  define c2 where "c2 = c1\<lparr>cs_pend := (cs_pend c1)(0 := [1, 2, 3])\<rparr>"
  have "wstep full_sink c1 c2" unfolding c2_def
    by (rule wstep.step_write) (simp_all add: c1_def write_guard_def sample_writer_def newWriter_def newStream_def streamSizeMaxV3_def)
  then have r2: "wreach full_sink 512 c2" using r1 wreach.intros by blast
  have "write_iter full_sink (cs_w c2) 0 (cs_pend c2 0) = (cs_w sample_open, 3, None)"
    by (simp add: write_iter_def writeRoom_def Let_def c2_def c1_def sample_writer_def sample_open_def newWriter_def
        newStream_def sample_stream_def w_upd_def miniStreamCutoff_def)
  moreover have "cs_pend c2 0 \<noteq> []" by (simp add: c2_def)
  ultimately have "wstep full_sink c2 sample_open"
    using wstep.step_round [of c2 0 full_sink "cs_w sample_open" 3]
    by (simp add: c2_def c1_def sample_open_def fun_upd_idem)
  then show ?thesis using r2 wreach.intros by blast
qed

lemma sample_close: "closeStream full_sink (cs_w sample_open) 0 = (cs_w sample_closed, None)"
proof -
  have p: "padMini [1, 2, 3] = [1, 2, 3] @ replicate 61 0"
    by (simp add: padMini_def miniSectorSize_def Let_def)
  have l: "length (padMini [1, 2, 3]) = 64" unfolding p by (simp only: length_append length_replicate list.size)
  have w: "writeMini full_sink (cs_w sample_open) (padMini [1, 2, 3]) =
      ((cs_w sample_open)\<lparr>w_miniBuf := padMini [1, 2, 3]\<rparr>, None)"
  proof -
    have "padMini [1, 2, 3] \<noteq> []" using l by auto
    then show ?thesis
      using l by (subst writeMini.simps) (simp add: sample_open_def sample_writer_def newWriter_def Let_def)
  qed
  show ?thesis
    using w l by (simp add: closeStream_def sample_open_def sample_closed_def sample_writer_def sample_stream_def
        newWriter_def w_upd_def Let_def miniStreamCutoff_def miniSectorSize_def)
qed

lemma sample_closed_step: "wstep full_sink sample_open sample_closed"
  using wstep.step_close [of sample_open 0 full_sink "cs_w sample_closed"] sample_close
  by (simp add: sample_open_def sample_closed_def sample_writer_def)

lemma sample_closed_reach: "wreach full_sink 512 sample_closed"
  using sample_open_reach sample_closed_step wreach.intros by blast

lemma sample_fits: "fits (cs_w sample_closed)"
proof -
  have "length (padMini [1, 2, 3]) \<le> miniStreamCutoff" by (rule length_padMini) (simp add: miniStreamCutoff_def)
  then show ?thesis
    by (simp add: fits_def nsec_def mini_len_def sample_closed_def sample_writer_def newWriter_def outB_def
      miniSectorSize_def miniStreamCutoff_def)
qed


section \<open>The bytes of a stream\<close>

text \<open>What a stream holds: below the cutoff its buffer, or its run of the mini stream once closed;
  from the cutoff on the sectors of its chain and then its buffer.\<close>

definition streamBytes :: "writer \<Rightarrow> nat \<Rightarrow> bytes" where
  "streamBytes w sid = (let s = w_streams w ! sid in
     take (sw_size s)
       (if sw_size s < miniStreamCutoff
        then (if sw_closed s then cdata miniSectorSize (mini_data w) (sw_chain s) else sw_buf s)
        else cdata (w_secSize w) (outB w) (sw_chain s) @ sw_buf s))"

lemma streamBytes_stream:
  assumes "stream_ok w (w_streams w ! sid) d"
  shows "streamBytes w sid = d"
proof -
  have "xs @ b = d \<Longrightarrow> take (length d) (xs @ b) = d" for xs b d :: bytes by simp
  then show ?thesis
    using assms padMini_length(3) [of d]
    by (auto simp: stream_ok_def streamBytes_def Let_def cdata_def simp del: take_append split: if_splits)
       (simp_all add: take_append)
qed

lemma streamBytes_ok: "winv w D \<Longrightarrow> sid < length (w_streams w) \<Longrightarrow> streamBytes w sid = D sid"
  by (intro streamBytes_stream) (simp add: winv_def)

lemma wreach_bytes:
  "wreach wr S c \<Longrightarrow> sink_ok wr \<Longrightarrow> S = 512 \<or> S = 4096 \<Longrightarrow> fits (cs_w c) \<Longrightarrow> sid < length (w_streams (cs_w c)) \<Longrightarrow>
   streamBytes (cs_w c) sid = cs_data c sid"
  using wreach_cinv streamBytes_ok unfolding cinv_def by blast

text \<open>The abstract store: files that are created empty and appended to.\<close>

inductive store_step :: "bytes list \<Rightarrow> bytes list \<Rightarrow> bool" where
  store_same: "store_step fs fs"
| store_create: "store_step fs (fs @ [[]])"
| store_append: "i < length fs \<Longrightarrow> store_step fs (fs[i := fs ! i @ p])"

definition store_of :: "writer \<Rightarrow> bytes list" where
  "store_of w = map (streamBytes w) [0..<length (w_streams w)]"

text \<open>Every stream of \<open>w\<close> holds what \<open>D\<close> says, whatever the end of the file looks like.\<close>

definition holds :: "writer \<Rightarrow> (nat \<Rightarrow> bytes) \<Rightarrow> bool" where
  "holds w D \<longleftrightarrow> (\<forall>i < length (w_streams w). stream_ok w (w_streams w ! i) (D i))"

lemma winv_holds: "winv w D \<Longrightarrow> holds w D"
  by (simp add: winv_def holds_def)

lemma store_of_holds: "holds w D \<Longrightarrow> store_of w = map D [0..<length (w_streams w)]"
  by (simp add: store_of_def holds_def streamBytes_stream)

lemma store_of_inv: "winv w D \<Longrightarrow> store_of w = map D [0..<length (w_streams w)]"
  by (rule store_of_holds [OF winv_holds])


lemma wstep_store:
  "wstep wr c c' \<Longrightarrow> store_step (map (cs_data c) [0..<length (w_streams (cs_w c))])
     (map (cs_data c') [0..<length (w_streams (cs_w c'))])"
proof (induction rule: wstep.induct)
  case (step_stream c path name w' sid)
  then have "length (w_streams w') = Suc (length (w_streams (cs_w c)))" "sid = length (w_streams (cs_w c))"
    by (auto simp: createStream_Inr)
  then have "map ((cs_data c)(sid := [])) [0..<length (w_streams w')] =
      map (cs_data c) [0..<length (w_streams (cs_w c))] @ [[]]" by simp
  then show ?case using store_create by (simp del: fun_upd_apply)
next
  case (step_round c sid w' k)
  have len: "length (w_streams w') = length (w_streams (cs_w c))"
    using write_iter_frame(1) [OF step_round(2)] by (auto simp: one_stream_def)
  let ?q = "take k (cs_pend c sid)" and ?fs = "map (cs_data c) [0..<length (w_streams (cs_w c))]"
  show ?case
  proof (cases "sid < length (w_streams (cs_w c))")
    case True
    then have "map ((cs_data c)(sid := cs_data c sid @ ?q)) [0..<length (w_streams (cs_w c))] = ?fs[sid := ?fs ! sid @ ?q]"
      by (intro nth_equalityI) (auto simp: nth_list_update)
    then show ?thesis using store_append [of sid ?fs ?q] True len by (simp del: fun_upd_apply)
  next
    case False
    then have "map ((cs_data c)(sid := cs_data c sid @ ?q)) [0..<length (w_streams (cs_w c))] = ?fs" by auto
    then show ?thesis using store_same len by (simp del: fun_upd_apply map_eq_conv)
  qed
next
  case (step_close c sid w')
  then show ?case using closeStream_frame(1) [OF step_close(3)] store_same by (auto simp: one_stream_def)
qed (auto simp: createStorage_Inr store_same)

section \<open>Writers that fail\<close>

text \<open>
  What \<open>io.Writer\<close> promises: a count within the buffer, and all of it unless there is an error. A
  sink that has room for the first bytes only is an instance that fails.
\<close>

definition sink_contract :: "sink \<Rightarrow> bool" where
  "sink_contract wr \<longleftrightarrow> (\<forall>h p. fst (wr h p) \<le> length p \<and> (snd (wr h p) = None \<longrightarrow> fst (wr h p) = length p))"

definition short_sink :: "nat \<Rightarrow> goerr \<Rightarrow> sink" where
  "short_sink room e h p =
     (if length h + length p \<le> room then (length p, None) else (min (length p) (room - length h), Some e))"

lemma short_sink_contract: "sink_contract (short_sink room e)"
  by (auto simp: sink_contract_def short_sink_def)

lemma sink_ok_contract: "sink_ok wr \<Longrightarrow> sink_contract wr"
  by (simp add: sink_ok_def sink_contract_def)

text \<open>Without an error the state is that of a sink that takes everything.\<close>

lemma cw_write_None: "sink_contract wr \<Longrightarrow> cw_write wr cw p = (cw', None) \<Longrightarrow> cw_write full_sink cw p = (cw', None)"
  unfolding sink_contract_def
  by (auto simp: cw_write_def full_sink_def split: prod.splits) (metis fst_conv snd_conv take_all_iff order_refl)+

lemma flush_None: "sink_contract wr \<Longrightarrow> flush wr w sid b = (w', None) \<Longrightarrow> flush full_sink w sid b = (w', None)"
  using cw_write_None [of wr "w_cw w" "sw_buf (w_streams w ! sid)"] cw_write_None [of wr _ b]
  by (fastforce simp: flush_def Let_def split: prod.splits option.splits)

lemma write_iter_None:
  "sink_contract wr \<Longrightarrow> write_iter wr w sid p = (w', k, None) \<Longrightarrow> write_iter full_sink w sid p = (w', k, None)"
  by (auto simp: write_iter_def Let_def split: if_splits prod.splits option.splits dest!: flush_None)

text \<open>With an error the streams are as they were and only the file has grown.\<close>

lemma cw_write_Some:
  "cw_write wr cw p = (cw', Some e) \<Longrightarrow> \<exists>x. cw_out cw' = cw_out cw @ x \<and> (\<exists>h q n. wr h q = (n, Some e))"
  by (auto simp: cw_write_def split: prod.splits)

lemma cw_write_grows: "cw_write wr cw p = (cw', err) \<Longrightarrow> \<exists>x. cw_out cw' = cw_out cw @ x"
  by (auto simp: cw_write_def split: prod.splits)

lemma flush_Some:
  assumes "flush wr w sid b = (w', Some e)"
  shows "\<exists>cw x. w' = w\<lparr>w_cw := cw\<rparr> \<and> cw_out cw = outB w @ x \<and> (\<exists>h q n. wr h q = (n, Some e))"
proof -
  obtain c1 e1 where c1: "cw_write wr (w_cw w) (sw_buf (w_streams w ! sid)) = (c1, e1)" by fastforce
  obtain c2 e2 where c2: "cw_write wr c1 b = (c2, e2)" by fastforce
  obtain x where x: "cw_out c1 = outB w @ x" using cw_write_grows [OF c1] by (auto simp: outB_def)
  show ?thesis
  proof (cases e1)
    case None
    then have "w' = w\<lparr>w_cw := c2\<rparr>" "e2 = Some e"
      using assms c1 c2 by (auto simp: flush_def Let_def split: option.splits)
    then show ?thesis using cw_write_Some [of wr c1 b c2 e] c2 x by (auto simp: outB_def)
  next
    case (Some y)
    then have "w' = w\<lparr>w_cw := c1\<rparr>" "e1 = Some e" using assms c1 by (auto simp: flush_def Let_def)
    then show ?thesis using cw_write_Some [of wr "w_cw w" _ c1 e] c1 x by auto
  qed
qed

lemma write_iter_Some:
  assumes inv: "winv w D" and op: "open_stream w sid" and it: "write_iter wr w sid p = (w', k, Some e)"
  shows "holds w' D \<and> length (w_streams w') = length (w_streams w) \<and> (\<exists>h q n. wr h q = (n, Some e))"
proof -
  have "0 \<le> writeRoom w sid p"
    using inv op by (cases rule: open_stream_cases) (auto simp: writeRoom_def Let_def)
  then obtain b where "flush wr w sid b = (w', Some e)"
    using it by (auto simp: write_iter_def Let_def split: if_splits prod.splits option.splits)
  from flush_Some [OF this] obtain cw x where w': "w' = w\<lparr>w_cw := cw\<rparr>" "cw_out cw = outB w @ x"
    and err: "\<exists>h q n. wr h q = (n, Some e)" by blast
  have g: "geom w" and ms: "\<forall>s \<in> set (w_miniSecs w). unat s < nsec w" using inv by (simp_all add: winv_def)
  have "slice (unat s * w_secSize w) (w_secSize w) (outB w @ x) = slice (unat s * w_secSize w) (w_secSize w) (outB w)"
    if "s \<in> set (w_miniSecs w)" for s
  proof -
    have "Suc (unat s) * w_secSize w \<le> nsec w * w_secSize w" using that ms by (intro mult_le_mono1) auto
    then show ?thesis using geom_out [OF g] by (intro slice_append_ge) simp
  qed
  then have "mini_data w' = mini_data w @ []" using w' by (simp add: mini_data_def outB_def cong: map_cong)
  moreover have "w_secSize w' = w_secSize w" "outB w' = outB w @ x" using w' by (simp_all add: outB_def)
  ultimately have "stream_ok w' st d" if "stream_ok w st d" for st d
    using stream_ok_grown [OF g] that by blast
  moreover have "w_streams w' = w_streams w" using w'(1) by simp
  ultimately show ?thesis using winv_holds [OF inv] err by (simp add: holds_def)
qed

text \<open>The loop over any such sink: the bytes taken are those it reports.\<close>

lemma write_loop_holds:
  assumes "winv w D" "open_stream w sid" "sink_contract wr" "write_loop wr w sid p n = (w', m, err)" "nsec w' < 2 ^ 32"
  shows "\<exists>k \<le> length p. m = n + k \<and> holds w' (D(sid := D sid @ take k p)) \<and>
    length (w_streams w') = length (w_streams w) \<and>
    (err = None \<longrightarrow> k = length p \<and> winv w' (D(sid := D sid @ p))) \<and>
    (\<forall>e. err = Some e \<longrightarrow> k < length p \<and> (\<exists>h q n. wr h q = (n, Some e)))"
  using assms
proof (induction "length p" arbitrary: w p n D rule: less_induct)
  case less
  show ?case
  proof (cases "p = []")
    case True
    then show ?thesis using less.prems by (auto simp: write_loop.simps winv_holds)
  next
    case False
    obtain w1 k e where it: "write_iter wr w sid p = (w1, k, e)" by (metis prod_cases3)
    show ?thesis
    proof (cases e)
      case (Some x)
      then have r: "w' = w1" "m = n" "err = Some x"
        using less.prems(4) False it by (simp_all add: write_loop.simps [of wr w])
      have "holds w' D" "length (w_streams w') = length (w_streams w)" "\<exists>h q n. wr h q = (n, Some x)"
        using write_iter_Some [OF less.prems(1,2)] it Some r(1) by blast+
      then show ?thesis using r False by (intro exI [of _ 0]) auto
    next
      case None
      have it: "write_iter full_sink w sid p = (w1, k, None)"
        and step: "write_iter wr w sid p = (w1, k, None)"
        using write_iter_None [OF less.prems(3)] it None by simp_all
      have w1: "0 < k" "k \<le> length p" "length (w_streams w1) = length (w_streams w)" "open_stream w1 sid"
        "nsec w1 < 2 ^ 32 \<longrightarrow> winv w1 (D(sid := D sid @ take k p))"
        using write_iter_ok [OF less.prems(1,2) full_sink_ok False] it by (metis prod.inject)+
      have l: "write_loop wr w1 sid (drop k p) (n + k) = (w', m, err)"
        using less.prems(4) False step by (simp add: write_loop.simps [of wr w])
      then have "nsec w1 < 2 ^ 32" using out_mono_nsec [OF write_loop_mono [OF l]] less.prems(5) by linarith
      then have i: "winv w1 (D(sid := D sid @ take k p))" using w1(5) by blast
      have lt: "length (drop k p) < length p" using w1(1,2) by simp
      have D: "(D(sid := D sid @ take k p))(sid := (D(sid := D sid @ take k p)) sid @ q) = D(sid := D sid @ take k p @ q)" for q
        by simp
      from less.hyps [OF lt i w1(4) less.prems(3) l less.prems(5)] obtain j where j:
        "j \<le> length p - k" "m = n + k + j" "holds w' (D(sid := D sid @ take k p @ take j (drop k p)))"
        "length (w_streams w') = length (w_streams w1)"
        "err = None \<longrightarrow> j = length p - k \<and> winv w' (D(sid := D sid @ take k p @ drop k p))"
        "\<forall>e. err = Some e \<longrightarrow> j < length p - k \<and> (\<exists>h q n. wr h q = (n, Some e))"
        unfolding D length_drop by blast
      have "take k p @ take j (drop k p) = take (k + j) p" by (simp add: take_add)
      then show ?thesis using j w1(2,3) by (intro exI [of _ "k + j"]) (auto simp: less_diff_conv)
    qed
  qed
qed

section \<open>Claims\<close>

text \<open>C6: In every state the writer can reach, in any interleaving of creations, of the rounds of concurrent
  writes and of closings, each sector of the file belongs to exactly one stream or to the mini stream,
  once, and each mini sector to exactly one small stream: no sector is shared, none is lost. (As long
  as sector numbers fit in their 32 bits.)\<close>

theorem sectors_owned_once:
  assumes "wreach wr S c" "sink_ok wr" "S = 512 \<or> S = 4096" "fits (cs_w c)"
  shows "mset (map unat (w_miniSecs (cs_w c))) + mset (concat (map regular_secs (w_streams (cs_w c)))) =
      mset [0..<nsec (cs_w c)] \<and>
    mset (concat (map mini_secs (w_streams (cs_w c)))) = mset [0..<mini_len (cs_w c) div miniSectorSize]"
  using wreach_cinv [OF assms] by (simp add: cinv_def winv_def owned_def)

theorem sectors_owned_once_witness:
  "mset (concat (map mini_secs (w_streams (cs_w sample_closed)))) = {#0#}"
proof -
  have "mini_len (cs_w sample_closed) div miniSectorSize = 1"
    by (simp add: mini_len_def sample_closed_def sample_writer_def newWriter_def padMini_def Let_def miniSectorSize_def)
  then show ?thesis
    using sectors_owned_once [OF sample_closed_reach full_sink_ok _ sample_fits] by simp
qed

text \<open>C8: In every reachable state each stream holds exactly the bytes the rounds of its writes have
  taken, in their order: those in its buffer, in the sectors of its chain or in its run of the mini
  stream, whatever other streams were written in between.\<close>

theorem stream_bytes_kept:
  assumes "wreach wr S c" "sink_ok wr" "S = 512 \<or> S = 4096" "fits (cs_w c)"
    and "sid < length (w_streams (cs_w c))"
  shows "streamBytes (cs_w c) sid = cs_data c sid \<and> sw_size (w_streams (cs_w c) ! sid) = length (cs_data c sid)"
proof -
  have "winv (cs_w c) (cs_data c)" using wreach_cinv [OF assms(1-4)] by (simp add: cinv_def)
  then have "stream_ok (cs_w c) (w_streams (cs_w c) ! sid) (cs_data c sid)" using assms(5) by (simp add: winv_def)
  then show ?thesis using wreach_bytes [OF assms] by (simp add: stream_ok_def)
qed

theorem stream_bytes_kept_witness: "streamBytes (cs_w sample_closed) 0 = [1, 2, 3]"
  using stream_bytes_kept [OF sample_closed_reach full_sink_ok _ sample_fits, of 0]
  by (simp add: sample_closed_def sample_writer_def)

text \<open>C9: The writer refines a store of byte files: seen through the contents of its streams, each step it
  takes (a creation, a round of a write whether it only buffers or flushes sectors, a closing that
  moves the buffer to sectors or to the mini stream) is creating an empty file, appending to one, or
  nothing.\<close>

theorem writer_refines_store:
  assumes "wreach wr S c" "wstep wr c c'" "sink_ok wr" "S = 512 \<or> S = 4096" "fits (cs_w c')"
  shows "store_step (store_of (cs_w c)) (store_of (cs_w c'))"
proof -
  have "cinv c" using wreach_cinv [OF assms(1,3,4)] grows_fits [OF wstep_grows [OF assms(2)] assms(5)] .
  moreover have "cinv c'" using cinv_step [OF assms(2) \<open>cinv c\<close> assms(3,5)] .
  ultimately have "store_of (cs_w c) = map (cs_data c) [0..<length (w_streams (cs_w c))]"
    "store_of (cs_w c') = map (cs_data c') [0..<length (w_streams (cs_w c'))]"
    by (simp_all add: cinv_def store_of_inv)
  moreover have "store_step (map (cs_data c) [0..<length (w_streams (cs_w c))])
      (map (cs_data c') [0..<length (w_streams (cs_w c'))])"
    using assms(2) by (rule wstep_store)
  ultimately show ?thesis by simp
qed

theorem writer_refines_store_witness:
  "store_step (store_of (cs_w sample_open)) (store_of (cs_w sample_closed))"
  using writer_refines_store [OF sample_open_reach sample_closed_step full_sink_ok _ sample_fits] by simp

text \<open>C14: In every reachable state the storages form a tree that holds each stream once, siblings have
  legal names that differ also up to case, and \<open>descendants\<close> counts the nodes (modulo \<open>2 ^ 32\<close>), which
  \<open>Close\<close> uses to size the directory.\<close>

theorem storage_tree_kept:
  assumes "wreach wr S c"
  shows "mset (sg_sids (w_root (cs_w c))) = mset [0..<length (w_streams (cs_w c))] \<and>
    sg_ok (stream_name (cs_w c)) (w_root (cs_w c)) \<and>
    w_descendants (cs_w c) = word_of_nat (sg_nodes (w_root (cs_w c)))"
  using wreach_tree [OF assms] by (simp add: tree_ok_def)

theorem storage_tree_kept_witness:
  "sg_sids (w_root (cs_w sample_closed)) = [0] \<and> w_descendants (cs_w sample_closed) = 2"
  using storage_tree_kept [OF sample_closed_reach]
  by (simp add: sample_closed_def sample_writer_def)

text \<open>\<open>validateChildName\<close> reports a closed writer first, then an illegal name, then a sibling storage
  or stream of the same name up to case; otherwise it gives the encoded name.\<close>

theorem validateChildName_exact:
  "validateChildName w sg name =
    (if w_closed w then Inl ErrWriterClosed
     else if name = [] \<or> 31 < length (utf16_encode name) \<or> (\<exists>r \<in> set name. r \<in> set forbiddenRunes)
     then Inl ErrInvalidName
     else if \<exists>n \<in> set (child_names (stream_name w) sg). map toUpper n = map toUpper (utf16_encode name)
     then Inl ErrDuplicateName
     else Inr (utf16_encode name))"
  by (auto simp: validateChildName_def encodeName_def containsAny_def Let_def list_ex_iff child_names_def
      compareNames_0)


text \<open>C15: \<open>StreamWriter.Write\<close> over any sink that keeps the contract of \<open>io.Writer\<close>, failing where it
  likes. On a closed stream, and beyond the 2 GB of version 3, it changes nothing and reports its error.
  Otherwise the \<open>n\<close> bytes it reports are exactly those the stream has taken after what it held, and
  every other stream holds what it held: with no error that is all of \<open>p\<close> and the state is one writing
  can go on from; with an error it is less, the error is one the sink reported, and the
  writer has changed only in that it holds those bytes and its file has grown.\<close>

theorem writeStream_exact:
  assumes "winv w D" "sid < length (w_streams w)" "sink_contract wr" "writeStream wr w sid p = (w', n, err)" "nsec w' < 2 ^ 32"
  shows "if sw_closed (w_streams w ! sid) then w' = w \<and> n = 0 \<and> err = Some ErrWriteOnClosed
    else if p \<noteq> [] \<and> w_secSize w = 512 \<and> streamSizeMaxV3 < sw_size (w_streams w ! sid) + length p
    then w' = w \<and> n = 0 \<and> err = Some ErrV3Cap
    else n \<le> length p \<and>
      (\<forall>i < length (w_streams w'). stream_ok w' (w_streams w' ! i) ((D(sid := D sid @ take n p)) i)) \<and>
      store_of w' = (store_of w)[sid := store_of w ! sid @ take n p] \<and>
      (\<exists>x. outB w' = outB w @ x) \<and>
      (err = None \<longrightarrow> n = length p \<and> winv w' (D(sid := D sid @ p))) \<and>
      (\<forall>e. err = Some e \<longrightarrow> n < length p \<and> (\<exists>h q m. wr h q = (m, Some e)))"
proof -
  consider (closed) "sw_closed (w_streams w ! sid)" | (empty) "\<not> sw_closed (w_streams w ! sid)" "p = []"
    | (cap) "\<not> sw_closed (w_streams w ! sid)" "p \<noteq> []" "w_secSize w = 512 \<and> streamSizeMaxV3 < sw_size (w_streams w ! sid) + length p"
    | (appends) "\<not> sw_closed (w_streams w ! sid)" "p \<noteq> []" "\<not> (w_secSize w = 512 \<and> streamSizeMaxV3 < sw_size (w_streams w ! sid) + length p)"
    by blast
  then show ?thesis
  proof cases
    case empty
    then have "w' = w" "n = 0" "err = None" using assms(4) by (auto simp: writeStream_def Let_def)
    then show ?thesis using empty assms(1,2) by (simp add: winv_def)
  next
    case appends
    have op: "open_stream w sid" using appends assms(2) by (simp add: open_stream_def)
    have l: "write_loop wr w sid p 0 = (w', n, err)" using appends assms(4) by (auto simp: writeStream_def Let_def)
    from write_loop_holds [OF assms(1) op assms(3) l assms(5)]
    have r: "n \<le> length p" "holds w' (D(sid := D sid @ take n p))" "length (w_streams w') = length (w_streams w)"
      "err = None \<longrightarrow> n = length p \<and> winv w' (D(sid := D sid @ p))"
      "\<forall>e. err = Some e \<longrightarrow> n < length p \<and> (\<exists>h q m. wr h q = (m, Some e))" by auto
    have "store_of w' = (store_of w)[sid := store_of w ! sid @ take n p]"
      unfolding store_of_holds [OF r(2)] store_of_inv [OF assms(1)] r(3)
      using assms(2) by (intro nth_equalityI) (auto simp: nth_list_update)
    moreover have "\<exists>x. outB w' = outB w @ x" using write_loop_mono [OF l] by (simp add: out_mono_def)
    moreover have "\<forall>i < length (w_streams w'). stream_ok w' (w_streams w' ! i) ((D(sid := D sid @ take n p)) i)"
      using r(2) unfolding holds_def .
    ultimately show ?thesis using appends(3) r(1,4,5) unfolding if_not_P [OF appends(1)] by auto
  qed (use assms(4) in \<open>auto simp: writeStream_def Let_def\<close>)
qed

theorem writeStream_exact_witness:
  "\<exists>w'. writeStream (short_sink 4096 EOF) (cs_w sample_open) 0 (replicate 4605 7) = (w', 4093, Some EOF) \<and>
     store_of w' = [[1, 2, 3] @ replicate 4093 7]"
proof -
  have f: "fits (cs_w sample_open)" by (rule grows_fits [OF wstep_grows [OF sample_closed_step] sample_fits])
  have inv: "winv (cs_w sample_open) (cs_data sample_open)"
    using wreach_cinv [OF sample_open_reach full_sink_ok _ f] by (simp add: cinv_def)
  let ?wr = "short_sink 4096 EOF"
  obtain w1 where w1: "write_iter ?wr (cs_w sample_open) 0 (replicate 4605 7) = (w1, 4093, None)"
    "w_streams w1 = [(sample_stream False [] [\<lparr>sr_first = 0, sr_count = 8\<rparr>])\<lparr>sw_size := 4096\<rparr>]"
    "w_secSize w1 = 512" "length (outB w1) = 4096"
    by (simp add: write_iter_def writeRoom_def flush_def cw_write_def short_sink_def Let_def sample_open_def sample_writer_def
        sample_stream_def newWriter_def miniStreamCutoff_def outB_def w_upd_def addRun_def sectorIdx_def)
  obtain w' where w': "write_iter ?wr w1 0 (replicate 512 7) = (w', 0, Some EOF)" "nsec w' = 8"
    using w1(2-4) by (simp add: write_iter_def writeRoom_def flush_def cw_write_def short_sink_def Let_def
        sample_stream_def miniStreamCutoff_def outB_def nsec_def)
  have "write_loop ?wr (cs_w sample_open) 0 (replicate 4605 7) 0 = (w', 4093, Some EOF)"
    using w1(1) w'(1) by (subst write_loop.simps, simp, subst write_loop.simps, simp)
  then have w: "writeStream ?wr (cs_w sample_open) 0 (replicate 4605 7) = (w', 4093, Some EOF)"
    by (simp add: writeStream_def sample_open_def sample_writer_def sample_stream_def newWriter_def streamSizeMaxV3_def)
  have "store_of (cs_w sample_open) = [[1, 2, 3]]"
    unfolding store_of_inv [OF inv] by (simp add: sample_open_def sample_writer_def)
  then show ?thesis
    using writeStream_exact [OF inv _ short_sink_contract w] w w'(2)
    by (simp add: sample_open_def sample_writer_def sample_stream_def newWriter_def streamSizeMaxV3_def)
qed

text \<open>C16: \<open>StreamWriter.Close\<close> places the whole stream: a small one becomes one run of mini sectors that
  holds its bytes and zero padding, a larger one a chain of whole sectors whose padding is less than
  a sector, an empty one nothing; no byte of any stream changes.\<close>

theorem closeStream_exact:
  assumes "winv w D" "open_stream w sid" "sink_ok wr" "closeStream wr w sid = (w', err)" "fits w'"
  shows "err = None \<and> winv w' D \<and> sw_closed (w_streams w' ! sid) \<and>
    (if D sid = [] then sw_chain (w_streams w' ! sid) = []
     else if length (D sid) < miniStreamCutoff
     then \<exists>r. sw_chain (w_streams w' ! sid) = [r] \<and> rdata miniSectorSize (mini_data w') r = padMini (D sid)
     else \<exists>z < w_secSize w'. cdata (w_secSize w') (outB w') (sw_chain (w_streams w' ! sid)) = D sid @ replicate z 0)"
proof -
  note r = closeStream_ok [OF assms]
  have "sid < length (w_streams w')" using assms(2) r(4) by (simp add: open_stream_def)
  then have "stream_ok w' (w_streams w' ! sid) (D sid)" using r(2) by (simp add: winv_def)
  then show ?thesis using r by (auto simp: stream_ok_def miniStreamCutoff_def split: if_splits)
qed

theorem closeStream_exact_witness:
  "\<exists>w'. closeStream full_sink (cs_w sample_open) 0 = (w', None) \<and>
     (\<exists>r. rdata miniSectorSize (mini_data w') r = padMini [1, 2, 3])"
proof -
  have f: "fits (cs_w sample_open)" by (rule grows_fits [OF wstep_grows [OF sample_closed_step] sample_fits])
  have inv: "winv (cs_w sample_open) (cs_data sample_open)"
    using wreach_cinv [OF sample_open_reach full_sink_ok _ f] by (simp add: cinv_def)
  have op: "open_stream (cs_w sample_open) 0"
    by (simp add: open_stream_def sample_open_def sample_writer_def sample_stream_def)
  have d: "cs_data sample_open 0 = [1, 2, 3]" by (simp add: sample_open_def)
  show ?thesis
    using closeStream_exact [OF inv op full_sink_ok sample_close sample_fits] sample_close d
    by (auto simp: miniStreamCutoff_def)
qed

end
