(* ===== verification/GoTime.thy ===== *)
theory GoTime
  imports Filetime
begin

text \<open>
  What the code outside internal/filetime uses of Go's packages time and syscall: \<open>Time.UnixNano\<close>, \<open>time.Unix\<close>, and the
  conversions between FILETIME and 64-bit nanoseconds since 1970, which wrap outside the years 1677 to 2262. A FILETIME
  is its 64 bits.
\<close>

section \<open>Times\<close>

text \<open>\<open>Time.UnixNano\<close>, \<open>time.Unix(s, n)\<close>, \<open>syscall.NsecToFiletime\<close> and \<open>Filetime.Nanoseconds\<close>, in \<open>int64\<close>.\<close>

definition unixEpochTicks :: int where "unixEpochTicks = 116444736000000000"

definition unixNano :: "gotime \<Rightarrow> int" where
  "unixNano t = sint (word_of_int (unix_sec t * 10 ^ 9 + int (nanosecond t)) :: u64)"

definition timeUnix :: "int \<Rightarrow> int \<Rightarrow> gotime" where
  "timeUnix s n = \<lparr>unix_sec = s + n div 10 ^ 9, nanosecond = nat (n mod 10 ^ 9)\<rparr>"

abbreviation timeUnix0 :: "int \<Rightarrow> gotime" where
  "timeUnix0 n \<equiv> timeUnix 0 n"

definition nsecToFiletime :: "int \<Rightarrow> u64" where
  "nsecToFiletime n = word_of_int (sgn n * (\<bar>n\<bar> div 100) + unixEpochTicks)"

definition filetimeNanos :: "u64 \<Rightarrow> int" where
  "filetimeNanos ft = sint ((ft - word_of_int unixEpochTicks) * 100)"

section \<open>Wrap-around\<close>

lemma sint_word_of_int: "sint (word_of_int n :: u64) = n \<longleftrightarrow> - (2 ^ 63) \<le> n \<and> n < 2 ^ 63"
proof -
  have "sint (word_of_int n :: u64) = signed_take_bit 63 n" by (simp add: signed_of_int)
  then show ?thesis by (simp add: signed_take_bit_int_eq_self_iff)
qed

lemma filetimeNanos_word: "filetimeNanos ft = sint (word_of_int ((uint ft - unixEpochTicks) * 100) :: u64)"
proof -
  have "(ft - word_of_int unixEpochTicks) * 100 = (word_of_int ((uint ft - unixEpochTicks) * 100) :: u64)"
    by (simp add: wi_hom_syms [symmetric])
  then show ?thesis by (simp add: filetimeNanos_def)
qed

lemma power_numeral_ten: "(10 :: int) ^ 9 = 1000000000" by simp

lemma decode_timeUnix0: "ft \<noteq> 0 \<Longrightarrow> decodeFiletime ft = timeUnix0 ((uint ft - unixEpochTicks) * 100)"
proof -
  assume "ft \<noteq> 0"
  define q r where "q = uint ft div 10000000" and "r = uint ft mod 10000000"
  have x: "uint ft = 10000000 * q + r" "0 \<le> r" "r < 10000000" by (simp_all add: q_def r_def)
  have n: "(uint ft - unixEpochTicks) * 100 = 1000000000 * (q - 11644473600) + r * 100" using x by (simp add: unixEpochTicks_def)
  have b: "0 \<le> r * 100" "r * 100 < 1000000000" using x by simp_all
  have "(uint ft - unixEpochTicks) * 100 div 1000000000 = q - 11644473600" by (rule int_div_pos_eq [OF n b])
  moreover have "(uint ft - unixEpochTicks) * 100 mod 1000000000 = r * 100" by (rule int_mod_pos_eq [OF n b])
  moreover have "int (unat ft div 10000000) = q" "int (unat ft mod 10000000 * 100) = r * 100"
    by (simp_all add: q_def r_def zdiv_int zmod_int)
  moreover from this(2) have "unat ft mod 10000000 * 100 = nat (r * 100)" by linarith
  ultimately show ?thesis
    using \<open>ft \<noteq> 0\<close> by (simp only: decodeFiletime_def timeUnix_def filetime_consts Let_def if_False power_numeral_ten add_0)
qed

lemma timeUnix0_inj: "timeUnix0 m = timeUnix0 n \<longleftrightarrow> m = n"
proof
  assume "timeUnix0 m = timeUnix0 n"
  then have "m div 10 ^ 9 = n div 10 ^ 9" "nat (m mod 10 ^ 9) = nat (n mod 10 ^ 9)" by (simp_all add: timeUnix_def)
  then have "m mod 10 ^ 9 = n mod 10 ^ 9" by (metis eq_nat_nat_iff pos_mod_sign zero_less_numeral zero_less_power)
  then show "m = n" using \<open>m div 10 ^ 9 = n div 10 ^ 9\<close> by (metis div_mult_mod_eq)
qed simp

definition int64_ticks :: "u64 \<Rightarrow> bool" where
  "int64_ticks ft \<longleftrightarrow> \<bar>uint ft - unixEpochTicks\<bar> \<le> 92233720368547758"

lemma int64_ticks_iff: "int64_ticks ft \<longleftrightarrow> - (2 ^ 63) \<le> (uint ft - unixEpochTicks) * 100 \<and> (uint ft - unixEpochTicks) * 100 < 2 ^ 63"
  unfolding int64_ticks_def by simp linarith

lemma unixNano_timeUnix0: "- (2 ^ 63) \<le> n \<Longrightarrow> n < 2 ^ 63 \<Longrightarrow> unixNano (timeUnix0 n) = n"
proof -
  assume "- (2 ^ 63) \<le> n" "n < 2 ^ 63"
  moreover have "n div 10 ^ 9 * 10 ^ 9 + int (nat (n mod 10 ^ 9)) = n"
    by (metis div_mult_mod_eq int_nat_eq pos_mod_sign zero_less_numeral zero_less_power)
  ultimately show ?thesis using sint_word_of_int [of n] by (simp only: unixNano_def timeUnix_def gotime.select_convs add_0)
qed

lemma nsecToFiletime_ticks: "nsecToFiletime ((uint ft - unixEpochTicks) * 100) = ft"
proof -
  have "sgn (d * 100) * (\<bar>d * 100\<bar> div 100) = d" for d :: int by (simp add: abs_mult sgn_mult sgn_mult_abs)
  then have "nsecToFiletime ((uint ft - unixEpochTicks) * 100) = word_of_int (uint ft - unixEpochTicks + unixEpochTicks)"
    by (simp only: nsecToFiletime_def)
  then show ?thesis by simp
qed

lemma decode_not_zero: "ft \<noteq> 0 \<Longrightarrow> \<not> isZero (decodeFiletime ft)"
proof -
  assume "ft \<noteq> 0"
  then have "- 11644473600 \<le> unix_sec (decodeFiletime ft)" by (simp add: decodeFiletime_def Let_def epochDeltaSecs_def)
  then show ?thesis by (auto simp: isZero_def zeroTime_def)
qed

end
