(* ===== verification/AddFs.thy ===== *)
theory AddFs
  imports WriterStore Direntry GoTime
begin

text \<open>
  \<open>StorageWriter.AddFS\<close> of writer.go: a file system is copied into a storage with the operations of
  theory \<open>Writer\<close>. The file system is the parameter \<open>gofs\<close>: \<open>fs.ReadDir\<close> and \<open>Open\<close>, where an opened file is
  the sequence of results its \<open>Read\<close> gives, up to the first error (a file whose reads never end makes the
  code run forever, too). What a platform says of a file is a constructor of \<open>goSys\<close>; of the three \<open>birthtime\<close>, each knows
  the one of its platforms, the others never occur there.

  \<open>addFSDir\<close> is recursive in the directories of the file system, which need not end, so it has fuel;
  \<open>read_tree\<close> is the same walk without the writer: what there is to copy, as a tree (what that tree means
  in the file system is \<open>fs_tree\<close> of theory \<open>ArchiveRoundTrip\<close>). The main lemma (\<open>addFSDir_ok\<close>) shows
  that a successful call is a sequence of steps of the writer which append to the storage exactly that tree.
\<close>

section \<open>The file system\<close>

datatype goSys =
    SysStorage storageInfo
  | SysStream stream
  | SysStat int int \<comment> \<open>\<open>Birthtimespec\<close> of \<open>syscall.Stat_t\<close> on Darwin and BSD\<close>
  | SysWin32 u64    \<comment> \<open>\<open>CreationTime\<close> of \<open>syscall.Win32FileAttributeData\<close>\<close>
  | SysOther

record goFileInfo =
  gi_sys :: goSys
  gi_modTime :: gotime

record goDirEntry =
  gd_name :: gostring
  gd_isDir :: bool
  gd_info :: "goerr + goFileInfo"

datatype goReads = LastRead bytes goerr | MoreReads bytes goReads

record gofs =
  gf_readDir :: "gostring \<Rightarrow> goerr + goDirEntry list"
  gf_open :: "gostring \<Rightarrow> goerr + goReads"

definition birthtimeBsd :: "int \<Rightarrow> int \<Rightarrow> gotime \<Rightarrow> gotime" where
  "birthtimeBsd sec ns modTime = (if sec = 0 \<and> ns = 0 then modTime else timeUnix sec ns)"

definition birthtimeWindows :: "u64 \<Rightarrow> gotime \<Rightarrow> gotime" where
  "birthtimeWindows ft modTime = (if ft = 0 then modTime else timeUnix0 (filetimeNanos ft))"

definition birthtime :: "goFileInfo \<Rightarrow> gotime" where
  "birthtime info =
     (case gi_sys info of SysStat sec ns \<Rightarrow> birthtimeBsd sec ns (gi_modTime info)
      | SysWin32 ft \<Rightarrow> birthtimeWindows ft (gi_modTime info)
      | _ \<Rightarrow> gi_modTime info)"

section \<open>io.Copy\<close>

fun ioCopy :: "sink \<Rightarrow> writer \<Rightarrow> nat \<Rightarrow> goReads \<Rightarrow> writer \<times> goerr option" where
  "ioCopy wr w sid (LastRead b er) =
     (let (w, n, ew) = (if b = [] then (w, 0, None) else writeStream wr w sid b) in
      case ew of Some e \<Rightarrow> (w, Some e)
      | None \<Rightarrow> if n \<noteq> length b then (w, Some ErrShortWrite)
                else (w, if er = EOF then None else Some er))"
| "ioCopy wr w sid (MoreReads b r) =
     (let (w, n, ew) = (if b = [] then (w, 0, None) else writeStream wr w sid b) in
      case ew of Some e \<Rightarrow> (w, Some e)
      | None \<Rightarrow> if n \<noteq> length b then (w, Some ErrShortWrite) else ioCopy wr w sid r)"

section \<open>AddFS\<close>

definition addFSFile :: "sink \<Rightarrow> gofs \<Rightarrow> nat list \<Rightarrow> gostring \<Rightarrow> gostring \<Rightarrow> goFileInfo \<Rightarrow> writer \<Rightarrow> writer \<times> goerr option" where
  "addFSFile wr fs sw path name info w =
     (case gf_open fs path of Inl e \<Rightarrow> (w, Some e)
      | Inr f \<Rightarrow>
        case createStream w sw name of Inl e \<Rightarrow> (w, Some e)
        | Inr (w, sid) \<Rightarrow>
          let w = (case gi_sys info of SysStream m \<Rightarrow> w_upd w sid ((w_streams w ! sid)\<lparr>sw_stateBits := smStateBits m\<rparr>) | _ \<Rightarrow> w) in
          case ioCopy wr w sid f of (w, Some e) \<Rightarrow> (w, Some e)
          | (w, None) \<Rightarrow> closeStream wr w sid)"

text \<open>The metadata of a new storage.\<close>

definition copyMeta :: "goFileInfo \<Rightarrow> storageMeta \<Rightarrow> storageMeta" where
  "copyMeta info m =
     (case gi_sys info of
        SysStorage s \<Rightarrow> m\<lparr>sg_clsid := stCLSID s, sg_stateBits := stStateBits s, sg_created := stCreated s, sg_modified := stModified s\<rparr>
      | _ \<Rightarrow> m\<lparr>sg_modified := gi_modTime info, sg_created := birthtime info\<rparr>)"

definition childPath :: "gostring \<Rightarrow> gostring \<Rightarrow> gostring" where
  "childPath dir name = (if dir \<noteq> [0x2E] then dir @ [0x2F] @ name else name)"

text \<open>The loop over the entries; \<open>rec\<close> is the recursive call on a directory and its new storage.\<close>

fun addFSEntries ::
  "(gostring \<Rightarrow> nat list \<Rightarrow> writer \<Rightarrow> writer \<times> goerr option) \<Rightarrow> sink \<Rightarrow> gofs \<Rightarrow> nat list \<Rightarrow> gostring \<Rightarrow>
   goDirEntry list \<Rightarrow> writer \<Rightarrow> writer \<times> goerr option" where
  "addFSEntries rec wr fs sw dir [] w = (w, None)"
| "addFSEntries rec wr fs sw dir (d # ds) w =
     (case gd_info d of Inl e \<Rightarrow> (w, Some e)
      | Inr info \<Rightarrow>
        let name = gd_name d; path = childPath dir name;
            (w, err) =
              (if gd_isDir d then
                 (case createStorage w sw name of Inl e \<Rightarrow> (w, Some e)
                  | Inr (w, s) \<Rightarrow>
                    (case sg_at (w_root w) s of None \<Rightarrow> (w, Some Panic)
                     | Some sg \<Rightarrow>
                       let w = w\<lparr>w_root := sg_map_at (sg_set_meta (copyMeta info (sg_meta sg))) (w_root w) s\<rparr>
                       in rec path s w))
               else addFSFile wr fs sw path name info w)
        in case err of Some e \<Rightarrow> (w, Some e) | None \<Rightarrow> addFSEntries rec wr fs sw dir ds w)"

primrec addFSDir :: "nat \<Rightarrow> sink \<Rightarrow> gofs \<Rightarrow> gostring \<Rightarrow> nat list \<Rightarrow> writer \<Rightarrow> writer \<times> goerr option" where
  "addFSDir 0 wr fs dir sw w = (w, Some OutOfFuel)"
| "addFSDir (Suc n) wr fs dir sw w =
     (case gf_readDir fs dir of Inl e \<Rightarrow> (w, Some e)
      | Inr entries \<Rightarrow> addFSEntries (addFSDir n wr fs) wr fs sw dir entries w)"

definition addFS :: "nat \<Rightarrow> sink \<Rightarrow> gofs \<Rightarrow> nat list \<Rightarrow> writer \<Rightarrow> writer \<times> goerr option" where
  "addFS n wr fs sw w = addFSDir n wr fs [0x2E] sw w"

section \<open>What there is to copy\<close>

datatype ftree = FFile gostring u32 bytes | FDir gostring goFileInfo "ftree list"

fun content :: "goReads \<Rightarrow> bytes" where
  "content (LastRead b er) = b"
| "content (MoreReads b r) = b @ content r"

definition file_bits :: "goFileInfo \<Rightarrow> u32" where
  "file_bits info = (case gi_sys info of SysStream m \<Rightarrow> smStateBits m | _ \<Rightarrow> 0)"

text \<open>The tree of a file system, where all of it can be read.\<close>

fun read_entries :: "(gostring \<Rightarrow> ftree list option) \<Rightarrow> gofs \<Rightarrow> gostring \<Rightarrow> goDirEntry list \<Rightarrow> ftree list option" where
  "read_entries rec fs dir [] = Some []"
| "read_entries rec fs dir (d # ds) =
     (case gd_info d of Inl e \<Rightarrow> None
      | Inr info \<Rightarrow>
        case (if gd_isDir d then map_option (FDir (gd_name d) info) (rec (childPath dir (gd_name d)))
              else case gf_open fs (childPath dir (gd_name d)) of Inl e \<Rightarrow> None
                   | Inr f \<Rightarrow> Some (FFile (gd_name d) (file_bits info) (content f))) of
          None \<Rightarrow> None
        | Some t \<Rightarrow> map_option ((#) t) (read_entries rec fs dir ds))"

primrec read_tree :: "nat \<Rightarrow> gofs \<Rightarrow> gostring \<Rightarrow> ftree list option" where
  "read_tree 0 fs dir = None"
| "read_tree (Suc n) fs dir =
     (case gf_readDir fs dir of Inl e \<Rightarrow> None | Inr entries \<Rightarrow> read_entries (read_tree n fs) fs dir entries)"

text \<open>
  The storages \<open>sgs\<close> and streams \<open>sts\<close> are a copy of the tree: the directories in order, with names and
  metadata, and the files in order, closed and with their bytes.
\<close>

definition file_copied :: "writer \<Rightarrow> (nat \<Rightarrow> bytes) \<Rightarrow> nat \<Rightarrow> gostring \<Rightarrow> u32 \<Rightarrow> bytes \<Rightarrow> bool" where
  "file_copied w D sid name bits b \<longleftrightarrow> sid < length (w_streams w) \<and> encodeName name = Inr (stream_name w sid) \<and>
     sw_stateBits (w_streams w ! sid) = bits \<and> sw_closed (w_streams w ! sid) \<and> D sid = b"

fun copied :: "writer \<Rightarrow> (nat \<Rightarrow> bytes) \<Rightarrow> storageW list \<Rightarrow> nat list \<Rightarrow> ftree list \<Rightarrow> bool" where
  "copied w D sgs sts [] \<longleftrightarrow> sgs = [] \<and> sts = []"
| "copied w D sgs sts (FFile name bits b # ts) \<longleftrightarrow>
     (\<exists>sid sts'. sts = sid # sts' \<and> file_copied w D sid name bits b \<and> copied w D sgs sts' ts)"
| "copied w D sgs sts (FDir name info sub # ts) \<longleftrightarrow>
     (\<exists>enc csgs csts sgs'. sgs = StorageW (copyMeta info (newMeta enc)) csgs csts # sgs' \<and> encodeName name = Inr enc \<and>
        copied w D csgs csts sub \<and> copied w D sgs' sts ts)"

text \<open>What later operations must keep: the streams there are, and their bytes.\<close>

definition keeps_streams :: "cstate \<Rightarrow> cstate \<Rightarrow> bool" where
  "keeps_streams c c' \<longleftrightarrow> length (w_streams (cs_w c)) \<le> length (w_streams (cs_w c')) \<and>
     (\<forall>i < length (w_streams (cs_w c)). w_streams (cs_w c') ! i = w_streams (cs_w c) ! i \<and> cs_data c' i = cs_data c i \<and>
        cs_pend c' i = cs_pend c i)"

lemma keeps_streams_refl: "keeps_streams c c"
  by (simp add: keeps_streams_def)

lemma keeps_streams_trans: "keeps_streams a b \<Longrightarrow> keeps_streams b c \<Longrightarrow> keeps_streams a c"
  by (auto simp: keeps_streams_def)

lemma copied_keeps: "copied (cs_w c) (cs_data c) sgs sts ts \<Longrightarrow> keeps_streams c c' \<Longrightarrow> copied (cs_w c') (cs_data c') sgs sts ts"
  by (induction "cs_w c" "cs_data c" sgs sts ts rule: copied.induct)
    (fastforce simp: file_copied_def keeps_streams_def stream_name_def)+

lemma copied_append: "copied w D sgs sts [t] \<Longrightarrow> copied w D sgs' sts' ts \<Longrightarrow> copied w D (sgs @ sgs') (sts @ sts') (t # ts)"
  by (cases t) auto

section \<open>Steps\<close>

abbreviation wsteps :: "sink \<Rightarrow> cstate \<Rightarrow> cstate \<Rightarrow> bool" where
  "wsteps wr \<equiv> (wstep wr)\<^sup>*\<^sup>*"

lemma wsteps_reach: "wsteps wr c c' \<Longrightarrow> wreach wr S c \<Longrightarrow> wreach wr S c'"
  by (induction rule: rtranclp_induct) (auto intro: wreach.intros)

lemma write_loop_steps:
  "write_loop wr (cs_w c) sid p n = (w', m, None) \<Longrightarrow> cs_pend c sid = p \<Longrightarrow>
   wsteps wr c (c\<lparr>cs_w := w', cs_pend := (cs_pend c)(sid := []), cs_data := (cs_data c)(sid := cs_data c sid @ p)\<rparr>) \<and>
   one_stream (cs_w c) sid w'"
proof (induction "length p" arbitrary: c p n rule: less_induct)
  case less
  show ?case
  proof (cases "p = []")
    case True
    have w': "w' = cs_w c" using less.prems(1) True by (simp add: write_loop.simps [of wr "cs_w c"])
    have same: "c\<lparr>cs_w := w', cs_pend := (cs_pend c)(sid := []), cs_data := (cs_data c)(sid := cs_data c sid @ p)\<rparr> = c"
      using less.prems(2) True by (simp add: fun_upd_idem w')
    show ?thesis unfolding same by (simp add: w' one_stream_same)
  next
    case False
    obtain v k where it: "write_iter wr (cs_w c) sid p = (v, k, None)" "write_loop wr v sid (drop k p) (n + k) = (w', m, None)"
      using less.prems(1) False by (subst (asm) write_loop.simps) (auto split: prod.splits option.splits)
    let ?c = "c\<lparr>cs_w := v, cs_pend := (cs_pend c)(sid := drop k p), cs_data := (cs_data c)(sid := cs_data c sid @ take k p)\<rparr>"
    have st: "wstep wr c ?c" using wstep.step_round [of c sid wr v k] it(1) less.prems(2) False by simp
    have "length (drop k p) < length p" using write_iter_progress [OF False it(1)] by simp
    from less.hyps [OF this, of ?c "n + k"] it(2)
    have "wsteps wr ?c (?c\<lparr>cs_w := w', cs_pend := (cs_pend ?c)(sid := []), cs_data := (cs_data ?c)(sid := cs_data ?c sid @ drop k p)\<rparr>)"
      "one_stream v sid w'" by simp_all
    then show ?thesis
      using st one_stream_trans [OF write_iter_frame(1) [OF it(1)]] by (auto intro: converse_rtranclp_into_rtranclp)
  qed
qed

lemma writeStream_steps:
  assumes w: "writeStream wr (cs_w c) sid p = (w', n, None)" and p: "p \<noteq> []"
    and idle: "cs_pend c sid = []" "sid < length (w_streams (cs_w c))"
  shows "wsteps wr c (c\<lparr>cs_w := w', cs_data := (cs_data c)(sid := cs_data c sid @ p)\<rparr>) \<and> one_stream (cs_w c) sid w'"
proof -
  let ?c = "c\<lparr>cs_pend := (cs_pend c)(sid := p)\<rparr>"
  have g: "write_guard (cs_w c) sid p" and l: "write_loop wr (cs_w ?c) sid p 0 = (w', n, None)"
    using w p idle by (auto simp: writeStream_def write_guard_def Let_def split: if_splits)
  have "wstep wr c ?c" by (rule wstep.step_write [OF idle(1) g])
  then show ?thesis
    using write_loop_steps [OF l] idle(1)
    by (auto intro: converse_rtranclp_into_rtranclp simp: fun_upd_idem)
qed

text \<open>No operation on a stream changes state bits.\<close>

definition same_bits :: "writer \<Rightarrow> writer \<Rightarrow> bool" where
  "same_bits w w' \<longleftrightarrow> (\<forall>i. sw_stateBits (w_streams w' ! i) = sw_stateBits (w_streams w ! i))"

lemma same_bits_upd: "w_streams v = w_streams w \<Longrightarrow> sw_stateBits s = sw_stateBits (w_streams w ! sid) \<Longrightarrow> same_bits w (w_upd v sid s)"
  unfolding same_bits_def w_upd_def
  by (cases "sid < length (w_streams w)") (auto simp: nth_list_update list_update_beyond)

lemma same_bits_same: "w_streams v = w_streams w \<Longrightarrow> same_bits w v"
  by (simp add: same_bits_def)

lemma same_bits_trans: "same_bits a b \<Longrightarrow> same_bits b c \<Longrightarrow> same_bits a c"
  by (simp add: same_bits_def)

lemma flush_bits: "flush wr w sid b = (w', err) \<Longrightarrow> same_bits w w'"
  by (auto simp: flush_def Let_def split: prod.splits option.splits intro: same_bits_same same_bits_upd)

lemma write_iter_bits: "write_iter wr w sid p = (w', k, err) \<Longrightarrow> same_bits w w'"
proof -
  assume it: "write_iter wr w sid p = (w', k, err)"
  let ?room = "writeRoom w sid p"
  show ?thesis
  proof (cases "?room = 0 \<or> int (length p) < ?room \<or> ?room < 0")
    case True
    then show ?thesis using it
      by (auto simp: write_iter_def Let_def split: if_splits intro: same_bits_same same_bits_upd)
  next
    case False
    obtain v e where fl: "flush wr w sid (take (nat ?room) p) = (v, e)" by fastforce
    have "w' = v \<or> w' = w_upd v sid ((w_streams v ! sid)\<lparr>sw_size := sw_size (w_streams v ! sid) + nat ?room\<rparr>)"
      using it False fl by (auto simp: write_iter_def Let_def split: option.splits)
    then show ?thesis
      using flush_bits [OF fl] same_bits_trans [OF _ same_bits_upd [OF refl]] by auto
  qed
qed

lemma write_loop_bits: "write_loop wr w sid p n = (w', m, err) \<Longrightarrow> same_bits w w'"
proof (induction wr w sid p n rule: write_loop.induct)
  case (1 wr w sid p n)
  show ?case
  proof (cases "p = []")
    case True
    then show ?thesis using "1.prems" by (simp add: write_loop.simps [of wr w] same_bits_same)
  next
    case False
    obtain v k e where it: "write_iter wr w sid p = (v, k, e)" by (metis prod_cases3)
    show ?thesis
    proof (cases e)
      case None
      then have "write_loop wr v sid (drop k p) (n + k) = (w', m, err)"
        using "1.prems" False it by (subst (asm) write_loop.simps) simp
      then have "same_bits v w'" using "1.IH" [OF False it [symmetric] refl] None by simp
      then show ?thesis by (rule same_bits_trans [OF write_iter_bits [OF it]])
    next
      case (Some x)
      then show ?thesis using "1.prems" False it write_iter_bits [OF it] by (subst (asm) write_loop.simps) simp
    qed
  qed
qed

lemma writeStream_bits: "writeStream wr w sid p = (w', n, err) \<Longrightarrow> same_bits w w'"
  by (auto simp: writeStream_def Let_def same_bits_same dest: write_loop_bits split: if_splits)

lemma closeStream_bits:
  assumes cl: "closeStream wr w sid = (w', None)" and sid: "sid < length (w_streams w)"
  shows "same_bits w w'" "sw_closed (w_streams w' ! sid)"
proof -
  let ?s = "w_streams w ! sid"
  have "same_bits w w' \<and> sw_closed (w_streams w' ! sid)"
  proof (cases "sw_closed ?s \<or> sw_size ?s = 0")
    case True
    then show ?thesis using cl sid
      by (auto simp: closeStream_def Let_def w_upd_def split: if_splits intro: same_bits_same same_bits_upd [unfolded w_upd_def])
  next
    case False
    show ?thesis
    proof (cases "miniStreamCutoff \<le> sw_size ?s")
      case big: True
      obtain v where v: "v = w \<or> flush wr w sid (replicate (w_secSize w - length (sw_buf ?s)) 0) = (v, None)"
        "w' = w_upd v sid ((w_streams v ! sid)\<lparr>sw_buf := [], sw_closed := True\<rparr>)"
        using cl False big by (auto simp: closeStream_def Let_def split: if_splits prod.splits option.splits)
      then have "same_bits w v" "one_stream w sid v" using flush_bits flush_frame(1) by (auto intro: same_bits_same one_stream_same)
      then show ?thesis using v(2) sid same_bits_trans [OF _ same_bits_upd [OF refl]] by (auto simp: one_stream_def w_upd_def)
    next
      case small: False
      obtain v s' where wm: "writeMini wr w (padMini (sw_buf ?s)) = (v, None)"
        and w': "w' = w_upd v sid s'" "sw_stateBits s' = sw_stateBits ?s" "sw_closed s'"
        using cl False small by (auto simp: closeStream_def Let_def split: prod.splits option.splits)
      have "w_streams v = w_streams w" using writeMini_frame [OF wm] by (simp add: mini_frame_def)
      then show ?thesis using w' sid same_bits_upd [of v w s' sid] by (simp add: w_upd_def)
    qed
  qed
  then show "same_bits w w'" "sw_closed (w_streams w' ! sid)" by auto
qed

section \<open>A file\<close>

lemma copy_chunk:
  assumes "(if b = [] then (cs_w c, 0, None) else writeStream wr (cs_w c) sid b) = (w', n, None)"
    and "cs_pend c sid = []" "sid < length (w_streams (cs_w c))"
  shows "wsteps wr c (c\<lparr>cs_w := w', cs_data := (cs_data c)(sid := cs_data c sid @ b)\<rparr>) \<and> one_stream (cs_w c) sid w' \<and> same_bits (cs_w c) w'"
proof (cases "b = []")
  case True
  then have "c\<lparr>cs_w := w', cs_data := (cs_data c)(sid := cs_data c sid @ b)\<rparr> = c" "w' = cs_w c"
    using assms(1) by (simp_all add: fun_upd_idem)
  then show ?thesis by (simp add: one_stream_same same_bits_same)
next
  case False
  then show ?thesis using assms writeStream_steps [of wr c sid b w' n] writeStream_bits by auto
qed

lemma one_stream_length: "one_stream w sid w' \<Longrightarrow> length (w_streams w') = length (w_streams w)"
  by (auto simp: one_stream_def)

lemma ioCopy_steps:
  assumes "ioCopy wr (cs_w c) sid f = (w', None)" "cs_pend c sid = []" "sid < length (w_streams (cs_w c))"
  shows "wsteps wr c (c\<lparr>cs_w := w', cs_data := (cs_data c)(sid := cs_data c sid @ content f)\<rparr>) \<and>
    one_stream (cs_w c) sid w' \<and> same_bits (cs_w c) w'"
  using assms
proof (induction f arbitrary: c)
  case (LastRead b er)
  obtain v n where "(if b = [] then (cs_w c, 0, None) else writeStream wr (cs_w c) sid b) = (v, n, None)" "v = w'"
    using LastRead.prems(1) by (auto simp: Let_def split: prod.splits option.splits if_splits)
  then have ch: "(if b = [] then (cs_w c, 0, None) else writeStream wr (cs_w c) sid b) = (w', n, None)" by simp
  show ?case unfolding content.simps by (rule copy_chunk [OF ch LastRead.prems(2,3)])
next
  case (MoreReads b f)
  obtain v n where v: "(if b = [] then (cs_w c, 0, None) else writeStream wr (cs_w c) sid b) = (v, n, None)" "ioCopy wr v sid f = (w', None)"
    using MoreReads.prems(1) by (auto simp: Let_def split: prod.splits option.splits if_splits)
  let ?c = "c\<lparr>cs_w := v, cs_data := (cs_data c)(sid := cs_data c sid @ b)\<rparr>"
  note ch = copy_chunk [OF v(1) MoreReads.prems(2,3)]
  have l: "sid < length (w_streams (cs_w ?c))" using ch one_stream_length [of "cs_w c" sid v] MoreReads.prems(3) by simp
  have eq: "?c\<lparr>cs_w := w', cs_data := (cs_data ?c)(sid := cs_data ?c sid @ content f)\<rparr> =
    c\<lparr>cs_w := w', cs_data := (cs_data c)(sid := cs_data c sid @ content (MoreReads b f))\<rparr>"
    by (rule cstate.equality) (simp_all add: fun_eq_iff)
  have "wsteps wr ?c (?c\<lparr>cs_w := w', cs_data := (cs_data ?c)(sid := cs_data ?c sid @ content f)\<rparr>) \<and>
    one_stream (cs_w ?c) sid w' \<and> same_bits (cs_w ?c) w'"
    by (rule MoreReads.IH) (use v(2) MoreReads.prems(2) l in simp_all)
  then have "wsteps wr ?c (c\<lparr>cs_w := w', cs_data := (cs_data c)(sid := cs_data c sid @ content (MoreReads b f))\<rparr>)"
    "one_stream v sid w'" "same_bits v w'"
    unfolding eq by simp_all
  then show ?case using ch one_stream_trans [of "cs_w c" sid v w'] same_bits_trans [of "cs_w c" v w']
    rtranclp_trans [of "wstep wr" c ?c] by blast
qed

lemma sg_map_at_const: "sg_at sg path = Some x \<Longrightarrow> sg_map_at f sg path = sg_map_at (\<lambda>_. f x) sg path"
  by (induction f sg path rule: sg_map_at.induct) (auto split: if_splits)

lemma sg_map_at_map: "sg_map_at f (sg_map_at g sg path) path = sg_map_at (f \<circ> g) sg path"
  by (induction g sg path rule: sg_map_at.induct) auto

lemma sg_at_map: "sg_at sg path = Some x \<Longrightarrow> sg_at (sg_map_at f sg path) path = Some (f x)"
  by (induction f sg path rule: sg_map_at.induct) (auto split: if_splits)

lemma sg_at_append: "sg_at sg (p @ q) = (case sg_at sg p of None \<Rightarrow> None | Some x \<Rightarrow> sg_at x q)"
  by (induction sg p rule: sg_at.induct) auto

lemma sg_map_at_append: "sg_map_at f sg (p @ q) = sg_map_at (\<lambda>x. sg_map_at f x q) sg p"
  by (induction f sg p rule: sg_map_at.induct) auto

lemma sg_map_at_idem: "sg_at sg path = Some x \<Longrightarrow> sg_map_at (\<lambda>_. x) sg path = sg"
proof (induction sg path rule: sg_at.induct)
  case (2 m sgs sts i path)
  then have "i < length sgs" "sg_map_at (\<lambda>_. x) (sgs ! i) path = sgs ! i" by (auto split: if_splits)
  then show ?case by simp
qed simp

text \<open>
  What a part of the copy does: steps of the writer that append the storages \<open>ns\<close> and the streams \<open>nt\<close> to
  the storage at \<open>path\<close>, which are a copy of \<open>ts\<close>, and change no stream there was.
\<close>

definition appends :: "sink \<Rightarrow> nat list \<Rightarrow> cstate \<Rightarrow> cstate \<Rightarrow> storageW list \<Rightarrow> nat list \<Rightarrow> ftree list \<Rightarrow> bool" where
  "appends wr path c c' ns nt ts \<longleftrightarrow> wsteps wr c c' \<and> keeps_streams c c' \<and>
     (\<exists>m sgs sts. sg_at (w_root (cs_w c)) path = Some (StorageW m sgs sts) \<and>
        w_root (cs_w c') = sg_map_at (\<lambda>_. StorageW m (sgs @ ns) (sts @ nt)) (w_root (cs_w c)) path) \<and>
     copied (cs_w c') (cs_data c') ns nt ts"

lemma appends_trans:
  assumes a: "appends wr path c c1 ns nt [t]" and b: "appends wr path c1 c2 ns' nt' ts"
  shows "appends wr path c c2 (ns @ ns') (nt @ nt') (t # ts)"
proof -
  obtain m sgs sts where r: "sg_at (w_root (cs_w c)) path = Some (StorageW m sgs sts)"
    "w_root (cs_w c1) = sg_map_at (\<lambda>_. StorageW m (sgs @ ns) (sts @ nt)) (w_root (cs_w c)) path"
    using a by (auto simp: appends_def)
  have "sg_at (w_root (cs_w c1)) path = Some (StorageW m (sgs @ ns) (sts @ nt))" unfolding r(2) by (rule sg_at_map [OF r(1)])
  then have "w_root (cs_w c2) = sg_map_at (\<lambda>_. StorageW m ((sgs @ ns) @ ns') ((sts @ nt) @ nt')) (w_root (cs_w c1)) path"
    using b by (auto simp: appends_def)
  then have "w_root (cs_w c2) = sg_map_at (\<lambda>_. StorageW m (sgs @ ns @ ns') (sts @ nt @ nt')) (w_root (cs_w c)) path"
    unfolding r(2) sg_map_at_map by (simp add: o_def)
  moreover have "copied (cs_w c2) (cs_data c2) (ns @ ns') (nt @ nt') (t # ts)"
  proof (rule copied_append)
    show "copied (cs_w c2) (cs_data c2) ns nt [t]"
      by (rule copied_keeps [where c = c1]) (use a b in \<open>simp_all add: appends_def\<close>)
    show "copied (cs_w c2) (cs_data c2) ns' nt' ts" using b by (simp add: appends_def)
  qed
  ultimately show ?thesis using a b r(1) keeps_streams_trans by (auto simp: appends_def intro: rtranclp_trans)
qed

lemma addFSFile_ok:
  assumes a: "addFSFile wr fs sw path name info (cs_w c) = (w', None)"
  shows "\<exists>f c' nt. gf_open fs path = Inr f \<and> cs_w c' = w' \<and> appends wr sw c c' [] nt [FFile name (file_bits info) (content f)]"
proof -
  obtain f w1 sid where f: "gf_open fs path = Inr f" and cr: "createStream (cs_w c) sw name = Inr (w1, sid)"
    using a by (auto simp: addFSFile_def Let_def split: sum.splits)
  define w2 where "w2 = (case gi_sys info of SysStream m \<Rightarrow> w_upd w1 sid ((w_streams w1 ! sid)\<lparr>sw_stateBits := smStateBits m\<rparr>) | _ \<Rightarrow> w1)"
  obtain w3 where cp: "ioCopy wr w2 sid f = (w3, None)" and cl: "closeStream wr w3 sid = (w', None)"
    using a f cr by (auto simp: addFSFile_def Let_def w2_def [symmetric] split: prod.splits option.splits)
  obtain sg enc where r: "sg_at (w_root (cs_w c)) sw = Some sg" "validateChildName (cs_w c) sg name = Inr enc"
    "sid = length (w_streams (cs_w c))"
    "w1 = (cs_w c)\<lparr>w_streams := w_streams (cs_w c) @ [newStream enc],
        w_root := sg_map_at (sg_add_stream sid) (w_root (cs_w c)) sw, w_descendants := w_descendants (cs_w c) + 1\<rparr>"
    using cr by (auto simp: createStream_Inr)
  let ?c1 = "c\<lparr>cs_w := w1, cs_pend := (cs_pend c)(sid := []), cs_data := (cs_data c)(sid := [])\<rparr>"
  let ?c2 = "?c1\<lparr>cs_w := w2\<rparr>"
  have s1: "wstep wr c ?c1" by (rule wstep.step_stream [OF cr])
  have same: "?c1\<lparr>cs_w := w1\<rparr> = ?c1" by (rule cstate.equality) simp_all
  have s2: "wsteps wr ?c1 ?c2"
  proof (cases "\<exists>m. gi_sys info = SysStream m")
    case True
    then obtain m where m: "gi_sys info = SysStream m" by blast
    have "wstep wr ?c1 (?c1\<lparr>cs_w := w_upd (cs_w ?c1) sid ((w_streams (cs_w ?c1) ! sid)\<lparr>sw_stateBits := smStateBits m\<rparr>)\<rparr>)"
      by (rule wstep.step_bits) (simp add: r(3,4))
    then show ?thesis using m by (simp add: w2_def)
  next
    case False
    then have "w2 = w1" by (auto simp: w2_def split: goSys.splits)
    then show ?thesis by (simp only: same rtranclp.rtrancl_refl)
  qed
  have st2: "w_streams w2 = w_streams (cs_w c) @ [(newStream enc)\<lparr>sw_stateBits := file_bits info\<rparr>]" "w_root w2 = w_root w1"
    using r(3,4) by (auto simp: w2_def w_upd_def file_bits_def newStream_def split: goSys.splits)
  have l2: "sid < length (w_streams (cs_w ?c2))" using st2 r(3) by simp
  have c3: "wsteps wr ?c2 (?c2\<lparr>cs_w := w3, cs_data := (cs_data ?c2)(sid := cs_data ?c2 sid @ content f)\<rparr>)"
    "one_stream w2 sid w3" "same_bits w2 w3"
    using ioCopy_steps [of wr ?c2 sid f w3] cp l2 by simp_all
  let ?c3 = "?c2\<lparr>cs_w := w3, cs_data := (cs_data ?c2)(sid := cs_data ?c2 sid @ content f)\<rparr>"
  have l3: "sid < length (w_streams w3)" using one_stream_length [OF c3(2)] l2 by simp
  have s4: "wstep wr ?c3 (?c3\<lparr>cs_w := w'\<rparr>)" by (rule wstep.step_close) (use l3 cl in simp_all)
  let ?c4 = "?c3\<lparr>cs_w := w'\<rparr>"
  have one: "one_stream w2 sid w'" by (rule one_stream_trans [OF c3(2) closeStream_frame(1) [OF cl]])
  have bits: "same_bits w2 w'" by (rule same_bits_trans [OF c3(3) closeStream_bits(1) [OF cl l3]])
  have steps: "wsteps wr c ?c4"
    using s1 s2 c3(1) s4 by (meson converse_rtranclp_into_rtranclp rtranclp_trans r_into_rtranclp)
  have len: "length (w_streams w') = Suc sid" using one_stream_length [OF one] st2 r(3) by simp
  have old: "w_streams w' ! i = w_streams (cs_w c) ! i" if "i < sid" for i
    using one that st2 r(3) by (auto simp: one_stream_def nth_append)
  have keep: "keeps_streams c ?c4" using old len r(3) by (auto simp: keeps_streams_def)
  obtain m sgs sts where sg: "sg = StorageW m sgs sts" by (cases sg)
  have root: "w_root w' = sg_map_at (\<lambda>_. StorageW m (sgs @ []) (sts @ [sid])) (w_root (cs_w c)) sw"
    using one st2(2) r(4) sg_map_at_const [OF r(1), of "sg_add_stream sid"] by (simp add: one_stream_def sg)
  have nm: "sw_name (w_streams w' ! sid) = enc" "sw_stateBits (w_streams w' ! sid) = file_bits info"
    using one bits st2 r(3) by (simp_all add: one_stream_def same_bits_def newStream_def)
  have enc: "encodeName name = Inr enc" using r(2) by (simp add: validateChildName_Inr)
  have fc: "file_copied w' (cs_data ?c4) sid name (file_bits info) (content f)"
    using nm enc closeStream_bits(2) [OF cl l3] len by (simp add: file_copied_def stream_name_def)
  have "appends wr sw c ?c4 [] [sid] [FFile name (file_bits info) (content f)]"
    unfolding appends_def using steps keep r(1) sg root fc by auto
  then show ?thesis using f by (intro exI [of _ f] exI [of _ ?c4] exI [of _ "[sid]"]) simp
qed

section \<open>A directory\<close>

lemma sg_map_at_last:
  "sg_map_at f (sg_map_at (\<lambda>_. StorageW m (sgs @ [x]) sts) root path) (path @ [length sgs]) =
   sg_map_at (\<lambda>_. StorageW m (sgs @ [f x]) sts) root path"
  by (simp add: sg_map_at_append sg_map_at_map o_def)

lemma sg_at_last:
  "sg_at root path = Some y \<Longrightarrow>
   sg_at (sg_map_at (\<lambda>_. StorageW m (sgs @ [x]) sts) root path) (path @ [length sgs]) = Some x"
  by (simp add: sg_at_append sg_at_map)

lemma addDir_ok:
  assumes cr: "createStorage (cs_w c) sw name = Inr (w1, s)" and sg: "sg_at (w_root w1) s = Some sg"
    and w2: "w2 = w1\<lparr>w_root := sg_map_at (sg_set_meta (copyMeta info (sg_meta sg))) (w_root w1) s\<rparr>"
    and cl: "\<And>x. gi_sys info = SysStorage x \<Longrightarrow> length (stCLSID x) = 16"
    and ap: "appends wr s (c\<lparr>cs_w := w2\<rparr>) c' ns nt ts"
  shows "\<exists>sg'. appends wr sw c c' [sg'] [] [FDir name info ts]"
proof -
  obtain m sgs sts enc where r: "sg_at (w_root (cs_w c)) sw = Some (StorageW m sgs sts)"
    "validateChildName (cs_w c) (StorageW m sgs sts) name = Inr enc" "s = sw @ [length sgs]"
    "w1 = (cs_w c)\<lparr>w_root := sg_map_at (sg_add_storage (StorageW (newMeta enc) [] [])) (w_root (cs_w c)) sw,
        w_descendants := w_descendants (cs_w c) + 1\<rparr>"
    using cr by (auto simp: createStorage_Inr) (metis storageW.collapse)
  let ?R = "\<lambda>x. sg_map_at (\<lambda>_. StorageW m (sgs @ [x]) sts) (w_root (cs_w c)) sw"
  define M where "M = copyMeta info (newMeta enc)"
  have r1: "w_root w1 = ?R (StorageW (newMeta enc) [] [])"
    using sg_map_at_const [OF r(1), of "sg_add_storage (StorageW (newMeta enc) [] [])"] by (simp add: r(4))
  then have sgq: "sg = StorageW (newMeta enc) [] []" using sg sg_at_last [OF r(1)] by (simp add: r(3))
  have M: "M\<lparr>sg_name := enc\<rparr> = M" "length (sg_clsid M) = 16"
    using cl by (auto simp: M_def copyMeta_def newMeta_def split: goSys.splits)
  have nm: "sg_name (newMeta enc) = enc" by (simp add: newMeta_def)
  have r2: "w_root w2 = ?R (StorageW M [] [])"
    unfolding w2 using r1 sg_map_at_last by (simp add: r(3) sgq M_def [symmetric] M(1) nm)
  have s1: "wstep wr c (c\<lparr>cs_w := w1\<rparr>)" by (rule wstep.step_storage [OF cr])
  have s2: "wstep wr (c\<lparr>cs_w := w1\<rparr>) (c\<lparr>cs_w := w2\<rparr>)"
    using wstep.step_meta [of "c\<lparr>cs_w := w1\<rparr>" s sg M wr] sg M(2) by (simp add: w2 sgq M_def)
  have "w_root (cs_w c') = sg_map_at (\<lambda>_. StorageW M ns nt) (?R (StorageW M [] [])) s"
    using ap r2 sg_at_last [OF r(1)] by (auto simp: appends_def r(3))
  then have r3: "w_root (cs_w c') = ?R (StorageW M ns nt)" unfolding r(3) sg_map_at_last .
  have "w_streams w2 = w_streams (cs_w c)" by (simp add: w2 r(4))
  then have keep: "keeps_streams c c'" using ap by (simp add: appends_def keeps_streams_def)
  have steps: "wsteps wr c c'"
    using ap s1 s2 by (auto simp: appends_def intro: converse_rtranclp_into_rtranclp)
  have "encodeName name = Inr enc" using r(2) by (simp add: validateChildName_Inr)
  then have "copied (cs_w c') (cs_data c') [StorageW M ns nt] [] [FDir name info ts]"
    using ap by (simp add: M_def appends_def)
  then have "appends wr sw c c' [StorageW M ns nt] [] [FDir name info ts]"
    unfolding appends_def using steps keep r(1) r3 by simp
  then show ?thesis by blast
qed

lemma appends_at: "appends wr path c c' ns nt ts \<Longrightarrow> sg_at (w_root (cs_w c')) path \<noteq> None"
  using sg_at_map by (fastforce simp: appends_def)

text \<open>What the Go types say: a CLSID is an array of 16 bytes, the nanosecond of a time is below one second.\<close>

definition info_ok :: "goFileInfo \<Rightarrow> bool" where
  "info_ok info \<longleftrightarrow> valid_time (gi_modTime info) \<and>
     (case gi_sys info of SysStorage s \<Rightarrow> length (stCLSID s) = 16 \<and> valid_time (stCreated s) \<and> valid_time (stModified s)
      | _ \<Rightarrow> True)"

definition types_ok :: "goDirEntry \<Rightarrow> bool" where
  "types_ok d \<longleftrightarrow> (case gd_info d of Inl e \<Rightarrow> True | Inr info \<Rightarrow> info_ok info)"

definition fs_ok :: "gofs \<Rightarrow> bool" where
  "fs_ok fs \<longleftrightarrow> (\<forall>dir. case gf_readDir fs dir of Inl e \<Rightarrow> True | Inr ds \<Rightarrow> list_all types_ok ds)"

text \<open>What the recursive call on a directory gives.\<close>

definition copies :: "sink \<Rightarrow> (gostring \<Rightarrow> nat list \<Rightarrow> writer \<Rightarrow> writer \<times> goerr option) \<Rightarrow> (gostring \<Rightarrow> ftree list option) \<Rightarrow> bool" where
  "copies wr rec rt \<longleftrightarrow> (\<forall>dir s c w'. rec dir s (cs_w c) = (w', None) \<longrightarrow> sg_at (w_root (cs_w c)) s \<noteq> None \<longrightarrow>
     (\<exists>c' ns nt ts. rt dir = Some ts \<and> cs_w c' = w' \<and> appends wr s c c' ns nt ts))"

lemma addFSEntries_ok:
  "copies wr rec rt \<Longrightarrow> list_all types_ok ds \<Longrightarrow> addFSEntries rec wr fs sw dir ds (cs_w c) = (w', None) \<Longrightarrow>
   sg_at (w_root (cs_w c)) sw \<noteq> None \<Longrightarrow>
   \<exists>c' ns nt ts. read_entries rt fs dir ds = Some ts \<and> cs_w c' = w' \<and> appends wr sw c c' ns nt ts"
proof (induction ds arbitrary: c)
  case Nil
  obtain m sgs sts where "sg_at (w_root (cs_w c)) sw = Some (StorageW m sgs sts)"
    using Nil.prems(4) by (metis not_None_eq storageW.exhaust)
  then have "appends wr sw c c [] [] []"
    by (auto simp: appends_def keeps_streams_refl sg_map_at_idem)
  then show ?case using Nil.prems(3) by auto
next
  case (Cons d ds)
  obtain info where info: "gd_info d = Inr info" using Cons.prems(3) by (auto split: sum.splits)
  let ?p = "childPath dir (gd_name d)"
  have "\<exists>c1 ns nt t. read_entries rt fs dir (d # ds) = map_option ((#) t) (read_entries rt fs dir ds) \<and>
    addFSEntries rec wr fs sw dir ds (cs_w c1) = (w', None) \<and> appends wr sw c c1 ns nt [t]"
  proof (cases "gd_isDir d")
    case True
    obtain w1 s sg w2 w3 where st: "createStorage (cs_w c) sw (gd_name d) = Inr (w1, s)" "sg_at (w_root w1) s = Some sg"
      "w2 = w1\<lparr>w_root := sg_map_at (sg_set_meta (copyMeta info (sg_meta sg))) (w_root w1) s\<rparr>"
      "rec ?p s w2 = (w3, None)" "addFSEntries rec wr fs sw dir ds w3 = (w', None)"
      using Cons.prems(3) info True by (auto simp: Let_def split: sum.splits prod.splits option.splits)
    have "sg_at (w_root w2) s \<noteq> None" using sg_at_map [OF st(2)] by (simp add: st(3))
    then obtain c1 ns nt ts where c1: "rt ?p = Some ts" "cs_w c1 = w3" "appends wr s (c\<lparr>cs_w := w2\<rparr>) c1 ns nt ts"
      using Cons.prems(1) st(4) unfolding copies_def by (metis cstate.select_convs(1) cstate.surjective cstate.update_convs(1))
    have "length (stCLSID x) = 16" if "gi_sys info = SysStorage x" for x
      using Cons.prems(2) that info by (simp add: types_ok_def info_ok_def)
    then obtain sg' where "appends wr sw c c1 [sg'] [] [FDir (gd_name d) info ts]"
      using addDir_ok [OF st(1-3) _ c1(3)] by blast
    then show ?thesis using st(5) c1 info True by (intro exI [of _ c1] exI conjI) auto
  next
    case False
    obtain w1 where w1: "addFSFile wr fs sw ?p (gd_name d) info (cs_w c) = (w1, None)" "addFSEntries rec wr fs sw dir ds w1 = (w', None)"
      using Cons.prems(3) info False by (auto simp: Let_def split: prod.splits option.splits)
    from addFSFile_ok [OF w1(1)] obtain f c1 nt where f: "gf_open fs ?p = Inr f" "cs_w c1 = w1"
      "appends wr sw c c1 [] nt [FFile (gd_name d) (file_bits info) (content f)]" by blast
    have "read_entries rt fs dir (d # ds) =
        map_option ((#) (FFile (gd_name d) (file_bits info) (content f))) (read_entries rt fs dir ds)"
      using info False f(1) by simp
    then show ?thesis using w1(2) f(2,3) by blast
  qed
  then obtain c1 ns nt t where c1: "read_entries rt fs dir (d # ds) = map_option ((#) t) (read_entries rt fs dir ds)"
    "addFSEntries rec wr fs sw dir ds (cs_w c1) = (w', None)" "appends wr sw c c1 ns nt [t]" by blast
  have "list_all types_ok ds" using Cons.prems(2) by simp
  from Cons.IH [OF Cons.prems(1) this c1(2) appends_at [OF c1(3)]]
  obtain c' ns' nt' ts where c': "read_entries rt fs dir ds = Some ts" "cs_w c' = w'" "appends wr sw c1 c' ns' nt' ts" by blast
  have "appends wr sw c c' (ns @ ns') (nt @ nt') (t # ts)" by (rule appends_trans [OF c1(3) c'(3)])
  then show ?case using c1(1) c'(1,2) by auto
qed

lemma addFSDir_copies: "fs_ok fs \<Longrightarrow> copies wr (addFSDir n wr fs) (read_tree n fs)"
proof (induction n)
  case 0
  then show ?case by (simp add: copies_def)
next
  case (Suc n)
  show ?case unfolding copies_def
  proof (intro allI impI)
    fix dir s w' and c :: cstate
    assume a: "addFSDir (Suc n) wr fs dir s (cs_w c) = (w', None)" and at: "sg_at (w_root (cs_w c)) s \<noteq> None"
    obtain ds where ds: "gf_readDir fs dir = Inr ds" "addFSEntries (addFSDir n wr fs) wr fs s dir ds (cs_w c) = (w', None)"
      using a by (auto split: sum.splits)
    have "list_all types_ok ds" using Suc.prems ds(1) by (auto simp: fs_ok_def split: sum.splits)
    from addFSEntries_ok [OF Suc.IH [OF Suc.prems] this ds(2) at]
    show "\<exists>c' ns nt ts. read_tree (Suc n) fs dir = Some ts \<and> cs_w c' = w' \<and> appends wr s c c' ns nt ts"
      using ds(1) by simp
  qed
qed

section \<open>The result does not depend on the fuel\<close>

text \<open>All directories that can be listed are nested at most \<open>n\<close> deep.\<close>

primrec depth_le :: "nat \<Rightarrow> gofs \<Rightarrow> gostring \<Rightarrow> bool" where
  "depth_le 0 fs dir = False"
| "depth_le (Suc n) fs dir =
     (case gf_readDir fs dir of Inl e \<Rightarrow> True
      | Inr ds \<Rightarrow> list_all (\<lambda>d. gd_isDir d \<longrightarrow> depth_le n fs (childPath dir (gd_name d))) ds)"

lemma addFSEntries_cong:
  "list_all (\<lambda>d. gd_isDir d \<longrightarrow> r1 (childPath dir (gd_name d)) = r2 (childPath dir (gd_name d))) ds \<Longrightarrow>
   addFSEntries r1 wr fs sw dir ds w = addFSEntries r2 wr fs sw dir ds w"
  by (induction ds arbitrary: w) (auto simp: Let_def split: sum.splits option.splits prod.splits)

lemma depth_le_mono: "depth_le n fs dir \<Longrightarrow> n \<le> k \<Longrightarrow> depth_le k fs dir"
proof (induction n arbitrary: k dir)
  case (Suc n)
  obtain j where "k = Suc j" "n \<le> j" using Suc.prems(2) by (cases k) auto
  then show ?case using Suc.prems(1) Suc.IH [of _ j] by (auto simp: list_all_iff split: sum.splits)
qed simp

lemma addFSDir_fuel: "depth_le n fs dir \<Longrightarrow> n \<le> k \<Longrightarrow> addFSDir k wr fs dir = addFSDir n wr fs dir"
proof (induction n arbitrary: k dir)
  case (Suc n)
  obtain j where k: "k = Suc j" "n \<le> j" using Suc.prems(2) by (cases k) auto
  show ?case
  proof (intro ext)
    fix sw w
    show "addFSDir k wr fs dir sw w = addFSDir (Suc n) wr fs dir sw w"
    proof (cases "gf_readDir fs dir")
      case (Inr ds)
      then have "list_all (\<lambda>d. gd_isDir d \<longrightarrow> addFSDir j wr fs (childPath dir (gd_name d)) = addFSDir n wr fs (childPath dir (gd_name d))) ds"
        using Suc.prems(1) by (auto simp: list_all_iff intro!: Suc.IH k(2))
      from addFSEntries_cong [OF this, of wr fs sw w] show ?thesis
        by (simp only: k(1) Inr addFSDir.simps sum.case)
    qed (simp add: k(1))
  qed
qed simp

section \<open>The properties\<close>

text \<open>A successful \<open>AddFS\<close> into a storage of a reachable writer is a sequence of steps of the writer (so
  everything shown of reachable writers, the round trip through \<open>Close\<close> included, holds of the result). The
  whole file system could be read (\<open>read_tree\<close>); the storage has its old children followed by exactly a copy of
  that tree: the directories in order with their names and metadata, the files in order with their names and
  state bits, each closed and with exactly the bytes its reads gave; no other storage and no stream there was changes.\<close>

theorem addFS_mirrors:
  assumes "fs_ok fs" and reach: "wreach wr S c" and at: "sg_at (w_root (cs_w c)) sw = Some (StorageW m sgs sts)"
    and add: "addFS n wr fs sw (cs_w c) = (w', None)"
  shows "\<exists>c' ns nt ts. wreach wr S c' \<and> cs_w c' = w' \<and> read_tree n fs [0x2E] = Some ts \<and>
    w_root w' = sg_map_at (\<lambda>_. StorageW m (sgs @ ns) (sts @ nt)) (w_root (cs_w c)) sw \<and>
    copied w' (cs_data c') ns nt ts \<and> keeps_streams c c'"
proof -
  have "addFSDir n wr fs [0x2E] sw (cs_w c) = (w', None)" "sg_at (w_root (cs_w c)) sw \<noteq> None"
    using add at by (simp_all add: addFS_def)
  then obtain c' ns nt ts where c': "read_tree n fs [0x2E] = Some ts" "cs_w c' = w'" "appends wr sw c c' ns nt ts"
    using addFSDir_copies [OF assms(1)] unfolding copies_def by blast
  have "w_root w' = sg_map_at (\<lambda>_. StorageW m (sgs @ ns) (sts @ nt)) (w_root (cs_w c)) sw"
    using c'(2,3) at by (auto simp: appends_def)
  moreover have "wreach wr S c'" using c'(3) reach by (auto simp: appends_def intro: wsteps_reach)
  ultimately show ?thesis using c' by (auto simp: appends_def)
qed

text \<open>A file system of a directory and a file, copied into an empty writer.\<close>

definition sample_gofs :: gofs where
  "sample_gofs = (let info = \<lparr>gi_sys = SysOther, gi_modTime = zeroTime\<rparr> in
     \<lparr>gf_readDir = (\<lambda>dir. if dir = [0x2E] then Inr [\<lparr>gd_name = [0x44], gd_isDir = True, gd_info = Inr info\<rparr>,
           \<lparr>gd_name = [0x41], gd_isDir = False, gd_info = Inr info\<rparr>]
         else Inr []),
      gf_open = (\<lambda>_. Inr (MoreReads [1] (LastRead [2, 3] EOF)))\<rparr>)"

definition copied_writer :: "bytes \<Rightarrow> streamW list \<Rightarrow> nat list \<Rightarrow> u32 \<Rightarrow> writer" where
  "copied_writer mini sts ids d = (newWriter 512)\<lparr>w_miniBuf := mini, w_descendants := d,
     w_root := StorageW (newMeta rootName) [StorageW (newMeta [0x44]) [] []] ids,
     w_streams := sts\<rparr>"

definition part_stream :: "bytes \<Rightarrow> streamW" where
  "part_stream b = (newStream [0x41])\<lparr>sw_buf := b, sw_size := length b\<rparr>"

lemma encodeName_D: "encodeName [0x44] = Inr [0x44]"
  by (simp add: encodeName_def containsAny_def Let_def utf16_encode_def appendRune_def forbiddenRunes_def)

lemma sample_fs_dir: "createStorage (newWriter 512) [] [0x44] =
    Inr ((newWriter 512)\<lparr>w_root := StorageW (newMeta rootName) [StorageW (newMeta [0x44]) [] []] [], w_descendants := 2\<rparr>, [0])"
  by (simp add: createStorage_def validateChildName_def encodeName_D newWriter_def)

lemma sample_fs_file: "createStream (copied_writer [] [] [] 2) [] [0x41] = Inr (copied_writer [] [part_stream []] [0] 3, 0)"
  by (simp add: createStream_def validateChildName_def encodeName_A copied_writer_def part_stream_def newWriter_def newStream_def
     newMeta_def sg_name_of_def compareNames_def toUpper_def)

lemma sample_fs_write:
  assumes "b \<noteq> []" "length a + length b < 4"
  shows "writeStream full_sink (copied_writer [] [part_stream a] [0] 3) 0 b = (copied_writer [] [part_stream (a @ b)] [0] 3, length b, None)"
proof -
  have it: "write_iter full_sink (copied_writer [] [part_stream a] [0] 3) 0 b = (copied_writer [] [part_stream (a @ b)] [0] 3, length b, None)"
    using assms by (simp add: write_iter_def writeRoom_def Let_def copied_writer_def part_stream_def newWriter_def newStream_def
       w_upd_def miniStreamCutoff_def)
  have "write_loop full_sink (copied_writer [] [part_stream a] [0] 3) 0 b 0 = (copied_writer [] [part_stream (a @ b)] [0] 3, length b, None)"
    using it assms(1) by (simp add: write_loop.simps [of _ "copied_writer [] [part_stream a] [0] 3"]
       write_loop.simps [of _ "copied_writer [] [part_stream (a @ b)] [0] 3" 0 "[]"])
  then show ?thesis
    using assms by (simp add: writeStream_def Let_def copied_writer_def part_stream_def newWriter_def newStream_def streamSizeMaxV3_def)
qed

lemma sample_fs_close:
  "closeStream full_sink (copied_writer [] [part_stream [1, 2, 3]] [0] 3) 0 =
   (copied_writer (padMini [1, 2, 3]) [(part_stream [])\<lparr>sw_size := 3, sw_closed := True, sw_chain := [\<lparr>sr_first = 0, sr_count = 1\<rparr>]\<rparr>] [0] 3, None)"
proof -
  let ?w = "\<lambda>mini. copied_writer mini [part_stream [1, 2, 3]] [0] 3"
  have p: "padMini [1, 2, 3] = [1, 2, 3] @ replicate 61 0"
    by (simp add: padMini_def miniSectorSize_def Let_def)
  have l: "length (padMini [1, 2, 3]) = 64" unfolding p by (simp only: length_append length_replicate list.size)
  have ne: "padMini [1, 2, 3] \<noteq> []" using l by auto
  have w: "writeMini full_sink (?w []) (padMini [1, 2, 3]) = (?w (padMini [1, 2, 3]), None)"
    using l ne by (subst writeMini.simps) (simp add: copied_writer_def newWriter_def Let_def)
  show ?thesis
    using w l by (simp add: closeStream_def copied_writer_def part_stream_def newStream_def
        newWriter_def w_upd_def Let_def miniStreamCutoff_def miniSectorSize_def)
qed

lemma sample_fs_add:
  "addFS 2 full_sink sample_gofs [] (newWriter 512) =
   (copied_writer (padMini [1, 2, 3]) [(part_stream [])\<lparr>sw_size := 3, sw_closed := True, sw_chain := [\<lparr>sr_first = 0, sr_count = 1\<rparr>]\<rparr>] [0] 3, None)"
proof -
  have meta: "sg_set_meta (copyMeta \<lparr>gi_sys = SysOther, gi_modTime = zeroTime\<rparr> (newMeta [0x44])) (StorageW (newMeta [0x44]) [] []) =
      StorageW (newMeta [0x44]) [] []"
    by (simp add: copyMeta_def newMeta_def birthtime_def)
  have rd: "gf_readDir sample_gofs [0x2E] = Inr [\<lparr>gd_name = [0x44], gd_isDir = True, gd_info = Inr \<lparr>gi_sys = SysOther, gi_modTime = zeroTime\<rparr>\<rparr>,
      \<lparr>gd_name = [0x41], gd_isDir = False, gd_info = Inr \<lparr>gi_sys = SysOther, gi_modTime = zeroTime\<rparr>\<rparr>]"
    by (simp add: sample_gofs_def Let_def)
  have w2: "(newWriter 512)\<lparr>w_root := StorageW (newMeta rootName) [StorageW (newMeta [0x44]) [] []] [], w_descendants := 2\<rparr> =
      copied_writer [] [] [] 2"
    by (simp add: copied_writer_def newWriter_def)
  have idem: "(copied_writer [] [] [] 2)\<lparr>w_root := StorageW (newMeta rootName) [StorageW (newMeta [0x44]) [] []] []\<rparr> =
      copied_writer [] [] [] 2"
    by (simp add: copied_writer_def)
  have "addFSFile full_sink sample_gofs [] [0x41] [0x41] \<lparr>gi_sys = SysOther, gi_modTime = zeroTime\<rparr> (copied_writer [] [] [] 2) =
    (copied_writer (padMini [1, 2, 3]) [(part_stream [])\<lparr>sw_size := 3, sw_closed := True, sw_chain := [\<lparr>sr_first = 0, sr_count = 1\<rparr>]\<rparr>] [0] 3, None)"
    by (simp add: addFSFile_def sample_gofs_def Let_def sample_fs_file sample_fs_write sample_fs_close)
  moreover have "w_root (copied_writer [] [] [] 2) = StorageW (newMeta rootName) [StorageW (newMeta [0x44]) [] []] []"
    by (simp add: copied_writer_def)
  moreover have "addFSDir (Suc 0) full_sink sample_gofs [0x44] [0] w = (w, None)" for w
    by (simp add: sample_gofs_def Let_def)
  ultimately show ?thesis
    using meta rd by (simp add: addFS_def numeral_2_eq_2 sample_fs_dir w2 idem childPath_def Let_def)
qed

theorem addFS_mirrors_witness:
  "\<exists>c' ns nt ts. wreach full_sink 512 c' \<and> read_tree 2 sample_gofs [0x2E] = Some ts \<and>
     w_root (cs_w c') = StorageW (newMeta rootName) ns nt \<and> length ns = 1 \<and> copied (cs_w c') (cs_data c') ns nt ts"
proof -
  let ?w = "copied_writer (padMini [1, 2, 3]) [(part_stream [])\<lparr>sw_size := 3, sw_closed := True, sw_chain := [\<lparr>sr_first = 0, sr_count = 1\<rparr>]\<rparr>] [0] 3"
  have ok: "fs_ok sample_gofs" by (simp add: fs_ok_def sample_gofs_def Let_def types_ok_def info_ok_def valid_time_def zeroTime_def)
  have at: "sg_at (w_root (cs_w (winit 512))) [] = Some (StorageW (newMeta rootName) [] [])"
    by (simp add: winit_def newWriter_def)
  have add: "addFS 2 full_sink sample_gofs [] (cs_w (winit 512)) = (?w, None)"
    using sample_fs_add by (simp add: winit_def)
  obtain c' ns nt ts where c': "wreach full_sink 512 c'" "cs_w c' = ?w" "read_tree 2 sample_gofs [0x2E] = Some ts"
    "w_root ?w = sg_map_at (\<lambda>_. StorageW (newMeta rootName) ([] @ ns) ([] @ nt)) (w_root (cs_w (winit 512))) []"
    "copied ?w (cs_data c') ns nt ts"
    using addFS_mirrors [OF ok wreach.reach_init at add] by blast
  have "length ns = 1" using c'(4) by (auto simp: copied_writer_def)
  then show ?thesis using c' by (intro exI [of _ c'] exI [of _ ns] exI [of _ nt] exI [of _ ts]) simp
qed

text \<open>The fuel is not part of the result: where all directories that can be listed are nested at most \<open>n\<close>
  deep, the recursion of \<open>addFSDir\<close> ends, and with any more fuel \<open>AddFS\<close> gives the same writer and the same error.\<close>

theorem addFS_terminates:
  assumes "depth_le n fs [0x2E]" "n \<le> k"
  shows "addFS k wr fs sw w = addFS n wr fs sw w"
  by (simp add: addFS_def addFSDir_fuel [OF assms])

theorem addFS_terminates_witness: "addFS 7 full_sink sample_gofs [] (newWriter 512) = addFS 2 full_sink sample_gofs [] (newWriter 512)"
  by (rule addFS_terminates) (simp_all add: numeral_2_eq_2 sample_gofs_def Let_def childPath_def)

end
