(* ===== verification/Layout.thy ===== *)
theory Layout
  imports WriterReach
begin

text \<open>
  The layout of the directory in writer.go: \<open>linkBST\<close>, which links the entries of one storage to a
  balanced binary tree, and \<open>assignLayout\<close>, which numbers all entries in preorder. The slice
  \<open>s.layout\<close> is the state that is threaded through both; the storages are sorted in place, so
  \<open>assignLayout\<close> also returns the storage with its children in their new order.

  \<open>bst_of\<close> says which entries, in order, a tree of links holds.
\<close>

record layoutEntry =
  le_leftSib :: u32
  le_rightSib :: u32
  le_childID :: u32

definition unlinked :: layoutEntry where
  "unlinked = \<lparr>le_leftSib = noStream, le_rightSib = noStream, le_childID = noStream\<rparr>"

section \<open>linkBST\<close>

text \<open>\<open>lo\<close> is never negative, so Go's truncating division of \<open>lo + hi\<close> is \<open>div\<close>.\<close>

function linkBST :: "layoutEntry list \<Rightarrow> u32 list \<Rightarrow> int \<Rightarrow> int \<Rightarrow> goerr + layoutEntry list \<times> u32" where
  "linkBST layout ids lo hi =
     (if hi < lo then Inr (layout, noStream)
      else
        let mid = (lo + hi) div 2 in
        if mid < 0 \<or> int (length ids) \<le> mid then Inl Panic
        else
          let eid = ids ! nat mid in
          if length layout \<le> unat eid then Inl Panic
          else
            bindE (linkBST layout ids lo (mid - 1)) (\<lambda>(layout, l).
            let layout = layout[unat eid := (layout ! unat eid)\<lparr>le_leftSib := l\<rparr>] in
            bindE (linkBST layout ids (mid + 1) hi) (\<lambda>(layout, r).
            let layout = layout[unat eid := (layout ! unat eid)\<lparr>le_rightSib := r\<rparr>] in
              Inr (layout, eid))))"
  by pat_completeness auto
termination
  by (relation "measure (\<lambda>(layout, ids, lo, hi). nat (hi - lo + 1))") auto

declare linkBST.simps [simp del]

text \<open>The tree of links at an id: its entries in order, and a bound on its height.\<close>

inductive bst_of :: "layoutEntry list \<Rightarrow> nat \<Rightarrow> u32 \<Rightarrow> u32 list \<Rightarrow> bool" for layout where
  bst_none: "bst_of layout h noStream []"
| bst_node: "eid \<noteq> noStream \<Longrightarrow> unat eid < length layout \<Longrightarrow> bst_of layout h (le_leftSib (layout ! unat eid)) ls \<Longrightarrow>
    bst_of layout h (le_rightSib (layout ! unat eid)) rs \<Longrightarrow> bst_of layout (Suc h) eid (ls @ eid # rs)"

definition seg :: "u32 list \<Rightarrow> int \<Rightarrow> int \<Rightarrow> u32 list" where
  "seg ids lo hi = slice (nat lo) (nat (hi - lo + 1)) ids"

text \<open>What \<open>linkBST\<close> may change: the sibling links of the entries it links.\<close>

definition links_only :: "nat set \<Rightarrow> layoutEntry list \<Rightarrow> layoutEntry list \<Rightarrow> bool" where
  "links_only A lay lay' \<longleftrightarrow> length lay' = length lay \<and>
     (\<forall>i < length lay. le_childID (lay' ! i) = le_childID (lay ! i) \<and> (i \<notin> A \<longrightarrow> lay' ! i = lay ! i))"

lemma links_only_refl: "links_only A lay lay"
  by (simp add: links_only_def)

lemma links_only_trans: "links_only A l1 l2 \<Longrightarrow> links_only B l2 l3 \<Longrightarrow> A \<union> B \<subseteq> C \<Longrightarrow> links_only C l1 l3"
  by (fastforce simp: links_only_def)

lemma links_only_update:
  "le_childID e = le_childID (lay ! i) \<Longrightarrow> links_only {i} lay (lay[i := e])"
  by (cases "i < length lay") (auto simp: links_only_def nth_list_update list_update_beyond)

lemma inj_unat: "inj (unat :: u32 \<Rightarrow> nat)"
  by (rule injI) (simp add: word_unat_eq_iff)

lemma bst_of_links:
  "bst_of lay h eid ids \<Longrightarrow> links_only A lay lay' \<Longrightarrow> unat ` set ids \<inter> A = {} \<Longrightarrow> bst_of lay' h eid ids"
proof (induction rule: bst_of.induct)
  case bst_none
  then show ?case by (simp add: bst_of.bst_none)
next
  case (bst_node eid h ls rs)
  have "unat eid \<notin> A" using bst_node.prems(2) by auto
  then have "lay' ! unat eid = lay ! unat eid" using bst_node by (simp add: links_only_def)
  moreover have "bst_of lay' h (le_leftSib (lay ! unat eid)) ls" "bst_of lay' h (le_rightSib (lay ! unat eid)) rs"
    using bst_node by auto
  ultimately show ?case
    using bst_node by (intro bst_of.bst_node) (auto simp: links_only_def)
qed

lemma seg_split:
  assumes "0 \<le> lo" "lo \<le> mid" "mid \<le> hi" "hi < int (length ids)"
  shows "seg ids lo hi = seg ids lo (mid - 1) @ ids ! nat mid # seg ids (mid + 1) hi"
proof -
  have n: "nat (hi - lo + 1) = nat (mid - lo) + (1 + nat (hi - mid))" "nat lo + nat (mid - lo) = nat mid"
    "Suc (nat mid) = nat (mid + 1)" using assms by simp_all
  have one: "slice (nat mid) 1 ids = [ids ! nat mid]"
    using assms by (simp add: slice_def take_Suc_conv_app_nth drop_take Cons_nth_drop_Suc [symmetric])
  have "seg ids lo hi = slice (nat lo) (nat (mid - lo)) ids @ slice (nat mid) 1 ids @ slice (nat (mid + 1)) (nat (hi - mid)) ids"
    unfolding seg_def n(1) slice_add [symmetric] n(2) by (simp add: n(3))
  then show ?thesis unfolding one by (simp add: seg_def algebra_simps)
qed

lemma set_seg: "set (seg ids lo hi) \<subseteq> set ids"
  unfolding seg_def slice_def by (meson order_trans set_drop_subset set_take_subset)

lemma linkBST_halves:
  assumes "lo \<le> hi" "nat (hi - lo + 1) < 2 ^ Suc k"
  shows "nat ((lo + hi) div 2 - lo) < 2 ^ k" "nat (hi - (lo + hi) div 2) < 2 ^ k"
proof -
  have "hi - lo + 1 < 2 * 2 ^ k" using assms by (simp add: nat_less_iff)
  then have "(lo + hi) div 2 - lo < 2 ^ k" "hi - (lo + hi) div 2 < 2 ^ k" by linarith+
  then show "nat ((lo + hi) div 2 - lo) < 2 ^ k" "nat (hi - (lo + hi) div 2) < 2 ^ k"
    by (simp_all add: nat_less_iff)
qed

lemma linkBST_ok:
  assumes "distinct ids" "\<forall>i \<in> set ids. unat i < length lay \<and> i \<noteq> noStream"
    "0 \<le> lo" "hi < int (length ids)" "lo \<le> hi + 1"
  shows "\<exists>lay' root. linkBST lay ids lo hi = Inr (lay', root) \<and> links_only (unat ` set (seg ids lo hi)) lay lay' \<and>
    (\<forall>h. nat (hi - lo + 1) < 2 ^ h \<longrightarrow> bst_of lay' h root (seg ids lo hi))"
  using assms
proof (induction lay ids lo hi rule: linkBST.induct)
  case (1 lay ids lo hi)
  show ?case
  proof (cases "hi < lo")
    case True
    then show ?thesis by (auto simp: linkBST.simps [of lay] links_only_refl seg_def intro: bst_of.bst_none)
  next
    case False
    define mid where "mid = (lo + hi) div 2"
    define eid where "eid = ids ! nat mid"
    have mid: "lo \<le> mid" "mid \<le> hi" using False by (auto simp: mid_def)
    have mem: "eid \<in> set ids" using mid "1.prems" by (simp add: eid_def)
    have e: "eid \<noteq> noStream" "unat eid < length lay" using "1.prems"(2) mem by auto
    have g: "\<not> hi < lo" "\<not> (mid < 0 \<or> int (length ids) \<le> mid)" "\<not> length lay \<le> unat eid"
      using False mid "1.prems"(3,4) e(2) by auto
    let ?L = "seg ids lo (mid - 1)" and ?R = "seg ids (mid + 1) hi"
    have s: "seg ids lo hi = ?L @ eid # ?R" unfolding eid_def by (rule seg_split) (use mid "1.prems" in auto)
    have "distinct (seg ids lo hi)" using "1.prems"(1) by (simp add: seg_def slice_def)
    then have d: "unat eid \<notin> unat ` set ?L" "unat eid \<notin> unat ` set ?R" "unat ` set ?L \<inter> unat ` set ?R = {}"
      by (auto simp: s inj_image_mem_iff [OF inj_unat] image_Int [OF inj_unat, symmetric])
    obtain lay1 l where l: "linkBST lay ids lo (mid - 1) = Inr (lay1, l)" "links_only (unat ` set ?L) lay lay1"
      "\<And>h. nat (mid - lo) < 2 ^ h \<Longrightarrow> bst_of lay1 h l ?L"
      using "1.IH"(1) [OF g(1) mid_def g(2) eid_def g(3)] "1.prems" mid by auto
    define lay2 where "lay2 = lay1[unat eid := (lay1 ! unat eid)\<lparr>le_leftSib := l\<rparr>]"
    have len: "length lay1 = length lay" "length lay2 = length lay" using l(2) by (simp_all add: links_only_def lay2_def)
    obtain lay3 r where r: "linkBST lay2 ids (mid + 1) hi = Inr (lay3, r)" "links_only (unat ` set ?R) lay2 lay3"
      "\<And>h. nat (hi - mid) < 2 ^ h \<Longrightarrow> bst_of lay3 h r ?R"
      using "1.IH"(2) [OF g(1) mid_def g(2) eid_def g(3) l(1) refl lay2_def] "1.prems" mid len by auto
    define lay4 where "lay4 = lay3[unat eid := (lay3 ! unat eid)\<lparr>le_rightSib := r\<rparr>]"
    have run: "linkBST lay ids lo hi = Inr (lay4, eid)"
      using g l(1) r(1) by (subst linkBST.simps) (simp add: mid_def [symmetric] eid_def [symmetric] lay2_def [symmetric] lay4_def Let_def)
    have u2: "links_only {unat eid} lay1 lay2" "links_only {unat eid} lay3 lay4"
      unfolding lay2_def lay4_def by (rule links_only_update; simp)+
    have "links_only (unat ` set ?L \<union> {unat eid}) lay lay2" by (rule links_only_trans [OF l(2) u2(1)]) simp
    then have "links_only (unat ` set ?L \<union> {unat eid} \<union> unat ` set ?R) lay lay3" by (rule links_only_trans [OF _ r(2)]) simp
    then have "links_only (unat ` set (seg ids lo hi)) lay lay4"
      by (rule links_only_trans [OF _ u2(2)]) (auto simp: s)
    moreover have "bst_of lay4 h eid (seg ids lo hi)" if small: "nat (hi - lo + 1) < 2 ^ h" for h
    proof -
      obtain k where k: "h = Suc k" using small mid by (cases h) auto
      have sub: "nat (mid - lo) < 2 ^ k" "nat (hi - mid) < 2 ^ k"
        using linkBST_halves [of lo hi k] small k False mid_def by auto
      have n3: "length lay3 = length lay" using r(2) len by (simp add: links_only_def)
      have "lay3 ! unat eid = lay2 ! unat eid" using r(2) e(2) len d(2) by (simp add: links_only_def)
      then have at: "le_leftSib (lay4 ! unat eid) = l" "le_rightSib (lay4 ! unat eid) = r"
        using e(2) len n3 by (simp_all add: lay4_def lay2_def)
      have "bst_of lay3 k l ?L"
        using bst_of_links [OF bst_of_links [OF l(3) [OF sub(1)] u2(1)] r(2)] d by auto
      then have "bst_of lay4 k (le_leftSib (lay4 ! unat eid)) ?L" "bst_of lay4 k (le_rightSib (lay4 ! unat eid)) ?R"
        unfolding at using bst_of_links [OF _ u2(2)] r(3) [OF sub(2)] d by auto
      moreover have "unat eid < length lay4" using e(2) n3 by (simp add: lay4_def)
      ultimately show ?thesis unfolding s k using e(1) by (intro bst_of.bst_node)
    qed
    ultimately show ?thesis using run by blast
  qed
qed

section \<open>assignLayout\<close>

lemma sum_list_sortFunc: "sum_list (map f (sortFunc cmp xs)) = (sum_list (map f xs) :: nat)"
  by (metis mset_map mset_sortFunc sum_mset_sum_list)

lemma sg_nodes_pos: "0 < sg_nodes sg"
  by (cases sg) simp

text \<open>Whether the merge of the sorted streams and storages takes a stream next.\<close>

definition pickStream :: "(nat \<Rightarrow> u16 list) \<Rightarrow> nat list \<Rightarrow> storageW list \<Rightarrow> bool" where
  "pickStream nm sts sgs \<longleftrightarrow> sgs = [] \<or> (sts \<noteq> [] \<and> compareNames (nm (hd sts)) (sg_name_of (hd sgs)) < 0)"

definition sortStreams :: "(nat \<Rightarrow> u16 list) \<Rightarrow> nat list \<Rightarrow> nat list" where
  "sortStreams nm sts = sortFunc (\<lambda>a b. compareNames (nm a) (nm b)) sts"

definition sortStorages :: "storageW list \<Rightarrow> storageW list" where
  "sortStorages sgs = sortFunc (\<lambda>a b. compareNames (sg_name_of a) (sg_name_of b)) sgs"

lemma sort_measure [simp]:
  "sum_list (map sg_nodes (sortStorages sgs)) = sum_list (map sg_nodes sgs)"
  "length (sortStreams nm sts) = length sts"
  by (simp_all add: sortStorages_def sortStreams_def sum_list_sortFunc)

text \<open>\<open>assignChildren\<close> is the loop over both lists; it returns the laid out storages and \<open>childIDs\<close>.\<close>

function assignLayout ::
  "(nat \<Rightarrow> u16 list) \<Rightarrow> storageW \<Rightarrow> layoutEntry list \<Rightarrow> u32 \<Rightarrow> goerr + storageW \<times> layoutEntry list \<times> u32 \<times> u32"
and assignChildren ::
  "(nat \<Rightarrow> u16 list) \<Rightarrow> nat list \<Rightarrow> storageW list \<Rightarrow> layoutEntry list \<Rightarrow> u32 \<Rightarrow>
   goerr + (storageW list \<times> u32 list) \<times> layoutEntry list \<times> u32" where
  "assignLayout nm (StorageW m sgs sts) layout counter =
     (let ownID = counter; counter = counter + 1 in
      if length layout \<le> unat ownID then Inl Panic
      else
        let layout = layout[unat ownID := unlinked];
            sts = sortStreams nm sts;
            sgs = sortStorages sgs
        in bindE (assignChildren nm sts sgs layout counter) (\<lambda>((sgs, childIDs), layout, counter).
           bindE (linkBST layout childIDs 0 (int (length childIDs) - 1)) (\<lambda>(layout, root).
             let layout = layout[unat ownID := (layout ! unat ownID)\<lparr>le_childID := root\<rparr>]
             in Inr (StorageW m sgs sts, layout, counter, ownID))))"
| "assignChildren nm sts sgs layout counter =
     (if sts = [] \<and> sgs = [] then Inr (([], []), layout, counter)
      else if pickStream nm sts sgs then
        let eid = counter; counter = counter + 1 in
        if length layout \<le> unat eid then Inl Panic
        else
          let layout = layout[unat eid := unlinked]
          in bindE (assignChildren nm (tl sts) sgs layout counter) (\<lambda>((sgs, ids), layout, counter).
               Inr ((sgs, eid # ids), layout, counter))
      else
        bindE (assignLayout nm (hd sgs) layout counter) (\<lambda>(sg, layout, counter, eid).
        bindE (assignChildren nm sts (tl sgs) layout counter) (\<lambda>((sgs, ids), layout, counter).
          Inr ((sg # sgs, eid # ids), layout, counter))))"
  by pat_completeness auto
termination
proof (relation "measure (\<lambda>x. case x of Inl (nm, sg, _) \<Rightarrow> 2 * sg_nodes sg
    | Inr (nm, sts, sgs, _) \<Rightarrow> 2 * (sum_list (map sg_nodes sgs) + length sts) + 1)", goal_cases)
  case (3 nm sts sgs layout counter x xa xb)
  then show ?case by (cases sts) (auto simp: pickStream_def)
next
  case (4 nm sts sgs layout counter)
  then show ?case by (cases sgs) (auto simp: pickStream_def)
next
  case (5 nm sts sgs layout counter x xa y xb ya xc yb)
  then show ?case using sg_nodes_pos by (cases sgs) (auto simp: pickStream_def)
qed auto

declare assignLayout.simps [simp del] assignChildren.simps [simp del]

section \<open>The balanced tree\<close>

text \<open>C30: \<open>linkBST\<close> links the entries of one storage to a search tree that holds exactly the given ids, in
  the given order, has minimal height, and changes no other entry of the layout and no child id.\<close>

theorem linkBST_balanced:
  assumes "distinct ids" "\<forall>i \<in> set ids. unat i < length lay \<and> i \<noteq> noStream" "length ids < 2 ^ h"
  shows "\<exists>lay' root. linkBST lay ids 0 (int (length ids) - 1) = Inr (lay', root) \<and> bst_of lay' h root ids \<and>
    links_only (unat ` set ids) lay lay'"
proof -
  have "seg ids 0 (int (length ids) - 1) = ids" by (simp add: seg_def slice_def)
  then show ?thesis using linkBST_ok [OF assms(1,2), of 0 "int (length ids) - 1"] assms(3) by auto
qed

theorem linkBST_balanced_witness:
  "\<exists>lay' root. linkBST (replicate 4 unlinked) [1, 2, 3] 0 2 = Inr (lay', root) \<and> bst_of lay' 2 root [1, 2, 3] \<and>
    lay' ! 0 = unlinked"
proof -
  obtain lay' root where "linkBST (replicate 4 unlinked) [1, 2, 3] 0 2 = Inr (lay', root)" "bst_of lay' 2 root [1, 2, 3]"
    "links_only (unat ` set [1, 2, 3 :: u32]) (replicate 4 unlinked) lay'"
    using linkBST_balanced [of "[1, 2, 3]" "replicate 4 unlinked" 2] by (auto simp: noStream_def)
  moreover from this(3) have "lay' ! 0 = unlinked" by (simp add: links_only_def)
  ultimately show ?thesis by blast
qed

end
