(* ===== verification/LayoutSpec.thy ===== *)
theory LayoutSpec
  imports Layout
begin

text \<open>
  What \<open>assignLayout\<close> computes. The specification is the storage tree with the children of each storage
  in one sorted list (\<open>node_of\<close>), numbered in preorder (\<open>starts\<close>), with the children of each storage in
  a balanced search tree at its child id (\<open>laid\<close>); \<open>assign_ok\<close> shows that the code lays out exactly that.
\<close>

section \<open>The tree in directory order\<close>

text \<open>
  The storage tree with the children of each storage in one list, in the order of the directory.
  This is the specification of what the merge of sorted streams and sorted storages visits.
\<close>

datatype node = StreamN nat | StorageN storageMeta "node list"

fun node_name :: "(nat \<Rightarrow> u16 list) \<Rightarrow> node \<Rightarrow> u16 list" where
  "node_name nm (StreamN sid) = nm sid"
| "node_name nm (StorageN m cs) = sg_name m"

definition cmpNode :: "(nat \<Rightarrow> u16 list) \<Rightarrow> node \<Rightarrow> node \<Rightarrow> int" where
  "cmpNode nm a b = compareNames (node_name nm a) (node_name nm b)"

fun node_of :: "(nat \<Rightarrow> u16 list) \<Rightarrow> storageW \<Rightarrow> node" where
  "node_of nm (StorageW m sgs sts) =
     StorageN m (sortFunc (cmpNode nm) (map StreamN sts @ map (node_of nm) sgs))"

fun merged :: "(nat \<Rightarrow> u16 list) \<Rightarrow> nat list \<Rightarrow> storageW list \<Rightarrow> (nat + storageW) list" where
  "merged nm [] sgs = map Inr sgs"
| "merged nm sts [] = map Inl sts"
| "merged nm (st # sts) (sg # sgs) =
     (if compareNames (nm st) (sg_name_of sg) < 0 then Inl st # merged nm sts (sg # sgs)
      else Inr sg # merged nm (st # sts) sgs)"

definition item_node :: "(nat \<Rightarrow> u16 list) \<Rightarrow> nat + storageW \<Rightarrow> node" where
  "item_node nm i = (case i of Inl sid \<Rightarrow> StreamN sid | Inr sg \<Rightarrow> node_of nm sg)"

lemma item_node_simps [simp]: "item_node nm (Inl sid) = StreamN sid" "item_node nm (Inr sg) = node_of nm sg"
  "item_node nm \<circ> Inl = StreamN" "item_node nm \<circ> Inr = node_of nm"
  by (simp_all add: item_node_def fun_eq_iff)

lemma node_name_of [simp]: "node_name nm (node_of nm' sg) = sg_name_of sg"
  by (cases sg) (simp add: sg_name_of_def)

interpretation node_order: comparator "cmpNode nm"
  unfolding cmpNode_def by (rule comparator_key [OF name_order.comparator_axioms])

lemma merged_next:
  "\<not> (sts = [] \<and> sgs = []) \<Longrightarrow> pickStream nm sts sgs \<Longrightarrow> merged nm sts sgs = Inl (hd sts) # merged nm (tl sts) sgs"
  "\<not> pickStream nm sts sgs \<Longrightarrow> merged nm sts sgs = Inr (hd sgs) # merged nm sts (tl sgs)"
  by (cases sts; cases sgs; cases "tl sts"; cases "tl sgs"; auto simp: pickStream_def)+

lemma mset_merged: "mset (map (item_node nm) (merged nm sts sgs)) = mset (map StreamN sts) + mset (map (node_of nm) sgs)"
  by (induction nm sts sgs rule: merged.induct) auto

lemma sorted_merged:
  assumes "sorted_by (\<lambda>a b. compareNames (nm a) (nm b)) sts"
    "sorted_by (\<lambda>a b. compareNames (sg_name_of a) (sg_name_of b)) sgs"
  shows "sorted_by (cmpNode nm) (map (item_node nm) (merged nm sts sgs))"
  using assms
proof (induction nm sts sgs rule: merged.induct)
  case (1 nm sgs)
  then show ?case by (simp add: sorted_by_def sorted_wrt_map cmpNode_def)
next
  case (2 nm st sts)
  then show ?case by (simp add: sorted_by_def sorted_wrt_map cmpNode_def)
next
  case (3 nm st sts sg sgs)
  have mem: "set (map (item_node nm) (merged nm sts' sgs')) = StreamN ` set sts' \<union> node_of nm ` set sgs'" for sts' sgs'
    using arg_cong [OF mset_merged [of nm sts' sgs'], of set_mset] by simp
  show ?case
  proof (cases "compareNames (nm st) (sg_name_of sg) < 0")
    case True
    then have "compareNames (nm st) (sg_name_of x) \<le> 0" if "x \<in> set sgs" for x
      using that "3.prems"(2) name_order.trans [of "nm st" "sg_name_of sg" "sg_name_of x"] by (auto simp: sorted_by_def)
    moreover have "sorted_by (cmpNode nm) (map (item_node nm) (merged nm sts (sg # sgs)))"
      using "3.IH"(1) True "3.prems" by (simp add: sorted_by_def)
    moreover have "y \<in> set (map (item_node nm) (merged nm sts (sg # sgs))) \<Longrightarrow>
        y \<in> StreamN ` set sts \<or> y = node_of nm sg \<or> y \<in> node_of nm ` set sgs" for y unfolding mem by auto
    ultimately show ?thesis
      using True "3.prems"(1) by (fastforce simp: sorted_by_def cmpNode_def)
  next
    case False
    then have le: "compareNames (sg_name_of sg) (nm st) \<le> 0" using name_order.neg_iff [of "nm st" "sg_name_of sg"] name_order.total
      by (metis linorder_not_less)
    then have "compareNames (sg_name_of sg) (nm x) \<le> 0" if "x \<in> set sts" for x
      using that "3.prems"(1) name_order.trans [of "sg_name_of sg" "nm st" "nm x"] by (auto simp: sorted_by_def)
    moreover have "sorted_by (cmpNode nm) (map (item_node nm) (merged nm (st # sts) sgs))"
      using "3.IH"(2) False "3.prems" by (simp add: sorted_by_def)
    moreover have "y \<in> set (map (item_node nm) (merged nm (st # sts) sgs)) \<Longrightarrow>
        y = StreamN st \<or> y \<in> StreamN ` set sts \<or> y \<in> node_of nm ` set sgs" for y unfolding mem by auto
    ultimately show ?thesis
      using False le "3.prems"(2) by (fastforce simp: sorted_by_def cmpNode_def)
  qed
qed

text \<open>The merge of the sorted lists is the sorted list of all children, when no two names collide.\<close>

lemma sort_keyed_map:
  "(\<And>a b. cmp (f a) (f b) = cmp' a b) \<Longrightarrow> sortFunc cmp (map f xs) = map f (sortFunc cmp' xs)"
proof (induction xs)
  case (Cons x xs)
  have "insertFunc cmp (f x) (map f ys) = map f (insertFunc cmp' x ys)" for ys
    using Cons.prems by (induction ys) auto
  then show ?case using Cons by simp
qed simp

lemma strict_if_distinct:
  assumes s: "sorted_by (cmpNode nm) xs" and d: "distinct (map (map toUpper) (map (node_name nm) xs))"
  shows "strictly_sorted_by (cmpNode nm) xs"
proof (rule node_order.sorted_strict [OF s])
  fix i j assume "i < j" "j < length xs"
  then have "map toUpper (node_name nm (xs ! i)) \<noteq> map toUpper (node_name nm (xs ! j))"
    using d by (auto simp: distinct_conv_nth)
  then show "cmpNode nm (xs ! i) (xs ! j) \<noteq> 0" by (simp add: cmpNode_def compareNames_0)
qed

lemma merged_sorted:
  assumes "distinct (map (map toUpper) (map nm sts @ map sg_name_of sgs))"
  shows "map (item_node nm) (merged nm (sortStreams nm sts) (sortStorages sgs)) =
    sortFunc (cmpNode nm) (map StreamN sts @ map (node_of nm) sgs)"
proof -
  let ?m = "map (item_node nm) (merged nm (sortStreams nm sts) (sortStorages sgs))"
  let ?s = "sortFunc (cmpNode nm) (map StreamN sts @ map (node_of nm) sgs)"
  have ms: "mset ?m = mset ?s"
    unfolding mset_merged by (simp add: sortStreams_def sortStorages_def)
  have so: "sorted_by (cmpNode nm) ?m"
    unfolding sortStreams_def sortStorages_def
    by (intro sorted_merged comparator.sorted_sortFunc comparator_key [OF name_order.comparator_axioms])
  have "mset (map (map toUpper) (map (node_name nm) ?m)) = mset (map (map toUpper) (map nm sts @ map sg_name_of sgs))"
    using arg_cong [OF ms, of "image_mset (map toUpper \<circ> node_name nm)"]
    by (simp add: image_mset.compositionality o_def)
  then have "distinct (map (map toUpper) (map (node_name nm) ?m))"
    using assms by (metis mset_eq_imp_distinct_iff)
  then have "strictly_sorted_by (cmpNode nm) ?m" using so strict_if_distinct by blast
  then show ?thesis using node_order.sorted_unique node_order.sorted_sortFunc ms by blast
qed


section \<open>What a layout says\<close>

fun cnt :: "node \<Rightarrow> nat" where
  "cnt (StreamN sid) = 1"
| "cnt (StorageN m cs) = 1 + sum_list (map cnt cs)"

text \<open>The ids of consecutive nodes numbered from \<open>n\<close> on.\<close>

fun starts :: "nat \<Rightarrow> node list \<Rightarrow> nat list" where
  "starts n [] = []"
| "starts n (c # cs) = n # starts (n + cnt c) cs"

text \<open>Node \<open>c\<close> has id \<open>n\<close>, its descendants the ids after it, and the links are theirs.\<close>

fun laid :: "layoutEntry list \<Rightarrow> nat \<Rightarrow> node \<Rightarrow> bool"
and laids :: "layoutEntry list \<Rightarrow> nat \<Rightarrow> node list \<Rightarrow> bool" where
  "laid lay n (StreamN sid) \<longleftrightarrow> le_childID (lay ! n) = noStream"
| "laid lay n (StorageN m cs) \<longleftrightarrow> laids lay (n + 1) cs \<and>
     (\<forall>h. length cs < 2 ^ h \<longrightarrow> bst_of lay h (le_childID (lay ! n)) (map word_of_nat (starts (n + 1) cs)))"
| "laids lay n [] \<longleftrightarrow> True"
| "laids lay n (c # cs) \<longleftrightarrow> laid lay n c \<and> laids lay (n + cnt c) cs"

lemma cnt_pos: "0 < cnt c"
  by (cases c) auto

lemma starts_bounds: "i \<in> set (starts n cs) \<Longrightarrow> n \<le> i \<and> i < n + sum_list (map cnt cs)"
  using cnt_pos by (induction n cs rule: starts.induct) fastforce+

lemma starts_distinct: "distinct (starts n cs)"
proof (induction n cs rule: starts.induct)
  case (2 n c cs)
  then show ?case using starts_bounds [of n "n + cnt c" cs] cnt_pos [of c] by auto
qed simp

lemma length_starts [simp]: "length (starts n cs) = length cs"
  by (induction n cs rule: starts.induct) auto

text \<open>
  A change that leaves the entries after \<open>n\<close>, and the child of \<open>n\<close>, keeps the layout of the node; a
  change of the sibling links of some nodes keeps theirs.
\<close>

definition keeps :: "layoutEntry list \<Rightarrow> layoutEntry list \<Rightarrow> nat \<Rightarrow> nat \<Rightarrow> nat set \<Rightarrow> bool" where
  "keeps lay lay' a b A \<longleftrightarrow> length lay' = length lay \<and> (\<forall>i. a \<le> i \<and> i < b \<longrightarrow>
     le_childID (lay' ! i) = le_childID (lay ! i) \<and> (i \<notin> A \<longrightarrow> lay' ! i = lay ! i))"

lemma keeps_mono: "keeps lay lay' a b A \<Longrightarrow> a \<le> a' \<Longrightarrow> b' \<le> b \<Longrightarrow> A \<inter> {a'..<b'} \<subseteq> B \<Longrightarrow> keeps lay lay' a' b' B"
  unfolding keeps_def subset_iff Int_iff atLeastLessThan_iff by (metis le_trans less_le_trans)

lemma bst_of_keeps:
  "bst_of lay h eid ids \<Longrightarrow> length lay' = length lay \<Longrightarrow> (\<forall>i \<in> set ids. lay' ! unat i = lay ! unat i) \<Longrightarrow> bst_of lay' h eid ids"
  by (induction rule: bst_of.induct) (auto intro: bst_of.intros)

lemma laid_keeps:
  "laid lay n c \<Longrightarrow> keeps lay lay' n (n + cnt c) {n} \<Longrightarrow> n + cnt c < 2 ^ 32 \<Longrightarrow> laid lay' n c"
  "laids lay n cs \<Longrightarrow> keeps lay lay' n (n + sum_list (map cnt cs)) (set (starts n cs)) \<Longrightarrow>
    n + sum_list (map cnt cs) < 2 ^ 32 \<Longrightarrow> laids lay' n cs"
proof (induction lay n c and lay n cs rule: laid_laids.induct)
  case (1 lay n sid)
  then show ?case by (simp add: keeps_def)
next
  case (2 lay n m cs)
  let ?is = "starts (n + 1) cs"
  have k: "keeps lay lay' (n + 1) (n + 1 + sum_list (map cnt cs)) {}"
    using "2.prems"(2) by (rule keeps_mono) auto
  have "lay' ! unat (word_of_nat i :: u32) = lay ! unat (word_of_nat i :: u32)" if "i \<in> set ?is" for i
    using starts_bounds [OF that] k "2.prems"(3) unat_u32 [of i] by (simp add: keeps_def)
  then have "bst_of lay' h (le_childID (lay ! n)) (map word_of_nat ?is)" if "length cs < 2 ^ h" for h
    using that "2.prems"(1) k bst_of_keeps [of lay h _ "map word_of_nat ?is" lay'] by (auto simp: keeps_def)
  moreover have "le_childID (lay' ! n) = le_childID (lay ! n)" using "2.prems"(2) by (simp add: keeps_def)
  moreover have "laids lay' (n + 1) cs"
    using "2.IH" "2.prems" keeps_mono [OF k order.refl order.refl, of "set ?is"] by (simp add: add.assoc)
  ultimately show ?case by simp
next
  case (4 lay n c cs)
  have "keeps lay lay' n (n + cnt c) {n}"
    using "4.prems"(2) by (rule keeps_mono) (auto dest: starts_bounds)
  moreover have "keeps lay lay' (n + cnt c) (n + cnt c + sum_list (map cnt cs)) (set (starts (n + cnt c) cs))"
    using "4.prems"(2) cnt_pos [of c] by (elim keeps_mono) auto
  ultimately show ?case using 4 by (simp add: add.assoc)
qed simp

section \<open>assignLayout lays out the tree\<close>

fun sg_sort :: "(nat \<Rightarrow> u16 list) \<Rightarrow> storageW \<Rightarrow> storageW" where
  "sg_sort nm (StorageW m sgs sts) = StorageW m (sortStorages (map (sg_sort nm) sgs)) (sortStreams nm sts)"

lemma sg_name_sort [simp]: "sg_name_of (sg_sort nm sg) = sg_name_of sg"
  by (cases sg) (simp add: sg_name_of_def)

lemma sortStorages_map: "sortStorages (map (sg_sort nm) sgs) = map (sg_sort nm) (sortStorages sgs)"
  unfolding sortStorages_def by (rule sort_keyed_map) simp

lemma cnt_node_of: "cnt (node_of nm sg) = sg_nodes sg"
proof (induction sg)
  case (StorageW m sgs sts)
  then have "map (cnt \<circ> node_of nm) sgs = map sg_nodes sgs" by simp
  moreover have "sum_list (map (cnt \<circ> StreamN) sts) = length sts" by (induction sts) simp_all
  ultimately show ?case by (simp add: sum_list_sortFunc del: map_eq_conv)
qed

definition others_kept :: "layoutEntry list \<Rightarrow> layoutEntry list \<Rightarrow> nat \<Rightarrow> nat \<Rightarrow> bool" where
  "others_kept lay lay' a b \<longleftrightarrow> length lay' = length lay \<and> (\<forall>i < length lay. i < a \<or> b \<le> i \<longrightarrow> lay' ! i = lay ! i)"

abbreviation children_of :: "(nat \<Rightarrow> u16 list) \<Rightarrow> nat list \<Rightarrow> storageW list \<Rightarrow> node list" where
  "children_of nm sts sgs \<equiv> map (item_node nm) (merged nm sts sgs)"

abbreviation csum :: "node list \<Rightarrow> nat" where
  "csum cs \<equiv> sum_list (map cnt cs)"

lemma unat_add_small: "unat (c :: u32) + k < 2 ^ 32 \<Longrightarrow> unat (c + word_of_nat k) = unat c + k"
  using unat_u32 [of k] by (simp add: unat_word_ariths)

lemma node_of_children:
  assumes "sg_ok nm (StorageW m sgs sts)"
  shows "node_of nm (StorageW m sgs sts) = StorageN m (children_of nm (sortStreams nm sts) (sortStorages sgs))"
proof -
  have "distinct (map (map toUpper) (map sg_name_of sgs @ map nm sts))"
    using assms by (simp add: node_ok_def upper_distinct_def child_names_def)
  then have "distinct (map (map toUpper) (map nm sts @ map sg_name_of sgs))" by auto
  then show ?thesis by (simp add: merged_sorted)
qed

text \<open>The tree that is linked over the children and hung on their storage.\<close>

lemma link_laid:
  fixes n :: nat
  assumes laids: "laids lay2 (n + 1) cs" and len: "n + 1 + csum cs \<le> length lay2" "length lay2 < 2 ^ 32"
  defines "ids \<equiv> map word_of_nat (starts (n + 1) cs) :: u32 list"
  obtains lay3 root where "linkBST lay2 ids 0 (int (length ids) - 1) = Inr (lay3, root)"
    "laid (lay3[n := (lay3 ! n)\<lparr>le_childID := root\<rparr>]) n (StorageN m cs)"
    "others_kept lay2 (lay3[n := (lay3 ! n)\<lparr>le_childID := root\<rparr>]) n (n + 1 + csum cs)"
proof -
  have small: "i < n + 1 + csum cs \<and> n + 1 \<le> i" if "i \<in> set (starts (n + 1) cs)" for i
    using starts_bounds [OF that] by simp
  have un: "unat (word_of_nat i :: u32) = i" if "i \<in> set (starts (n + 1) cs)" for i
    using small [OF that] len by (intro unat_u32) simp
  have "distinct ids"
    unfolding ids_def distinct_map using starts_distinct un by (auto intro!: inj_onI) (metis un)
  moreover have "\<forall>i \<in> set ids. unat i < length lay2 \<and> i \<noteq> noStream"
  proof
    fix i assume "i \<in> set ids"
    then obtain j where j: "j \<in> set (starts (n + 1) cs)" "i = word_of_nat j" by (auto simp: ids_def)
    then have "unat i = j" "j < length lay2" using un small len(1) by force+
    then show "unat i < length lay2 \<and> i \<noteq> noStream" using len(2) by (auto simp: noStream_def)
  qed
  ultimately obtain lay3 root where l: "linkBST lay2 ids 0 (int (length ids) - 1) = Inr (lay3, root)"
    "links_only (unat ` set (seg ids 0 (int (length ids) - 1))) lay2 lay3"
    "\<And>h. length ids < 2 ^ h \<Longrightarrow> bst_of lay3 h root (seg ids 0 (int (length ids) - 1))"
    using linkBST_ok [of ids lay2 0 "int (length ids) - 1"] by auto
  have all: "seg ids 0 (int (length ids) - 1) = ids" by (simp add: seg_def slice_def)
  define lay4 where "lay4 = lay3[n := (lay3 ! n)\<lparr>le_childID := root\<rparr>]"
  have img: "unat ` set ids = set (starts (n + 1) cs)" using un by (force simp: image_iff ids_def)
  have len3: "length lay3 = length lay2" "length lay4 = length lay2"
    using l(2) by (simp_all add: links_only_def lay4_def)
  have l3: "lay3 ! i = lay2 ! i" if "i \<notin> set (starts (n + 1) cs)" "i < length lay2" for i
    using l(2) that unfolding all img by (simp add: links_only_def)
  have c3: "le_childID (lay3 ! i) = le_childID (lay2 ! i)" if "i < length lay2" for i
    using l(2) that by (simp add: links_only_def)
  have at: "lay4 ! i = lay3 ! i" if "i \<noteq> n" for i using that by (simp add: lay4_def)
  have child: "le_childID (lay4 ! n) = root" using len len3 by (simp add: lay4_def)
  have "keeps lay2 lay4 (n + 1) (n + 1 + csum cs) (set (starts (n + 1) cs))"
    using at l3 c3 len(1) len3 by (auto simp: keeps_def)
  then have "laids lay4 (n + 1) cs" using laid_keeps(2) [OF laids] len by simp
  moreover have "bst_of lay4 h root ids" if "length cs < 2 ^ h" for h
  proof (rule bst_of_keeps)
    show "bst_of lay3 h root ids" using l(3) [of h] that unfolding all by (simp add: ids_def)
    show "\<forall>i \<in> set ids. lay4 ! unat i = lay3 ! unat i" using at un small by (force simp: ids_def)
  qed (simp add: len3)
  ultimately have "laid lay4 n (StorageN m cs)"
    unfolding laid.simps child ids_def by blast
  moreover have "others_kept lay2 lay4 n (n + 1 + csum cs)"
    unfolding others_kept_def
  proof (intro conjI allI impI)
    fix i assume i: "i < length lay2" "i < n \<or> n + 1 + csum cs \<le> i"
    then have "i \<notin> set (starts (n + 1) cs)" using small [of i] by auto
    then show "lay4 ! i = lay2 ! i" using at l3 i by auto
  qed (simp add: len3)
  ultimately show ?thesis using that l(1) by (simp add: lay4_def)
qed

text \<open>The three steps of the recursion, given what the recursive calls do.\<close>

lemma assign_node:
  assumes ok: "sg_ok nm (StorageW m sgs sts)" and len: "unat counter + sg_nodes (StorageW m sgs sts) \<le> length lay" "length lay < 2 ^ 32"
  defines "cs \<equiv> children_of nm (sortStreams nm sts) (sortStorages sgs)"
  assumes c: "assignChildren nm (sortStreams nm sts) (sortStorages sgs) (lay[unat counter := unlinked]) (counter + 1) =
      Inr ((map (sg_sort nm) (sortStorages sgs), map word_of_nat (starts (unat counter + 1) cs)), lay2, counter + 1 + word_of_nat (csum cs))"
    "others_kept (lay[unat counter := unlinked]) lay2 (unat counter + 1) (unat counter + 1 + csum cs)" "laids lay2 (unat counter + 1) cs"
  shows "\<exists>lay'. assignLayout nm (StorageW m sgs sts) lay counter =
      Inr (sg_sort nm (StorageW m sgs sts), lay', counter + word_of_nat (sg_nodes (StorageW m sgs sts)), counter) \<and>
    others_kept lay lay' (unat counter) (unat counter + sg_nodes (StorageW m sgs sts)) \<and>
    laid lay' (unat counter) (node_of nm (StorageW m sgs sts))"
proof -
  have nd: "node_of nm (StorageW m sgs sts) = StorageN m cs" unfolding cs_def using ok by (rule node_of_children)
  then have cn: "sg_nodes (StorageW m sgs sts) = 1 + csum cs"
    using cnt_node_of [of nm "StorageW m sgs sts"] by simp
  have len2: "length lay2 = length lay" using c(2) by (simp add: others_kept_def)
  have g: "\<not> length lay \<le> unat counter" using len cn by simp
  have "unat counter + 1 + csum cs \<le> length lay2" "length lay2 < 2 ^ 32" using len cn len2 by simp_all
  from link_laid [OF c(3) this] obtain lay3 root where
    l: "linkBST lay2 (map word_of_nat (starts (unat counter + 1) cs)) 0
          (int (length (map word_of_nat (starts (unat counter + 1) cs) :: u32 list)) - 1) = Inr (lay3, root)"
      "laid (lay3[unat counter := (lay3 ! unat counter)\<lparr>le_childID := root\<rparr>]) (unat counter) (StorageN m cs)"
      "others_kept lay2 (lay3[unat counter := (lay3 ! unat counter)\<lparr>le_childID := root\<rparr>]) (unat counter) (unat counter + 1 + csum cs)"
    by blast
  let ?lay4 = "lay3[unat counter := (lay3 ! unat counter)\<lparr>le_childID := root\<rparr>]"
  have "assignLayout nm (StorageW m sgs sts) lay counter =
      Inr (sg_sort nm (StorageW m sgs sts), ?lay4, counter + 1 + word_of_nat (csum cs), counter)"
    using g c(1) l(1) by (simp add: assignLayout.simps Let_def sortStorages_map)
  moreover have "others_kept lay ?lay4 (unat counter) (unat counter + sg_nodes (StorageW m sgs sts))"
    using l(3) c(2) cn by (auto simp: others_kept_def)
  moreover have "counter + 1 + word_of_nat (csum cs) = counter + word_of_nat (sg_nodes (StorageW m sgs sts))"
    unfolding cn by (simp add: ac_simps)
  ultimately show ?thesis using l(2) nd by metis
qed

text \<open>The next child is a stream, or a storage with its whole subtree.\<close>

lemma assign_pick:
  assumes pick: "\<not> (sts = [] \<and> sgs = [])" "pickStream nm sts sgs" and g: "\<not> length lay \<le> unat counter"
    and r: "assignChildren nm (tl sts) sgs (lay[unat counter := unlinked]) (counter + 1) =
        Inr ((map (sg_sort nm) sgs, map word_of_nat (starts (unat counter + 1) (children_of nm (tl sts) sgs))), lay2,
          counter + 1 + word_of_nat (csum (children_of nm (tl sts) sgs)))"
      "others_kept (lay[unat counter := unlinked]) lay2 (unat counter + 1) (unat counter + 1 + csum (children_of nm (tl sts) sgs))"
      "laids lay2 (unat counter + 1) (children_of nm (tl sts) sgs)"
  shows "\<exists>lay'. assignChildren nm sts sgs lay counter =
        Inr ((map (sg_sort nm) sgs, map word_of_nat (starts (unat counter) (children_of nm sts sgs))), lay',
          counter + word_of_nat (csum (children_of nm sts sgs))) \<and>
      others_kept lay lay' (unat counter) (unat counter + csum (children_of nm sts sgs)) \<and>
      laids lay' (unat counter) (children_of nm sts sgs)"
proof -
  let ?n = "unat counter" and ?cs' = "children_of nm (tl sts) sgs"
  have cs: "children_of nm sts sgs = StreamN (hd sts) # ?cs'" using merged_next(1) [OF pick] by simp
  have "assignChildren nm sts sgs lay counter =
      Inr ((map (sg_sort nm) sgs, counter # map word_of_nat (starts (?n + 1) ?cs')), lay2, counter + 1 + word_of_nat (csum ?cs'))"
    using pick g r(1) by (subst assignChildren.simps) (auto simp: Let_def)
  moreover have "lay2 ! ?n = unlinked" using r(2) g by (simp add: others_kept_def)
  moreover have "others_kept lay lay2 ?n (?n + csum (StreamN (hd sts) # ?cs'))" using r(2) by (auto simp: others_kept_def)
  ultimately show ?thesis unfolding cs using r(3) by (simp add: unlinked_def ac_simps)
qed

lemma assign_sub:
  assumes sub: "\<not> (sts = [] \<and> sgs = [])" "\<not> pickStream nm sts sgs"
    and len: "unat counter + csum (children_of nm sts sgs) \<le> length lay"
    and a: "assignLayout nm (hd sgs) lay counter = Inr (sg_sort nm (hd sgs), lay1, counter + word_of_nat (sg_nodes (hd sgs)), counter)"
      "others_kept lay lay1 (unat counter) (unat counter + sg_nodes (hd sgs))" "laid lay1 (unat counter) (node_of nm (hd sgs))"
    and r: "assignChildren nm sts (tl sgs) lay1 (counter + word_of_nat (sg_nodes (hd sgs))) =
        Inr ((map (sg_sort nm) (tl sgs), map word_of_nat (starts (unat counter + sg_nodes (hd sgs)) (children_of nm sts (tl sgs)))), lay2,
          counter + word_of_nat (sg_nodes (hd sgs)) + word_of_nat (csum (children_of nm sts (tl sgs))))"
      "others_kept lay1 lay2 (unat counter + sg_nodes (hd sgs)) (unat counter + sg_nodes (hd sgs) + csum (children_of nm sts (tl sgs)))"
      "laids lay2 (unat counter + sg_nodes (hd sgs)) (children_of nm sts (tl sgs))"
    and big: "length lay < 2 ^ 32"
  shows "\<exists>lay'. assignChildren nm sts sgs lay counter =
        Inr ((map (sg_sort nm) sgs, map word_of_nat (starts (unat counter) (children_of nm sts sgs))), lay',
          counter + word_of_nat (csum (children_of nm sts sgs))) \<and>
      others_kept lay lay' (unat counter) (unat counter + csum (children_of nm sts sgs)) \<and>
      laids lay' (unat counter) (children_of nm sts sgs)"
proof -
  let ?n = "unat counter" and ?sg = "hd sgs" and ?k = "sg_nodes (hd sgs)" and ?cs' = "children_of nm sts (tl sgs)"
  have "sgs \<noteq> []" using sub(2) by (auto simp: pickStream_def)
  then have sgs: "sgs = ?sg # tl sgs" by simp
  have cs: "children_of nm sts sgs = node_of nm ?sg # ?cs'" using merged_next(2) [OF sub(2)] by simp
  have sum: "csum (children_of nm sts sgs) = ?k + csum ?cs'" unfolding cs by (simp add: cnt_node_of)
  have len1: "length lay1 = length lay" using a(2) by (simp add: others_kept_def)
  have "assignChildren nm sts sgs lay counter =
      Inr ((map (sg_sort nm) sgs, counter # map word_of_nat (starts (?n + ?k) ?cs')), lay2,
        counter + word_of_nat ?k + word_of_nat (csum ?cs'))"
    using sub a(1) r(1) sgs by (subst assignChildren.simps) (simp, metis list.simps(9))
  moreover have "keeps lay1 lay2 ?n (?n + ?k) {?n}"
    using r(2) len sum len1 by (auto simp: keeps_def others_kept_def)
  then have "laid lay2 ?n (node_of nm ?sg)" using laid_keeps(1) [OF a(3)] len big sum by (simp add: cnt_node_of)
  moreover have "others_kept lay lay2 ?n (?n + csum (children_of nm sts sgs))"
    using a(2) r(2) sum len1 by (auto simp: others_kept_def)
  ultimately show ?thesis using r(3) cs sum by (simp add: cnt_node_of ac_simps)
qed

lemma assign_ok:
  "sg_ok nm sg \<Longrightarrow> unat counter + sg_nodes sg \<le> length lay \<Longrightarrow> length lay < 2 ^ 32 \<Longrightarrow>
    \<exists>lay'. assignLayout nm sg lay counter = Inr (sg_sort nm sg, lay', counter + word_of_nat (sg_nodes sg), counter) \<and>
      others_kept lay lay' (unat counter) (unat counter + sg_nodes sg) \<and>
      laid lay' (unat counter) (node_of nm sg)"
  "list_all (sg_ok nm) sgs \<Longrightarrow> unat counter + csum (children_of nm sts sgs) \<le> length lay \<Longrightarrow> length lay < 2 ^ 32 \<Longrightarrow>
    \<exists>lay'. assignChildren nm sts sgs lay counter =
        Inr ((map (sg_sort nm) sgs, map word_of_nat (starts (unat counter) (children_of nm sts sgs))), lay',
          counter + word_of_nat (csum (children_of nm sts sgs))) \<and>
      others_kept lay lay' (unat counter) (unat counter + csum (children_of nm sts sgs)) \<and>
      laids lay' (unat counter) (children_of nm sts sgs)"
proof (induction nm sg lay counter and nm sts sgs lay counter rule: assignLayout_assignChildren.induct)
  case (1 nm m sgs sts lay counter)
  let ?n = "unat counter" and ?cs = "children_of nm (sortStreams nm sts) (sortStorages sgs)"
  have nd: "node_of nm (StorageW m sgs sts) = StorageN m ?cs" using "1.prems"(1) by (rule node_of_children)
  then have cn: "sg_nodes (StorageW m sgs sts) = 1 + csum ?cs"
    using cnt_node_of [of nm "StorageW m sgs sts"] by simp
  let ?lay1 = "lay[?n := unlinked]"
  have g: "\<not> length lay \<le> ?n" using "1.prems" cn by simp
  have n1: "unat (counter + 1) = ?n + 1" using unat_add_small [of counter 1] "1.prems" cn by simp
  have "list_all (sg_ok nm) (sortStorages sgs)"
    using "1.prems"(1) by (simp add: list_all_iff sortStorages_def)
  then obtain lay2 where c: "assignChildren nm (sortStreams nm sts) (sortStorages sgs) ?lay1 (counter + 1) =
      Inr ((map (sg_sort nm) (sortStorages sgs), map word_of_nat (starts (?n + 1) ?cs)), lay2, counter + 1 + word_of_nat (csum ?cs))"
    "others_kept ?lay1 lay2 (?n + 1) (?n + 1 + csum ?cs)" "laids lay2 (?n + 1) ?cs"
    using "1.IH" [OF refl refl g refl refl refl] "1.prems" cn n1 by auto
  show ?case by (rule assign_node [OF "1.prems" c])
next
  case (2 nm sts sgs lay counter)
  let ?n = "unat counter" and ?cs = "children_of nm sts sgs"
  consider (nil) "sts = [] \<and> sgs = []" | (pick) "\<not> (sts = [] \<and> sgs = [])" "pickStream nm sts sgs"
    | (sub) "\<not> (sts = [] \<and> sgs = [])" "\<not> pickStream nm sts sgs" by blast
  then show ?case
  proof cases
    case nil
    then show ?thesis by (simp add: assignChildren.simps others_kept_def)
  next
    case pick
    let ?lay1 = "lay[?n := unlinked]" and ?cs' = "children_of nm (tl sts) sgs"
    have cs: "?cs = StreamN (hd sts) # ?cs'" using merged_next(1) [OF pick] by simp
    have g: "\<not> length lay \<le> ?n" using "2.prems"(2) cs by simp
    have n1: "unat (counter + 1) = ?n + 1" using unat_add_small [of counter 1] "2.prems"(2,3) cs by simp
    obtain lay2 where "assignChildren nm (tl sts) sgs ?lay1 (counter + 1) =
        Inr ((map (sg_sort nm) sgs, map word_of_nat (starts (?n + 1) ?cs')), lay2, counter + 1 + word_of_nat (csum ?cs'))"
      "others_kept ?lay1 lay2 (?n + 1) (?n + 1 + csum ?cs')" "laids lay2 (?n + 1) ?cs'"
      using "2.IH"(1) [OF pick refl refl g refl] "2.prems" cs n1 by auto
    then show ?thesis by (rule assign_pick [OF pick g])
  next
    case sub
    let ?sg = "hd sgs" and ?k = "sg_nodes (hd sgs)" and ?cs' = "children_of nm sts (tl sgs)"
    have ne: "sgs \<noteq> []" using sub(2) by (auto simp: pickStream_def)
    have sum: "csum ?cs = ?k + csum ?cs'" using merged_next(2) [OF sub(2)] by (simp add: cnt_node_of)
    have ok: "sg_ok nm ?sg" "list_all (sg_ok nm) (tl sgs)" using "2.prems"(1) ne by (cases sgs; simp)+
    obtain lay1 where a: "assignLayout nm ?sg lay counter = Inr (sg_sort nm ?sg, lay1, counter + word_of_nat ?k, counter)"
      "others_kept lay lay1 ?n (?n + ?k)" "laid lay1 ?n (node_of nm ?sg)"
      using "2.IH"(2) [OF sub ok(1)] "2.prems" sum by auto
    have n1: "unat (counter + word_of_nat ?k) = ?n + ?k" using unat_add_small [of counter ?k] "2.prems"(2,3) sum by simp
    have len1: "length lay1 = length lay" using a(2) by (simp add: others_kept_def)
    obtain lay2 where "assignChildren nm sts (tl sgs) lay1 (counter + word_of_nat ?k) =
        Inr ((map (sg_sort nm) (tl sgs), map word_of_nat (starts (?n + ?k) ?cs')), lay2,
          counter + word_of_nat ?k + word_of_nat (csum ?cs'))"
      "others_kept lay1 lay2 (?n + ?k) (?n + ?k + csum ?cs')" "laids lay2 (?n + ?k) ?cs'"
      using "2.IH"(3) [OF sub a(1) refl refl refl ok(2)] "2.prems" sum n1 len1 by auto
    then show ?thesis using "2.prems"(2,3) by (intro assign_sub [OF sub _ a])
  qed
qed

end
