(* ===== verification/ChainTable.thy ===== *)
theory ChainTable
  imports Chains
begin

text \<open>
  \<open>writeChainTable\<close> of writer.go: the sectors of a FAT or mini-FAT, computed from the runs of all
  chains. A sector buffer is kept as its 32-bit words; the cursor into the sorted runs is the list
  of the runs from it on. The specification of a table is \<open>table_cell\<close>: the cell of the run that
  covers an index, \<open>freeSect\<close> where no run does.
\<close>

record fatRun =
  fr_first :: u32
  fr_count :: u32
  fr_terminal :: u32
  fr_linear :: bool

definition cmpCompare :: "u32 \<Rightarrow> u32 \<Rightarrow> int" where
  "cmpCompare a b = (if a < b then -1 else if b < a then 1 else 0)"

interpretation run_order: comparator "\<lambda>a b. cmpCompare (fr_first a) (fr_first b)"
  by unfold_locales (auto simp: cmpCompare_def split: if_splits)

definition fr_cell :: "fatRun \<Rightarrow> u32 \<Rightarrow> u32" where
  "fr_cell r i = (if fr_linear r \<and> i \<noteq> fr_first r + fr_count r - 1 then i + 1 else fr_terminal r)"

text \<open>The innermost loop, \<open>for i := lo; i < hi; i++\<close>.\<close>

definition fillRun :: "u32 \<Rightarrow> u32 \<Rightarrow> u32 list \<Rightarrow> fatRun \<Rightarrow> u32 list" where
  "fillRun base lim sect r =
     (let lo = max base (fr_first r); hi = min lim (fr_first r + fr_count r)
      in foldl (\<lambda>sect i. sect[unat (word_of_nat i - base) := fr_cell r (word_of_nat i)])
           sect [unat lo ..< unat hi])"

fun chainTable_loop :: "nat \<Rightarrow> nat list \<Rightarrow> fatRun list \<Rightarrow> u32 list list" where
  "chainTable_loop perWord [] rest = []"
| "chainTable_loop perWord (k # ks) rest =
     (let base = word_of_nat k * word_of_nat perWord;
          lim = base + word_of_nat perWord;
          rest = dropWhile (\<lambda>r. fr_first r + fr_count r \<le> base) rest;
          sect = foldl (fillRun base lim) (replicate perWord freeSect)
                   (takeWhile (\<lambda>r. fr_first r < lim) rest)
      in sect # chainTable_loop perWord ks rest)"

definition chainTable :: "nat \<Rightarrow> nat \<Rightarrow> fatRun list \<Rightarrow> u32 list list" where
  "chainTable secSize numSectors runs =
     chainTable_loop (secSize div 4) [0..<numSectors]
       (sortFunc (\<lambda>a b. cmpCompare (fr_first a) (fr_first b)) runs)"

section \<open>Specification\<close>

definition run_end :: "fatRun \<Rightarrow> nat" where
  "run_end r = unat (fr_first r) + unat (fr_count r)"

definition in_run :: "nat \<Rightarrow> fatRun \<Rightarrow> bool" where
  "in_run i r \<longleftrightarrow> unat (fr_first r) \<le> i \<and> i < run_end r"

definition table_cell :: "fatRun list \<Rightarrow> nat \<Rightarrow> u32" where
  "table_cell runs i = (case find (in_run i) runs of
     Some r \<Rightarrow> fr_cell r (word_of_nat i) | None \<Rightarrow> freeSect)"

definition wf_runs :: "nat \<Rightarrow> fatRun list \<Rightarrow> bool" where
  "wf_runs N runs \<longleftrightarrow> (\<forall>r \<in> set runs. run_end r \<le> N) \<and>
     (\<forall>r \<in> set runs. \<forall>s \<in> set runs. r \<noteq> s \<longrightarrow> run_end r \<le> unat (fr_first s) \<or> run_end s \<le> unat (fr_first r)
       \<or> fr_count r = 0 \<or> fr_count s = 0)"

lemma in_run_unique:
  "wf_runs N runs \<Longrightarrow> r \<in> set runs \<Longrightarrow> s \<in> set runs \<Longrightarrow> in_run i r \<Longrightarrow> in_run i s \<Longrightarrow> r = s"
  by (fastforce simp: wf_runs_def in_run_def run_end_def)

lemma table_cell_in:
  assumes "wf_runs N runs" "r \<in> set runs" "in_run i r"
  shows "table_cell runs i = fr_cell r (word_of_nat i)"
proof (cases "find (in_run i) runs")
  case None
  then show ?thesis using assms by (simp add: find_None_iff)
next
  case (Some s)
  then have "s \<in> set runs" "in_run i s" by (auto simp: find_Some_iff)
  then have "s = r" using in_run_unique [OF assms(1)] assms(2,3) by blast
  then show ?thesis using Some by (simp add: table_cell_def)
qed

lemma table_cell_out: "(\<forall>r \<in> set runs. \<not> in_run i r) \<Longrightarrow> table_cell runs i = freeSect"
  using find_None_iff [of "in_run i" runs] by (simp add: table_cell_def)

section \<open>One run in one sector\<close>

lemma length_foldl_update [simp]: "length (foldl (\<lambda>xs i. xs[f i := g i]) xs ns) = length xs"
  by (induction ns arbitrary: xs) auto

lemma nth_foldl_update:
  assumes "\<And>i. i \<in> set ns \<Longrightarrow> f i = i - b" "\<And>i. i \<in> set ns \<Longrightarrow> b \<le> i" "j < length xs"
  shows "foldl (\<lambda>xs i. xs[f i := g i]) xs ns ! j = (if b + j \<in> set ns then g (b + j) else xs ! j)"
  using assms
proof (induction ns arbitrary: xs)
  case Nil
  then show ?case by simp
next
  case (Cons i ns)
  have fi: "f i = i - b" "b \<le> i" using Cons.prems by auto
  have IH: "foldl (\<lambda>xs i. xs[f i := g i]) (xs[f i := g i]) ns ! j =
      (if b + j \<in> set ns then g (b + j) else xs[f i := g i] ! j)"
    using Cons.prems by (intro Cons.IH) auto
  show ?case
  proof (cases "i = b + j")
    case True
    then show ?thesis using IH fi Cons.prems(3) by simp
  next
    case False
    then have "f i \<noteq> j" using fi by simp
    then show ?thesis using IH False by simp
  qed
qed

lemma length_fillRun [simp]: "length (fillRun base lim sect r) = length sect"
  by (simp add: fillRun_def Let_def)

lemma nth_fillRun:
  assumes "unat base + length sect = unat lim" "run_end r < 2 ^ 32" "j < length sect"
  shows "fillRun base lim sect r ! j =
    (if in_run (unat base + j) r then fr_cell r (word_of_nat (unat base + j)) else sect ! j)"
proof -
  let ?lo = "max base (fr_first r)" and ?hi = "min lim (fr_first r + fr_count r)"
  have fin: "unat (fr_first r + fr_count r) = run_end r"
    using assms(2) by (simp add: run_end_def unat_word_ariths)
  have lo: "unat ?lo = max (unat base) (unat (fr_first r))"
    by (simp add: max_def word_le_nat_alt)
  have hi: "unat ?hi = min (unat lim) (run_end r)"
    by (simp add: min_def word_le_nat_alt fin)
  have sub: "unat (word_of_nat i - base) = i - unat base" "unat base \<le> i"
    if "i \<in> set [unat ?lo ..< unat ?hi]" for i
  proof -
    have i: "unat base \<le> i" "i < 2 ^ 32"
      using that assms(2) lo hi by auto
    then have "unat (word_of_nat i :: u32) = i"
      by (simp add: unsigned_of_nat take_bit_nat_eq_self_iff)
    then show "unat (word_of_nat i - base) = i - unat base" "unat base \<le> i"
      using i by (simp_all add: unat_sub word_le_nat_alt)
  qed
  have "fillRun base lim sect r ! j =
      (if unat base + j \<in> set [unat ?lo ..< unat ?hi] then fr_cell r (word_of_nat (unat base + j)) else sect ! j)"
    unfolding fillRun_def Let_def using sub assms(3) by (intro nth_foldl_update) auto
  moreover have "unat base + j \<in> set [unat ?lo ..< unat ?hi] \<longleftrightarrow> in_run (unat base + j) r"
    using assms(1,3) lo hi by (auto simp: in_run_def)
  ultimately show ?thesis by simp
qed

lemma length_fillRuns [simp]: "length (foldl (fillRun base lim) sect rs) = length sect"
  by (induction rs arbitrary: sect) auto

lemma nth_fillRuns:
  assumes "unat base + length sect = unat lim" "j < length sect"
    and "\<forall>r \<in> set rs. run_end r < 2 ^ 32"
    and "\<And>r s. r \<in> set rs \<Longrightarrow> s \<in> set rs \<Longrightarrow> in_run (unat base + j) r \<Longrightarrow> in_run (unat base + j) s \<Longrightarrow> r = s"
  shows "foldl (fillRun base lim) sect rs ! j =
    (case find (in_run (unat base + j)) rs of
       Some r \<Rightarrow> fr_cell r (word_of_nat (unat base + j)) | None \<Rightarrow> sect ! j)"
  using assms
proof (induction rs arbitrary: sect)
  case Nil
  then show ?case by simp
next
  case (Cons r rs)
  have IH: "foldl (fillRun base lim) (fillRun base lim sect r) rs ! j =
    (case find (in_run (unat base + j)) rs of
       Some r \<Rightarrow> fr_cell r (word_of_nat (unat base + j)) | None \<Rightarrow> fillRun base lim sect r ! j)"
    using Cons.prems by (intro Cons.IH) auto
  have fill: "fillRun base lim sect r ! j =
    (if in_run (unat base + j) r then fr_cell r (word_of_nat (unat base + j)) else sect ! j)"
    using Cons.prems by (intro nth_fillRun) auto
  show ?case
  proof (cases "in_run (unat base + j) r")
    case True
    then have "find (in_run (unat base + j)) rs \<in> {None, Some r}"
      using Cons.prems(4) [of r] by (cases "find (in_run (unat base + j)) rs") (auto simp: find_Some_iff)
    then show ?thesis using IH fill True by auto
  next
    case False
    then show ?thesis using IH fill by (simp split: option.splits)
  qed
qed

section \<open>The whole table\<close>

lemma takeWhile_sorted:
  assumes "sorted_wrt R xs" "x \<in> set xs" "P x" "\<And>y. R y x \<Longrightarrow> P y"
  shows "x \<in> set (takeWhile P xs)"
  using assms by (induction xs) auto

lemma dropWhile_keeps: "x \<in> set xs \<Longrightarrow> \<not> P x \<Longrightarrow> x \<in> set (dropWhile P xs)"
  by (induction xs) auto

lemma set_dropWhile_subset: "set (dropWhile P xs) \<subseteq> set xs"
  by (induction xs) auto

lemma set_visited_subset: "set (takeWhile Q (dropWhile P xs)) \<subseteq> set xs"
  using set_dropWhile_subset [of P xs] by (auto dest!: set_takeWhileD)

lemma dropWhile_dropped: "x \<in> set xs \<Longrightarrow> x \<notin> set (dropWhile P xs) \<Longrightarrow> P x"
  using dropWhile_keeps [of x xs P] by auto

lemma sorted_dropWhile: "sorted_wrt R xs \<Longrightarrow> sorted_wrt R (dropWhile P xs)"
  by (induction xs) auto

definition first_le :: "fatRun \<Rightarrow> fatRun \<Rightarrow> bool" where
  "first_le a b \<longleftrightarrow> fr_first a \<le> fr_first b"

lemma run_end_word: "run_end r < 2 ^ 32 \<Longrightarrow> unat (fr_first r + fr_count r) = run_end r"
  by (simp add: run_end_def unat_word_ariths)

lemma wf_runs_end: "wf_runs N runs \<Longrightarrow> r \<in> set runs \<Longrightarrow> run_end r \<le> N"
  by (simp add: wf_runs_def)

text \<open>The runs the inner loop visits are those that matter for this sector.\<close>

lemma visited_runs:
  assumes wf: "wf_runs N runs" and N: "N < 2 ^ 32"
    and rest: "set rest \<subseteq> set runs" "sorted_wrt first_le rest"
    and base: "\<forall>r \<in> set runs - set rest. run_end r \<le> unat base"
    and i: "unat base \<le> i" "i < unat lim"
  defines "vis \<equiv> takeWhile (\<lambda>r. fr_first r < lim) (dropWhile (\<lambda>r. fr_first r + fr_count r \<le> base) rest)"
  shows "(case find (in_run i) vis of Some r \<Rightarrow> fr_cell r (word_of_nat i) | None \<Rightarrow> freeSect)
    = table_cell runs i"
proof -
  let ?P = "\<lambda>r. fr_first r + fr_count r \<le> base"
  have sub: "set vis \<subseteq> set runs"
    using rest(1) set_visited_subset unfolding vis_def by (rule order_trans [rotated])
  have ends: "unat (fr_first r + fr_count r) = run_end r" if "r \<in> set runs" for r
    using wf_runs_end [OF wf that] N by (intro run_end_word) linarith
  have mem: "r \<in> set vis" if r: "r \<in> set runs" "in_run i r" for r
  proof -
    have "\<not> run_end r \<le> unat base" using r(2) i(1) by (simp add: in_run_def)
    then have "r \<in> set rest" and "\<not> ?P r"
      using base r(1) ends [OF r(1)] by (auto simp: word_le_nat_alt)
    then have "r \<in> set (dropWhile ?P rest)" by (rule dropWhile_keeps)
    moreover have lt: "fr_first r < lim" using r(2) i(2) by (simp add: in_run_def word_less_nat_alt)
    ultimately show ?thesis
      unfolding vis_def
      by (rule takeWhile_sorted [OF sorted_dropWhile [OF rest(2)]])
        (use lt in \<open>auto simp: first_le_def intro: le_less_trans\<close>)
  qed
  show ?thesis
  proof (cases "find (in_run i) vis")
    case None
    then have "\<forall>r \<in> set vis. \<not> in_run i r" by (simp add: find_None_iff)
    then have "\<forall>r \<in> set runs. \<not> in_run i r" using mem by blast
    then show ?thesis using None by (simp add: table_cell_out)
  next
    case (Some r)
    then have "r \<in> set vis" "in_run i r" by (auto simp: find_Some_iff)
    then have "table_cell runs i = fr_cell r (word_of_nat i)"
      using sub by (intro table_cell_in [OF wf]) blast+
    then show ?thesis using Some by simp
  qed
qed

text \<open>The entries of one sector of the table, from the runs that \<open>dropWhile\<close> has left.\<close>

lemma sector_cells:
  assumes wf: "wf_runs N runs" "N < 2 ^ 32" and vis: "set (takeWhile (\<lambda>r. fr_first r < lim) rest) \<subseteq> set runs"
    and lim: "unat lim = unat base + perWord"
    and found: "\<And>j. j < perWord \<Longrightarrow> (case find (in_run (unat base + j)) (takeWhile (\<lambda>r. fr_first r < lim) rest) of
        Some r \<Rightarrow> fr_cell r (word_of_nat (unat base + j)) | None \<Rightarrow> freeSect) = table_cell runs (unat base + j)"
  shows "foldl (fillRun base lim) (replicate perWord freeSect) (takeWhile (\<lambda>r. fr_first r < lim) rest) =
    map (table_cell runs) [unat base ..< unat base + perWord]" (is "?sect = _")
proof (rule nth_equalityI)
  let ?vis = "takeWhile (\<lambda>r. fr_first r < lim) rest"
  fix j assume "j < length ?sect"
  then have j: "j < perWord" by simp
  have "?sect ! j = (case find (in_run (unat base + j)) ?vis of
      Some r \<Rightarrow> fr_cell r (word_of_nat (unat base + j)) | None \<Rightarrow> freeSect)"
  proof (subst nth_fillRuns)
    show "\<forall>r \<in> set ?vis. run_end r < 2 ^ 32"
      using vis wf_runs_end [OF wf(1)] wf(2) by (meson le_less_trans subset_iff)
    show "r = s" if "r \<in> set ?vis" "s \<in> set ?vis" "in_run (unat base + j) r" "in_run (unat base + j) s" for r s
      using that vis in_run_unique [OF wf(1)] by blast
  qed (use j lim in \<open>auto split: option.splits\<close>)
  then show "?sect ! j = map (table_cell runs) [unat base ..< unat base + perWord] ! j"
    using found [OF j] j by simp
qed simp

lemma chainTable_loop_eq:
  assumes wf: "wf_runs N runs" and N: "n * perWord < 2 ^ 32" "N < 2 ^ 32"
  shows "k \<le> n \<Longrightarrow> set rest \<subseteq> set runs \<Longrightarrow> sorted_wrt first_le rest \<Longrightarrow>
    \<forall>r \<in> set runs - set rest. run_end r \<le> k * perWord \<Longrightarrow>
    chainTable_loop perWord [k..<n] rest =
      map (\<lambda>k. map (table_cell runs) [k * perWord ..< k * perWord + perWord]) [k..<n]"
proof (induction "n - k" arbitrary: k rest)
  case 0
  then show ?case by simp
next
  case (Suc m)
  then have k: "k < n" by simp
  define base :: u32 where "base = word_of_nat k * word_of_nat perWord"
  define lim where "lim = base + word_of_nat perWord"
  define rest' where "rest' = dropWhile (\<lambda>r. fr_first r + fr_count r \<le> base) rest"
  have "Suc k * perWord \<le> n * perWord" using k by (intro mult_le_mono1) simp
  then have le: "k * perWord + perWord < 2 ^ 32" using N(1) by simp
  have "base = word_of_nat (k * perWord)" "lim = word_of_nat (k * perWord + perWord)"
    by (simp_all add: base_def lim_def)
  then have base: "unat base = k * perWord" and lim: "unat lim = k * perWord + perWord"
    using le by (simp_all only: unsigned_of_nat) (simp_all add: take_bit_nat_eq_self_iff)
  have dropped: "run_end r \<le> k * perWord" if "r \<in> set runs - set rest'" for r
  proof (cases "r \<in> set rest")
    case True
    then have "fr_first r + fr_count r \<le> base"
      using that by (auto simp: rest'_def dest: dropWhile_dropped)
    moreover have "run_end r < 2 ^ 32" using that wf_runs_end [OF wf, of r] N by simp
    ultimately show ?thesis using base run_end_word [of r] by (simp add: word_le_nat_alt)
  next
    case False
    then show ?thesis using that Suc.prems(4) by auto
  qed
  let ?vis = "takeWhile (\<lambda>r. fr_first r < lim) rest'"
  let ?sect = "foldl (fillRun base lim) (replicate perWord freeSect) ?vis"
  have vis: "set ?vis \<subseteq> set runs"
    using Suc.prems(2) set_visited_subset unfolding rest'_def by (rule order_trans [rotated])
  have "?sect = map (table_cell runs) [unat base ..< unat base + perWord]"
  proof (rule sector_cells [OF wf N(2) vis])
    show "unat lim = unat base + perWord" using base lim by simp
    fix j assume j: "j < perWord"
    show "(case find (in_run (unat base + j)) ?vis of
        Some r \<Rightarrow> fr_cell r (word_of_nat (unat base + j)) | None \<Rightarrow> freeSect) = table_cell runs (unat base + j)"
      unfolding rest'_def using Suc.prems j base lim wf N(2) by (intro visited_runs) auto
  qed
  then have "?sect = map (table_cell runs) [k * perWord ..< k * perWord + perWord]" by (simp only: base)
  moreover have "chainTable_loop perWord [Suc k..<n] rest' =
      map (\<lambda>k. map (table_cell runs) [k * perWord ..< k * perWord + perWord]) [Suc k..<n]"
  proof (rule Suc.hyps(1))
    show "m = n - Suc k" "Suc k \<le> n" using Suc.hyps(2) k by auto
    show "set rest' \<subseteq> set runs"
      using Suc.prems(2) set_dropWhile_subset unfolding rest'_def by (rule order_trans [rotated])
    show "sorted_wrt first_le rest'" using Suc.prems(3) by (simp add: rest'_def sorted_dropWhile)
    show "\<forall>r \<in> set runs - set rest'. run_end r \<le> Suc k * perWord"
      using dropped by (metis add_leD2 mult_Suc trans_le_add2)
  qed
  moreover have "[k..<n] = k # [Suc k..<n]" using k by (rule upt_conv_Cons)
  ultimately show ?case
    by (simp add: Let_def base_def [symmetric] lim_def [symmetric] rest'_def [symmetric])
qed

lemma sorted_first_le:
  "sorted_wrt first_le (sortFunc (\<lambda>a b. cmpCompare (fr_first a) (fr_first b)) runs)"
proof -
  have "sorted_wrt (\<lambda>a b. cmpCompare (fr_first a) (fr_first b) \<le> 0)
      (sortFunc (\<lambda>a b. cmpCompare (fr_first a) (fr_first b)) runs)"
    using run_order.sorted_sortFunc [of runs] by (simp add: sorted_by_def)
  then show ?thesis
    by (rule sorted_wrt_mono_rel [rotated]) (simp add: first_le_def cmpCompare_def split: if_splits)
qed

lemma concat_upt_blocks: "concat (map (\<lambda>k. map f [k * w ..< k * w + w]) [0..<n]) = map f [0..<n * w]"
proof (induction n)
  case (Suc n)
  have "[0..<Suc n * w] = [0..<n * w] @ [n * w..<n * w + w]"
    using upt_add_eq_append [of 0 "n * w" w] by (simp add: add.commute)
  then show ?case using Suc by simp
qed simp

lemma chainTable_eq:
  assumes "wf_runs N runs" "n * (secSize div 4) < 2 ^ 32" "N < 2 ^ 32"
  shows "chainTable secSize n runs =
    map (\<lambda>k. map (table_cell runs) [k * (secSize div 4) ..< k * (secSize div 4) + secSize div 4]) [0..<n]"
  unfolding chainTable_def
  by (rule chainTable_loop_eq [OF assms(1,2,3)]) (auto simp: sorted_first_le)

lemma concat_chainTable:
  assumes "wf_runs N runs" "n * (secSize div 4) < 2 ^ 32" "N < 2 ^ 32"
  shows "concat (chainTable secSize n runs) = map (table_cell runs) [0..<n * (secSize div 4)]"
  by (simp only: chainTable_eq [OF assms] concat_upt_blocks)

section \<open>Chains read back from the table\<close>

definition run_sectors :: "fatRun \<Rightarrow> u32 list" where
  "run_sectors r = map word_of_nat [unat (fr_first r) ..< run_end r]"

text \<open>The runs of one chain, in order: each ends in the first sector of the next.\<close>

fun linked :: "fatRun list \<Rightarrow> bool" where
  "linked [] = False"
| "linked [r] = (fr_linear r \<and> fr_count r \<noteq> 0 \<and> fr_terminal r = endOfChain)"
| "linked (r # s # rs) =
     (fr_linear r \<and> fr_count r \<noteq> 0 \<and> fr_terminal r = fr_first s \<and> linked (s # rs))"

lemma chain_path_run:
  assumes wf: "wf_runs N runs" and r: "r \<in> set runs" "fr_linear r"
    and N: "N \<le> unat maxRegSect + 1" "N \<le> M"
    and path: "chain_path (map (table_cell runs) [0..<M]) (fr_terminal r) path"
    and j: "unat (fr_first r) \<le> j" "j < run_end r"
  shows "chain_path (map (table_cell runs) [0..<M]) (word_of_nat j)
      (map word_of_nat [j..<run_end r] @ path)"
  using j
proof (induction "run_end r - j" arbitrary: j)
  case 0
  then show ?case by simp
next
  case (Suc n)
  let ?fat = "map (table_cell runs) [0..<M]"
  have e: "run_end r \<le> N" using wf r(1) by (rule wf_runs_end)
  have small: "N \<le> 2 ^ 32 - 5" using N(1) by (simp add: sect_defs)
  then have jw: "unat (word_of_nat j :: u32) = j"
    using Suc.prems(2) e by (simp add: unsigned_of_nat take_bit_nat_eq_self_iff)
  have reg: "word_of_nat j \<le> maxRegSect" "unat (word_of_nat j :: u32) < length ?fat"
    using jw Suc.prems(2) e N by (simp_all add: word_le_nat_alt)
  have lastw: "fr_first r + fr_count r - 1 = word_of_nat (run_end r - 1)"
    using Suc.prems(2) by (simp add: run_end_def of_nat_diff)
  have cell: "?fat ! unat (word_of_nat j :: u32) = fr_cell r (word_of_nat j)"
    using jw reg(2) table_cell_in [OF wf r(1), of j] Suc.prems by (simp add: in_run_def)
  have hd: "[j..<run_end r] = j # [Suc j..<run_end r]" using Suc.prems(2) by (rule upt_conv_Cons)
  show ?case
  proof (cases "Suc j = run_end r")
    case True
    then have "fr_cell r (word_of_nat j) = fr_terminal r"
      using lastw by (simp add: fr_cell_def flip: True)
    then show ?thesis
      using path cell reg hd True by (auto intro: chain_path.chain_step)
  next
    case False
    have "unat (word_of_nat (run_end r - 1) :: u32) = run_end r - 1"
      using e small by (simp add: unsigned_of_nat take_bit_nat_eq_self_iff)
    then have "word_of_nat j \<noteq> fr_first r + fr_count r - 1"
      using lastw jw False Suc.prems(2) by (metis Suc_diff_1 gr_implies_not_zero not_gr_zero)
    then have "fr_cell r (word_of_nat j) = word_of_nat (Suc j)"
      using r(2) by (simp add: fr_cell_def add.commute)
    moreover have "chain_path ?fat (word_of_nat (Suc j)) (map word_of_nat [Suc j..<run_end r] @ path)"
      using Suc False by (intro Suc.hyps(1)) auto
    ultimately show ?thesis
      using cell reg hd by (auto intro: chain_path.chain_step)
  qed
qed

lemma chain_path_linked:
  assumes wf: "wf_runs N runs" and N: "N \<le> unat maxRegSect + 1" "N \<le> M"
  shows "linked rs \<Longrightarrow> set rs \<subseteq> set runs \<Longrightarrow>
    chain_path (map (table_cell runs) [0..<M]) (fr_first (hd rs)) (concat (map run_sectors rs))"
proof (induction rs rule: linked.induct)
  case 1
  then show ?case by simp
next
  case (2 r)
  then have "unat (fr_first r) < run_end r" by (simp add: run_end_def unat_gt_0)
  then show ?case
    using 2 chain_path_run [OF wf _ _ N, of r "[]" "unat (fr_first r)"]
    by (simp add: run_sectors_def chain_path.chain_end)
next
  case (3 r s rs)
  then have "unat (fr_first r) < run_end r" by (simp add: run_end_def unat_gt_0)
  then show ?case
    using 3 chain_path_run [OF wf _ _ N, of r "concat (map run_sectors (s # rs))" "unat (fr_first r)"]
    by (simp add: run_sectors_def [of r])
qed

lemma length_run_sectors: "length (run_sectors r) = unat (fr_count r)"
  by (simp add: run_sectors_def run_end_def)

section \<open>Claims\<close>

text \<open>The FAT or mini-FAT the serializer writes has, at every index, the cell of the run that covers
  it (the next sector, or the terminal value of the run) and \<open>freeSect\<close> where none does; sorting
  the runs, the moving cursor and the cut into sectors do not change that.\<close>

theorem chainTable_cells:
  assumes "wf_runs N runs" "n * (secSize div 4) < 2 ^ 32" "N < 2 ^ 32"
  shows "concat (chainTable secSize n runs) = map (table_cell runs) [0..<n * (secSize div 4)]"
  by (rule concat_chainTable [OF assms])

definition sample_runs :: "fatRun list" where
  "sample_runs =
     [\<lparr>fr_first = 5, fr_count = 2, fr_terminal = endOfChain, fr_linear = True\<rparr>,
      \<lparr>fr_first = 0, fr_count = 3, fr_terminal = 5, fr_linear = True\<rparr>,
      \<lparr>fr_first = 3, fr_count = 1, fr_terminal = fatSect, fr_linear = False\<rparr>]"

theorem chainTable_cells_witness:
  "concat (chainTable 32 1 sample_runs) = [1, 2, 5, fatSect, freeSect, 6, endOfChain, freeSect]"
proof -
  have "wf_runs 8 sample_runs" by (auto simp: wf_runs_def sample_runs_def run_end_def)
  from chainTable_cells [OF this, of 1 32]
  have "concat (chainTable 32 1 sample_runs) = map (table_cell sample_runs) [0..<8]" by simp
  also have "\<dots> = [1, 2, 5, fatSect, freeSect, 6, endOfChain, freeSect]"
    by (simp add: upt_rec table_cell_def sample_runs_def in_run_def run_end_def fr_cell_def)
  finally show ?thesis .
qed

text \<open>C10: What the writer links the reader follows: walking the written table from the first sector of
  a chain of runs gives back exactly the sectors of its runs, in order.\<close>

theorem written_chain_read_back:
  assumes "wf_runs N runs" "N \<le> unat maxRegSect + 1" "N \<le> n * (secSize div 4)" "n * (secSize div 4) < 2 ^ 32"
    and "linked rs" "set rs \<subseteq> set runs"
  shows "walkChain (concat (chainTable secSize n runs)) (fr_first (hd rs)) (length (concat (map run_sectors rs))) =
    Inr (concat (map run_sectors rs))"
proof -
  have "N < 2 ^ 32" using assms(3,4) by simp
  from concat_chainTable [OF assms(1,4) this] chain_path_linked [OF assms(1-3,5,6)]
  show ?thesis by (simp add: walkChain_iff)
qed

theorem written_chain_read_back_witness:
  "walkChain (concat (chainTable 32 1 sample_runs)) 0 5 = Inr [0, 1, 2, 5, 6]"
proof -
  have wf: "wf_runs 8 sample_runs" by (auto simp: wf_runs_def sample_runs_def run_end_def)
  let ?rs = "[sample_runs ! 1, sample_runs ! 0]"
  have "linked ?rs" "set ?rs \<subseteq> set sample_runs" by (simp_all add: sample_runs_def)
  note rb = written_chain_read_back [OF wf _ _ _ this, of 1 32]
  have secs: "concat (map run_sectors ?rs) = [0, 1, 2, 5, 6]" "fr_first (hd ?rs) = 0"
    by (simp_all add: sample_runs_def run_sectors_def run_end_def upt_rec)
  have five: "length [0, 1, 2, 5, 6 :: u32] = 5" by simp
  show ?thesis using rb unfolding secs five by (simp add: maxRegSect_def)
qed

end
