(* ===== verification/Serializer.thy ===== *)
theory Serializer
  imports LayoutSpec ChainTable Header Direntry
begin

text \<open>
  \<open>Writer.Close\<close> and the serializer of writer.go: \<open>init\<close>, \<open>emitDirectory\<close>, \<open>emitFAT\<close>, \<open>emitDIFAT\<close> and
  \<open>patchHeader\<close>, in the order \<open>Close\<close> runs them. The fields of \<open>serializer\<close> that \<open>init\<close> sets are the
  record below, those that later phases set are the record \<open>regions\<close> of theory \<open>Header\<close>.

  The underlying writers are the parameter \<open>device\<close>: the buffered writer as the \<open>sink\<close> of theory
  \<open>Writer\<close>, its \<open>Flush\<close>, and \<open>Seek\<close> and \<open>Write\<close> of the raw writer for the header. A successful \<open>Close\<close>
  gives the file it has made: the header sector and what the sink has accepted. What a failed one
  leaves behind is not described; the writer is closed then, too.
\<close>

record device =
  dv_bw :: sink
  dv_flush :: "bytes \<Rightarrow> goerr option"
  dv_seek :: "goerr option"
  dv_raw :: "bytes \<Rightarrow> goerr option"

record serializer =
  sz_miniStart :: u32
  sz_miniSize :: nat
  sz_layout :: "layoutEntry list"

text \<open>A write to \<open>w.cw\<close> whose error is returned.\<close>

definition cw_put :: "sink \<Rightarrow> bytes \<Rightarrow> countWriter \<Rightarrow> goerr + countWriter" where
  "cw_put wr b cw = (let (cw, err) = cw_write wr cw b in case err of Some e \<Rightarrow> Inl e | None \<Rightarrow> Inr cw)"

fun cw_puts :: "sink \<Rightarrow> bytes list \<Rightarrow> countWriter \<Rightarrow> goerr + countWriter" where
  "cw_puts wr [] cw = Inr cw"
| "cw_puts wr (b # bs) cw = bindE (cw_put wr b cw) (cw_puts wr bs)"

section \<open>init\<close>

definition serInit :: "sink \<Rightarrow> writer \<Rightarrow> goerr + writer \<times> serializer" where
  "serInit wr w =
     (let numMiniSecs = length (w_miniSecs w) * w_secSize w div miniSectorSize + length (w_miniBuf w) div miniSectorSize;
          (w, err) = (if w_miniBuf w = [] then (w, None)
            else if w_secSize w < length (w_miniBuf w) then (w, Some Panic)
            else writeMini wr w (replicate (w_secSize w - length (w_miniBuf w)) 0));
          layout = replicate (unat (w_descendants w)) \<lparr>le_leftSib = 0, le_rightSib = 0, le_childID = 0\<rparr>
      in case err of Some e \<Rightarrow> Inl e | None \<Rightarrow>
        if 0 < numMiniSecs then
          (if w_miniSecs w = [] then Inl Panic
           else Inr (w, \<lparr>sz_miniStart = hd (w_miniSecs w), sz_miniSize = numMiniSecs * miniSectorSize, sz_layout = layout\<rparr>))
        else Inr (w, \<lparr>sz_miniStart = endOfChain, sz_miniSize = 0, sz_layout = layout\<rparr>))"

section \<open>emitDirectory\<close>

definition timeTicks :: "gotime \<Rightarrow> u64" where
  "timeTicks t = (case encodeFiletime t of Inl e \<Rightarrow> 0 | Inr v \<Rightarrow> v)"

definition storageEntry :: "serializer \<Rightarrow> storageMeta \<Rightarrow> bool \<Rightarrow> layoutEntry \<Rightarrow> direntry" where
  "storageEntry sz m isRoot le =
     (let de = \<lparr>de_name = sg_name m, de_clsid = sg_clsid m, de_stateBits = sg_stateBits m,
            de_created = timeTicks (sg_created m), de_modified = timeTicks (sg_modified m), de_size = 0,
            de_objectType = objectStorage, de_leftSib = le_leftSib le, de_rightSib = le_rightSib le,
            de_childID = le_childID le, de_startSec = endOfChain\<rparr>
      in if isRoot then
           let de = de\<lparr>de_created := 0, de_objectType := objectRoot\<rparr>
           in if 0 < sz_miniSize sz
              then de\<lparr>de_startSec := sz_miniStart sz, de_size := word_of_nat (sz_miniSize sz)\<rparr> else de
         else de)"

definition streamEntry :: "streamW \<Rightarrow> layoutEntry \<Rightarrow> goerr + direntry" where
  "streamEntry v le =
     (let de = \<lparr>de_name = sw_name v, de_clsid = replicate 16 0, de_stateBits = sw_stateBits v,
            de_created = 0, de_modified = 0, de_size = word_of_nat (sw_size v), de_objectType = objectStream,
            de_leftSib = le_leftSib le, de_rightSib = le_rightSib le, de_childID = noStream, de_startSec = endOfChain\<rparr>
      in if 0 < sw_size v then
           (if sw_chain v = [] then Inl Panic else Inr (de\<lparr>de_startSec := sr_first (hd (sw_chain v))\<rparr>))
         else Inr de)"

definition emitEntry :: "sink \<Rightarrow> direntry \<Rightarrow> countWriter \<Rightarrow> goerr + countWriter" where
  "emitEntry wr de cw = bindE (encodeDirentry de) (\<lambda>dbuf. cw_put wr dbuf cw)"

text \<open>
  The recursive \<open>emit\<close> and its loop; the state is \<open>w.cw\<close>, \<open>counter\<close> and \<open>emitted\<close>. \<open>ss\<close> are the
  streams of the writer.
\<close>

function emitStorage ::
  "sink \<Rightarrow> serializer \<Rightarrow> streamW list \<Rightarrow> storageW \<Rightarrow> bool \<Rightarrow> countWriter \<times> u32 \<times> nat \<Rightarrow>
   goerr + countWriter \<times> u32 \<times> nat"
and emitChildren ::
  "sink \<Rightarrow> serializer \<Rightarrow> streamW list \<Rightarrow> nat list \<Rightarrow> storageW list \<Rightarrow> countWriter \<times> u32 \<times> nat \<Rightarrow>
   goerr + countWriter \<times> u32 \<times> nat" where
  "emitStorage wr sz ss (StorageW m sgs sts) isRoot (cw, counter, emitted) =
     (let eid = counter; counter = counter + 1 in
      if length (sz_layout sz) \<le> unat eid then Inl Panic
      else bindE (emitEntry wr (storageEntry sz m isRoot (sz_layout sz ! unat eid)) cw) (\<lambda>cw.
        emitChildren wr sz ss sts sgs (cw, counter, emitted + 1)))"
| "emitChildren wr sz ss sts sgs (cw, counter, emitted) =
     (if sts = [] \<and> sgs = [] then Inr (cw, counter, emitted)
      else if pickStream (\<lambda>sid. sw_name (ss ! sid)) sts sgs then
        let strID = counter; counter = counter + 1 in
        if length (sz_layout sz) \<le> unat strID then Inl Panic
        else bindE (streamEntry (ss ! hd sts) (sz_layout sz ! unat strID)) (\<lambda>de.
             bindE (emitEntry wr de cw) (\<lambda>cw.
               emitChildren wr sz ss (tl sts) sgs (cw, counter, emitted + 1)))
      else bindE (emitStorage wr sz ss (hd sgs) False (cw, counter, emitted)) (\<lambda>(cw, counter, emitted).
        emitChildren wr sz ss sts (tl sgs) (cw, counter, emitted)))"
  by pat_completeness auto
termination
proof (relation "measure (\<lambda>x. case x of Inl (wr, sz, ss, sg, _) \<Rightarrow> 2 * sg_nodes sg
    | Inr (wr, sz, ss, sts, sgs, _) \<Rightarrow> 2 * (sum_list (map sg_nodes sgs) + length sts) + 1)", goal_cases)
  case (3 wr sz ss sts sgs cw counter emitted)
  then show ?case by (cases sts) (auto simp: pickStream_def)
next
  case (4 wr sz ss sts sgs cw counter emitted)
  then show ?case by (cases sgs) (auto simp: pickStream_def)
next
  case (5 wr sz ss sts sgs cw counter emitted)
  then show ?case using sg_nodes_pos by (cases sgs) (auto simp: pickStream_def)
qed auto

declare emitStorage.simps [simp del] emitChildren.simps [simp del]

text \<open>The loop that pads the last sector with empty entries.\<close>

function padDirectory :: "sink \<Rightarrow> nat \<Rightarrow> countWriter \<Rightarrow> nat \<Rightarrow> goerr + countWriter" where
  "padDirectory wr perDir cw emitted =
     (if perDir = 0 then Inl Panic
      else if emitted mod perDir \<noteq> 0 then
        bindE (cw_put wr emptyDirentry cw) (\<lambda>cw. padDirectory wr perDir cw (emitted + 1))
      else Inr cw)"
  by pat_completeness auto
termination
  by (relation "measure (\<lambda>(wr, perDir, cw, emitted). (perDir - emitted mod perDir) mod perDir)")
    (auto simp: mod_Suc intro: diff_less_mono2)

declare padDirectory.simps [simp del]

definition emitDirectory :: "sink \<Rightarrow> writer \<Rightarrow> serializer \<Rightarrow> goerr + writer \<times> serializer \<times> nat \<times> nat" where
  "emitDirectory wr w sz =
     bindE (assignLayout (stream_name w) (w_root w) (sz_layout sz) 0) (\<lambda>(root, layout, counter, eid).
       let w = w\<lparr>w_root := root\<rparr>; sz = sz\<lparr>sz_layout := layout\<rparr>;
           dirStart = sectorIdx w; perDir = w_secSize w div direntrySize
       in bindE (emitStorage wr sz (w_streams w) root True (w_cw w, 0, 0)) (\<lambda>(cw, counter, emitted).
          bindE (padDirectory wr perDir cw emitted) (\<lambda>cw.
            let w = w\<lparr>w_cw := cw\<rparr> in Inr (w, sz, dirStart, sectorIdx w - dirStart))))"

section \<open>emitFAT\<close>

text \<open>The runs of the chain of a regular stream, and of all streams, in the order \<open>visit\<close> collects them.\<close>

fun chainRuns :: "sectorRun list \<Rightarrow> fatRun list" where
  "chainRuns [] = []"
| "chainRuns [r] = [\<lparr>fr_first = sr_first r, fr_count = sr_count r, fr_terminal = endOfChain, fr_linear = True\<rparr>]"
| "chainRuns (r # s # rs) =
     \<lparr>fr_first = sr_first r, fr_count = sr_count r, fr_terminal = sr_first s, fr_linear = True\<rparr> # chainRuns (s # rs)"

fun visitStreams :: "streamW list \<Rightarrow> nat list \<Rightarrow> fatRun list \<times> fatRun list \<Rightarrow> goerr + fatRun list \<times> fatRun list" where
  "visitStreams ss [] (fatRuns, miniRuns) = Inr (fatRuns, miniRuns)"
| "visitStreams ss (sid # sids) (fatRuns, miniRuns) =
     (let st = ss ! sid in
      if sw_size st = 0 then visitStreams ss sids (fatRuns, miniRuns)
      else if sw_size st < miniStreamCutoff then
        (case sw_chain st of [] \<Rightarrow> Inl Panic
         | r # rs \<Rightarrow> visitStreams ss sids (fatRuns, miniRuns @
             [\<lparr>fr_first = sr_first r, fr_count = sr_count r, fr_terminal = endOfChain, fr_linear = True\<rparr>]))
      else visitStreams ss sids (fatRuns @ chainRuns (sw_chain st), miniRuns))"

fun visitStorage :: "streamW list \<Rightarrow> storageW \<Rightarrow> fatRun list \<times> fatRun list \<Rightarrow> goerr + fatRun list \<times> fatRun list"
and visitStorages :: "streamW list \<Rightarrow> storageW list \<Rightarrow> fatRun list \<times> fatRun list \<Rightarrow> goerr + fatRun list \<times> fatRun list" where
  "visitStorage ss (StorageW m sgs sts) acc = bindE (visitStreams ss sts acc) (visitStorages ss sgs)"
| "visitStorages ss [] acc = Inr acc"
| "visitStorages ss (sg # sgs) acc = bindE (visitStorage ss sg acc) (visitStorages ss sgs)"

text \<open>The loop over \<open>w.miniSecs\<close>: one run per stretch of contiguous sectors.\<close>

fun contiguous :: "u32 \<Rightarrow> u32 list \<Rightarrow> nat" where
  "contiguous x [] = 0"
| "contiguous x (y # ys) = (if y = x + 1 then Suc (contiguous y ys) else 0)"

function miniSecRuns :: "u32 list \<Rightarrow> fatRun list" where
  "miniSecRuns [] = []"
| "miniSecRuns (x # xs) =
     (let k = contiguous x xs; rest = drop k xs;
          term = (case rest of [] \<Rightarrow> endOfChain | y # ys \<Rightarrow> y)
      in \<lparr>fr_first = x, fr_count = word_of_nat (k + 1), fr_terminal = term, fr_linear = True\<rparr> # miniSecRuns rest)"
  by pat_completeness auto
termination
  by (relation "measure length") (auto simp: Let_def)

definition writeTable :: "sink \<Rightarrow> writer \<Rightarrow> nat \<Rightarrow> fatRun list \<Rightarrow> goerr + writer" where
  "writeTable wr w numSectors runs =
     bindE (cw_puts wr (map (\<lambda>sect. concat (map wb_uint32 sect)) (chainTable (w_secSize w) numSectors runs)) (w_cw w))
       (\<lambda>cw. Inr (w\<lparr>w_cw := cw\<rparr>))"

definition miniFATSectors :: "nat \<Rightarrow> nat \<Rightarrow> nat" where
  "miniFATSectors secSize miniSize =
     (let perWord = word_of_nat (secSize div 4) :: u32; numMini = word_of_nat (miniSize div miniSectorSize)
      in unat ((numMini + perWord - 1) div perWord))"

definition metadataRuns :: "regions \<Rightarrow> fatRun list" where
  "metadataRuns rg =
     [\<lparr>fr_first = word_of_nat (rg_dirStart rg), fr_count = word_of_nat (rg_dirSecs rg), fr_terminal = endOfChain, fr_linear = True\<rparr>,
      \<lparr>fr_first = word_of_nat (rg_miniFATStart rg), fr_count = word_of_nat (rg_miniFATSecs rg), fr_terminal = endOfChain, fr_linear = True\<rparr>,
      \<lparr>fr_first = word_of_nat (rg_fatStart rg), fr_count = word_of_nat (rg_fatCount rg), fr_terminal = fatSect, fr_linear = False\<rparr>,
      \<lparr>fr_first = word_of_nat (rg_difatStart rg), fr_count = word_of_nat (rg_difatCount rg), fr_terminal = difSect, fr_linear = False\<rparr>]"

text \<open>A loop of \<open>computeFATCounts\<close> that does not return would be \<open>OutOfFuel\<close>.\<close>

definition emitFAT :: "sink \<Rightarrow> writer \<Rightarrow> serializer \<Rightarrow> nat \<Rightarrow> nat \<Rightarrow> goerr + writer \<times> regions" where
  "emitFAT wr w sz dirStart dirSecs =
     bindE (visitStorage (w_streams w) (w_root w) ([], [])) (\<lambda>(fatRuns, miniRuns).
     let miniFATStart = sectorIdx w;
         miniFATSecs = (if 0 < sz_miniSize sz then miniFATSectors (w_secSize w) (sz_miniSize sz) else 0)
     in bindE (if 0 < sz_miniSize sz then writeTable wr w miniFATSecs miniRuns else Inr w) (\<lambda>w.
     let perWord = w_secSize w div 4; fatStart = sectorIdx w
     in case computeFATCounts fatStart perWord of None \<Rightarrow> Inl OutOfFuel
     | Some (fatCount, difatCount) \<Rightarrow>
         let rg = \<lparr>rg_dirStart = dirStart, rg_dirSecs = dirSecs, rg_miniFATStart = miniFATStart,
                rg_miniFATSecs = miniFATSecs, rg_fatStart = fatStart, rg_fatCount = fatCount,
                rg_difatStart = fatStart + fatCount, rg_difatCount = difatCount\<rparr>
         in bindE (writeTable wr w fatCount (fatRuns @ miniSecRuns (w_miniSecs w) @ metadataRuns rg)) (\<lambda>w.
              Inr (w, rg))))"

section \<open>emitDIFAT\<close>

definition difatSector :: "nat \<Rightarrow> regions \<Rightarrow> nat \<Rightarrow> bytes" where
  "difatSector secSize rg i =
     (let perDIFAT = secSize div 4 - 1;
          cell = (\<lambda>j. let fatIdx = inlineDIFAT + i * perDIFAT + j
                  in if fatIdx < rg_fatCount rg then word_of_nat (rg_fatStart rg + fatIdx) else freeSect);
          nxt = (if i + 1 < rg_difatCount rg then word_of_nat (rg_difatStart rg + i + 1) else endOfChain)
      in concat (map wb_uint32 (map cell [0..<perDIFAT] @ [nxt])))"

definition emitDIFAT :: "sink \<Rightarrow> writer \<Rightarrow> regions \<Rightarrow> goerr + writer" where
  "emitDIFAT wr w rg =
     bindE (cw_puts wr (map (difatSector (w_secSize w) rg) [0..<rg_difatCount rg]) (w_cw w)) (\<lambda>cw.
       Inr (w\<lparr>w_cw := cw\<rparr>))"

section \<open>patchHeader and Close\<close>

definition patchHeader :: "device \<Rightarrow> writer \<Rightarrow> regions \<Rightarrow> goerr + bytes" where
  "patchHeader dv w rg =
     (case dv_seek dv of Some e \<Rightarrow> Inl e | None \<Rightarrow>
      let hbuf = encodeHeader (w_secSize w) rg in
      case dv_raw dv hbuf of Some e \<Rightarrow> Inl e | None \<Rightarrow>
        if headerSize < w_secSize w then
          (let pad = wb_skip (w_secSize w - headerSize) in
           case dv_raw dv pad of Some e \<Rightarrow> Inl e | None \<Rightarrow> Inr (hbuf @ pad))
        else Inr hbuf)"

text \<open>The first stream that is not closed: those of sub-storages are looked at before a storage's own.\<close>

fun checkClosed :: "streamW list \<Rightarrow> storageW \<Rightarrow> goerr option"
and checkClosedAll :: "streamW list \<Rightarrow> storageW list \<Rightarrow> goerr option" where
  "checkClosed ss (StorageW m sgs sts) =
     (case checkClosedAll ss sgs of Some e \<Rightarrow> Some e
      | None \<Rightarrow> (case find (\<lambda>sid. \<not> sw_closed (ss ! sid)) sts of
          Some sid \<Rightarrow> Some (ErrStreamNotClosed (utf16_decode (sw_name (ss ! sid)))) | None \<Rightarrow> None))"
| "checkClosedAll ss [] = None"
| "checkClosedAll ss (sg # sgs) = (case checkClosed ss sg of Some e \<Rightarrow> Some e | None \<Rightarrow> checkClosedAll ss sgs)"

definition serialize :: "device \<Rightarrow> writer \<Rightarrow> goerr + writer \<times> bytes" where
  "serialize dv w =
     bindE (serInit (dv_bw dv) w) (\<lambda>(w, sz).
     bindE (emitDirectory (dv_bw dv) w sz) (\<lambda>(w, sz, dirStart, dirSecs).
     bindE (emitFAT (dv_bw dv) w sz dirStart dirSecs) (\<lambda>(w, rg).
     bindE (emitDIFAT (dv_bw dv) w rg) (\<lambda>w.
     case dv_flush dv (cw_out (w_cw w)) of Some e \<Rightarrow> Inl e | None \<Rightarrow>
     bindE (patchHeader dv w rg) (\<lambda>hdr. Inr (w, hdr @ cw_out (w_cw w)))))))"

definition closeWriter :: "device \<Rightarrow> writer \<Rightarrow> writer \<times> (goerr + bytes)" where
  "closeWriter dv w =
     (case checkClosed (w_streams w) (w_root w) of Some e \<Rightarrow> (w, Inl e)
      | None \<Rightarrow>
        if w_closed w then (w, Inl ErrClosedTwice)
        else
          let w = w\<lparr>w_closed := True\<rparr>
          in case serialize dv w of Inl e \<Rightarrow> (w, Inl e) | Inr (w, f) \<Rightarrow> (w, Inr f))"

end
