(* ===== verification/Emit.thy ===== *)
theory Emit
  imports Serializer
begin

text \<open>
  What the phases of \<open>Writer.Close\<close> write when the underlying writers accept everything: the mini
  stream completed to a sector, then the directory entries in preorder (\<open>node_ents\<close>) and the empty
  entries after them.
\<close>

section \<open>Writing\<close>

definition cw_app :: "countWriter \<Rightarrow> bytes \<Rightarrow> countWriter" where
  "cw_app cw b = \<lparr>cw_out = cw_out cw @ b, cw_count = cw_count cw + length b\<rparr>"

lemma cw_app_simps [simp]: "cw_app (cw_app cw a) b = cw_app cw (a @ b)" "cw_app cw [] = cw"
  "cw_out (cw_app cw b) = cw_out cw @ b" "cw_count (cw_app cw b) = cw_count cw + length b"
  by (simp_all add: cw_app_def)

lemma cw_put_ok: "sink_ok wr \<Longrightarrow> cw_put wr b cw = Inr (cw_app cw b)"
  by (simp add: cw_put_def cw_write_def sink_ok_def cw_app_def)

lemma cw_puts_ok: "sink_ok wr \<Longrightarrow> cw_puts wr bs cw = Inr (cw_app cw (concat bs))"
  by (induction bs arbitrary: cw) (simp_all add: cw_put_ok)

section \<open>Visiting a storage tree in directory order\<close>

text \<open>The induction behind \<open>assignLayout\<close> and \<open>emit\<close>: both visit the merged, sorted children.\<close>

lemma visit_induct:
  assumes node: "\<And>m sgs sts. Q (sortStreams nm sts) (sortStorages sgs) \<Longrightarrow> P (StorageW m sgs sts)"
    and none: "Q [] []"
    and pick: "\<And>sts sgs. \<not> (sts = [] \<and> sgs = []) \<Longrightarrow> pickStream nm sts sgs \<Longrightarrow> Q (tl sts) sgs \<Longrightarrow> Q sts sgs"
    and sub: "\<And>sts sgs. \<not> (sts = [] \<and> sgs = []) \<Longrightarrow> \<not> pickStream nm sts sgs \<Longrightarrow> P (hd sgs) \<Longrightarrow> Q sts (tl sgs) \<Longrightarrow> Q sts sgs"
  shows "P sg" "Q sts sgs"
proof -
  have "(\<forall>sg. 2 * sg_nodes sg \<le> n \<longrightarrow> P sg) \<and>
      (\<forall>sts sgs. 2 * (sum_list (map sg_nodes sgs) + length sts) + 1 \<le> n \<longrightarrow> Q sts sgs)" for n
  proof (induction n rule: less_induct)
    case (less n)
    have Q: "Q sts sgs" if n: "2 * (sum_list (map sg_nodes sgs) + length sts) + 1 \<le> n" for sts sgs
    proof -
      consider (none) "sts = [] \<and> sgs = []" | (pick) "\<not> (sts = [] \<and> sgs = [])" "pickStream nm sts sgs"
        | (sub) "\<not> (sts = [] \<and> sgs = [])" "\<not> pickStream nm sts sgs" by blast
      then show ?thesis
      proof cases
        case none
        then show ?thesis using assms(2) by simp
      next
        case pick
        then have "sts \<noteq> []" by (auto simp: pickStream_def)
        then have "Suc (2 * (sum_list (map sg_nodes sgs) + length (tl sts)) + 1) \<le> n" using n by (cases sts) auto
        then show ?thesis using less.IH assms(3) [OF pick] by (meson Suc_le_lessD le_refl)
      next
        case sub
        then have "sgs \<noteq> []" by (auto simp: pickStream_def)
        then have "Suc (2 * sg_nodes (hd sgs)) \<le> n" "Suc (2 * (sum_list (map sg_nodes (tl sgs)) + length sts) + 1) \<le> n"
          using n sg_nodes_pos [of "hd sgs"] by (cases sgs; simp)+
        then show ?thesis using less.IH assms(4) [OF sub] by (meson Suc_le_lessD le_refl)
      qed
    qed
    have "P sg" if n: "2 * sg_nodes sg \<le> n" for sg
    proof (cases sg)
      case (StorageW m sgs sts)
      have "Suc (2 * (sum_list (map sg_nodes (sortStorages sgs)) + length (sortStreams nm sts)) + 1) \<le> n"
        using n StorageW by simp
      then show ?thesis using less.IH node unfolding StorageW by (meson Suc_le_lessD le_refl)
    qed
    then show ?case using Q by blast
  qed
  then show "P sg" "Q sts sgs" by blast+
qed

section \<open>The directory entries\<close>

definition streamDe :: "streamW \<Rightarrow> layoutEntry \<Rightarrow> direntry" where
  "streamDe v le = \<lparr>de_name = sw_name v, de_clsid = replicate 16 0, de_stateBits = sw_stateBits v,
     de_created = 0, de_modified = 0, de_size = word_of_nat (sw_size v), de_objectType = objectStream,
     de_leftSib = le_leftSib le, de_rightSib = le_rightSib le, de_childID = noStream,
     de_startSec = (if 0 < sw_size v then sr_first (hd (sw_chain v)) else endOfChain)\<rparr>"

lemma streamEntry_ok: "(0 < sw_size v \<Longrightarrow> sw_chain v \<noteq> []) \<Longrightarrow> streamEntry v le = Inr (streamDe v le)"
  by (simp add: streamEntry_def streamDe_def)

text \<open>The entries of a node and its descendants, in preorder from id \<open>n\<close> on.\<close>

fun node_ents :: "serializer \<Rightarrow> streamW list \<Rightarrow> bool \<Rightarrow> nat \<Rightarrow> node \<Rightarrow> direntry list"
and nodes_ents :: "serializer \<Rightarrow> streamW list \<Rightarrow> nat \<Rightarrow> node list \<Rightarrow> direntry list" where
  "node_ents sz ss isRoot n (StreamN sid) = [streamDe (ss ! sid) (sz_layout sz ! n)]"
| "node_ents sz ss isRoot n (StorageN m cs) = storageEntry sz m isRoot (sz_layout sz ! n) # nodes_ents sz ss (n + 1) cs"
| "nodes_ents sz ss n [] = []"
| "nodes_ents sz ss n (c # cs) = node_ents sz ss False n c @ nodes_ents sz ss (n + cnt c) cs"

lemma length_ents [simp]: "length (node_ents sz ss r n c) = cnt c" "length (nodes_ents sz ss n cs) = csum cs"
  by (induction sz ss r n c and sz ss n cs rule: node_ents_nodes_ents.induct) auto

definition deBytes :: "direntry \<Rightarrow> bytes" where
  "deBytes de = (case encodeDirentry de of Inl e \<Rightarrow> [] | Inr b \<Rightarrow> b)"

lemma emitEntry_ok:
  "sink_ok wr \<Longrightarrow> length (de_name de) \<le> nameMaxUnits \<Longrightarrow> emitEntry wr de cw = Inr (cw_app cw (deBytes de))"
  by (simp add: emitEntry_def encodeDirentry_def deBytes_def cw_put_ok)

lemma de_name_storageEntry [simp]: "de_name (storageEntry sz m r le) = sg_name m"
  by (simp add: storageEntry_def Let_def)

lemma de_name_streamDe [simp]: "de_name (streamDe v le) = sw_name v"
  by (simp add: streamDe_def)

lemma valid_name_length: "valid_name enc \<Longrightarrow> length enc \<le> nameMaxUnits"
  by (auto simp: valid_name_def encodeName_Inr nameMaxUnits_def)

text \<open>\<open>emit\<close> writes them; the streams that have bytes must have been placed.\<close>

definition placed :: "streamW list \<Rightarrow> nat list \<Rightarrow> bool" where
  "placed ss sids \<longleftrightarrow> (\<forall>sid \<in> set sids. 0 < sw_size (ss ! sid) \<longrightarrow> sw_chain (ss ! sid) \<noteq> [])"

definition emittable :: "streamW list \<Rightarrow> nat list \<Rightarrow> storageW list \<Rightarrow> bool" where
  "emittable ss sts sgs \<longleftrightarrow> list_all (sg_ok (\<lambda>sid. sw_name (ss ! sid))) sgs \<and> placed ss (sts @ concat (map sg_sids sgs)) \<and>
     (\<forall>sid \<in> set sts. length (sw_name (ss ! sid)) \<le> nameMaxUnits) \<and>
     (\<forall>sg \<in> set sgs. length (sg_name_of sg) \<le> nameMaxUnits)"

lemma emittable_children:
  assumes "sg_ok (\<lambda>sid. sw_name (ss ! sid)) (StorageW m sgs sts)" "placed ss (sg_sids (StorageW m sgs sts))"
  shows "emittable ss (sortStreams nm sts) (sortStorages sgs)"
  using assms valid_name_length
  by (auto simp: emittable_def list_all_iff node_ok_def child_names_def placed_def sortStreams_def sortStorages_def)

lemma emittable_next:
  "emittable ss sts sgs \<Longrightarrow> emittable ss (tl sts) sgs"
  "emittable ss sts sgs \<Longrightarrow> emittable ss sts (tl sgs)"
  by (cases sts; auto simp: emittable_def placed_def)
    (cases sgs; auto simp: emittable_def placed_def)

lemma pickStream_sort [simp]: "pickStream nm sts (map (sg_sort nm') sgs) = pickStream nm sts sgs"
  by (cases sgs) (simp_all add: pickStream_def)

text \<open>What the two functions do on a sorted storage and on its children; \<open>nm\<close> are the names of the streams.\<close>

abbreviation names_of :: "streamW list \<Rightarrow> nat \<Rightarrow> u16 list" where
  "names_of ss \<equiv> \<lambda>sid. sw_name (ss ! sid)"

definition emits_storage :: "sink \<Rightarrow> serializer \<Rightarrow> streamW list \<Rightarrow> storageW \<Rightarrow> bool" where
  "emits_storage wr sz ss sg \<longleftrightarrow> (\<forall>r cw counter emitted. sg_ok (names_of ss) sg \<longrightarrow> placed ss (sg_sids sg) \<longrightarrow>
     length (sg_name_of sg) \<le> nameMaxUnits \<longrightarrow> unat counter + sg_nodes sg \<le> length (sz_layout sz) \<longrightarrow>
     emitStorage wr sz ss (sg_sort (names_of ss) sg) r (cw, counter, emitted) =
       Inr (cw_app cw (concat (map deBytes (node_ents sz ss r (unat counter) (node_of (names_of ss) sg)))),
         counter + word_of_nat (sg_nodes sg), emitted + sg_nodes sg))"

definition emits_children :: "sink \<Rightarrow> serializer \<Rightarrow> streamW list \<Rightarrow> nat list \<Rightarrow> storageW list \<Rightarrow> bool" where
  "emits_children wr sz ss sts sgs \<longleftrightarrow> (\<forall>cw counter emitted. emittable ss sts sgs \<longrightarrow>
     unat counter + csum (children_of (names_of ss) sts sgs) \<le> length (sz_layout sz) \<longrightarrow>
     emitChildren wr sz ss sts (map (sg_sort (names_of ss)) sgs) (cw, counter, emitted) =
       Inr (cw_app cw (concat (map deBytes (nodes_ents sz ss (unat counter) (children_of (names_of ss) sts sgs)))),
         counter + word_of_nat (csum (children_of (names_of ss) sts sgs)), emitted + csum (children_of (names_of ss) sts sgs)))"

lemma emits_storage_step:
  fixes ss :: "streamW list"
  assumes "sink_ok wr" "length (sz_layout sz) < 2 ^ 32"
    and "emits_children wr sz ss (sortStreams (names_of ss) sts) (sortStorages sgs)"
  shows "emits_storage wr sz ss (StorageW m sgs sts)"
  unfolding emits_storage_def
proof (intro allI impI)
  let ?nm = "names_of ss"
  fix r cw and counter :: u32 and emitted
  let ?cs = "children_of ?nm (sortStreams ?nm sts) (sortStorages sgs)" and ?sg = "StorageW m sgs sts"
  assume ok: "sg_ok ?nm ?sg" and pl: "placed ss (sg_sids ?sg)" and nl: "length (sg_name_of ?sg) \<le> nameMaxUnits"
    and b: "unat counter + sg_nodes ?sg \<le> length (sz_layout sz)"
  note nd = node_of_children [OF ok]
  have cn: "sg_nodes ?sg = 1 + csum ?cs" using cnt_node_of [of ?nm ?sg] nd by simp
  have n1: "unat (counter + 1) = unat counter + 1" using unat_add_small [of counter 1] b cn assms(2) by simp
  have e: "emitEntry wr (storageEntry sz m r (sz_layout sz ! unat counter)) cw =
      Inr (cw_app cw (deBytes (storageEntry sz m r (sz_layout sz ! unat counter))))"
    using nl by (intro emitEntry_ok [OF assms(1)]) (simp add: sg_name_of_def)
  have "emittable ss (sortStreams ?nm sts) (sortStorages sgs)"
    by (rule emittable_children [OF ok pl])
  moreover have "unat (counter + 1) + csum ?cs \<le> length (sz_layout sz)" using b cn n1 by simp
  ultimately have c: "emitChildren wr sz ss (sortStreams ?nm sts) (map (sg_sort ?nm) (sortStorages sgs)) (cw', counter + 1, emitted + 1) =
      Inr (cw_app cw' (concat (map deBytes (nodes_ents sz ss (unat counter + 1) ?cs))),
        counter + 1 + word_of_nat (csum ?cs), emitted + 1 + csum ?cs)" for cw'
    using assms(3) [unfolded emits_children_def] n1 by metis
  have g: "\<not> length (sz_layout sz) \<le> unat counter" using b cn by simp
  have "emitStorage wr sz ss (sg_sort ?nm ?sg) r (cw, counter, emitted) =
      Inr (cw_app cw (concat (map deBytes (node_ents sz ss r (unat counter) (StorageN m ?cs)))),
        counter + 1 + word_of_nat (csum ?cs), emitted + 1 + csum ?cs)"
    unfolding sg_sort.simps sortStorages_map emitStorage.simps Let_def using g e c by simp
  moreover have "counter + 1 + word_of_nat (csum ?cs) = counter + word_of_nat (sg_nodes ?sg)"
    "emitted + 1 + csum ?cs = emitted + sg_nodes ?sg" unfolding cn by (simp_all add: ac_simps)
  ultimately show "emitStorage wr sz ss (sg_sort ?nm ?sg) r (cw, counter, emitted) =
      Inr (cw_app cw (concat (map deBytes (node_ents sz ss r (unat counter) (node_of ?nm ?sg)))),
        counter + word_of_nat (sg_nodes ?sg), emitted + sg_nodes ?sg)"
    unfolding nd by metis
qed

lemma emits_stream_step:
  fixes ss :: "streamW list"
  assumes "sink_ok wr" "length (sz_layout sz) < 2 ^ 32" "\<not> (sts = [] \<and> sgs = [])" "pickStream (names_of ss) sts sgs"
    and "emits_children wr sz ss (tl sts) sgs"
  shows "emits_children wr sz ss sts sgs"
  unfolding emits_children_def
proof (intro allI impI)
  let ?nm = "names_of ss"
  fix cw and counter :: u32 and emitted
  let ?cs = "children_of ?nm sts sgs" and ?cs' = "children_of ?nm (tl sts) sgs" and ?de = "streamDe (ss ! hd sts) (sz_layout sz ! unat counter)"
  assume em: "emittable ss sts sgs" and b: "unat counter + csum ?cs \<le> length (sz_layout sz)"
  have cs: "?cs = StreamN (hd sts) # ?cs'" using merged_next(1) [OF assms(3,4)] by simp
  have ne: "sts \<noteq> []" using assms(3,4) by (auto simp: pickStream_def)
  have n1: "unat (counter + 1) = unat counter + 1" using unat_add_small [of counter 1] b cs assms(2) by simp
  have de: "streamEntry (ss ! hd sts) (sz_layout sz ! unat counter) = Inr ?de"
    using em ne by (intro streamEntry_ok) (auto simp: emittable_def placed_def)
  have e: "emitEntry wr ?de cw = Inr (cw_app cw (deBytes ?de))"
    using em ne by (intro emitEntry_ok [OF assms(1)]) (simp add: emittable_def)
  have b': "unat (counter + 1) + csum ?cs' \<le> length (sz_layout sz)" using b cs n1 by simp
  have c: "emitChildren wr sz ss (tl sts) (map (sg_sort ?nm) sgs) (cw', counter + 1, emitted + 1) =
      Inr (cw_app cw' (concat (map deBytes (nodes_ents sz ss (unat counter + 1) ?cs'))),
        counter + 1 + word_of_nat (csum ?cs'), emitted + 1 + csum ?cs')" for cw'
    using assms(5) [unfolded emits_children_def] emittable_next(1) [OF em] b' n1 by metis
  have g: "\<not> length (sz_layout sz) \<le> unat counter" "\<not> (sts = [] \<and> map (sg_sort ?nm) sgs = [])"
    "pickStream (\<lambda>sid. sw_name (ss ! sid)) sts (map (sg_sort ?nm) sgs)"
    using b assms(3,4) unfolding cs by simp_all
  have "emitChildren wr sz ss sts (map (sg_sort ?nm) sgs) (cw, counter, emitted) =
      Inr (cw_app cw (concat (map deBytes (?de # nodes_ents sz ss (unat counter + 1) ?cs'))),
        counter + 1 + word_of_nat (csum ?cs'), emitted + 1 + csum ?cs')"
    using g de e c by (subst emitChildren.simps) (simp add: Let_def del: map_is_Nil_conv)
  then show "emitChildren wr sz ss sts (map (sg_sort ?nm) sgs) (cw, counter, emitted) =
      Inr (cw_app cw (concat (map deBytes (nodes_ents sz ss (unat counter) ?cs))),
        counter + word_of_nat (csum ?cs), emitted + csum ?cs)"
    unfolding cs by (simp add: ac_simps)
qed

lemma emits_sub_step:
  fixes ss :: "streamW list"
  assumes "sink_ok wr" "length (sz_layout sz) < 2 ^ 32" "\<not> pickStream (names_of ss) sts sgs"
    and "emits_storage wr sz ss (hd sgs)" "emits_children wr sz ss sts (tl sgs)"
  shows "emits_children wr sz ss sts sgs"
  unfolding emits_children_def
proof (intro allI impI)
  let ?nm = "names_of ss"
  fix cw and counter :: u32 and emitted
  let ?sg = "hd sgs" and ?cs = "children_of ?nm sts sgs" and ?cs' = "children_of ?nm sts (tl sgs)"
  let ?k = "sg_nodes ?sg" and ?ents = "node_ents sz ss False (unat counter) (node_of ?nm (hd sgs))"
  assume em: "emittable ss sts sgs" and b: "unat counter + csum ?cs \<le> length (sz_layout sz)"
  have ne: "sgs \<noteq> []" using assms(3) by (auto simp: pickStream_def)
  have cs: "?cs = node_of ?nm ?sg # ?cs'" using merged_next(2) [OF assms(3)] by simp
  have sum: "csum ?cs = ?k + csum ?cs'" unfolding cs by (simp add: cnt_node_of)
  have n1: "unat (counter + word_of_nat ?k) = unat counter + ?k" using unat_add_small [of counter ?k] b sum assms(2) by simp
  have "sg_ok ?nm ?sg" "placed ss (sg_sids ?sg)" "length (sg_name_of ?sg) \<le> nameMaxUnits"
    using em ne by (cases sgs; auto simp: emittable_def placed_def)+
  then have a: "emitStorage wr sz ss (sg_sort ?nm ?sg) False (cw, counter, emitted) =
      Inr (cw_app cw (concat (map deBytes ?ents)), counter + word_of_nat ?k, emitted + ?k)"
    using assms(4) [unfolded emits_storage_def] b sum by auto
  have b': "unat (counter + word_of_nat ?k) + csum ?cs' \<le> length (sz_layout sz)" using b sum n1 by simp
  have c: "emitChildren wr sz ss sts (map (sg_sort ?nm) (tl sgs)) (cw', counter + word_of_nat ?k, emitted + ?k) =
      Inr (cw_app cw' (concat (map deBytes (nodes_ents sz ss (unat counter + ?k) ?cs'))),
        counter + word_of_nat ?k + word_of_nat (csum ?cs'), emitted + ?k + csum ?cs')" for cw'
    using assms(5) [unfolded emits_children_def] emittable_next(2) [OF em] b' n1 by metis
  have g: "\<not> (sts = [] \<and> map (sg_sort ?nm) sgs = [])"
    "\<not> pickStream (\<lambda>sid. sw_name (ss ! sid)) sts (map (sg_sort ?nm) sgs)"
    "hd (map (sg_sort ?nm) sgs) = sg_sort ?nm ?sg" "tl (map (sg_sort ?nm) sgs) = map (sg_sort ?nm) (tl sgs)"
    using assms(3) ne by (simp_all add: hd_map map_tl)
  have "emitChildren wr sz ss sts (map (sg_sort ?nm) sgs) (cw, counter, emitted) =
      Inr (cw_app cw (concat (map deBytes (?ents @ nodes_ents sz ss (unat counter + ?k) ?cs'))),
        counter + word_of_nat ?k + word_of_nat (csum ?cs'), emitted + ?k + csum ?cs')"
    by (subst emitChildren.simps, subst if_not_P [OF g(1)], subst if_not_P [OF g(2)]) (simp add: g(3,4) a c)
  then show "emitChildren wr sz ss sts (map (sg_sort ?nm) sgs) (cw, counter, emitted) =
      Inr (cw_app cw (concat (map deBytes (nodes_ents sz ss (unat counter) ?cs))),
        counter + word_of_nat (csum ?cs), emitted + csum ?cs)"
    unfolding cs by (simp add: cnt_node_of ac_simps)
qed

lemma emit_ok:
  assumes "sink_ok wr" "length (sz_layout sz) < 2 ^ 32"
  shows "emits_storage wr sz ss sg" "emits_children wr sz ss sts sgs"
proof (induction rule: visit_induct [where nm = "names_of ss" and P = "emits_storage wr sz ss" and Q = "emits_children wr sz ss"])
  case (1 m sgs sts)
  then show ?case by (rule emits_storage_step [OF assms])
next
  case 2
  then show ?case by (simp add: emitChildren.simps emits_children_def)
next
  case (3 sts sgs)
  then show ?case by (rule emits_stream_step [OF assms])
next
  case (4 sts sgs)
  show ?case by (rule emits_sub_step [OF assms 4(2-4)])
qed

section \<open>The entries can be read back\<close>

fun node_metas :: "node \<Rightarrow> bool" where
  "node_metas (StreamN sid) \<longleftrightarrow> True"
| "node_metas (StorageN m cs) \<longleftrightarrow> length (sg_clsid m) = 16 \<and> list_all node_metas cs"

lemma node_metas_of: "metas_ok sg \<Longrightarrow> node_metas (node_of nm sg)"
  by (induction sg) (auto simp: list_all_iff)

fun node_names :: "(nat \<Rightarrow> u16 list) \<Rightarrow> node \<Rightarrow> bool" where
  "node_names nm (StreamN sid) \<longleftrightarrow> True"
| "node_names nm (StorageN m cs) \<longleftrightarrow> list_all (\<lambda>c. valid_name (node_name nm c)) cs \<and> list_all (node_names nm) cs"

lemma node_names_of: "sg_ok nm sg \<Longrightarrow> node_names nm (node_of nm sg)"
proof (induction sg)
  case (StorageW m sgs sts)
  then have "\<forall>sg \<in> set sgs. node_names nm (node_of nm sg)" by (simp add: list_all_iff)
  moreover have "list_all valid_name (map sg_name_of sgs @ map nm sts)"
    using StorageW.prems by (simp add: node_ok_def child_names_def)
  ultimately show ?case by (auto simp: list_all_iff)
qed

text \<open>An entry \<open>parseEntry\<close> accepts.\<close>

definition readable_de :: "direntry \<Rightarrow> bool" where
  "readable_de de \<longleftrightarrow> wf_direntry de \<and> de_name de \<noteq> [] \<and> de_objectType de \<noteq> objectUnallocated \<and>
     \<not> containsAny (utf16_decode (de_name de)) forbiddenRunes"

lemma valid_name_readable:
  "valid_name enc \<Longrightarrow> length enc \<le> 31 \<and> enc \<noteq> [] \<and> \<not> containsAny (utf16_decode enc) forbiddenRunes"
  using encodeName_decoded encodeName_nonempty by (auto simp: valid_name_def encodeName_Inr)

lemma valid_rootName: "valid_name rootName"
proof -
  have "encodeName [0x52, 0x6F, 0x6F, 0x74, 0x20, 0x45, 0x6E, 0x74, 0x72, 0x79] = Inr rootName"
    by (simp add: encodeName_def containsAny_def forbiddenRunes_def rootName_def utf16_encode_def appendRune_def)
  then show ?thesis unfolding valid_name_def by blast
qed

lemma readable_storageEntry:
  "valid_name (sg_name m) \<Longrightarrow> length (sg_clsid m) = 16 \<Longrightarrow> readable_de (storageEntry sz m r le)"
  using valid_name_readable
  by (auto simp: readable_de_def wf_direntry_def storageEntry_def Let_def object_defs)

lemma readable_streamDe: "valid_name (sw_name v) \<Longrightarrow> readable_de (streamDe v le)"
  using valid_name_readable by (auto simp: readable_de_def wf_direntry_def streamDe_def object_defs)

abbreviation ss_name :: "streamW list \<Rightarrow> nat \<Rightarrow> u16 list" where
  "ss_name ss \<equiv> \<lambda>sid. sw_name (ss ! sid)"

lemma readable_ents:
  "valid_name (node_name (ss_name ss) c) \<Longrightarrow> node_names (ss_name ss) c \<Longrightarrow> node_metas c \<Longrightarrow>
    list_all readable_de (node_ents sz ss r n c)"
  "list_all (\<lambda>c. valid_name (node_name (ss_name ss) c)) cs \<Longrightarrow> list_all (node_names (ss_name ss)) cs \<Longrightarrow>
    list_all node_metas cs \<Longrightarrow> list_all readable_de (nodes_ents sz ss n cs)"
  by (induction sz ss r n c and sz ss n cs rule: node_ents_nodes_ents.induct)
    (auto simp: readable_storageEntry readable_streamDe)

text \<open>What the reader makes of an entry, and of the empty ones.\<close>

definition rawOf :: "u16 \<Rightarrow> direntry \<Rightarrow> rawEntry" where
  "rawOf v de = \<lparr>
      re_storage = (if de_objectType de = objectStorage \<or> de_objectType de = objectRoot then
          Some \<lparr>stName = utf16_decode (de_name de), stCLSID = de_clsid de,
            stStateBits = de_stateBits de, stCreated = decodeFiletime (de_created de),
            stModified = decodeFiletime (de_modified de)\<rparr> else None),
      re_stream = (if de_objectType de = objectStream then
          Some \<lparr>smName = utf16_decode (de_name de), smStateBits = de_stateBits de,
            smSize = sint (version_size v (de_size de)), smRuns = []\<rparr> else None),
      re_objectType = de_objectType de, re_leftSib = de_leftSib de, re_rightSib = de_rightSib de,
      re_childID = de_childID de, re_startSector = de_startSec de,
      re_streamSize = version_size v (de_size de), re_visited = False\<rparr>"

definition rawEmpty :: rawEntry where
  "rawEmpty = \<lparr>re_storage = None, re_stream = None, re_objectType = objectUnallocated, re_leftSib = noStream,
     re_rightSib = noStream, re_childID = noStream, re_startSector = 0, re_streamSize = 0, re_visited = False\<rparr>"

lemma deBytes_ok:
  assumes "readable_de de"
  shows "encodeDirentry de = Inr (deBytes de)" "length (deBytes de) = direntrySize"
    "parseEntry (deBytes de) v = Inr (rawOf v de)"
proof -
  obtain b where b: "encodeDirentry de = Inr b" "length b = direntrySize"
    using assms encodeDirentry_ok by (auto simp: readable_de_def)
  then show "encodeDirentry de = Inr (deBytes de)" "length (deBytes de) = direntrySize" by (simp_all add: deBytes_def)
  then show "parseEntry (deBytes de) v = Inr (rawOf v de)"
    using assms parse_encodeDirentry [of de "deBytes de" "[]" v] by (simp add: readable_de_def rawOf_def)
qed

lemma put_le_0: "put_le n 0 = replicate n 0"
  by (induction n) simp_all

lemma emptyDirentry_fields:
  "emptyDirentry = concat (map wb_uint16 (replicate nameMaxUnits 0)) @ wb_uint16 0 @ wb_uint8 0 @ wb_uint8 0 @
     wb_uint32 noStream @ wb_uint32 noStream @ wb_uint32 noStream @ replicate 16 0 @ wb_uint32 0 @ wb_uint64 0 @
     wb_uint64 0 @ wb_uint32 0 @ wb_uint64 0"
proof -
  have z: "concat (map wb_uint16 (replicate nameMaxUnits 0)) = replicate 64 0"
    using wb_skip_units [of nameMaxUnits] by (simp add: wb_skip_def nameMaxUnits_def)
  have "wb_skip 68 = replicate 64 0 @ wb_uint16 0 @ wb_uint8 0 @ wb_uint8 0"
    by (simp only: wb_skip_def wb_uint16_def wb_uint8_def put_le_0 replicate_add [symmetric]) simp
  moreover have "wb_skip (direntrySize - 80) = replicate 16 0 @ wb_uint32 0 @ wb_uint64 0 @ wb_uint64 0 @ wb_uint32 0 @ wb_uint64 0"
    by (simp only: wb_skip_def wb_uint32_def wb_uint64_def put_le_0 replicate_add [symmetric]) (simp add: direntrySize_def)
  ultimately show ?thesis unfolding emptyDirentry_def z by simp
qed

lemma parse_emptyDirentry: "parseEntry emptyDirentry v = Inr rawEmpty"
proof -
  have units: "rb_many nameMaxUnits rb_uint16 (concat (map wb_uint16 (replicate nameMaxUnits 0)) @ b) = (replicate nameMaxUnits 0, b)" for b
    using u16.rb_many_put [of "replicate nameMaxUnits 0" b] by simp
  have sub: "rb_sub 16 (replicate 16 0 @ b) = (replicate 16 0, b)" for b by (rule rb_sub_append) simp
  have len: "\<not> length emptyDirentry < direntrySize" by (simp add: length_emptyDirentry)
  have "decodeFiletime 0 = zeroTime" by (simp add: decodeFiletime_def)
  have last: "rb_uint64 (wb_uint64 0) = (0, [])" using u64.get_put [of 0 "[]"] by simp
  show ?thesis
    unfolding parseEntry_def using len
    by (simp only: if_False emptyDirentry_fields append_assoc units Let_def prod.case wb_rb sub last
        parseEntryName_def simp_thms if_True bindE.simps rawEmpty_def object_defs and_zero_eq zero_and_eq cong: if_cong) simp
qed

section \<open>The directory\<close>

lemma padDirectory_ok:
  assumes "sink_ok wr" "0 < perDir"
  shows "padDirectory wr perDir cw n =
    Inr (cw_app cw (concat (replicate ((perDir - n mod perDir) mod perDir) emptyDirentry)))"
proof (induction "(perDir - n mod perDir) mod perDir" arbitrary: n cw)
  case 0
  then have "n mod perDir = 0" using assms(2) by (metis diff_is_0_eq diff_less mod_less mod_less_divisor not_gr_zero not_less)
  then show ?case using assms(2) by (simp add: padDirectory.simps)
next
  case (Suc k)
  then have m: "n mod perDir \<noteq> 0" by (metis Zero_not_Suc diff_zero mod_self)
  have "(perDir - (n + 1) mod perDir) mod perDir = k"
    using Suc(2) m assms(2) by (simp add: mod_Suc) arith
  then show ?case
    using Suc m assms(2) cw_put_ok [OF assms(1)] by (subst padDirectory.simps) (simp flip: Suc(2))
qed

lemma pad_to_multiple:
  assumes "0 < (p::nat)"
  shows "n + (p - n mod p) mod p = (n + p - 1) div p * p"
proof (cases "n mod p = 0")
  case True
  then obtain q where q: "n = q * p" by (metis mod_0_imp_dvd dvdE mult.commute)
  have e: "q * p + p - 1 = (p - 1) + q * p" using assms by simp
  have "(q * p + p - 1) div p = q" unfolding e using assms by (subst div_mult_self1) simp_all
  then show ?thesis using True q by simp
next
  case False
  define q r where "q = n div p" and "r = n mod p"
  have n: "n = q * p + r" "0 < r" "r < p" using False assms by (simp_all add: q_def r_def)
  have e: "n + p - 1 = (r - 1) + Suc q * p" using n by simp
  have "(n + p - 1) div p = Suc q" unfolding e using n by (subst div_mult_self1) simp_all
  moreover have "(p - r) mod p = p - r" using n by simp
  ultimately show ?thesis using n by (simp add: r_def [symmetric])
qed

definition dirSectors :: "nat \<Rightarrow> nat \<Rightarrow> nat" where
  "dirSectors secSize nodes = (let perDir = secSize div direntrySize in (nodes + perDir - 1) div perDir)"

definition dirPad :: "nat \<Rightarrow> nat \<Rightarrow> nat" where
  "dirPad secSize nodes = (let perDir = secSize div direntrySize in (perDir - nodes mod perDir) mod perDir)"

definition dirBytes :: "nat \<Rightarrow> direntry list \<Rightarrow> bytes" where
  "dirBytes secSize ents = concat (map deBytes ents) @ concat (replicate (dirPad secSize (length ents)) emptyDirentry)"

lemma dir_count:
  assumes "secSize = 512 \<or> secSize = 4096"
  shows "nodes + dirPad secSize nodes = dirSectors secSize nodes * (secSize div direntrySize)"
    "secSize div direntrySize * direntrySize = secSize" "0 < secSize div direntrySize"
proof -
  show "0 < secSize div direntrySize" using assms by (auto simp: direntrySize_def)
  then show "nodes + dirPad secSize nodes = dirSectors secSize nodes * (secSize div direntrySize)"
    by (simp add: dirPad_def dirSectors_def Let_def pad_to_multiple)
  show "secSize div direntrySize * direntrySize = secSize" using assms by (auto simp: direntrySize_def)
qed

lemma length_dirBytes:
  assumes S: "secSize = 512 \<or> secSize = 4096" and ents: "list_all readable_de ents"
  shows "length (dirBytes secSize ents) = dirSectors secSize (length ents) * secSize"
proof -
  have "length (concat (map deBytes ents)) = length ents * direntrySize"
    using ents deBytes_ok(2) by (intro length_concat_const) (auto simp: list_all_iff)
  moreover have "length (concat (replicate n emptyDirentry)) = n * direntrySize" for n
    by (induction n) (simp_all add: length_emptyDirentry)
  ultimately have "length (dirBytes secSize ents) = (length ents + dirPad secSize (length ents)) * direntrySize"
    by (simp add: dirBytes_def add_mult_distrib)
  then show ?thesis using dir_count [OF S] by (metis mult.assoc)
qed

lemma stream_name_ss: "stream_name w = ss_name (w_streams w)"
  by (simp add: fun_eq_iff stream_name_def)

lemma emitDirectory_ok:
  assumes wr: "sink_ok wr" and g: "geom w"
    and lay: "length (sz_layout sz) = sg_nodes (w_root w)" "sg_nodes (w_root w) < 2 ^ 32"
    and ok: "sg_ok (stream_name w) (w_root w)" "root_ok w" "placed (w_streams w) (sg_sids (w_root w))"
  obtains lay where
    "emitDirectory wr w sz = Inr (w\<lparr>w_root := sg_sort (stream_name w) (w_root w),
        w_cw := cw_app (w_cw w) (dirBytes (w_secSize w)
          (node_ents (sz\<lparr>sz_layout := lay\<rparr>) (w_streams w) True 0 (node_of (stream_name w) (w_root w))))\<rparr>,
      sz\<lparr>sz_layout := lay\<rparr>, nsec w, dirSectors (w_secSize w) (sg_nodes (w_root w)))"
    "laid lay 0 (node_of (stream_name w) (w_root w))" "length lay = sg_nodes (w_root w)"
    "list_all readable_de (node_ents (sz\<lparr>sz_layout := lay\<rparr>) (w_streams w) True 0 (node_of (stream_name w) (w_root w)))"
proof -
  let ?nm = "stream_name w" and ?sg = "w_root w" and ?ss = "w_streams w" and ?S = "w_secSize w"
  let ?nd = "node_of ?nm ?sg"
  have S: "?S = 512 \<or> ?S = 4096" using g by (simp add: geom_def)
  obtain lay where l: "assignLayout ?nm ?sg (sz_layout sz) 0 = Inr (sg_sort ?nm ?sg, lay, 0 + word_of_nat (sg_nodes ?sg), 0)"
    "others_kept (sz_layout sz) lay 0 (0 + sg_nodes ?sg)" "laid lay 0 ?nd"
    using assign_ok(1) [of ?nm ?sg 0 "sz_layout sz"] ok(1) lay by auto
  have len: "length lay = sg_nodes ?sg" using l(2) lay(1) by (simp add: others_kept_def)
  let ?sz = "sz\<lparr>sz_layout := lay\<rparr>"
  let ?ents = "node_ents ?sz ?ss True 0 ?nd"
  have "valid_name (sg_name_of ?sg)" using ok(2) valid_rootName by (simp add: root_ok_def)
  then have ents: "list_all readable_de ?ents"
    using ok(1,2) node_names_of node_metas_of by (intro readable_ents(1)) (simp_all add: stream_name_ss root_ok_def)
  have nodes: "length ?ents = sg_nodes ?sg" by (simp add: cnt_node_of)
  have e: "emitStorage wr ?sz ?ss (sg_sort ?nm ?sg) True (w_cw w, 0, 0) =
      Inr (cw_app (w_cw w) (concat (map deBytes ?ents)), 0 + word_of_nat (sg_nodes ?sg), 0 + sg_nodes ?sg)"
    using emit_ok(1) [OF wr, of ?sz ?ss ?sg, unfolded emits_storage_def] ok(1,3) lay(2) len valid_name_length [OF \<open>valid_name (sg_name_of ?sg)\<close>]
    by (simp add: stream_name_ss)
  have p: "padDirectory wr (?S div direntrySize) (cw_app (w_cw w) (concat (map deBytes ?ents))) (sg_nodes ?sg) =
      Inr (cw_app (w_cw w) (dirBytes ?S ?ents))"
    using padDirectory_ok [OF wr dir_count(3) [OF S]] nodes by (simp add: dirBytes_def dirPad_def Let_def)
  have idx: "sectorIdx (w\<lparr>w_root := r, w_cw := cw_app (w_cw w) (dirBytes ?S ?ents)\<rparr>) = nsec w + dirSectors ?S (sg_nodes ?sg)" for r
  proof -
    have "cw_count (w_cw w) = (Suc (nsec w)) * ?S" using g geom_out [OF g] by (simp add: geom_def)
    then have "(cw_count (w_cw w) + length (dirBytes ?S ?ents)) div ?S = Suc (nsec w) + dirSectors ?S (sg_nodes ?sg)"
      using length_dirBytes [OF S ents] nodes geom_secSize(1) [OF g]
      by (metis add_mult_distrib nonzero_mult_div_cancel_right not_less_zero)
    then show ?thesis by (simp add: sectorIdx_def)
  qed
  have start: "sectorIdx (w\<lparr>w_root := r\<rparr>) = nsec w" for r using geom_sectorIdx [OF g] by (simp add: sectorIdx_def)
  have "emitDirectory wr w sz = Inr (w\<lparr>w_root := sg_sort ?nm ?sg, w_cw := cw_app (w_cw w) (dirBytes ?S ?ents)\<rparr>,
      ?sz, nsec w, dirSectors ?S (sg_nodes ?sg))"
    using l(1) e p idx start by (simp add: emitDirectory_def Let_def)
  then show thesis using l(3) len ents that by blast
qed

section \<open>init\<close>

definition closed_all :: "writer \<Rightarrow> bool" where
  "closed_all w \<longleftrightarrow> (\<forall>s \<in> set (w_streams w). sw_closed s)"

lemma serInit_ok:
  assumes wr: "sink_ok wr" and inv: "winv w D" and fit: "nsec w + 1 < 2 ^ 32"
  obtains w' new z where
    "serInit wr w = Inr (w', \<lparr>sz_miniStart = (if mini_len w = 0 then endOfChain else hd (w_miniSecs w')),
       sz_miniSize = mini_len w, sz_layout = replicate (unat (w_descendants w)) \<lparr>le_leftSib = 0, le_rightSib = 0, le_childID = 0\<rparr>\<rparr>)"
    "geom w'" "w_miniBuf w' = []" "w_streams w' = w_streams w" "w_root w' = w_root w" "w_secSize w' = w_secSize w"
    "outB w' = outB w @ new" "mini_data w' = mini_data w @ replicate z 0" "z < w_secSize w"
    "owned w' = mset [0..<nsec w']" "\<forall>s \<in> set (w_miniSecs w'). unat s < nsec w'"
    "length (w_miniSecs w') * w_secSize w = mini_len w + z"
    "nsec w' \<le> nsec w + 1"
proof -
  let ?S = "w_secSize w"
  have g: "geom w" and ok: "mini_ok w" using inv by (auto simp: winv_def mini_ok_def)
  have d: "miniSectorSize dvd mini_len w" using g by (rule mini_len_dvd)
  have num: "length (w_miniSecs w) * ?S div miniSectorSize + length (w_miniBuf w) div miniSectorSize = mini_len w div miniSectorSize"
    using g geom_secSize(3) [OF g] by (simp add: mini_len_def geom_def div_add dvd_mult)
  have sz: "mini_len w div miniSectorSize * miniSectorSize = mini_len w" using d by simp
  show thesis
  proof (cases "w_miniBuf w = []")
    case True
    have e: "mini_len w = 0 \<longleftrightarrow> w_miniSecs w = []" using True geom_secSize(1) [OF g] by (simp add: mini_len_def)
    moreover have "0 < mini_len w div miniSectorSize \<longleftrightarrow> mini_len w \<noteq> 0"
      using sz by (cases "mini_len w div miniSectorSize") (auto simp: miniSectorSize_def)
    ultimately have "serInit wr w = Inr (w, \<lparr>sz_miniStart = (if mini_len w = 0 then endOfChain else hd (w_miniSecs w)),
       sz_miniSize = mini_len w, sz_layout = replicate (unat (w_descendants w)) \<lparr>le_leftSib = 0, le_rightSib = 0, le_childID = 0\<rparr>\<rparr>)"
      using True num sz by (auto simp: serInit_def Let_def)
    moreover have "length (w_miniSecs w) * ?S = mini_len w + 0" using True by (simp add: mini_len_def)
    ultimately show thesis
      using that [of w "[]" 0] True inv geom_secSize(1) [OF g] by (simp add: winv_def)
  next
    case False
    let ?z = "?S - length (w_miniBuf w)"
    have b: "length (w_miniBuf w) < ?S" using g by (simp add: geom_def)
    let ?p = "replicate ?z (0 :: u8)"
    have wm: "writeMini wr w ?p = (mini_fill w ?p, None)"
      using writeMini_step [OF wr ok, of ?p] b by simp
    have q: "length (w_miniBuf w) + length ?p = ?S" using b by simp
    note mf = mini_fill_ok [OF ok q] nsec_mini_fill [OF g q]
    have mf1: "mini_ok (mini_fill w ?p)" "mini_data (mini_fill w ?p) = mini_data w @ ?p" using mf(1,2) fit by simp_all
    have pos: "0 < mini_len w div miniSectorSize"
    proof -
      have "0 < mini_len w" using False by (simp add: mini_len_def)
      then show ?thesis using sz by (metis mult_0 not_gr_zero)
    qed
    have u: "unat (word_of_nat (nsec w) :: u32) = nsec w" using fit by (intro unat_u32) simp
    have own: "owned (mini_fill w ?p) = mset [0..<nsec (mini_fill w ?p)]"
      using inv u mf(3) by (simp add: owned_def winv_def)
    have len: "length (w_miniSecs (mini_fill w ?p)) * ?S = mini_len w + ?z" using b by (simp add: mini_len_def)
    have "serInit wr w = Inr (mini_fill w ?p, \<lparr>sz_miniStart = (if mini_len w = 0 then endOfChain else hd (w_miniSecs (mini_fill w ?p))),
       sz_miniSize = mini_len w, sz_layout = replicate (unat (w_descendants w)) \<lparr>le_leftSib = 0, le_rightSib = 0, le_childID = 0\<rparr>\<rparr>)"
      using False b wm num sz pos by (auto simp: serInit_def Let_def mini_fill_def grow_def)
    then show thesis
      using that [of "mini_fill w ?p" "w_miniBuf w @ ?p" ?z] False b mf1 own len mf(3) by (simp add: mini_ok_def)
  qed
qed

end
