(* ===== verification/EmitFat.thy ===== *)
theory EmitFat
  imports Emit
begin

text \<open>
  The FAT and the mini-FAT \<open>emitFAT\<close> writes. The runs it collects cover every sector of the file
  exactly once (\<open>all_runs_cover\<close>), so every cell is the one its run says, and the chain of each stream,
  of the mini stream, of the directory and of the mini-FAT is in the table.
\<close>

section \<open>The sectors of runs\<close>

definition fat_secs :: "fatRun \<Rightarrow> nat list" where
  "fat_secs r = [unat (fr_first r) ..< run_end r]"

abbreviation runs_secs :: "fatRun list \<Rightarrow> nat list" where
  "runs_secs runs \<equiv> concat (map fat_secs runs)"

lemma run_sectors_fat_secs: "concat (map run_sectors runs) = map word_of_nat (runs_secs runs)"
  by (induction runs) (simp_all add: run_sectors_def fat_secs_def)

lemma in_run_fat_secs: "in_run i r \<longleftrightarrow> i \<in> set (fat_secs r)"
  by (auto simp: in_run_def fat_secs_def)

lemma distinct_concat_disjoint:
  "distinct (concat (map f xs)) \<Longrightarrow> x \<in> set xs \<Longrightarrow> y \<in> set xs \<Longrightarrow> x \<noteq> y \<Longrightarrow> set (f x) \<inter> set (f y) = {}"
  by (induction xs) auto

lemma wf_runs_distinct:
  assumes d: "distinct (runs_secs runs)" and N: "\<forall>r \<in> set runs. run_end r \<le> N"
  shows "wf_runs N runs"
  unfolding wf_runs_def
proof (intro conjI N ballI impI)
  fix r s assume rs: "r \<in> set runs" "s \<in> set runs" "r \<noteq> s"
  show "run_end r \<le> unat (fr_first s) \<or> run_end s \<le> unat (fr_first r) \<or> fr_count r = 0 \<or> fr_count s = 0"
  proof (rule ccontr)
    assume c: "\<not> (run_end r \<le> unat (fr_first s) \<or> run_end s \<le> unat (fr_first r) \<or> fr_count r = 0 \<or> fr_count s = 0)"
    then have "0 < unat (fr_count r)" "0 < unat (fr_count s)" by (simp_all add: unat_gt_0)
    then have "max (unat (fr_first r)) (unat (fr_first s)) \<in> set (fat_secs r) \<inter> set (fat_secs s)"
      using c by (auto simp: fat_secs_def run_end_def)
    then show False using distinct_concat_disjoint [OF d rs] by blast
  qed
qed

section \<open>The runs of a stream\<close>

definition reg_runs :: "streamW \<Rightarrow> fatRun list" where
  "reg_runs st = (if miniStreamCutoff \<le> sw_size st then chainRuns (sw_chain st) else [])"

definition mini_runs :: "streamW \<Rightarrow> fatRun list" where
  "mini_runs st = (if 0 < sw_size st \<and> sw_size st < miniStreamCutoff then chainRuns (take 1 (sw_chain st)) else [])"

lemma chainRuns_secs: "runs_secs (chainRuns chain) = csecs chain"
  by (induction chain rule: chainRuns.induct) (simp_all add: csecs_def fat_secs_def rsecs_def run_end_def)

lemma chainRuns_linked: "chain \<noteq> [] \<Longrightarrow> runs_in n chain \<Longrightarrow>
    linked (chainRuns chain) \<and> fr_first (hd (chainRuns chain)) = sr_first (hd chain)"
proof (induction chain rule: chainRuns.induct)
  case (3 r s rs)
  then have "linked (chainRuns (s # rs))" "fr_first (hd (chainRuns (s # rs))) = sr_first s"
    by (simp_all add: runs_in_def)
  then show ?case using "3.prems"(2) by (cases rs) (simp_all add: runs_in_def)
qed (simp_all add: runs_in_def)

lemma visitStreams_ok:
  "placed ss sids \<Longrightarrow> visitStreams ss sids (f, m) =
    Inr (f @ concat (map (\<lambda>sid. reg_runs (ss ! sid)) sids), m @ concat (map (\<lambda>sid. mini_runs (ss ! sid)) sids))"
proof (induction ss sids "(f, m)" arbitrary: f m rule: visitStreams.induct)
  case (2 ss sid sids f m)
  have pl: "placed ss sids" "0 < sw_size (ss ! sid) \<Longrightarrow> sw_chain (ss ! sid) \<noteq> []"
    using "2.prems" by (auto simp: placed_def)
  show ?case
  proof (cases "sw_chain (ss ! sid)")
    case Nil
    then have "sw_size (ss ! sid) = 0" using pl(2) by auto
    then show ?thesis using 2(1) [OF refl] pl(1) by (simp add: reg_runs_def mini_runs_def miniStreamCutoff_def)
  next
    case (Cons r rs)
    then show ?thesis
      using 2(1) [OF refl _ pl(1)] 2(2) [OF refl _ _ Cons pl(1)] 2(3) [OF refl _ _ pl(1)]
      by (auto simp: reg_runs_def mini_runs_def Let_def miniStreamCutoff_def)
  qed
qed simp

lemma visitStorage_ok:
  "placed ss (sg_sids sg) \<Longrightarrow> visitStorage ss sg (f, m) =
    Inr (f @ concat (map (\<lambda>sid. reg_runs (ss ! sid)) (sg_sids sg)), m @ concat (map (\<lambda>sid. mini_runs (ss ! sid)) (sg_sids sg)))"
  "placed ss (concat (map sg_sids sgs)) \<Longrightarrow> visitStorages ss sgs (f, m) =
    Inr (f @ concat (map (\<lambda>sid. reg_runs (ss ! sid)) (concat (map sg_sids sgs))),
      m @ concat (map (\<lambda>sid. mini_runs (ss ! sid)) (concat (map sg_sids sgs))))"
proof (induction ss sg "(f, m)" and ss sgs "(f, m)" arbitrary: f m and f m rule: visitStorage_visitStorages.induct)
  case (1 ss m' sgs sts f m)
  then have "placed ss sts" "placed ss (concat (map sg_sids sgs))" by (auto simp: placed_def)
  then show ?case using 1 by (simp add: visitStreams_ok)
next
  case (3 ss sg sgs f m)
  then have "placed ss (sg_sids sg)" "placed ss (concat (map sg_sids sgs))" by (auto simp: placed_def)
  then show ?case using 3 by simp
qed simp

section \<open>The runs of the mini stream\<close>

lemma contiguous_take:
  "\<forall>s \<in> set (x # xs). unat s < 2 ^ 32 - 1 \<Longrightarrow>
    map unat (take (contiguous x xs) xs) = [unat x + 1 ..< unat x + 1 + contiguous x xs] \<and>
    unat x + contiguous x xs < 2 ^ 32 - 1"
proof (induction x xs rule: contiguous.induct)
  case (2 x y ys)
  show ?case
  proof (cases "y = x + 1")
    case True
    have "unat y = unat x + 1" using "2.prems" unat_add_small [of x 1] True by simp
    moreover have "map unat (take (contiguous y ys) ys) = [unat y + 1 ..< unat y + 1 + contiguous y ys]"
      "unat y + contiguous y ys < 2 ^ 32 - 1" using 2 True by auto
    moreover have "[unat x + 1 ..< unat x + 1 + Suc (contiguous y ys)] = (unat x + 1) # [unat x + 2 ..< unat x + 2 + contiguous y ys]"
      by (simp add: upt_conv_Cons)
    ultimately show ?thesis using True by simp
  qed (use "2.prems" in simp)
qed simp

lemma miniSecRuns_ok:
  "\<forall>s \<in> set secs. unat s < 2 ^ 32 - 1 \<Longrightarrow> runs_secs (miniSecRuns secs) = map unat secs \<and>
    (secs \<noteq> [] \<longrightarrow> linked (miniSecRuns secs) \<and> fr_first (hd (miniSecRuns secs)) = hd secs)"
proof (induction secs rule: miniSecRuns.induct)
  case (2 x xs)
  define k where "k = contiguous x xs"
  let ?r = "\<lparr>fr_first = x, fr_count = word_of_nat (k + 1),
    fr_terminal = (case drop k xs of [] \<Rightarrow> endOfChain | y # ys \<Rightarrow> y), fr_linear = True\<rparr>"
  have runs: "miniSecRuns (x # xs) = ?r # miniSecRuns (drop k xs)" by (simp add: k_def Let_def)
  have t: "map unat (take k xs) = [unat x + 1 ..< unat x + 1 + k]" "unat x + k < 2 ^ 32 - 1"
    using contiguous_take [OF "2.prems"] by (simp_all add: k_def)
  have c: "unat (word_of_nat (k + 1) :: u32) = k + 1" using t(2) by (intro unat_u32) simp
  then have c0: "(word_of_nat (k + 1) :: u32) \<noteq> 0" by (metis add_is_0 unat_0 zero_neq_one)
  have "\<forall>s \<in> set (drop k xs). unat s < 2 ^ 32 - 1" using "2.prems" by (auto dest: in_set_dropD)
  then have IH: "runs_secs (miniSecRuns (drop k xs)) = map unat (drop k xs)"
    "drop k xs \<noteq> [] \<Longrightarrow> linked (miniSecRuns (drop k xs)) \<and> fr_first (hd (miniSecRuns (drop k xs))) = hd (drop k xs)"
    using "2.IH" [OF k_def refl refl] by auto
  have "fat_secs ?r = unat x # map unat (take k xs)"
    using t c by (simp add: fat_secs_def run_end_def upt_conv_Cons del: of_nat_Suc of_nat_add)
  moreover have "map unat (take k xs) @ map unat (drop k xs) = map unat xs" by (simp flip: map_append)
  ultimately have "runs_secs (miniSecRuns (x # xs)) = map unat (x # xs)"
    unfolding runs using IH(1) by (simp del: of_nat_Suc of_nat_add)
  moreover have "linked (?r # miniSecRuns (drop k xs))"
  proof (cases "drop k xs")
    case Nil
    then show ?thesis using c0 by simp
  next
    case (Cons y ys)
    then obtain r rs where "miniSecRuns (drop k xs) = r # rs" by (simp add: Let_def)
    then show ?thesis using IH(2) Cons c0 by simp
  qed
  ultimately show ?case unfolding runs by simp
qed simp

section \<open>All runs of a file\<close>

lemma mset_concat_perm:
  assumes "mset sids = mset [0..<length ss]"
  shows "mset (concat (map (\<lambda>sid. f (ss ! sid)) sids)) = mset (concat (map f ss))"
proof -
  have "mset (concat (map g xs)) = sum_mset (image_mset (\<lambda>x. mset (g x)) (mset xs))" for g :: "'c \<Rightarrow> 'b list" and xs
    by (induction xs) simp_all
  then have "mset (concat (map (\<lambda>sid. f (ss ! sid)) sids)) = mset (concat (map (\<lambda>sid. f (ss ! sid)) [0..<length ss]))"
    using assms by metis
  moreover have "map (\<lambda>sid. f (ss ! sid)) [0..<length ss] = map f ss"
    by (rule nth_equalityI) simp_all
  ultimately show ?thesis by simp
qed

lemma mset_concat_cong: "(\<And>x. x \<in> set xs \<Longrightarrow> mset (f x) = mset (g x)) \<Longrightarrow> mset (concat (map f xs)) = mset (concat (map g xs))"
  by (induction xs) simp_all

lemma mset_concat_sort: "mset (concat (map f (sortFunc cmp xs))) = mset (concat (map f xs))"
proof -
  have "mset (concat (map f (insertFunc cmp y ys))) = mset (f y) + mset (concat (map f ys))" for y ys
    by (induction ys) auto
  then show ?thesis by (induction xs) simp_all
qed

lemma mset_sids_sort: "mset (sg_sids (sg_sort nm sg)) = mset (sg_sids sg)"
proof (induction sg)
  case (StorageW m sgs sts)
  have "mset (concat (map (sg_sids \<circ> sg_sort nm) sgs)) = mset (concat (map sg_sids sgs))"
    using StorageW by (intro mset_concat_cong) simp
  then show ?case by (simp add: sortStorages_def sortStreams_def mset_concat_sort)
qed

lemma concat_concat_map: "concat (map f (concat (map g xs))) = concat (map (\<lambda>x. concat (map f (g x))) xs)"
  by (induction xs) simp_all

definition tree_runs :: "writer \<Rightarrow> fatRun list" where
  "tree_runs w = concat (map (\<lambda>sid. reg_runs (w_streams w ! sid)) (sg_sids (w_root w)))"

definition tree_minis :: "writer \<Rightarrow> fatRun list" where
  "tree_minis w = concat (map (\<lambda>sid. mini_runs (w_streams w ! sid)) (sg_sids (w_root w)))"

definition all_runs :: "writer \<Rightarrow> regions \<Rightarrow> fatRun list" where
  "all_runs w rg = tree_runs w @ miniSecRuns (w_miniSecs w) @ metadataRuns rg"

definition fat_table :: "writer \<Rightarrow> regions \<Rightarrow> u32 list" where
  "fat_table w rg = map (table_cell (all_runs w rg)) [0..<rg_fatCount rg * (w_secSize w div 4)]"

definition mini_table :: "writer \<Rightarrow> regions \<Rightarrow> u32 list" where
  "mini_table w rg = map (table_cell (tree_minis w)) [0..<rg_miniFATSecs rg * (w_secSize w div 4)]"

definition rg_end :: "regions \<Rightarrow> nat" where
  "rg_end rg = rg_difatStart rg + rg_difatCount rg"

text \<open>The regions after the streams, in their order, with a FAT that covers the whole file.\<close>

definition good_regions :: "nat \<Rightarrow> regions \<Rightarrow> bool" where
  "good_regions secSize rg \<longleftrightarrow> rg_dirStart rg + rg_dirSecs rg = rg_miniFATStart rg \<and>
     rg_miniFATStart rg + rg_miniFATSecs rg = rg_fatStart rg \<and> rg_fatStart rg + rg_fatCount rg = rg_difatStart rg \<and>
     covers (rg_fatStart rg) (secSize div 4) (rg_fatCount rg, rg_difatCount rg) \<and>
     rg_difatCount rg \<le> rg_fatCount rg div (secSize div 4 - 1) + 1 \<and>
     rg_fatCount rg * (secSize div 4) < 2 ^ 32 - 2 ^ 20"

lemma good_regions_end: "good_regions secSize rg \<Longrightarrow> rg_end rg \<le> rg_fatCount rg * (secSize div 4)"
  by (simp add: good_regions_def rg_end_def covers_def)

lemma metadataRuns_secs:
  assumes "good_regions secSize rg"
  shows "runs_secs (metadataRuns rg) = [rg_dirStart rg ..< rg_end rg]"
proof -
  have e: "rg_end rg < 2 ^ 32 - 2 ^ 20" using assms good_regions_end [OF assms] by (simp add: good_regions_def)
  have u: "unat (word_of_nat x :: u32) = x" if "x \<le> rg_end rg" for x using that e by (intro unat_u32) simp
  have a: "rg_dirStart rg + rg_dirSecs rg = rg_miniFATStart rg" "rg_miniFATStart rg + rg_miniFATSecs rg = rg_fatStart rg"
    "rg_fatStart rg + rg_fatCount rg = rg_difatStart rg" using assms by (simp_all add: good_regions_def)
  then have "rg_dirStart rg \<le> rg_end rg" "rg_dirSecs rg \<le> rg_end rg" "rg_miniFATStart rg \<le> rg_end rg"
    "rg_miniFATSecs rg \<le> rg_end rg" "rg_fatStart rg \<le> rg_end rg" "rg_fatCount rg \<le> rg_end rg"
    "rg_difatStart rg \<le> rg_end rg" "rg_difatCount rg \<le> rg_end rg" by (simp_all add: rg_end_def)
  note le = this
  have "runs_secs (metadataRuns rg) = [rg_dirStart rg ..< rg_miniFATStart rg] @ [rg_miniFATStart rg ..< rg_fatStart rg] @
      [rg_fatStart rg ..< rg_difatStart rg] @ [rg_difatStart rg ..< rg_end rg]"
    using a by (simp add: metadataRuns_def fat_secs_def run_end_def u le rg_end_def)
  moreover have "[i..<j] @ [j..<k] = [i..<k]" if "i \<le> j" "j \<le> k" for i j k :: nat
    using that upt_add_eq_append [of i j "k - j"] by simp
  ultimately show ?thesis using a by (simp add: rg_end_def)
qed

lemma metadata_starts:
  assumes "good_regions secSize rg" "r \<in> set (metadataRuns rg)"
  shows "unat (fr_first r) \<le> rg_end rg"
proof -
  have "rg_end rg < 2 ^ 32 - 2 ^ 20" using assms good_regions_end [OF assms(1)] by (simp add: good_regions_def)
  then have u: "unat (word_of_nat x :: u32) = x" if "x \<le> rg_end rg" for x using that by (intro unat_u32) simp
  have "rg_dirStart rg \<le> rg_end rg" "rg_miniFATStart rg \<le> rg_end rg" "rg_fatStart rg \<le> rg_end rg" "rg_difatStart rg \<le> rg_end rg"
    using assms(1) by (simp_all add: rg_end_def good_regions_def)
  then show ?thesis using assms(2) u by (auto simp: metadataRuns_def)
qed

lemma linked_counts: "linked rs \<Longrightarrow> \<forall>r \<in> set rs. fr_count r \<noteq> 0"
  by (induction rs rule: linked.induct) auto

lemma miniSecRuns_counts: "\<forall>s \<in> set secs. unat s < 2 ^ 32 - 1 \<Longrightarrow> \<forall>r \<in> set (miniSecRuns secs). fr_count r \<noteq> 0"
  using miniSecRuns_ok [of secs] linked_counts by (cases "secs = []") auto

text \<open>The runs cover every sector of the file exactly once.\<close>

lemma all_runs_cover:
  assumes sids: "mset (sg_sids (w_root w)) = mset [0..<length (w_streams w)]"
    and secs: "\<forall>s \<in> set (w_miniSecs w). unat s < 2 ^ 32 - 1"
    and own: "owned w = mset [0..<rg_dirStart rg]" and rg: "good_regions S rg"
    and runs: "\<forall>r \<in> set (tree_runs w). fr_count r \<noteq> 0"
  shows "mset (runs_secs (all_runs w rg)) = mset [0..<rg_end rg]" "wf_runs (rg_end rg) (all_runs w rg)"
proof -
  have "runs_secs (tree_runs w) = concat (map (\<lambda>sid. regular_secs (w_streams w ! sid)) (sg_sids (w_root w)))"
    unfolding tree_runs_def concat_concat_map
    by (intro arg_cong [of _ _ concat] map_cong refl) (simp add: reg_runs_def regular_secs_def chainRuns_secs)
  then have "mset (runs_secs (tree_runs w)) = mset (concat (map regular_secs (w_streams w)))"
    using mset_concat_perm [OF sids, of regular_secs] by simp
  moreover have "runs_secs (miniSecRuns (w_miniSecs w)) = map unat (w_miniSecs w)" using miniSecRuns_ok [OF secs] by simp
  ultimately have "mset (runs_secs (all_runs w rg)) = owned w + mset [rg_dirStart rg ..< rg_end rg]"
    using metadataRuns_secs [OF rg] by (simp add: all_runs_def owned_def)
  moreover have "rg_dirStart rg \<le> rg_end rg" using rg by (simp add: good_regions_def rg_end_def)
  then have "[0..<rg_end rg] = [0..<rg_dirStart rg] @ [rg_dirStart rg ..< rg_end rg]"
    using upt_add_eq_append [of 0 "rg_dirStart rg" "rg_end rg - rg_dirStart rg"] by simp
  ultimately show m: "mset (runs_secs (all_runs w rg)) = mset [0..<rg_end rg]" using own by simp
  have "distinct (runs_secs (all_runs w rg))" using m mset_eq_imp_distinct_iff by fastforce
  moreover have "\<forall>r \<in> set (all_runs w rg). run_end r \<le> rg_end rg"
  proof
    fix r assume r: "r \<in> set (all_runs w rg)"
    show "run_end r \<le> rg_end rg"
    proof (cases "fr_count r = 0")
      case True
      then have "r \<in> set (metadataRuns rg)"
        using r runs miniSecRuns_counts [OF secs] by (auto simp: all_runs_def)
      then show ?thesis using True metadata_starts [OF rg] by (auto simp: run_end_def)
    next
      case False
      then have "run_end r - 1 \<in> set (fat_secs r)" by (auto simp: fat_secs_def run_end_def unat_eq_0 simp flip: unat_gt_0)
      then have "run_end r - 1 \<in> set (runs_secs (all_runs w rg))" using r by auto
      also have "set (runs_secs (all_runs w rg)) = {0..<rg_end rg}"
        using mset_eq_setD [OF m] by (simp only: set_upt)
      finally have "run_end r - 1 < rg_end rg" by simp
      then show ?thesis by linarith
    qed
  qed
  ultimately show "wf_runs (rg_end rg) (all_runs w rg)" by (rule wf_runs_distinct)
qed

text \<open>The mini sectors, the same way.\<close>

lemma tree_minis_cover:
  assumes sids: "mset (sg_sids (w_root w)) = mset [0..<length (w_streams w)]"
    and shape: "\<forall>st \<in> set (w_streams w). mini_secs st = runs_secs (mini_runs st) \<and> (\<forall>r \<in> set (mini_runs st). fr_count r \<noteq> 0)"
    and own: "mset (concat (map mini_secs (w_streams w))) = mset [0..<n]"
  shows "wf_runs n (tree_minis w)"
proof -
  have sub: "set (sg_sids (w_root w)) = {0..<length (w_streams w)}"
    using mset_eq_setD [OF sids] by simp
  have "runs_secs (tree_minis w) = concat (map (\<lambda>sid. mini_secs (w_streams w ! sid)) (sg_sids (w_root w)))"
    unfolding tree_minis_def concat_concat_map
    using shape sub by (intro arg_cong [of _ _ concat] map_cong refl) simp
  then have m: "mset (runs_secs (tree_minis w)) = mset [0..<n]"
    using mset_concat_perm [OF sids, of mini_secs] own by simp
  then have "distinct (runs_secs (tree_minis w))" using mset_eq_imp_distinct_iff by fastforce
  moreover have "run_end r \<le> n" if r: "r \<in> set (tree_minis w)" for r
  proof -
    have "fr_count r \<noteq> 0" using r shape sub by (auto simp: tree_minis_def)
    then have "run_end r - 1 \<in> set (fat_secs r)" by (auto simp: fat_secs_def run_end_def unat_eq_0 simp flip: unat_gt_0)
    then have "run_end r - 1 \<in> set (runs_secs (tree_minis w))" using r by auto
    also have "set (runs_secs (tree_minis w)) = {0..<n}" using mset_eq_setD [OF m] by (simp only: set_upt)
    finally have "run_end r - 1 < n" by simp
    then show ?thesis by linarith
  qed
  ultimately show ?thesis by (intro wf_runs_distinct) blast+
qed

section \<open>The bounds\<close>

text \<open>The FAT of a file of \<open>p\<close> sectors so far is not much larger than the file.\<close>

lemma fat_bound:
  assumes per: "per = 128 \<or> per = (1024 :: nat)" and p: "p < 2 ^ 31 + 2 ^ 29"
    and least: "\<And>F D. covers p per (F, D) \<Longrightarrow> f \<le> F \<and> d \<le> D"
  shows "f * per < 2 ^ 32 - 2 ^ 20"
proof -
  let ?F = "p div (per - 2) + 1"
  have "p + ?F + ?F \<le> ?F * per" "?F \<le> inlineDIFAT + ?F * (per - 1)" using per by auto
  then have "f \<le> ?F" using least [of ?F ?F] by (simp add: covers_def)
  then have "f * per \<le> ?F * per" by (rule mult_le_mono1)
  moreover have "?F * per < 2 ^ 32 - 2 ^ 20" using per p by auto
  ultimately show ?thesis by linarith
qed

lemma difat_bound:
  assumes per: "2 \<le> per" and c: "covers p per (f, d)" and least: "\<And>F D. covers p per (F, D) \<Longrightarrow> f \<le> F \<and> d \<le> D"
  shows "d \<le> f div (per - 1) + 1"
proof (rule ccontr)
  let ?D = "f div (per - 1) + 1"
  assume "\<not> d \<le> ?D"
  moreover have "f \<le> ?D * (per - 1)"
    using dividend_less_div_times [of "per - 1" f] per by simp
  ultimately have "covers p per (f, ?D)" using c by (auto simp: covers_def)
  then show False using least [of f ?D] \<open>\<not> d \<le> ?D\<close> by simp
qed

text \<open>The number of mini-FAT sectors does not wrap.\<close>

lemma miniFATSectors_eq:
  assumes S: "S = 512 \<or> S = 4096" and n: "n < 2 ^ 31"
  shows "miniFATSectors S (n * miniSectorSize) = (n + S div 4 - 1) div (S div 4)"
proof -
  have u: "unat (word_of_nat n :: u32) = n" "unat (word_of_nat (S div 4) :: u32) = S div 4"
    using S n by (auto intro!: unat_u32)
  have "unat (word_of_nat n + word_of_nat (S div 4) - 1 :: u32) = n + S div 4 - 1"
  proof -
    have a: "unat (word_of_nat n + word_of_nat (S div 4) :: u32) = n + S div 4"
      using unat_add_small [of "word_of_nat n" "S div 4"] u S n by auto
    then have "(1 :: u32) \<le> word_of_nat n + word_of_nat (S div 4)" using S by (auto simp: word_le_nat_alt)
    then show ?thesis using a by (simp add: unat_sub)
  qed
  then show ?thesis
    using u by (simp add: miniFATSectors_def Let_def unat_div miniSectorSize_def)
qed

section \<open>emitFAT\<close>

definition words :: "u32 list \<Rightarrow> bytes" where
  "words cells = concat (map wb_uint32 cells)"

lemma words_concat: "concat (map (\<lambda>sect. concat (map wb_uint32 sect)) xss) = words (concat xss)"
  by (induction xss) (simp_all add: words_def)

lemma length_words: "length (words cells) = 4 * length cells"
  by (simp add: words_def u32.length_puts)

lemma writeTable_ok:
  assumes "sink_ok wr" "wf_runs N runs" "n * (w_secSize w div 4) < 2 ^ 32" "N < 2 ^ 32"
  shows "writeTable wr w n runs = Inr (w\<lparr>w_cw := cw_app (w_cw w) (words (map (table_cell runs) [0..<n * (w_secSize w div 4)]))\<rparr>)"
  by (simp only: writeTable_def cw_puts_ok [OF assms(1)] words_concat concat_chainTable [OF assms(2-4)] bindE.simps)

lemma emitFAT_ok:
  assumes wr: "sink_ok wr" and g: "geom w"
    and sids: "mset (sg_sids (w_root w)) = mset [0..<length (w_streams w)]" and pl: "placed (w_streams w) (sg_sids (w_root w))"
    and secs: "\<forall>s \<in> set (w_miniSecs w). unat s < 2 ^ 32 - 1" and own: "owned w = mset [0..<dirStart]"
    and runs: "\<forall>r \<in> set (tree_runs w). fr_count r \<noteq> 0"
    and minis: "wf_runs n (tree_minis w)" "sz_miniSize sz = n * miniSectorSize" "n < 2 ^ 31"
    and dir: "dirStart + dirSecs = nsec w" "nsec w < 2 ^ 31 + 2 ^ 28"
  obtains rg where
    "emitFAT wr w sz dirStart dirSecs = Inr (w\<lparr>w_cw := cw_app (w_cw w) (words (mini_table w rg) @ words (fat_table w rg))\<rparr>, rg)"
    "good_regions (w_secSize w) rg" "rg_dirStart rg = dirStart" "rg_dirSecs rg = dirSecs"
    "rg_miniFATSecs rg = (n + w_secSize w div 4 - 1) div (w_secSize w div 4)"
    "wf_runs (rg_end rg) (all_runs w rg)" "mset (runs_secs (all_runs w rg)) = mset [0..<rg_end rg]"
proof -
  let ?S = "w_secSize w" and ?per = "w_secSize w div 4"
  have S: "?S = 512 \<or> ?S = 4096" using g by (simp add: geom_def)
  then have per: "?per = 128 \<or> ?per = 1024" by auto
  define M where "M = (n + ?per - 1) div ?per"
  have M: "M < 2 ^ 24 + 2" "n = 0 \<Longrightarrow> M = 0" using per minis(3) by (auto simp: M_def)
  let ?p = "nsec w + M"
  obtain f d where fd: "computeFATCounts ?p ?per = Some (f, d)" "covers ?p ?per (f, d)"
    "\<And>F D. covers ?p ?per (F, D) \<Longrightarrow> f \<le> F \<and> d \<le> D"
  proof (rule computeFATCounts_spec)
    show "3 \<le> ?per" using per by auto
  qed blast
  have f: "f * ?per < 2 ^ 32 - 2 ^ 20" using fat_bound [OF per _ fd(3), of ?p] dir(2) M by auto
  define rg where "rg = \<lparr>rg_dirStart = dirStart, rg_dirSecs = dirSecs, rg_miniFATStart = nsec w,
    rg_miniFATSecs = M, rg_fatStart = ?p, rg_fatCount = f, rg_difatStart = ?p + f, rg_difatCount = d\<rparr>"
  have "d \<le> f div (?per - 1) + 1" using per by (intro difat_bound [OF _ fd(2,3)]) auto
  then have good: "good_regions ?S rg" using fd(2) f dir(1) by (simp add: good_regions_def rg_def)
  have wf: "wf_runs (rg_end rg) (all_runs w rg)" "mset (runs_secs (all_runs w rg)) = mset [0..<rg_end rg]"
    using all_runs_cover [OF sids secs _ good runs] own by (simp_all only: rg_def regions.select_convs)
  have e: "rg_end rg < 2 ^ 32" using good_regions_end [OF good] f by (simp add: rg_def)
  let ?mini = "words (map (table_cell (tree_minis w)) [0..<M * ?per])"
  let ?w1 = "w\<lparr>w_cw := cw_app (w_cw w) ?mini\<rparr>"
  have "M * ?per \<le> n + ?per - 1" unfolding M_def by (rule div_times_less_eq_dividend)
  then have Mper: "M * ?per < 2 ^ 32" using per minis(3) by auto
  have start: "sectorIdx w = nsec w" using g by (rule geom_sectorIdx)
  have start1: "sectorIdx ?w1 = ?p"
  proof -
    have "length ?mini = M * ?S" using S by (auto simp: length_words)
    moreover have "cw_count (w_cw w) = Suc (nsec w) * ?S" using g geom_out [OF g] by (simp add: geom_def)
    ultimately have "(cw_count (w_cw w) + length ?mini) div ?S = Suc (nsec w) + M"
      using geom_secSize(1) [OF g] by (metis add_mult_distrib nonzero_mult_div_cancel_right not_less_zero)
    then show ?thesis by (simp add: sectorIdx_def)
  qed
  have visit: "visitStorage (w_streams w) (w_root w) ([], []) = Inr (tree_runs w, tree_minis w)"
    using visitStorage_ok(1) [OF pl] by (simp add: tree_runs_def tree_minis_def)
  have m0: "0 < sz_miniSize sz \<longleftrightarrow> n \<noteq> 0" using minis(2) by (simp add: miniSectorSize_def)
  have mfs: "(if 0 < sz_miniSize sz then miniFATSectors ?S (sz_miniSize sz) else 0) = M"
    using miniFATSectors_eq [OF S minis(3)] m0 M(2) minis(2) by (simp add: M_def)
  have wm: "(if 0 < sz_miniSize sz then writeTable wr w M (tree_minis w) else Inr w) = Inr ?w1"
    using writeTable_ok [OF wr minis(1) Mper] minis(3) m0 M(2) by (auto simp: words_def)
  have wf': "writeTable wr ?w1 f (all_runs w rg) = Inr (?w1\<lparr>w_cw := cw_app (w_cw ?w1) (words (fat_table w rg))\<rparr>)"
    using writeTable_ok [OF wr wf(1) _ e, of f ?w1] f by (simp add: fat_table_def rg_def)
  have "emitFAT wr w sz dirStart dirSecs = Inr (w\<lparr>w_cw := cw_app (w_cw w) (words (mini_table w rg) @ words (fat_table w rg))\<rparr>, rg)"
    unfolding emitFAT_def visit bindE.simps prod.case Let_def mfs wm start start1 
    using fd(1) wf' by (simp add: all_runs_def mini_table_def flip: rg_def) (simp add: rg_def)
  then show thesis using that good wf by (simp add: rg_def M_def)
qed

end
