(* ===== verification/Close.thy ===== *)
theory Close
  imports EmitFat WriterStore
begin

text \<open>
  \<open>Writer.Close\<close> as a whole, when the underlying writers accept everything: it succeeds and the file is
  the header, the sectors written so far with the mini stream completed, the directory, the mini-FAT,
  the FAT and the DIFAT (\<open>close_file\<close>).
\<close>

definition device_ok :: "device \<Rightarrow> bool" where
  "device_ok dv \<longleftrightarrow> sink_ok (dv_bw dv) \<and> (\<forall>b. dv_flush dv b = None) \<and> dv_seek dv = None \<and> (\<forall>b. dv_raw dv b = None)"

text \<open>
  The sizes up to which no number of the serializer outgrows its 32 bits: 1 TiB in 512-byte sectors, with
  4 GiB of small streams.
\<close>

definition closable :: "writer \<Rightarrow> bool" where
  "closable w \<longleftrightarrow> nsec w + sg_nodes (w_root w) < 2 ^ 31 \<and> mini_len w < 2 ^ 32"

lemma closable_mini: "closable w \<Longrightarrow> mini_len w div miniSectorSize < 2 ^ 31"
  by (simp add: closable_def miniSectorSize_def div_less_iff_less_mult)

lemma closable_fits: "closable w \<Longrightarrow> fits w"
  using closable_mini [of w] by (simp add: closable_def fits_def)

section \<open>Closed streams\<close>

lemma closed_stream:
  assumes ok: "stream_ok w st d" and cl: "sw_closed st"
  shows "0 < sw_size st \<Longrightarrow> sw_chain st \<noteq> []" "mini_secs st = runs_secs (mini_runs st)"
    "\<forall>r \<in> set (mini_runs st). fr_count r \<noteq> 0" "\<forall>r \<in> set (reg_runs st). fr_count r \<noteq> 0"
proof -
  have ri: "runs_in (if sw_size st < miniStreamCutoff then 2 ^ 32 else nsec w) (sw_chain st)" and len: "length d = sw_size st"
    using ok by (simp_all add: stream_ok_def)
  show "0 < sw_size st \<Longrightarrow> sw_chain st \<noteq> []"
  proof (cases "sw_size st < miniStreamCutoff")
    case False
    then obtain z where "cdata (w_secSize w) (outB w) (sw_chain st) = d @ replicate z 0"
      using ok cl by (auto simp: stream_ok_def)
    then show "sw_chain st \<noteq> []" if "0 < sw_size st" using that len by (auto simp: cdata_def)
  qed (use ok cl in \<open>auto simp: stream_ok_def split: if_splits\<close>)
  have counts: "\<forall>r \<in> set (chainRuns (sw_chain st)). fr_count r \<noteq> 0" "\<forall>r \<in> set (chainRuns (take 1 (sw_chain st))). fr_count r \<noteq> 0"
  proof -
    show "\<forall>r \<in> set (chainRuns (sw_chain st)). fr_count r \<noteq> 0"
      using chainRuns_linked [OF _ ri] linked_counts by (cases "sw_chain st = []") auto
    have "runs_in (if sw_size st < miniStreamCutoff then 2 ^ 32 else nsec w) (take 1 (sw_chain st))"
      using ri by (auto simp: runs_in_def dest: in_set_takeD)
    then show "\<forall>r \<in> set (chainRuns (take 1 (sw_chain st))). fr_count r \<noteq> 0"
      using chainRuns_linked linked_counts by (cases "take 1 (sw_chain st) = []") (simp, blast)
  qed
  then show "\<forall>r \<in> set (mini_runs st). fr_count r \<noteq> 0" "\<forall>r \<in> set (reg_runs st). fr_count r \<noteq> 0"
    by (auto simp: mini_runs_def reg_runs_def)
  show "mini_secs st = runs_secs (mini_runs st)"
  proof (cases "sw_size st < miniStreamCutoff")
    case True
    then have "sw_chain st = [] \<and> sw_size st = 0 \<or> (\<exists>r. sw_chain st = [r] \<and> sw_size st \<noteq> 0)"
      using ok cl by (auto simp: stream_ok_def split: if_splits)
    then have "take 1 (sw_chain st) = sw_chain st" "sw_size st = 0 \<Longrightarrow> sw_chain st = []" by auto
    then show ?thesis using True by (auto simp: mini_secs_def mini_runs_def chainRuns_secs csecs_def)
  qed (simp add: mini_secs_def mini_runs_def)
qed

lemma checkClosed_ok:
  "\<forall>sid \<in> set (sg_sids sg). sw_closed (ss ! sid) \<Longrightarrow> checkClosed ss sg = None"
  "\<forall>sid \<in> set (concat (map sg_sids sgs)). sw_closed (ss ! sid) \<Longrightarrow> checkClosedAll ss sgs = None"
proof (induction ss sg and ss sgs rule: checkClosed_checkClosedAll.induct)
  case (1 ss m sgs sts)
  then have "find (\<lambda>sid. \<not> sw_closed (ss ! sid)) sts = None" by (auto simp: find_None_iff)
  then show ?case using 1 by simp
qed simp_all

section \<open>The file\<close>

definition close_tail :: "writer \<Rightarrow> regions \<Rightarrow> bytes" where
  "close_tail w rg = words (mini_table w rg) @ words (fat_table w rg) @
     concat (map (difatSector (w_secSize w) rg) [0..<rg_difatCount rg])"

definition close_file :: "writer \<Rightarrow> regions \<Rightarrow> bytes" where
  "close_file w rg = headerSector (w_secSize w) rg @ outB w @ close_tail w rg"

lemma serialize_tail:
  assumes dv: "device_ok dv" and S: "w_secSize w = 512 \<or> w_secSize w = 4096"
    and e: "emitFAT (dv_bw dv) w sz dirStart dirSecs = Inr (w\<lparr>w_cw := cw_app (w_cw w) (words (mini_table w rg) @ words (fat_table w rg))\<rparr>, rg)"
  shows "\<exists>w'. bindE (emitFAT (dv_bw dv) w sz dirStart dirSecs) (\<lambda>(w, rg).
     bindE (emitDIFAT (dv_bw dv) w rg) (\<lambda>w.
     case dv_flush dv (cw_out (w_cw w)) of Some e \<Rightarrow> Inl e | None \<Rightarrow>
     bindE (patchHeader dv w rg) (\<lambda>hdr. Inr (w, hdr @ cw_out (w_cw w))))) = Inr (w', close_file w rg)"
proof -
  have wr: "sink_ok (dv_bw dv)" using dv by (simp add: device_ok_def)
  have "patchHeader dv v rg = Inr (headerSector (w_secSize w) rg)" if "w_secSize v = w_secSize w" for v
    using dv S that by (auto simp: patchHeader_def device_ok_def headerSector_def Let_def headerSize_def wb_skip_def)
  then show ?thesis
    using dv by (simp add: e emitDIFAT_def cw_puts_ok [OF wr] device_ok_def close_file_def close_tail_def outB_def)
qed

lemma w_root_upd [simp]: "geom (w\<lparr>w_root := r\<rparr>) = geom w" "nsec (w\<lparr>w_root := r\<rparr>) = nsec w" "outB (w\<lparr>w_root := r\<rparr>) = outB w"
  "mini_data (w\<lparr>w_root := r\<rparr>) = mini_data w" "owned (w\<lparr>w_root := r\<rparr>) = owned w" "mini_len (w\<lparr>w_root := r\<rparr>) = mini_len w"
  "stream_ok (w\<lparr>w_root := r\<rparr>) st d = stream_ok w st d"
proof -
  have o: "outB (w\<lparr>w_root := r\<rparr>) = outB w" by (simp add: outB_def)
  moreover from o have n: "nsec (w\<lparr>w_root := r\<rparr>) = nsec w" by (simp add: nsec_def)
  moreover from o have m: "mini_data (w\<lparr>w_root := r\<rparr>) = mini_data w" by (simp add: mini_data_def)
  ultimately show "geom (w\<lparr>w_root := r\<rparr>) = geom w" "stream_ok (w\<lparr>w_root := r\<rparr>) st d = stream_ok w st d"
    "nsec (w\<lparr>w_root := r\<rparr>) = nsec w" "outB (w\<lparr>w_root := r\<rparr>) = outB w" "mini_data (w\<lparr>w_root := r\<rparr>) = mini_data w"
    by (simp_all add: geom_def stream_ok_def)
qed (simp_all add: owned_def mini_len_def)

lemma grow_cw: "w\<lparr>w_cw := cw_app (w_cw w) b\<rparr> = grow w b"
  by (simp add: grow_def cw_app_def outB_def)

lemma mset_sids_all: "tree_ok w \<Longrightarrow> closed_all w \<Longrightarrow> sid \<in> set (sg_sids (w_root w)) \<Longrightarrow>
    sid < length (w_streams w) \<and> sw_closed (w_streams w ! sid)"
proof -
  assume t: "tree_ok w" "closed_all w" "sid \<in> set (sg_sids (w_root w))"
  then have "set (sg_sids (w_root w)) = {0..<length (w_streams w)}"
    using mset_eq_setD [of "sg_sids (w_root w)" "[0..<length (w_streams w)]"] by (simp add: tree_ok_def)
  then show ?thesis using t by (simp add: closed_all_def)
qed

text \<open>
  The state \<open>w1\<close> after the directory: the file of \<open>w\<close>, the rest of the mini stream, and the directory
  entries of the sorted tree with the layout \<open>lay\<close>.
\<close>

definition dir_ents :: "writer \<Rightarrow> writer \<Rightarrow> layoutEntry list \<Rightarrow> direntry list" where
  "dir_ents w w1 lay = node_ents \<lparr>sz_miniStart = (if mini_len w = 0 then endOfChain else hd (w_miniSecs w1)),
       sz_miniSize = mini_len w, sz_layout = lay\<rparr> (w_streams w) True 0 (node_of (stream_name w) (w_root w))"

definition closes :: "writer \<Rightarrow> (nat \<Rightarrow> bytes) \<Rightarrow> writer \<Rightarrow> layoutEntry list \<Rightarrow> regions \<Rightarrow> bool" where
  "closes w D w1 lay rg \<longleftrightarrow> geom w1 \<and> w_secSize w1 = w_secSize w \<and> w_streams w1 = w_streams w \<and>
     w_root w1 = sg_sort (stream_name w) (w_root w) \<and> w_miniBuf w1 = [] \<and>
     (\<exists>new. outB w1 = outB w @ new @ dirBytes (w_secSize w) (dir_ents w w1 lay) \<and> length (outB w @ new) = rg_dirStart rg * w_secSize w) \<and>
     (\<exists>z < w_secSize w. mini_data w1 = mini_data w @ replicate z 0 \<and> length (w_miniSecs w1) * w_secSize w = mini_len w + z) \<and>
     (\<forall>sid < length (w_streams w). stream_ok w1 (w_streams w ! sid) (D sid)) \<and>
     laid lay 0 (node_of (stream_name w) (w_root w)) \<and> length lay = sg_nodes (w_root w) \<and>
     list_all readable_de (dir_ents w w1 lay) \<and> good_regions (w_secSize w) rg \<and> nsec w1 = rg_miniFATStart rg \<and>
     rg_dirSecs rg = dirSectors (w_secSize w) (sg_nodes (w_root w)) \<and>
     rg_miniFATSecs rg = (mini_len w div miniSectorSize + w_secSize w div 4 - 1) div (w_secSize w div 4) \<and>
     wf_runs (rg_end rg) (all_runs w1 rg) \<and> mset (runs_secs (all_runs w1 rg)) = mset [0..<rg_end rg] \<and> wf_runs (mini_len w div miniSectorSize) (tree_minis w1) \<and>
     mset (sg_sids (w_root w1)) = mset [0..<length (w_streams w)] \<and> (\<forall>s \<in> set (w_miniSecs w1). unat s < nsec w1)"

lemma dirSectors_le: "S = 512 \<or> S = 4096 \<Longrightarrow> 0 < n \<Longrightarrow> dirSectors S n \<le> n"
proof -
  assume S: "S = 512 \<or> S = 4096" and n: "0 < n"
  have "(n + p - 1) div p \<le> n" if "0 < p" for p
    using ceil_div_le_iff [OF that, of n n] mult_le_mono2 [of 1 p n] that by simp
  then show ?thesis using S dir_count(3) [OF S] by (simp add: dirSectors_def Let_def)
qed

text \<open>
  The state after the directory, whose first sector is \<open>d\<close>: what of \<open>closes\<close> does not depend on the tables that
  follow.
\<close>

definition dir_done :: "writer \<Rightarrow> (nat \<Rightarrow> bytes) \<Rightarrow> writer \<Rightarrow> layoutEntry list \<Rightarrow> nat \<Rightarrow> bool" where
  "dir_done w D w1 lay d \<longleftrightarrow> geom w1 \<and> w_secSize w1 = w_secSize w \<and> w_streams w1 = w_streams w \<and>
     w_root w1 = sg_sort (stream_name w) (w_root w) \<and> w_miniBuf w1 = [] \<and>
     (\<exists>new. outB w1 = outB w @ new @ dirBytes (w_secSize w) (dir_ents w w1 lay) \<and> length (outB w @ new) = d * w_secSize w) \<and>
     (\<exists>z < w_secSize w. mini_data w1 = mini_data w @ replicate z 0 \<and> length (w_miniSecs w1) * w_secSize w = mini_len w + z) \<and>
     (\<forall>sid < length (w_streams w). stream_ok w1 (w_streams w ! sid) (D sid)) \<and>
     laid lay 0 (node_of (stream_name w) (w_root w)) \<and> length lay = sg_nodes (w_root w) \<and>
     list_all readable_de (dir_ents w w1 lay) \<and> nsec w1 = d + dirSectors (w_secSize w) (sg_nodes (w_root w)) \<and>
     owned w1 = mset [0..<d] \<and> d \<le> nsec w + 1 \<and> (\<forall>s \<in> set (w_miniSecs w1). unat s < nsec w1)"

lemma closable_small: "closable w \<Longrightarrow> nsec w + sg_nodes (w_root w) < 2 ^ 31 \<and> mini_len w div miniSectorSize < 2 ^ 31"
  using closable_mini [of w] by (simp add: closable_def)

lemma directory_ok:
  assumes wr: "sink_ok wr" and inv: "winv w D" and tree: "tree_ok w" and root: "root_ok w"
    and cl: "closed_all w" and b: "closable w"
  obtains w0 sz0 w1 sz1 lay d where "serInit wr (w\<lparr>w_closed := True\<rparr>) = Inr (w0, sz0)"
    "emitDirectory wr w0 sz0 = Inr (w1, sz1, d, dirSectors (w_secSize w) (sg_nodes (w_root w)))"
    "sz_miniSize sz1 = mini_len w" "dir_done w D w1 lay d"
proof -
  let ?S = "w_secSize w" and ?nm = "stream_name w" and ?nodes = "sg_nodes (w_root w)" and ?c = "w\<lparr>w_closed := True\<rparr>"
  let ?nd = "node_of (stream_name w) (w_root w)" 
  have g: "geom w" and own: "owned w = mset [0..<nsec w]" using inv by (simp_all add: winv_def)
  have S: "?S = 512 \<or> ?S = 4096" using g by (simp add: geom_def)
  note small = closable_small [OF b, THEN conjunct1] closable_small [OF b, THEN conjunct2]
  have sel: "nsec ?c = nsec w" "mini_len ?c = mini_len w" "outB ?c = outB w" "mini_data ?c = mini_data w" "stream_name ?c = ?nm"
    by (simp_all add: nsec_def outB_def mini_len_def mini_data_def fun_eq_iff stream_name_def)
  have invc: "winv ?c D" using inv by (rule winv_cong) simp_all
  have selc: "w_secSize ?c = ?S" "w_streams ?c = w_streams w" "w_root ?c = w_root w" "w_descendants ?c = w_descendants w"
    by simp_all
  note i0 = serInit_ok [OF wr invc, unfolded sel selc]
  have fit: "nsec w + 1 < 2 ^ 32" using small(1) by simp
  obtain w0 new z where i: "serInit wr ?c = Inr (w0, \<lparr>sz_miniStart = (if mini_len w = 0 then endOfChain else hd (w_miniSecs w0)),
       sz_miniSize = mini_len w, sz_layout = replicate (unat (w_descendants w)) \<lparr>le_leftSib = 0, le_rightSib = 0, le_childID = 0\<rparr>\<rparr>)"
    "geom w0" "w_miniBuf w0 = []" "w_streams w0 = w_streams w" "w_root w0 = w_root w" "w_secSize w0 = ?S"
    "outB w0 = outB w @ new" "mini_data w0 = mini_data w @ replicate z 0" "z < ?S"
    "owned w0 = mset [0..<nsec w0]" "\<forall>s \<in> set (w_miniSecs w0). unat s < nsec w0"
    "length (w_miniSecs w0) * ?S = mini_len w + z" "nsec w0 \<le> nsec w + 1"
    by (rule i0 [OF fit]) blast
  let ?sz = "\<lparr>sz_miniStart = (if mini_len w = 0 then endOfChain else hd (w_miniSecs w0)),
       sz_miniSize = mini_len w, sz_layout = replicate (unat (w_descendants w)) \<lparr>le_leftSib = 0, le_rightSib = 0, le_childID = 0\<rparr>\<rparr>"
  have nm: "stream_name w0 = ?nm" using i(4) by (simp add: fun_eq_iff stream_name_def)
  have desc: "unat (w_descendants w) = ?nodes" using tree small by (simp add: tree_ok_def unat_u32)
  have ext0: "extends w w0 new (replicate z 0)" using g i by (simp add: extends_def)
  have ok0: "stream_ok w0 (w_streams w ! sid) (D sid)" if "sid < length (w_streams w)" for sid
    using inv that by (intro stream_ok_extends [OF ext0]) (simp add: winv_def)
  have clsd: "sw_closed st" if "st \<in> set (w_streams w)" for st using cl that by (simp add: closed_all_def)
  have pl: "placed (w_streams w) (sg_sids (w_root w))"
    using mset_sids_all [OF tree cl] closed_stream(1) [OF ok0] by (simp add: placed_def)
  have lay0: "length (sz_layout ?sz) = sg_nodes (w_root w0)" "sg_nodes (w_root w0) < 2 ^ 32" using desc i(5) small by simp_all
  have ok1: "sg_ok (stream_name w0) (w_root w0)" "root_ok w0" "placed (w_streams w0) (sg_sids (w_root w0))"
    using tree root pl i(4,5) unfolding nm by (simp_all add: tree_ok_def root_ok_def)
  obtain lay where d: "emitDirectory wr w0 ?sz = Inr (w0\<lparr>w_root := sg_sort ?nm (w_root w),
        w_cw := cw_app (w_cw w0) (dirBytes ?S (node_ents (?sz\<lparr>sz_layout := lay\<rparr>) (w_streams w) True 0 ?nd))\<rparr>,
      ?sz\<lparr>sz_layout := lay\<rparr>, nsec w0, dirSectors ?S ?nodes)"
    "laid lay 0 ?nd" "length lay = ?nodes" "list_all readable_de (node_ents (?sz\<lparr>sz_layout := lay\<rparr>) (w_streams w) True 0 ?nd)"
    using emitDirectory_ok [OF wr i(2) lay0 ok1] unfolding nm i(4,5,6) by blast
  let ?sz1 = "?sz\<lparr>sz_layout := lay\<rparr>"
  define ents where "ents = node_ents ?sz1 (w_streams w) True 0 ?nd"
  define w1 where "w1 = w0\<lparr>w_root := sg_sort ?nm (w_root w), w_cw := cw_app (w_cw w0) (dirBytes ?S ents)\<rparr>"
  have w1: "w1 = (grow w0 (dirBytes ?S ents))\<lparr>w_root := sg_sort ?nm (w_root w)\<rparr>"
    unfolding w1_def by (simp flip: grow_cw)
  have ents: "dir_ents w w1 lay = ents" by (simp add: dir_ents_def ents_def w1_def)
  have lenb: "length (dirBytes ?S ents) = dirSectors ?S ?nodes * w_secSize w0"
    using length_dirBytes [OF S, of ents] d(4) i(6) by (simp add: ents_def cnt_node_of)
  have g1: "geom w1" and n1: "nsec w1 = nsec w0 + dirSectors ?S ?nodes"
    and e1: "extends w0 (grow w0 (dirBytes ?S ents)) (dirBytes ?S ents) []"
    unfolding w1 using geom_grow [OF i(2) lenb] nsec_grow [OF i(2) lenb] extends_grow [OF i(2,11) lenb] by simp_all
  have sel1: "w_secSize w1 = ?S" "w_streams w1 = w_streams w" "w_miniSecs w1 = w_miniSecs w0" "w_miniBuf w1 = []"
    "w_root w1 = sg_sort ?nm (w_root w)" using i by (simp_all add: w1_def)
  have md1: "mini_data w1 = mini_data w @ replicate z 0" using e1 i(8) by (simp add: w1 extends_def)
  have ok1: "stream_ok w1 (w_streams w ! sid) (D sid)" if "sid < length (w_streams w)" for sid
    using stream_ok_extends [OF e1 ok0 [OF that]] by (simp add: w1)
  have own1: "owned w1 = mset [0..<nsec w0]" using i(10) by (simp add: owned_def sel1 i(4))
  have secs1: "\<forall>s \<in> set (w_miniSecs w1). unat s < nsec w1" using i(11) n1 by (auto simp: sel1)
  have out: "outB w1 = outB w @ new @ dirBytes ?S (dir_ents w w1 lay)" using i(7) ents by (simp add: w1)
  have lout: "length (outB w @ new) = nsec w0 * ?S" using geom_out [OF i(2)] i(6,7) by simp
  have ex2: "\<exists>z < ?S. mini_data w1 = mini_data w @ replicate z 0 \<and> length (w_miniSecs w1) * ?S = mini_len w + z"
    using i(9,12) md1 sel1(3) by auto
  have re: "list_all readable_de (dir_ents w w1 lay)" using d(4) unfolding ents ents_def .
  have "dir_done w D w1 lay (nsec w0)"
    unfolding dir_done_def using out lout ex2 g1 sel1(1,2,4,5) ok1 d(2,3) re n1 own1 i(13) secs1 by (intro conjI exI [of _ new]) simp_all
  with i(1) d(1) show thesis by (intro that [of w0 ?sz w1 ?sz1 "nsec w0" lay]) (simp_all add: w1_def ents_def)
qed

lemma tables_ok:
  assumes wr: "sink_ok wr" and dd: "dir_done w D w1 lay d" and inv: "winv w D" and tree: "tree_ok w"
    and cl: "closed_all w" and b: "closable w" and sz: "sz_miniSize sz = mini_len w"
  obtains rg where "emitFAT wr w1 sz d (dirSectors (w_secSize w) (sg_nodes (w_root w))) =
      Inr (w1\<lparr>w_cw := cw_app (w_cw w1) (words (mini_table w1 rg) @ words (fat_table w1 rg))\<rparr>, rg)" "closes w D w1 lay rg"
proof -
  let ?S = "w_secSize w" and ?nodes = "sg_nodes (w_root w)"
  have g: "geom w" using inv by (simp add: winv_def)
  then have S: "?S = 512 \<or> ?S = 4096" by (simp add: geom_def)
  note small = closable_small [OF b, THEN conjunct1] closable_small [OF b, THEN conjunct2]
  have g1: "geom w1" and sel1: "w_secSize w1 = ?S" "w_streams w1 = w_streams w" "w_root w1 = sg_sort (stream_name w) (w_root w)"
    and ok0: "\<And>sid. sid < length (w_streams w) \<Longrightarrow> stream_ok w1 (w_streams w ! sid) (D sid)"
    and n1: "nsec w1 = d + dirSectors ?S ?nodes" "d \<le> nsec w + 1" and own1: "owned w1 = mset [0..<d]"
    and secs1: "\<forall>s \<in> set (w_miniSecs w1). unat s < nsec w1"
    using dd unfolding dir_done_def by blast+
  have clsd: "sw_closed st" if "st \<in> set (w_streams w)" for st using cl that by (simp add: closed_all_def)
  have sids: "mset (sg_sids (w_root w1)) = mset [0..<length (w_streams w1)]"
    using tree by (simp add: sel1 mset_sids_sort tree_ok_def)
  have "set (sg_sids (w_root w1)) = {0..<length (w_streams w)}" using mset_eq_setD [OF sids] sel1(2) by simp
  then have inr: "sid < length (w_streams w)" if "sid \<in> set (sg_sids (w_root w1))" for sid using that by simp
  have shape: "\<forall>st \<in> set (w_streams w1). mini_secs st = runs_secs (mini_runs st) \<and> (\<forall>r \<in> set (mini_runs st). fr_count r \<noteq> 0)"
  proof
    fix st assume "st \<in> set (w_streams w1)"
    then obtain sid where "sid < length (w_streams w)" "st = w_streams w ! sid" by (auto simp: sel1 in_set_conv_nth)
    then show "mini_secs st = runs_secs (mini_runs st) \<and> (\<forall>r \<in> set (mini_runs st). fr_count r \<noteq> 0)"
      using closed_stream(2,3) [OF ok0] clsd by simp
  qed
  have treg: "\<forall>r \<in> set (tree_runs w1). fr_count r \<noteq> 0"
    using inr closed_stream(4) [OF ok0] clsd by (auto simp: tree_runs_def sel1)
  let ?n = "mini_len w div miniSectorSize"
  have wfm: "wf_runs ?n (tree_minis w1)"
    using inv by (intro tree_minis_cover [OF sids shape]) (simp add: sel1 winv_def)
  have szn: "sz_miniSize sz = ?n * miniSectorSize" using mini_len_dvd [OF g] sz by simp
  have dle: "dirSectors ?S ?nodes \<le> ?nodes" using dirSectors_le [OF S] sg_nodes_pos by blast
  then have "nsec w1 < 2 ^ 32 - 1" using n1 small(1) by simp
  then have secs: "\<forall>s \<in> set (w_miniSecs w1). unat s < 2 ^ 32 - 1" using secs1 by fastforce
  have pl1: "placed (w_streams w1) (sg_sids (w_root w1))"
    using inr closed_stream(1) [OF ok0] clsd by (auto simp: placed_def sel1)
  obtain rg where r: "emitFAT wr w1 sz (d) (dirSectors ?S ?nodes) =
      Inr (w1\<lparr>w_cw := cw_app (w_cw w1) (words (mini_table w1 rg) @ words (fat_table w1 rg))\<rparr>, rg)"
    "good_regions (w_secSize w1) rg" "rg_dirStart rg = d" "rg_dirSecs rg = dirSectors ?S ?nodes"
    "rg_miniFATSecs rg = (?n + w_secSize w1 div 4 - 1) div (w_secSize w1 div 4)" "wf_runs (rg_end rg) (all_runs w1 rg)"
    "mset (runs_secs (all_runs w1 rg)) = mset [0..<rg_end rg]"
    using emitFAT_ok [OF wr g1 sids pl1 secs own1 treg wfm szn small(2), of "dirSectors ?S ?nodes"] n1 dle n1(2) small(1) by auto
  moreover have "nsec w1 = rg_miniFATStart rg" using r(2,3,4) n1 by (simp add: good_regions_def)
  ultimately have "closes w D w1 lay rg"
    using dd wfm sids sel1 unfolding closes_def dir_done_def by auto
  with r(1) show thesis by (rule that)
qed

lemma closeWriter_ok:
  assumes dv: "device_ok dv" and inv: "winv w D" and tree: "tree_ok w" and root: "root_ok w"
    and cl: "closed_all w" and nc: "\<not> w_closed w" and b: "closable w"
  obtains w' w1 lay rg where "closeWriter dv w = (w', Inr (close_file w1 rg))" "closes w D w1 lay rg"
proof -
  have wr: "sink_ok (dv_bw dv)" using dv by (simp add: device_ok_def)
  obtain w0 sz0 w1 sz1 lay d where d: "serInit (dv_bw dv) (w\<lparr>w_closed := True\<rparr>) = Inr (w0, sz0)"
    "emitDirectory (dv_bw dv) w0 sz0 = Inr (w1, sz1, d, dirSectors (w_secSize w) (sg_nodes (w_root w)))"
    "sz_miniSize sz1 = mini_len w" "dir_done w D w1 lay d"
    by (rule directory_ok [OF wr inv tree root cl b])
  obtain rg where r: "emitFAT (dv_bw dv) w1 sz1 d (dirSectors (w_secSize w) (sg_nodes (w_root w))) =
      Inr (w1\<lparr>w_cw := cw_app (w_cw w1) (words (mini_table w1 rg) @ words (fat_table w1 rg))\<rparr>, rg)" "closes w D w1 lay rg"
    by (rule tables_ok [OF wr d(4) inv tree cl b d(3)])
  have "w_secSize w1 = 512 \<or> w_secSize w1 = 4096"
  proof -
    have "geom w1" using r(2) unfolding closes_def by blast
    then show ?thesis by (simp add: geom_def)
  qed
  from serialize_tail [OF dv this r(1)] obtain w' where t: "serialize dv (w\<lparr>w_closed := True\<rparr>) = Inr (w', close_file w1 rg)"
    using d(1,2) by (auto simp: serialize_def)
  have "checkClosed (w_streams w) (w_root w) = None"
    using checkClosed_ok(1) mset_sids_all [OF tree cl] by blast
  then have "closeWriter dv w = (w', Inr (close_file w1 rg))"
    using nc t by (simp add: closeWriter_def Let_def)
  with r(2) show thesis by (rule that [rotated])
qed

section \<open>Refused\<close>

lemma checkClosed_open:
  "\<exists>sid \<in> set (sg_sids sg). \<not> sw_closed (ss ! sid) \<Longrightarrow>
   \<exists>sid \<in> set (sg_sids sg). \<not> sw_closed (ss ! sid) \<and> checkClosed ss sg = Some (ErrStreamNotClosed (utf16_decode (sw_name (ss ! sid))))"
  "\<exists>sid \<in> set (concat (map sg_sids sgs)). \<not> sw_closed (ss ! sid) \<Longrightarrow>
   \<exists>sid \<in> set (concat (map sg_sids sgs)). \<not> sw_closed (ss ! sid) \<and>
     checkClosedAll ss sgs = Some (ErrStreamNotClosed (utf16_decode (sw_name (ss ! sid))))"
proof (induction ss sg and ss sgs rule: checkClosed_checkClosedAll.induct)
  case (1 ss m sgs sts)
  show ?case
  proof (cases "\<exists>sid \<in> set (concat (map sg_sids sgs)). \<not> sw_closed (ss ! sid)")
    case True
    then show ?thesis using 1 by fastforce
  next
    case False
    then have n: "checkClosedAll ss sgs = None" by (intro checkClosed_ok(2)) auto
    obtain sid where f: "find (\<lambda>sid. \<not> sw_closed (ss ! sid)) sts = Some sid"
      using 1 False by (cases "find (\<lambda>sid. \<not> sw_closed (ss ! sid)) sts") (auto simp: find_None_iff)
    then have "sid \<in> set sts" "\<not> sw_closed (ss ! sid)" by (auto simp: find_Some_iff)
    then show ?thesis using n f by auto
  qed
next
  case (3 ss sg sgs)
  show ?case
  proof (cases "\<exists>sid \<in> set (sg_sids sg). \<not> sw_closed (ss ! sid)")
    case True
    then show ?thesis using 3 by fastforce
  next
    case False
    then have "checkClosed ss sg = None" by (intro checkClosed_ok(1)) auto
    then show ?thesis using 3 False by fastforce
  qed
qed simp

definition sample_device :: device where
  "sample_device = \<lparr>dv_bw = full_sink, dv_flush = (\<lambda>_. None), dv_seek = None, dv_raw = (\<lambda>_. None)\<rparr>"

lemma sample_device_ok: "device_ok sample_device"
  using full_sink_ok by (simp add: device_ok_def sample_device_def)

text \<open>C32: \<open>Writer.Close\<close> writes nothing and changes nothing when it must not run: with a stream of the tree
  still open it names such a stream in \<open>ErrStreamNotClosed\<close>, and on a writer that has been closed it
  returns \<open>ErrClosedTwice\<close>.\<close>

theorem closeWriter_refuses:
  "((\<exists>sid \<in> set (sg_sids (w_root w)). \<not> sw_closed (w_streams w ! sid)) \<longrightarrow>
     (\<exists>sid \<in> set (sg_sids (w_root w)). \<not> sw_closed (w_streams w ! sid) \<and>
        closeWriter dv w = (w, Inl (ErrStreamNotClosed (utf16_decode (sw_name (w_streams w ! sid))))))) \<and>
   ((\<forall>sid \<in> set (sg_sids (w_root w)). sw_closed (w_streams w ! sid)) \<and> w_closed w \<longrightarrow>
     closeWriter dv w = (w, Inl ErrClosedTwice))"
  using checkClosed_open(1) [of "w_root w" "w_streams w"] checkClosed_ok(1) [of "w_root w" "w_streams w"]
  by (fastforce simp: closeWriter_def)

theorem closeWriter_refuses_witness:
  "closeWriter sample_device (cs_w sample_open) = (cs_w sample_open, Inl (ErrStreamNotClosed [0x41])) \<and>
   closeWriter sample_device ((cs_w sample_closed)\<lparr>w_closed := True\<rparr>) = ((cs_w sample_closed)\<lparr>w_closed := True\<rparr>, Inl ErrClosedTwice)"
  using closeWriter_refuses [of "cs_w sample_open" sample_device] closeWriter_refuses [of "(cs_w sample_closed)\<lparr>w_closed := True\<rparr>" sample_device]
  by (simp add: sample_open_def sample_closed_def sample_writer_def sample_stream_def newWriter_def utf16_decode.simps)

end
