(* ===== verification/ReadBack.thy ===== *)
theory ReadBack
  imports Close Reader
begin

text \<open>
  What \<open>NewReader\<close> finds in a file \<open>Writer.Close\<close> has made (\<open>closes\<close>): phase by phase, the header, the FAT
  and the mini-FAT of the writer's tables, the directory entries, the sectors of the mini stream.
\<close>

section \<open>The sectors of the file\<close>

lemma length_difatSector: "S = 512 \<or> S = 4096 \<Longrightarrow> length (difatSector S rg i) = S"
  by (auto simp: difatSector_def Let_def u32.length_puts simp del: map_append)

lemma length_headerSector: "S = 512 \<or> S = 4096 \<Longrightarrow> length (headerSector S rg) = S"
  by (auto simp: headerSector_def length_encodeHeader headerSize_def wb_skip_def)

definition close_body :: "writer \<Rightarrow> regions \<Rightarrow> bytes" where
  "close_body w rg = outB w @ close_tail w rg"

lemma closes_geom:
  assumes "closes w D w1 lay rg"
  shows "w_secSize w1 = 512 \<or> w_secSize w1 = 4096" "good_regions (w_secSize w1) rg"
    "length (outB w1) = rg_miniFATStart rg * w_secSize w1" "w_secSize w = w_secSize w1"
    "wf_runs (rg_end rg) (all_runs w1 rg)"
proof -
  have g: "geom w1" and n: "nsec w1 = rg_miniFATStart rg" and S: "w_secSize w1 = w_secSize w"
    and r: "good_regions (w_secSize w) rg" and wf: "wf_runs (rg_end rg) (all_runs w1 rg)"
    using assms unfolding closes_def by blast+
  show "w_secSize w1 = 512 \<or> w_secSize w1 = 4096" using g by (simp add: geom_def)
  show "good_regions (w_secSize w1) rg" "w_secSize w = w_secSize w1" using r S by simp_all
  show "length (outB w1) = rg_miniFATStart rg * w_secSize w1" using geom_out [OF g] n by simp
  show "wf_runs (rg_end rg) (all_runs w1 rg)" by (rule wf)
qed

lemma length_tables:
  assumes "S = 512 \<or> S = 4096" "w_secSize w = S"
  shows "length (words (mini_table w rg)) = rg_miniFATSecs rg * S" "length (words (fat_table w rg)) = rg_fatCount rg * S"
    "length (concat (map (difatSector S rg) [0..<rg_difatCount rg])) = rg_difatCount rg * S"
  using assms length_concat_const [of "[0..<rg_difatCount rg]" "difatSector S rg" S] length_difatSector [OF assms(1)]
  by (auto simp: length_words mini_table_def fat_table_def)

lemma length_close_body:
  assumes "closes w D w1 lay rg"
  shows "length (close_body w1 rg) = rg_end rg * w_secSize w1"
proof -
  note c = closes_geom [OF assms]
  have "rg_end rg = rg_miniFATStart rg + rg_miniFATSecs rg + rg_fatCount rg + rg_difatCount rg"
    using c(2) by (simp add: good_regions_def rg_end_def)
  then show ?thesis
    using length_tables [OF c(1) refl, of rg] c(3) by (simp add: close_body_def close_tail_def add_mult_distrib)
qed

lemma close_file_body: "close_file w rg = headerSector (w_secSize w) rg @ close_body w rg"
  by (simp add: close_file_def close_body_def)

lemma length_close_file:
  "closes w D w1 lay rg \<Longrightarrow> length (close_file w1 rg) = (rg_end rg + 1) * w_secSize w1"
  using closes_geom(1) length_headerSector length_close_body by (simp add: close_file_body)

lemma file_sector:
  assumes "closes w D w1 lay rg"
  shows "sector_bytes (close_file w1 rg) (w_secSize w1) sec = slice (unat sec * w_secSize w1) (w_secSize w1) (close_body w1 rg)"
    "in_file (close_file w1 rg) (w_secSize w1) sec \<longleftrightarrow> unat sec < rg_end rg"
proof -
  note c = closes_geom [OF assms]
  have l: "length (headerSector (w_secSize w1) rg) = w_secSize w1" using c(1) by (rule length_headerSector)
  show "sector_bytes (close_file w1 rg) (w_secSize w1) sec = slice (unat sec * w_secSize w1) (w_secSize w1) (close_body w1 rg)"
    using l by (simp add: sector_bytes_def close_file_body slice_def)
  have "0 < w_secSize w1" using c(1) by auto
  then show "in_file (close_file w1 rg) (w_secSize w1) sec \<longleftrightarrow> unat sec < rg_end rg"
    unfolding in_file_def length_close_file [OF assms] by (metis add_2_eq_Suc' add.commute Suc_eq_plus1 Suc_le_eq mult_le_cancel2 not_less_eq plus_1_eq_Suc)
qed

lemma end_bound:
  assumes "closes w D w1 lay rg"
  shows "rg_end rg < 2 ^ 32 - 2 ^ 20" "k < rg_end rg \<Longrightarrow> unat (word_of_nat k :: u32) = k"
    "k < rg_end rg \<Longrightarrow> (word_of_nat k :: u32) \<le> maxRegSect"
proof -
  note c = closes_geom [OF assms]
  show e: "rg_end rg < 2 ^ 32 - 2 ^ 20" using good_regions_end [OF c(2)] c(2) by (simp add: good_regions_def)
  show u: "unat (word_of_nat k :: u32) = k" if "k < rg_end rg" for k using that e by (intro unat_u32) simp
  show "(word_of_nat k :: u32) \<le> maxRegSect" if "k < rg_end rg" for k
    using u [OF that] e that by (simp add: word_le_nat_alt maxRegSect_def)
qed

text \<open>A region of the file, read sector by sector.\<close>

lemma slices_concat:
  "(a + n) * S \<le> length b \<Longrightarrow> concat (map (\<lambda>k. slice (k * S) S b) [a..<a + n]) = slice (a * S) (n * S) b"
proof (induction n)
  case (Suc n)
  have "[a..<a + Suc n] = [a..<a + n] @ [a + n]" by simp
  moreover have "slice (a * S) (Suc n * S) b = slice (a * S) (n * S) b @ slice (a * S + n * S) S b"
    by (simp only: slice_add mult_Suc add.commute [of S])
  ultimately show ?case using Suc by (simp add: add_mult_distrib)
qed (simp add: slice_def)

lemma region_bytes:
  assumes c: "closes w D w1 lay rg" and n: "a + n \<le> rg_end rg"
  shows "concat (map (sector_bytes (close_file w1 rg) (w_secSize w1)) (map word_of_nat [a..<a + n])) =
      slice (a * w_secSize w1) (n * w_secSize w1) (close_body w1 rg)"
    "\<forall>sec \<in> set (map word_of_nat [a..<a + n]). in_file (close_file w1 rg) (w_secSize w1) sec \<and> sec \<le> maxRegSect"
proof -
  have "map (sector_bytes (close_file w1 rg) (w_secSize w1) \<circ> word_of_nat) [a..<a + n] =
      map (\<lambda>k. slice (k * w_secSize w1) (w_secSize w1) (close_body w1 rg)) [a..<a + n]"
    using n end_bound(2) [OF c] by (intro map_cong refl) (simp add: file_sector(1) [OF c])
  moreover have "(a + n) * w_secSize w1 \<le> length (close_body w1 rg)"
    unfolding length_close_body [OF c] using n by (rule mult_le_mono1)
  ultimately show "concat (map (sector_bytes (close_file w1 rg) (w_secSize w1)) (map word_of_nat [a..<a + n])) =
      slice (a * w_secSize w1) (n * w_secSize w1) (close_body w1 rg)"
    by (simp only: map_map slices_concat)
  show "\<forall>sec \<in> set (map word_of_nat [a..<a + n]). in_file (close_file w1 rg) (w_secSize w1) sec \<and> sec \<le> maxRegSect"
    using n end_bound(2,3) [OF c] by (auto simp: file_sector(2) [OF c])
qed

lemma u32s_words: "u32s (words xs) = xs"
  using u32.rb_many_put [of xs "[]"] length_words [of xs] by (simp add: u32s_def words_def)

section \<open>The header\<close>

abbreviation close_header :: "writer \<Rightarrow> regions \<Rightarrow> header" where
  "close_header w rg \<equiv> headerOf (w_secSize w) rg"

lemma regions_fit_good:
  assumes c: "closes w D w1 lay rg"
  shows "regions_fit (w_secSize w1) rg"
proof -
  note g = closes_geom [OF c] and e = end_bound(1) [OF c]
  have "rg_dirSecs rg \<le> rg_end rg" "rg_miniFATSecs rg \<le> rg_end rg" "rg_miniFATStart rg \<le> rg_end rg"
    "rg_fatCount rg \<le> rg_end rg" "rg_difatCount rg \<le> rg_end rg" "0 < rg_fatCount rg"
    using g(2) by (simp_all add: good_regions_def rg_end_def covers_def)
  then show ?thesis
    using g(1,2) e good_regions_end [OF g(2)] by (auto simp: regions_fit_def good_regions_def endOfChain_def)
qed

lemma close_headerOf:
  assumes c: "closes w D w1 lay rg"
  shows "h_secSize (close_header w1 rg) = w_secSize w1"
    "unat (h_NumFATSectors (close_header w1 rg)) = rg_fatCount rg"
    "unat (h_NumMiniFATSectors (close_header w1 rg)) = rg_miniFATSecs rg"
    "unat (h_NumDIFATSectors (close_header w1 rg)) = rg_difatCount rg"
    "unat (h_NumDirSectors (close_header w1 rg)) = (if w_secSize w1 = 4096 then rg_dirSecs rg else 0)"
    "h_FirstDirSector (close_header w1 rg) = word_of_nat (rg_dirStart rg)"
    "h_FirstMiniFATSector (close_header w1 rg) = (if 0 < rg_miniFATSecs rg then word_of_nat (rg_miniFATStart rg) else endOfChain)"
    "h_FirstDIFATSector (close_header w1 rg) = (if 0 < rg_difatCount rg then word_of_nat (rg_difatStart rg) else endOfChain)"
    "h_MajorVersion (close_header w1 rg) = (if w_secSize w1 = 4096 then 4 else 3)"
    "h_DIFAT (close_header w1 rg) = map (\<lambda>i. word_of_nat (rg_fatStart rg) + word_of_nat i) [0..<min (rg_fatCount rg) inlineDIFAT]
       @ replicate (inlineDIFAT - min (rg_fatCount rg) inlineDIFAT) freeSect"
  using regions_fit_good [OF c] h_secSize_headerOf [OF closes_geom(1) [OF c]]
  by (auto simp: regions_fit_def headerOf_def Let_def unat_u32 majorOf_def)

lemma close_parseHeader:
  assumes c: "closes w D w1 lay rg" and rd: "strict_reader_at rd (close_file w1 rg) EOF"
  shows "parseHeader rd = Inr (close_header w1 rg)" "checkFileSize rd (close_header w1 rg) = None"
proof -
  note g = closes_geom [OF c] and h = close_headerOf [OF c]
  have "take (w_secSize w1) (close_file w1 rg) = headerSector (w_secSize w1) rg"
    using length_headerSector [OF g(1)] by (simp add: close_file_body)
  then show "parseHeader rd = Inr (close_header w1 rg)"
    by (rule parse_headerSector [OF regions_fit_good [OF c] rd])
  let ?d = "declaredSize (close_header w1 rg)"
  have "1 + rg_fatCount rg + rg_difatCount rg + rg_miniFATSecs rg + (if w_secSize w1 = 4096 then rg_dirSecs rg else 0) \<le> rg_end rg + 1"
    using g(2) by (simp add: good_regions_def rg_end_def)
  then have le: "?d \<le> length (close_file w1 rg)"
    unfolding declaredSize_def h length_close_file [OF c] by (rule mult_le_mono1)
  have "0 < ?d" using g(1) by (auto simp: declaredSize_def h)
  then have "rd (?d - 1) 1 = (slice (?d - 1) 1 (close_file w1 rg), None)"
    using le by (intro strict_reader_at.full_read [OF rd]) simp_all
  moreover have "length (slice (?d - 1) 1 (close_file w1 rg)) = 1" using le \<open>0 < ?d\<close> by (simp add: slice_def)
  ultimately show "checkFileSize rd (close_header w1 rg) = None" by (simp add: checkFileSize_def Let_def)
qed

section \<open>The DIFAT and the FAT\<close>

lemma freeSect_not_regular: "x \<le> maxRegSect \<Longrightarrow> x \<noteq> freeSect"
  by (auto simp: sect_defs word_le_nat_alt)

lemma filter_upt_less: "filter (\<lambda>j. k + j < n) [0..<m] = [0..<min m (n - k :: nat)]"
proof (induction m)
  case (Suc m)
  show ?case
  proof (cases "k + m < n")
    case True
    then have "min m (n - k) = m" "min (Suc m) (n - k) = Suc m" by auto
    then show ?thesis using Suc True by simp
  next
    case False
    then have "min m (n - k) = min (Suc m) (n - k)" by auto
    then show ?thesis using Suc False by simp
  qed
qed simp

lemma map_shift: "map (\<lambda>j. f (k + j)) [0..<n] = map f [k..<k + n :: nat]"
  by (rule nth_equalityI) simp_all

lemma slice_skip: "length pre = p \<Longrightarrow> slice (p + k) n (pre @ b) = slice k n b"
  by (simp add: slice_def)

lemma difatCells_regular: "\<forall>v \<in> set vs. v \<le> maxRegSect \<Longrightarrow> difatCells r (vs @ replicate n freeSect) = Inr vs"
proof (induction vs)
  case Nil
  show ?case by (induction n) simp_all
next
  case (Cons v vs)
  then show ?case using freeSect_not_regular [of v] by auto
qed

text \<open>The first \<open>n\<close> FAT sectors.\<close>

definition fat_sectors :: "regions \<Rightarrow> nat \<Rightarrow> u32 list" where
  "fat_sectors rg n = map (\<lambda>j. word_of_nat (rg_fatStart rg + j)) [0..<min (rg_fatCount rg) n]"

lemma fat_sectors_regular:
  assumes c: "closes w D w1 lay rg"
  shows "\<forall>v \<in> set (fat_sectors rg n). v \<le> maxRegSect"
proof -
  have "rg_fatStart rg + rg_fatCount rg \<le> rg_end rg"
    using closes_geom(2) [OF c] by (simp add: good_regions_def rg_end_def)
  then show ?thesis using end_bound(3) [OF c] by (auto simp: fat_sectors_def simp del: of_nat_add)
qed

lemma fat_sectors_add:
  "fat_sectors rg (k + m) = fat_sectors rg k @
     map (\<lambda>j. word_of_nat (rg_fatStart rg + (k + j))) (filter (\<lambda>j. k + j < rg_fatCount rg) [0..<m])"
proof -
  let ?f = "\<lambda>j. word_of_nat (rg_fatStart rg + j) :: u32" and ?n = "rg_fatCount rg"
  have "map (\<lambda>j. ?f (k + j)) [0..<min m (?n - k)] = map ?f [k..<k + min m (?n - k)]" by (rule map_shift)
  moreover have "map ?f [0..<min ?n (k + m)] = map ?f [0..<min ?n k] @ map ?f [k..<k + min m (?n - k)]"
  proof (cases "?n \<le> k")
    case True
    then show ?thesis by (simp add: min_def)
  next
    case False
    then have "min ?n (k + m) = k + min m (?n - k)" "min ?n k = k" by auto
    moreover have "[0..<k + x] = [0..<k] @ [k..<k + x]" for x using upt_add_eq_append [of 0 k x] by simp
    ultimately show ?thesis by (simp only: map_append)
  qed
  ultimately show ?thesis by (simp only: fat_sectors_def filter_upt_less)
qed

text \<open>What \<open>readDIFAT\<close> makes of a DIFAT sector.\<close>

definition difat_cells :: "nat \<Rightarrow> regions \<Rightarrow> nat \<Rightarrow> u32 list" where
  "difat_cells m rg k = map (\<lambda>j. if k + j < rg_fatCount rg then word_of_nat (rg_fatStart rg + (k + j)) else freeSect) [0..<m]"

lemma difatCells_sector:
  assumes c: "closes w D w1 lay rg"
  shows "\<exists>vs. difatCells r (difat_cells m rg k) = Inr vs \<and> fat_sectors rg (k + m) = fat_sectors rg k @ vs"
proof -
  let ?f = "\<lambda>j. word_of_nat (rg_fatStart rg + (k + j)) :: u32" and ?n = "rg_fatCount rg"
  have e: "rg_fatStart rg + ?n \<le> rg_end rg" using closes_geom(2) [OF c] by (simp add: good_regions_def rg_end_def)
  then have reg: "?f j \<le> maxRegSect" if "k + j < ?n" for j using end_bound(3) [OF c] that by (simp del: of_nat_add)
  have "difatCells r (difat_cells m rg k) = Inr (filter (\<lambda>v. v \<noteq> freeSect) (difat_cells m rg k))"
    using reg by (intro difatCells_ok) (auto simp: difat_cells_def simp del: of_nat_add)
  moreover have "filter (\<lambda>v. v \<noteq> freeSect) (difat_cells m rg k) = map ?f (filter (\<lambda>j. k + j < ?n) [0..<m])"
  proof -
    have "filter (\<lambda>j. (if k + j < ?n then ?f j else freeSect) \<noteq> freeSect) [0..<m] = filter (\<lambda>j. k + j < ?n) [0..<m]"
      using reg freeSect_not_regular by (intro filter_cong refl) (auto simp del: of_nat_add)
    then show ?thesis by (simp add: difat_cells_def filter_map o_def cong: map_cong del: of_nat_add)
  qed
  ultimately show ?thesis using fat_sectors_add by simp
qed

lemma difatSector_cells:
  "difatSector S rg i = concat (map wb_uint32 (difat_cells (S div 4 - 1) rg (inlineDIFAT + i * (S div 4 - 1)))) @
     wb_uint32 (if i + 1 < rg_difatCount rg then word_of_nat (rg_difatStart rg + i + 1) else endOfChain)"
  unfolding difatSector_def difat_cells_def Let_def add.assoc by simp

lemma close_difat_sector:
  assumes c: "closes w D w1 lay rg" and i: "i < rg_difatCount rg"
  shows "sector_bytes (close_file w1 rg) (w_secSize w1) (word_of_nat (rg_difatStart rg + i)) = difatSector (w_secSize w1) rg i"
proof -
  note g = closes_geom [OF c] and t = length_tables [OF closes_geom(1) [OF c] refl, of rg]
  let ?S = "w_secSize w1"
  let ?pre = "outB w1 @ words (mini_table w1 rg) @ words (fat_table w1 rg)"
  have st: "rg_difatStart rg = rg_miniFATStart rg + rg_miniFATSecs rg + rg_fatCount rg" "rg_difatStart rg + i < rg_end rg"
    using g(2) i by (simp_all add: good_regions_def rg_end_def)
  have "length ?pre = rg_difatStart rg * ?S" using t g(3) st(1) by (simp add: add_mult_distrib)
  moreover have "close_body w1 rg = ?pre @ concat (map (difatSector ?S rg) [0..<rg_difatCount rg])"
    by (simp add: close_body_def close_tail_def)
  ultimately have "slice ((rg_difatStart rg + i) * ?S) ?S (close_body w1 rg) =
      slice (i * ?S) ?S (concat (map (difatSector ?S rg) [0..<rg_difatCount rg]))"
    by (simp only: add_mult_distrib slice_skip)
  then show ?thesis
    using slice_concat_const [of "[0..<rg_difatCount rg]" "difatSector ?S rg" ?S i] length_difatSector [OF g(1)] i end_bound(2) [OF c st(2)] file_sector(1) [OF c] by simp
qed

lemma close_difat_loop:
  assumes c: "closes w D w1 lay rg" and rd: "strict_reader_at rd (close_file w1 rg) EOF"
  defines "m \<equiv> w_secSize w1 div 4 - 1"
  shows "i + n = rg_difatCount rg \<Longrightarrow>
    difat_loop n rd (w_secSize w1) (if i < rg_difatCount rg then word_of_nat (rg_difatStart rg + i) else endOfChain)
      (fat_sectors rg (inlineDIFAT + i * m)) = Inr (endOfChain, fat_sectors rg (inlineDIFAT + rg_difatCount rg * m))"
proof (induction n arbitrary: i)
  case (Suc n)
  let ?S = "w_secSize w1" and ?sec = "word_of_nat (rg_difatStart rg + i) :: u32"
  have i: "i < rg_difatCount rg" using Suc.prems by simp
  have e: "rg_difatStart rg + i < rg_end rg" using i by (simp add: rg_end_def)
  have S0: "0 < ?S" using closes_geom(1) [OF c] by auto
  let ?nxt = "if i + 1 < rg_difatCount rg then word_of_nat (rg_difatStart rg + i + 1) else endOfChain :: u32"
  have "in_file (close_file w1 rg) ?S ?sec" using e end_bound(2) [OF c e] file_sector(2) [OF c] by (simp del: of_nat_add)
  then have "(unat ?sec + 1) * ?S + ?S \<le> length (close_file w1 rg)" by (simp add: in_file_def add_mult_distrib)
  then have "rd ((unat ?sec + 1) * ?S) ?S = (sector_bytes (close_file w1 rg) ?S ?sec, None)"
    unfolding sector_bytes_def by (intro strict_reader_at.full_read [OF rd]) (use S0 in simp_all)
  then have r: "rd ((unat ?sec + 1) * ?S) ?S = (difatSector ?S rg i, None)"
    by (simp only: close_difat_sector [OF c i])
  have many: "rb_many m rb_uint32 (difatSector ?S rg i) = (difat_cells m rg (inlineDIFAT + i * m), wb_uint32 ?nxt)"
    using u32.rb_many_put [of "difat_cells m rg (inlineDIFAT + i * m)" "wb_uint32 ?nxt"]
    unfolding difatSector_cells m_def [symmetric] by (simp add: difat_cells_def del: of_nat_add)
  obtain vs where vs: "difatCells DIFATSectorEntryTooLarge (difat_cells m rg (inlineDIFAT + i * m)) = Inr vs"
    "fat_sectors rg (inlineDIFAT + i * m + m) = fat_sectors rg (inlineDIFAT + i * m) @ vs"
    using difatCells_sector [OF c] by blast
  have nxt: "fst (rb_uint32 (wb_uint32 ?nxt)) = ?nxt" using u32.get_put [of ?nxt "[]"] by simp
  have reg: "\<not> maxRegSect < ?sec" using end_bound(3) [OF c e] by (simp add: not_less del: of_nat_add)
  then have reg: "?sec \<noteq> endOfChain" "\<not> maxRegSect < ?sec" by (auto simp: sect_defs simp del: of_nat_add)
  have nx: "?nxt = (if Suc i < rg_difatCount rg then word_of_nat (rg_difatStart rg + Suc i) else endOfChain)"
    by (simp add: add.assoc)
  have m: "inlineDIFAT + Suc i * m = inlineDIFAT + i * m + m" by simp
  have IH: "difat_loop n rd ?S ?nxt (fat_sectors rg (inlineDIFAT + i * m) @ vs) =
      Inr (endOfChain, fat_sectors rg (inlineDIFAT + rg_difatCount rg * m))"
    using Suc.IH [of "Suc i"] Suc.prems unfolding nx vs(2) [symmetric] m [symmetric] by simp
  show ?case
    using i reg by (simp only: difat_loop.simps if_True if_False r Let_def prod.case option.case m_def [symmetric] many vs(1) bindE.simps nxt IH)
qed simp

lemma fat_sectors_all:
  "rg_fatCount rg \<le> n \<Longrightarrow> fat_sectors rg n = map word_of_nat [rg_fatStart rg ..< rg_fatStart rg + rg_fatCount rg]"
  unfolding fat_sectors_def map_shift by (simp add: min_def)

lemma close_readDIFAT:
  assumes c: "closes w D w1 lay rg" and rd: "strict_reader_at rd (close_file w1 rg) EOF"
  shows "readDIFAT rd (close_header w1 rg) = Inr (map word_of_nat [rg_fatStart rg ..< rg_fatStart rg + rg_fatCount rg])"
proof -
  note h = close_headerOf [OF c] and g = closes_geom(2) [OF c]
  let ?secs = "map word_of_nat [rg_fatStart rg ..< rg_fatStart rg + rg_fatCount rg] :: u32 list"
  have "h_DIFAT (close_header w1 rg) = fat_sectors rg inlineDIFAT @ replicate (inlineDIFAT - min (rg_fatCount rg) inlineDIFAT) freeSect"
    unfolding h(10) fat_sectors_def by simp
  then have inline: "difatCells InlineDIFATEntryTooLarge (h_DIFAT (close_header w1 rg)) = Inr (fat_sectors rg inlineDIFAT)"
    using difatCells_regular [OF fat_sectors_regular [OF c]] by simp
  have "rg_fatCount rg \<le> inlineDIFAT + rg_difatCount rg * (w_secSize w1 div 4 - 1)"
    using g by (simp add: good_regions_def covers_def)
  note all = fat_sectors_all [OF this]
  have loop: "difat_loop (rg_difatCount rg) rd (w_secSize w1) (if 0 < rg_difatCount rg then word_of_nat (rg_difatStart rg) else endOfChain)
      (fat_sectors rg inlineDIFAT) = Inr (endOfChain, ?secs)"
    using close_difat_loop [OF c rd, of 0 "rg_difatCount rg"]
    by (simp only: all mult_zero_left add_0_right add_0 simp_thms)
  show ?thesis
    unfolding readDIFAT_total [OF headerOf_valid [OF regions_fit_good [OF c]]] inline bindE.simps h(1,2,4,8) loop prod.case by simp
qed

lemma close_batch:
  assumes c: "closes w D w1 lay rg"
  shows "0 < bufLen (close_header w1 rg) div w_secSize w1"
  using batch_pos [OF headerOf_valid [OF regions_fit_good [OF c]]] close_headerOf(1) [OF c] by (simp add: batchOf_def)

lemma close_table:
  assumes c: "closes w D w1 lay rg" and rd: "strict_reader_at rd (close_file w1 rg) EOF"
    and n: "a + n \<le> rg_end rg" and b: "slice (a * w_secSize w1) (n * w_secSize w1) (close_body w1 rg) = words cells"
  shows "loadBatches (\<lambda>buf. Inr (u32s buf)) rd (w_secSize w1) (bufLen (close_header w1 rg)) (map word_of_nat [a..<a + n]) = Inr cells"
proof -
  have "4 dvd w_secSize w1" "0 < w_secSize w1" using closes_geom(1) [OF c] by auto
  then show ?thesis
    using table_parser.loadBatches_eq [OF rd _ _ close_batch [OF c] region_bytes(2) [OF c n]]
    unfolding region_bytes(1) [OF c n] b u32s_words by blast
qed

lemma close_tables_at:
  assumes c: "closes w D w1 lay rg"
  shows "slice (rg_miniFATStart rg * w_secSize w1) (rg_miniFATSecs rg * w_secSize w1) (close_body w1 rg) = words (mini_table w1 rg)"
    "slice (rg_fatStart rg * w_secSize w1) (rg_fatCount rg * w_secSize w1) (close_body w1 rg) = words (fat_table w1 rg)"
proof -
  note g = closes_geom [OF c]
  note t = length_tables [OF g(1) refl, of rg]
  let ?S = "w_secSize w1"
  show "slice (rg_miniFATStart rg * ?S) (rg_miniFATSecs rg * ?S) (close_body w1 rg) = words (mini_table w1 rg)"
    using slice_skip [OF g(3), of 0] t by (simp add: close_body_def close_tail_def) (simp add: slice_def)
  have "length (outB w1 @ words (mini_table w1 rg)) = rg_fatStart rg * ?S"
    using g(2,3) t by (simp add: good_regions_def flip: add_mult_distrib)
  from slice_skip [OF this, of 0 _ "words (fat_table w1 rg) @ concat (map (difatSector ?S rg) [0..<rg_difatCount rg])"]
  show "slice (rg_fatStart rg * ?S) (rg_fatCount rg * ?S) (close_body w1 rg) = words (fat_table w1 rg)"
    using t by (simp add: close_body_def close_tail_def) (simp add: slice_def)
qed

lemma close_loadFAT:
  assumes c: "closes w D w1 lay rg" and rd: "strict_reader_at rd (close_file w1 rg) EOF"
  shows "loadFAT rd (close_header w1 rg) = Inr (fat_table w1 rg)"
proof -
  have "rg_fatStart rg + rg_fatCount rg \<le> rg_end rg" using closes_geom(2) [OF c] by (simp add: good_regions_def rg_end_def)
  then show ?thesis
    unfolding loadFAT_total [OF headerOf_valid [OF regions_fit_good [OF c]]] close_readDIFAT [OF c rd] bindE.simps close_headerOf(1) [OF c]
    using close_tables_at(2) [OF c] by (rule close_table [OF c rd])
qed

section \<open>Chains\<close>

lemma close_chain:
  assumes c: "closes w D w1 lay rg" and l: "linked rs" "set rs \<subseteq> set (all_runs w1 rg)"
    and n: "n = 0 \<or> n = length (runs_secs rs)"
  shows "walkChain (fat_table w1 rg) (fr_first (hd rs)) n = Inr (map word_of_nat (runs_secs rs))"
proof -
  note g = closes_geom [OF c]
  have "rg_end rg \<le> unat maxRegSect + 1" using end_bound(1) [OF c] by (simp add: maxRegSect_def)
  from chain_path_linked [OF g(5) this good_regions_end [OF g(2)] l]
  show ?thesis using n by (auto simp: walkChain_iff fat_table_def run_sectors_fat_secs)
qed

lemma region_chain:
  assumes c: "closes w D w1 lay rg" and r: "\<lparr>fr_first = word_of_nat a, fr_count = word_of_nat k, fr_terminal = endOfChain, fr_linear = True\<rparr> \<in> set (metadataRuns rg)"
    and b: "a + k \<le> rg_end rg" "0 < k" and n: "n = 0 \<or> n = k"
  shows "walkChain (fat_table w1 rg) (word_of_nat a) n = Inr (map word_of_nat [a..<a + k])"
proof -
  let ?r = "\<lparr>fr_first = word_of_nat a, fr_count = word_of_nat k, fr_terminal = endOfChain, fr_linear = True\<rparr>"
  have u: "unat (word_of_nat a :: u32) = a" "unat (word_of_nat k :: u32) = k"
    using b end_bound(1) [OF c] by (auto intro!: unat_u32)
  then have "(word_of_nat k :: u32) \<noteq> 0" using b(2) by (metis less_irrefl unat_0)
  then have "linked [?r]" "set [?r] \<subseteq> set (all_runs w1 rg)" using r by (simp_all add: all_runs_def)
  moreover have s: "runs_secs [?r] = [a..<a + k]" using u by (simp add: fat_secs_def run_end_def)
  ultimately show ?thesis using close_chain [OF c, of "[?r]" n] n unfolding s by simp
qed

lemma close_loadMiniFAT:
  assumes c: "closes w D w1 lay rg" and rd: "strict_reader_at rd (close_file w1 rg) EOF"
  shows "loadMiniFAT rd (close_header w1 rg) (fat_table w1 rg) = Inr (mini_table w1 rg)"
proof -
  note h = close_headerOf [OF c] and g = closes_geom(2) [OF c]
  have e: "rg_miniFATStart rg + rg_miniFATSecs rg \<le> rg_end rg" using g by (simp add: good_regions_def rg_end_def)
  show ?thesis
  proof (cases "rg_miniFATSecs rg = 0")
    case True
    then show ?thesis using h(3) by (simp add: loadMiniFAT_total [OF headerOf_valid [OF regions_fit_good [OF c]]] mini_table_def unat_eq_0)
  next
    case False
    then have n0: "h_NumMiniFATSectors (close_header w1 rg) \<noteq> 0" using h(3) by auto
    have ch: "walkChain (fat_table w1 rg) (word_of_nat (rg_miniFATStart rg)) (rg_miniFATSecs rg) =
        Inr (map word_of_nat [rg_miniFATStart rg ..< rg_miniFATStart rg + rg_miniFATSecs rg])"
      using False by (intro region_chain [OF c _ e]) (simp_all add: metadataRuns_def)
    have first: "h_FirstMiniFATSector (close_header w1 rg) = word_of_nat (rg_miniFATStart rg)" using h(7) False by simp
    show ?thesis
      unfolding loadMiniFAT_total [OF headerOf_valid [OF regions_fit_good [OF c]]] if_not_P [OF n0] h(1,3) first ch bindE.simps
      using close_tables_at(1) [OF c] by (rule close_table [OF c rd e])
  qed
qed

section \<open>The directory\<close>

lemma parseEntryBuf_one:
  assumes "readable_de de" "checkStreamSize h n m (rawOf (h_MajorVersion h) de) = Inr (rawOf (h_MajorVersion h) de)"
  shows "parseEntryBuf h n m (deBytes de) = Inr [rawOf (h_MajorVersion h) de]"
  using deBytes_ok(2,3) [OF assms(1)] assms(2) by (simp add: parseEntryBuf_def direntrySize_def)

lemma parseEntryBuf_empty: "parseEntryBuf h n m emptyDirentry = Inr [rawEmpty]"
proof -
  have "checkStreamSize h n m rawEmpty = Inr rawEmpty" by (simp add: checkStreamSize_def rawEmpty_def object_defs)
  then show ?thesis
    by (simp add: parseEntryBuf_def length_emptyDirentry parse_emptyDirentry) (simp add: direntrySize_def parse_emptyDirentry)
qed

lemma parseEntryBuf_empties: "parseEntryBuf h n m (concat (replicate k emptyDirentry)) = Inr (replicate k rawEmpty)"
proof (induction k)
  case 0
  show ?case by (simp add: parseEntryBuf_def)
next
  case (Suc k)
  then show ?case
    using parseEntryBuf_append [of emptyDirentry h n m "concat (replicate k emptyDirentry)"]
    by (simp add: length_emptyDirentry parseEntryBuf_empty)
qed

definition size_fits :: "header \<Rightarrow> nat \<Rightarrow> nat \<Rightarrow> direntry \<Rightarrow> bool" where
  "size_fits h n m de \<longleftrightarrow> checkStreamSize h n m (rawOf (h_MajorVersion h) de) = Inr (rawOf (h_MajorVersion h) de)"

lemma parseEntryBuf_ents:
  "list_all readable_de ents \<Longrightarrow> list_all (size_fits h n m) ents \<Longrightarrow>
   parseEntryBuf h n m (concat (map deBytes ents) @ concat (replicate k emptyDirentry)) =
     Inr (map (rawOf (h_MajorVersion h)) ents @ replicate k rawEmpty)"
proof (induction ents)
  case Nil
  then show ?case by (simp add: parseEntryBuf_empties)
next
  case (Cons de ents)
  then have "parseEntryBuf h n m (deBytes de) = Inr [rawOf (h_MajorVersion h) de]"
    by (intro parseEntryBuf_one) (simp_all add: size_fits_def)
  then show ?case
    using Cons parseEntryBuf_append [of "deBytes de" h n m "concat (map deBytes ents) @ concat (replicate k emptyDirentry)"]
      deBytes_ok(2) [of de] by simp
qed

definition raw_entries :: "writer \<Rightarrow> writer \<Rightarrow> layoutEntry list \<Rightarrow> rawEntry list" where
  "raw_entries w w1 lay = map (rawOf (majorOf (w_secSize w1))) (dir_ents w w1 lay) @
     replicate (dirPad (w_secSize w1) (sg_nodes (w_root w))) rawEmpty"

lemma length_dir_ents: "length (dir_ents w w1 lay) = sg_nodes (w_root w)"
  by (simp add: dir_ents_def cnt_node_of)

lemma dir_ents_hd: "\<exists>m es. dir_ents w w1 lay = storageEntry \<lparr>sz_miniStart = (if mini_len w = 0 then endOfChain else hd (w_miniSecs w1)),
    sz_miniSize = mini_len w, sz_layout = lay\<rparr> m True (lay ! 0) # es \<and> m = sg_meta (w_root w)"
  by (cases "w_root w") (simp add: dir_ents_def)

lemma close_parseEntries:
  assumes c: "closes w D w1 lay rg" and rd: "strict_reader_at rd (close_file w1 rg) EOF"
    and sizes: "list_all (size_fits (close_header w1 rg) (length (fat_table w1 rg)) (length (mini_table w1 rg))) (dir_ents w w1 lay)"
  shows "parseEntries rd (close_header w1 rg) (fat_table w1 rg) (mini_table w1 rg) = Inr (raw_entries w w1 lay)"
proof -
  note g = closes_geom [OF c] and h = close_headerOf [OF c]
  let ?S = "w_secSize w1" and ?h = "close_header w1 rg" and ?ents = "dir_ents w w1 lay"
  let ?n = "length (fat_table w1 rg)" and ?m = "length (mini_table w1 rg)"
  let ?k = "dirPad ?S (sg_nodes (w_root w))"
  have re: "list_all readable_de ?ents" and ds: "rg_dirSecs rg = dirSectors ?S (sg_nodes (w_root w))"
    using c by (simp_all add: closes_def)
  obtain new where o: "outB w1 = (outB w @ new) @ dirBytes ?S ?ents" "length (outB w @ new) = rg_dirStart rg * ?S"
    using c g(4) by (auto simp: closes_def)
  have e: "rg_dirStart rg + rg_dirSecs rg \<le> rg_end rg" using g(2) by (simp add: good_regions_def rg_end_def)
  have d0: "0 < rg_dirSecs rg"
  proof (rule ccontr)
    assume "\<not> 0 < rg_dirSecs rg"
    then have "sg_nodes (w_root w) = 0" using dir_count(1) [OF g(1), of "sg_nodes (w_root w)"] ds by simp
    then show False using sg_nodes_pos [of "w_root w"] by simp
  qed
  have ch: "walkChain (fat_table w1 rg) (h_FirstDirSector ?h) (unat (h_NumDirSectors ?h)) =
      Inr (map word_of_nat [rg_dirStart rg ..< rg_dirStart rg + rg_dirSecs rg])"
    unfolding h using d0 by (intro region_chain [OF c _ e]) (simp_all add: metadataRuns_def)
  have dl: "length (dirBytes ?S ?ents) = rg_dirSecs rg * ?S"
    using length_dirBytes [OF g(1) re] ds by (simp add: length_dir_ents)
  have b: "slice (rg_dirStart rg * ?S) (rg_dirSecs rg * ?S) (close_body w1 rg) = dirBytes ?S ?ents"
    using slice_skip [OF o(2), of 0 "rg_dirSecs rg * ?S" "dirBytes ?S ?ents @ close_tail w1 rg"] dl
    by (simp add: close_body_def o(1)) (simp add: slice_def)
  have "?S mod direntrySize = 0" "direntrySize dvd ?S" "0 < ?S" using g(1) by (auto simp: direntrySize_def)
  then have md: "rg_dirSecs rg * ?S mod direntrySize = 0" by (metis mod_mult_right_eq mult_0_right mod_0)
  have v: "h_MajorVersion ?h = majorOf ?S" by (simp add: headerOf_def Let_def)
  have p: "parseEntryBuf ?h ?n ?m (dirBytes ?S ?ents) = Inr (raw_entries w w1 lay)"
    using parseEntryBuf_ents [OF re sizes] by (simp add: dirBytes_def raw_entries_def length_dir_ents v)
  have lb: "loadBatches (parseEntryBuf ?h ?n ?m) rd ?S (bufLen ?h) (map word_of_nat [rg_dirStart rg ..< rg_dirStart rg + rg_dirSecs rg]) =
      Inr (raw_entries w w1 lay)"
    using entry_parser.loadBatches_eq [OF rd \<open>0 < ?S\<close> \<open>direntrySize dvd ?S\<close> close_batch [OF c] region_bytes(2) [OF c e], of ?h ?n ?m]
    unfolding region_bytes(1) [OF c e] b p .
  obtain x xs where x: "raw_entries w w1 lay = x # xs" "re_objectType x = objectRoot"
    using dir_ents_hd [of w w1 lay] by (auto simp: raw_entries_def rawOf_def storageEntry_def Let_def)
  show ?thesis
    unfolding parseEntries_total [OF headerOf_valid [OF regions_fit_good [OF c]]] ch bindE.simps h(1) lb using md x by simp
qed

end
