(* ===== verification/StreamBack.thy ===== *)
theory StreamBack
  imports ReadBack
begin

text \<open>
  The streams of a file \<open>Writer.Close\<close> has made: the reader accepts their sizes, follows their chains,
  and the bytes at the addresses it resolves are those that were written.
\<close>

section \<open>The streams of the writer\<close>

lemma padMini_eq: "\<exists>z < miniSectorSize. padMini d = d @ replicate z 0"
  by (auto simp: padMini_def Let_def miniSectorSize_def intro!: exI [of _ 0])

lemma stream_cases:
  assumes c: "closes w D w1 lay rg" and cl: "closed_all w" and sid: "sid < length (w_streams w)"
  defines "st \<equiv> w_streams w ! sid"
  obtains (empty) "sw_size st = 0" "D sid = []"
  | (mini) r z where "0 < sw_size st" "sw_size st < miniStreamCutoff" "sw_chain st = [r]" "sr_count r \<noteq> 0"
      "unat (sr_count r) * miniSectorSize = sw_size st + z" "z < miniSectorSize"
      "rdata miniSectorSize (mini_data w1) r = D sid @ replicate z 0"
      "(unat (sr_first r) + unat (sr_count r)) * miniSectorSize \<le> mini_len w"
      "set (chainRuns [r]) \<subseteq> set (tree_minis w1)" "length (D sid) = sw_size st"
  | (regular) z where "miniStreamCutoff \<le> sw_size st" "runs_in (nsec w1) (sw_chain st)" "sw_chain st \<noteq> []"
      "z < w_secSize w1" "cdata (w_secSize w1) (outB w1) (sw_chain st) = D sid @ replicate z 0"
      "set (chainRuns (sw_chain st)) \<subseteq> set (tree_runs w1)" "length (D sid) = sw_size st"
proof -
  have ok: "stream_ok w1 st (D sid)" and ss: "w_streams w1 = w_streams w"
    and wfm: "wf_runs (mini_len w div miniSectorSize) (tree_minis w1)"
    and sids: "mset (sg_sids (w_root w1)) = mset [0..<length (w_streams w)]"
    using c sid unfolding closes_def st_def by blast+
  have "set (sg_sids (w_root w1)) = {0..<length (w_streams w)}" using mset_eq_setD [OF sids] by simp
  then have mem: "sid \<in> set (sg_sids (w_root w1))" using sid by simp
  have closed: "sw_closed st" using cl sid by (simp add: closed_all_def st_def)
  have len: "length (D sid) = sw_size st" using ok by (simp add: stream_ok_def)
  have ri: "runs_in (if sw_size st < miniStreamCutoff then 2 ^ 32 else nsec w1) (sw_chain st)" using ok by (simp add: stream_ok_def)
  consider "sw_size st = 0" | "0 < sw_size st" "sw_size st < miniStreamCutoff" | "miniStreamCutoff \<le> sw_size st" by linarith
  then show thesis
  proof cases
    case 1
    then show thesis using empty len by simp
  next
    case 2
    then obtain r where r: "sw_chain st = [r]" "unat (sr_count r) * miniSectorSize = length (padMini (D sid))"
      "rdata miniSectorSize (mini_data w1) r = padMini (D sid)"
      using ok closed by (auto simp: stream_ok_def)
    obtain z where z: "z < miniSectorSize" "padMini (D sid) = D sid @ replicate z 0" using padMini_eq by blast
    have sub: "set (chainRuns [r]) \<subseteq> set (tree_minis w1)"
      using mem 2 r(1) by (auto simp: tree_minis_def mini_runs_def ss st_def intro!: bexI [of _ sid])
    then have "unat (sr_first r) + unat (sr_count r) \<le> mini_len w div miniSectorSize"
      by (force simp: run_end_def dest!: wf_runs_end [OF wfm])
    then have "(unat (sr_first r) + unat (sr_count r)) * miniSectorSize \<le> mini_len w div miniSectorSize * miniSectorSize"
      by (rule mult_le_mono1)
    also have "\<dots> \<le> mini_len w" by simp
    finally show thesis using mini 2 r z sub ri len by (simp add: runs_in_def)
  next
    case 3
    then obtain z where z: "z < w_secSize w1" "cdata (w_secSize w1) (outB w1) (sw_chain st) = D sid @ replicate z 0"
      using ok closed by (auto simp: stream_ok_def)
    have "set (chainRuns (sw_chain st)) \<subseteq> set (tree_runs w1)"
      using mem 3 by (auto simp: tree_runs_def reg_runs_def ss st_def intro!: bexI [of _ sid])
    moreover have "sw_chain st \<noteq> []"
      using closed_stream(1) [OF ok closed] 3 by (simp add: miniStreamCutoff_def)
    ultimately show thesis using regular 3 z ri len by simp
  qed
qed

section \<open>Sizes\<close>

lemma close_lengths:
  assumes c: "closes w D w1 lay rg" and g0: "geom w" and b: "closable w"
  shows "mini_len w \<le> length (mini_table w1 rg) * miniSectorSize" "length (mini_table w1 rg) < 2 ^ 32"
    "nsec w1 \<le> length (fat_table w1 rg)" "length (fat_table w1 rg) < 2 ^ 32"
proof -
  note g = closes_geom [OF c]
  let ?p = "w_secSize w1 div 4" and ?n = "mini_len w div miniSectorSize"
  have M: "rg_miniFATSecs rg = (?n + ?p - 1) div ?p"
    and n: "nsec w1 = rg_miniFATStart rg" using c g(4) unfolding closes_def by simp_all
  have p: "0 < ?p" "?p \<le> 1024" using g(1) by auto
  have lm: "length (mini_table w1 rg) = rg_miniFATSecs rg * ?p" by (simp add: mini_table_def)
  have "?n \<le> length (mini_table w1 rg)" "length (mini_table w1 rg) < ?n + ?p"
    unfolding lm using ceil_div_bounds(1,2) [OF p(1) M] by simp_all
  moreover have "?n * miniSectorSize = mini_len w" using mini_len_dvd [OF g0] by simp
  ultimately show "mini_len w \<le> length (mini_table w1 rg) * miniSectorSize" "length (mini_table w1 rg) < 2 ^ 32"
    using p(2) closable_mini [OF b] by (metis mult_le_mono1, simp)
  have "length (fat_table w1 rg) = rg_fatCount rg * ?p" by (simp add: fat_table_def)
  then show "nsec w1 \<le> length (fat_table w1 rg)" "length (fat_table w1 rg) < 2 ^ 32"
    using good_regions_end [OF g(2)] g(2) n by (simp_all add: good_regions_def rg_end_def)
qed

definition capped :: "writer \<Rightarrow> bool" where
  "capped w \<longleftrightarrow> (w_secSize w = 512 \<longrightarrow> (\<forall>st \<in> set (w_streams w). sw_size st \<le> streamSizeMaxV3))"

lemma version_size_id:
  assumes "S = 4096 \<or> n < 2 ^ 32"
  shows "version_size (majorOf S) (word_of_nat n) = word_of_nat n"
proof -
  have "(word_of_nat n :: u64) AND 0xFFFFFFFF = word_of_nat n" if "n < 2 ^ 32"
  proof -
    have m: "(0xFFFFFFFF :: u64) = mask 32" by (simp add: mask_eq_exp_minus_1)
    have "take_bit 32 (word_of_nat n :: u64) = word_of_nat n"
      using that by (simp add: take_bit_of_nat take_bit_nat_eq_self)
    then show ?thesis unfolding m by (simp add: take_bit_eq_mask)
  qed
  then show ?thesis using assms by (auto simp: version_size_def majorOf_def)
qed

lemma unat_u64: "n < 2 ^ 64 \<Longrightarrow> unat (word_of_nat n :: u64) = n"
  by (simp add: unsigned_of_nat take_bit_nat_eq_self_iff)

lemma unat_mult_u64: "a < 2 ^ 32 \<Longrightarrow> b < 2 ^ 32 \<Longrightarrow> unat (word_of_nat a * word_of_nat b :: u64) = a * b"
proof -
  assume a: "a < 2 ^ 32" "b < 2 ^ 32"
  have "a * b < 2 ^ 32 * 2 ^ 32" using a by (intro mult_strict_mono) simp_all
  then show ?thesis using a by (simp add: unat_word_ariths unat_u64)
qed

lemma regular_chain:
  assumes c: "closes w D w1 lay rg" and ch: "chain \<noteq> []" "runs_in (nsec w1) chain" "set (chainRuns chain) \<subseteq> set (tree_runs w1)"
    and n: "n = 0 \<or> n = length (csecs chain)"
  shows "walkChain (fat_table w1 rg) (sr_first (hd chain)) n = Inr (map word_of_nat (csecs chain))"
    "length (csecs chain) \<le> length (fat_table w1 rg)"
proof -
  have l: "linked (chainRuns chain)" "fr_first (hd (chainRuns chain)) = sr_first (hd chain)"
    using chainRuns_linked [OF ch(1,2)] by simp_all
  have sub: "set (chainRuns chain) \<subseteq> set (all_runs w1 rg)" using ch(3) by (auto simp: all_runs_def)
  show "walkChain (fat_table w1 rg) (sr_first (hd chain)) n = Inr (map word_of_nat (csecs chain))"
    using close_chain [OF c l(1) sub] n by (simp add: l(2) chainRuns_secs)
  have "walkChain (fat_table w1 rg) (sr_first (hd chain)) 0 = Inr (map word_of_nat (csecs chain))"
    using close_chain [OF c l(1) sub] by (simp add: l(2) chainRuns_secs)
  then show "length (csecs chain) \<le> length (fat_table w1 rg)"
    using chain_path_length by (fastforce simp: walkChain_iff)
qed

text \<open>Every stream is at most as large as its table can map.\<close>

lemma stream_size:
  assumes c: "closes w D w1 lay rg" and cl: "closed_all w" and g0: "geom w" and b: "closable w" and sid: "sid < length (w_streams w)"
  defines "sz \<equiv> sw_size (w_streams w ! sid)"
  shows "sz \<le> (if sz < miniStreamCutoff then length (mini_table w1 rg) * miniSectorSize else length (fat_table w1 rg) * w_secSize w1)"
  using c cl sid
proof (cases rule: stream_cases)
  case empty
  then show ?thesis by (simp add: sz_def)
next
  case (mini r z)
  have "sz \<le> unat (sr_count r) * miniSectorSize" using mini(5) by (simp add: sz_def)
  also have "\<dots> \<le> mini_len w" using mini(8) by (simp add: add_mult_distrib)
  also note close_lengths(1) [OF c g0 b]
  finally show ?thesis using mini(2) by (simp add: sz_def)
next
  case (regular z)
  have "length (cdata (w_secSize w1) (outB w1) (sw_chain (w_streams w ! sid))) = length (csecs (sw_chain (w_streams w ! sid))) * w_secSize w1"
    using regular(2) closes_geom(3) [OF c] c by (intro length_cdata) (auto simp: closes_def)
  then have "sz \<le> length (csecs (sw_chain (w_streams w ! sid))) * w_secSize w1" using regular(5,7) by (simp add: sz_def)
  also have "\<dots> \<le> length (fat_table w1 rg) * w_secSize w1"
    using regular_chain(2) [OF c regular(3,2,6), of 0] by simp
  finally show ?thesis using regular(1) by (simp add: sz_def)
qed

lemma stream_size_small:
  assumes c: "closes w D w1 lay rg" and cl: "closed_all w" and g0: "geom w" and b: "closable w" and sid: "sid < length (w_streams w)"
  shows "sw_size (w_streams w ! sid) < 2 ^ 44"
proof -
  have "w_secSize w1 \<le> 4096" using closes_geom(1) [OF c] by auto
  then have "length (fat_table w1 rg) * w_secSize w1 \<le> (2 ^ 32 - 1) * 4096" "length (mini_table w1 rg) * miniSectorSize \<le> (2 ^ 32 - 1) * 4096"
    using close_lengths(2,4) [OF c g0 b] by (intro mult_le_mono; simp add: miniSectorSize_def)+
  then show ?thesis using stream_size [OF assms] by (auto split: if_splits)
qed

lemma stream_size_fits:
  assumes c: "closes w D w1 lay rg" and cl: "closed_all w" and g0: "geom w" and b: "closable w" and cap: "capped w"
    and sid: "sid < length (w_streams w)"
  shows "size_fits (close_header w1 rg) (length (fat_table w1 rg)) (length (mini_table w1 rg)) (streamDe (w_streams w ! sid) le)"
proof -
  let ?sz = "sw_size (w_streams w ! sid)" and ?h = "close_header w1 rg"
  note g = closes_geom [OF c]
  have sm: "?sz < 2 ^ 44" by (rule stream_size_small [OF c cl g0 b sid])
  have v3: "w_secSize w1 = 512 \<Longrightarrow> ?sz \<le> streamSizeMaxV3" using cap g(4) sid by (simp add: capped_def)
  then have v: "version_size (h_MajorVersion ?h) (word_of_nat ?sz) = word_of_nat ?sz"
    using g(1) version_size_id [of "w_secSize w1" ?sz] by (auto simp: headerOf_def Let_def streamSizeMaxV3_def)
  have u: "unat (word_of_nat ?sz :: u64) = ?sz" using sm by (intro unat_u64) simp
  have S: "w_secSize w1 < 2 ^ 32" using g(1) by auto
  note l = close_lengths [OF c g0 b]
  have m: "unat (word_of_nat (length (mini_table w1 rg)) * word_of_nat miniSectorSize :: u64) = length (mini_table w1 rg) * miniSectorSize"
    "unat (word_of_nat (length (fat_table w1 rg)) * word_of_nat (w_secSize w1) :: u64) = length (fat_table w1 rg) * w_secSize w1"
    by (rule unat_mult_u64 [OF l(2)], simp add: miniSectorSize_def, rule unat_mult_u64 [OF l(4) S])
  have cut: "(word_of_nat ?sz :: u64) < word_of_nat miniStreamCutoff \<longleftrightarrow> ?sz < miniStreamCutoff"
    using u unat_u64 [of miniStreamCutoff] by (simp add: word_less_nat_alt miniStreamCutoff_def)
  have hs: "h_secSize ?h = w_secSize w1" "h_MajorVersion ?h = (if w_secSize w1 = 4096 then 4 else 3)"
    using close_headerOf [OF c] by simp_all
  have c1: "\<not> 2 ^ 63 - 1 < (word_of_nat ?sz :: u64)" using u sm by (simp add: word_less_nat_alt)
  have c2: "\<not> (h_MajorVersion ?h = 3 \<and> word_of_nat streamSizeMaxV3 < (word_of_nat ?sz :: u64))"
    using v3 g(1) u hs(2) unat_u64 [of streamSizeMaxV3] by (auto simp: word_less_nat_alt streamSizeMaxV3_def split: if_splits)
  have c3: "\<not> (if (word_of_nat ?sz :: u64) < word_of_nat miniStreamCutoff
      then word_of_nat (length (mini_table w1 rg)) * word_of_nat miniSectorSize
      else word_of_nat (length (fat_table w1 rg)) * word_of_nat (h_secSize ?h)) < (word_of_nat ?sz :: u64)"
    using stream_size [OF c cl g0 b sid] unfolding cut hs(1) by (auto simp: word_less_nat_alt m u split: if_splits)
  have rs: "re_streamSize (rawOf (h_MajorVersion ?h) (streamDe (w_streams w ! sid) le)) = word_of_nat ?sz"
    by (simp add: rawOf_def streamDe_def v)
  show ?thesis
    unfolding size_fits_def checkStreamSize_def Let_def rs using c1 c2 c3 by (simp only: if_False de_Morgan_disj simp_thms if_cancel)
qed

section \<open>Bytes\<close>

lemma gather_blocks:
  assumes "\<forall>off \<in> set offs. off + n \<le> length F"
  shows "gather F (blocks n offs) = concat (map (\<lambda>off. slice off n F) offs)"
  using assms by (induction offs) (simp_all add: gather_def blocks_def slice_map_nth)

lemma gather_take: "gather F (take n xs) = take n (gather F xs)"
  by (simp add: gather_def take_map)

lemma cdata_secs:
  "runs_in n chain \<Longrightarrow> length out = n * S \<Longrightarrow> cdata S out chain = concat (map (\<lambda>k. slice (k * S) S out) (csecs chain))"
proof (induction chain)
  case (Cons r chain)
  have "(unat (sr_first r) + unat (sr_count r)) * S \<le> length out"
    using Cons.prems by (simp add: runs_in_def)
  then have "rdata S out r = concat (map (\<lambda>k. slice (k * S) S out) (rsecs r))"
    unfolding rsecs_def rdata_def by (rule slices_concat [symmetric])
  moreover have "runs_in n chain" using Cons.prems(1) by (simp add: runs_in_def)
  ultimately show ?case using Cons by (simp add: cdata_def csecs_def)
qed (simp add: cdata_def csecs_def)

lemma csecs_less: "runs_in n chain \<Longrightarrow> k \<in> set (csecs chain) \<Longrightarrow> k < n"
  by (fastforce simp: csecs_def rsecs_def runs_in_def)

lemma nsec_end:
  assumes c: "closes w D w1 lay rg"
  shows "nsec w1 \<le> rg_end rg"
  using c closes_geom(2) [OF c] unfolding closes_def by (simp add: good_regions_def rg_end_def)

text \<open>A sector of the writer in the file.\<close>

lemma out_sector:
  assumes c: "closes w D w1 lay rg" and k: "k < nsec w1" and r: "r + n \<le> w_secSize w1"
  shows "slice ((k + 1) * w_secSize w1 + r) n (close_file w1 rg) = slice r n (slice (k * w_secSize w1) (w_secSize w1) (outB w1))"
    "(k + 1) * w_secSize w1 + r + n \<le> length (close_file w1 rg)"
proof -
  note g = closes_geom [OF c]
  let ?S = "w_secSize w1"
  have o: "length (outB w1) = nsec w1 * ?S" using c g(3) unfolding closes_def by simp
  have le: "(k + 1) * ?S \<le> length (outB w1)" unfolding o using k by (intro mult_le_mono1) simp
  have f: "close_file w1 rg = headerSector ?S rg @ outB w1 @ close_tail w1 rg" by (simp add: close_file_def)
  have "slice ((k + 1) * ?S + r) n (close_file w1 rg) = slice (k * ?S + r) n (outB w1 @ close_tail w1 rg)"
    unfolding f using slice_skip [OF length_headerSector [OF g(1), of rg], of "k * ?S + r"] by (simp add: add_ac)
  also have "\<dots> = slice (k * ?S + r) n (outB w1)"
    using le r by (intro slice_append) simp
  also have "\<dots> = slice r n (slice (k * ?S) ?S (outB w1))" using r by (simp only: slice_slice)
  finally show "slice ((k + 1) * ?S + r) n (close_file w1 rg) = slice r n (slice (k * ?S) ?S (outB w1))" .
  show "(k + 1) * ?S + r + n \<le> length (close_file w1 rg)"
    using le r length_headerSector [OF g(1), of rg] by (simp add: f)
qed

lemma regular_bytes:
  assumes c: "closes w D w1 lay rg" and ch: "runs_in (nsec w1) chain"
  shows "gather (close_file w1 rg) (sector_addrs (w_secSize w1) (map word_of_nat (csecs chain))) = cdata (w_secSize w1) (outB w1) chain"
    "\<forall>a \<in> set (sector_addrs (w_secSize w1) (map word_of_nat (csecs chain))). a < length (close_file w1 rg)"
proof -
  let ?S = "w_secSize w1" and ?F = "close_file w1 rg"
  have o: "length (outB w1) = nsec w1 * ?S" using c closes_geom(3) [OF c] unfolding closes_def by simp
  have u: "unat (word_of_nat k :: u32) = k" if "k \<in> set (csecs chain)" for k
    using csecs_less [OF ch that] nsec_end [OF c] end_bound(2) [OF c, of k] by simp
  let ?offs = "map (\<lambda>k. (k + 1) * ?S) (csecs chain)"
  have a: "sector_addrs ?S (map word_of_nat (csecs chain)) = blocks ?S ?offs"
    unfolding sector_addrs_def map_map using u by (intro arg_cong [of _ _ "blocks ?S"] map_cong refl) simp
  have le: "\<forall>off \<in> set ?offs. off + ?S \<le> length ?F"
    using out_sector(2) [OF c csecs_less [OF ch], of _ 0 ?S] by auto
  have "concat (map (\<lambda>off. slice off ?S ?F) ?offs) = concat (map (\<lambda>k. slice (k * ?S) ?S (outB w1)) (csecs chain))"
    unfolding map_map
  proof (intro arg_cong [of _ _ concat] map_cong refl)
    fix k assume "k \<in> set (csecs chain)"
    from out_sector(1) [OF c csecs_less [OF ch this], of 0 ?S]
    show "((\<lambda>off. slice off ?S ?F) \<circ> (\<lambda>k. (k + 1) * ?S)) k = slice (k * ?S) ?S (outB w1)"
      by (simp add: slice_slice)
  qed
  then show "gather ?F (sector_addrs ?S (map word_of_nat (csecs chain))) = cdata ?S (outB w1) chain"
    using gather_blocks [OF le] cdata_secs [OF ch o] a by simp
  show "\<forall>a \<in> set (sector_addrs ?S (map word_of_nat (csecs chain))). a < length ?F"
    using le unfolding a by (auto simp: blocks_def)
qed

text \<open>A mini sector in the file.\<close>

definition mini_off :: "writer \<Rightarrow> nat \<Rightarrow> nat" where
  "mini_off w k = (unat (w_miniSecs w ! (k * miniSectorSize div w_secSize w)) + 1) * w_secSize w + k * miniSectorSize mod w_secSize w"

lemma mini_sector:
  assumes c: "closes w D w1 lay rg" and k: "(k + 1) * miniSectorSize \<le> mini_len w"
  shows "slice (mini_off w1 k) miniSectorSize (close_file w1 rg) = slice (k * miniSectorSize) miniSectorSize (mini_data w1)"
    "mini_off w1 k + miniSectorSize \<le> length (close_file w1 rg)"
    "k * miniSectorSize div w_secSize w1 < length (w_miniSecs w1)"
proof -
  note g = closes_geom [OF c]
  let ?S = "w_secSize w1" and ?m = miniSectorSize and ?secs = "w_miniSecs w1"
  let ?i = "k * ?m div ?S" and ?r = "k * ?m mod ?S"
  have S0: "0 < ?S" "?m dvd ?S" using g(1) by (auto simp: miniSectorSize_def)
  obtain z where z: "length ?secs * ?S = mini_len w + z" using c g(4) unfolding closes_def by metis
  have buf: "w_miniBuf w1 = []" and secs: "\<forall>s \<in> set ?secs. unat s < nsec w1" and g1: "geom w1"
    using c unfolding closes_def by blast+
  have o: "length (outB w1) = nsec w1 * ?S" using geom_out [OF g1] .
  have "k * ?m < length ?secs * ?S" using k z by (simp add: miniSectorSize_def)
  then show i: "?i < length ?secs" using S0(1) by (simp add: div_less_iff_less_mult)
  have "?m dvd ?r" using S0(2) by (simp add: dvd_mod)
  moreover have "?r < ?S" using S0(1) by simp
  ultimately have r: "?r + ?m \<le> ?S" using S0(2) by (auto simp: dvd_def miniSectorSize_def)
  have k': "?i * ?S + ?r = k * ?m" by (rule div_mult_mod_eq)
  have n: "unat (?secs ! ?i) < nsec w1" using secs i by simp
  have off: "mini_off w1 k = (unat (?secs ! ?i) + 1) * ?S + ?r" by (simp add: mini_off_def)
  let ?f = "\<lambda>s. slice (unat s * ?S) ?S (outB w1)"
  have md: "mini_data w1 = concat (map ?f ?secs)" by (simp add: mini_data_def buf)
  have "length (?f s) = ?S" if "s \<in> set ?secs" for s
  proof -
    have "Suc (unat s) * ?S \<le> nsec w1 * ?S" using that secs by (intro mult_le_mono1) (simp add: Suc_le_eq)
    then show ?thesis using o by simp
  qed
  then have "slice (?i * ?S) ?S (mini_data w1) = ?f (?secs ! ?i)" unfolding md using i by (rule slice_concat_const)
  then have "slice ?r ?m (?f (?secs ! ?i)) = slice (k * ?m) ?m (mini_data w1)" using slice_slice [OF r, of "?i * ?S" "mini_data w1"] k' by simp
  then show "slice (mini_off w1 k) ?m (close_file w1 rg) = slice (k * ?m) ?m (mini_data w1)"
    using out_sector(1) [OF c n r] by (simp only: off)
  show "mini_off w1 k + ?m \<le> length (close_file w1 rg)" using out_sector(2) [OF c n r] by (simp only: off)
qed

lemma miniOffsets:
  assumes c: "closes w D w1 lay rg" and m: "(f + n) * miniSectorSize \<le> mini_len w" and b: "mini_len w < 2 ^ 32"
  shows "mapE (miniOffset (w_miniSecs w1) (w_secSize w1)) (map word_of_nat [f..<f + n]) = Inr (map (mini_off w1) [f..<f + n])"
  using m
proof (induction n arbitrary: f)
  case (Suc n)
  have "(f + 1) * miniSectorSize \<le> (f + Suc n) * miniSectorSize" by (intro mult_le_mono1) simp
  then have k: "(f + 1) * miniSectorSize \<le> mini_len w" using Suc.prems by linarith
  have u: "unat (word_of_nat f :: u32) = f" using k b by (intro unat_u32) (simp add: miniSectorSize_def)
  have "miniOffset (w_miniSecs w1) (w_secSize w1) (word_of_nat f) = Inr (mini_off w1 f)"
    using mini_sector(3) [OF c k] by (simp add: miniOffset_total u mini_off_def Let_def)
  moreover have "[f..<f + Suc n] = f # [Suc f..<Suc f + n]" by (simp add: upt_conv_Cons)
  ultimately show ?case using Suc.IH [of "Suc f"] Suc.prems by simp
qed simp

lemma mini_bytes:
  assumes c: "closes w D w1 lay rg" and m: "(f + n) * miniSectorSize \<le> mini_len w" and g0: "geom w"
  shows "gather (close_file w1 rg) (blocks miniSectorSize (map (mini_off w1) [f..<f + n])) =
      slice (f * miniSectorSize) (n * miniSectorSize) (mini_data w1)"
    "\<forall>a \<in> set (blocks miniSectorSize (map (mini_off w1) [f..<f + n])). a < length (close_file w1 rg)"
proof -
  let ?m = miniSectorSize and ?F = "close_file w1 rg"
  have k: "(k + 1) * ?m \<le> mini_len w" if "k \<in> set [f..<f + n]" for k
  proof -
    have "(k + 1) * ?m \<le> (f + n) * ?m" using that by (intro mult_le_mono1) simp
    then show ?thesis using m by simp
  qed
  have le: "\<forall>off \<in> set (map (mini_off w1) [f..<f + n]). off + ?m \<le> length ?F"
    using mini_sector(2) [OF c k] by auto
  obtain z where z: "mini_data w1 = mini_data w @ replicate z 0" "length (w_miniSecs w1) * w_secSize w1 = mini_len w + z"
    using c closes_geom(4) [OF c] unfolding closes_def by metis
  have "mini_ok w1" if "w_miniBuf w1 = []" using c that by (auto simp: mini_ok_def closes_def)
  then have "length (mini_data w1) = mini_len w1" using c mini_ok_len by (simp add: closes_def)
  then have "mini_len w \<le> length (mini_data w1)" using z c by (simp add: mini_len_def [of w1] closes_def)
  then have "(f + n) * ?m \<le> length (mini_data w1)" using m by simp
  note sc = slices_concat [OF this]
  have "concat (map (\<lambda>off. slice off ?m ?F) (map (mini_off w1) [f..<f + n])) = concat (map (\<lambda>k. slice (k * ?m) ?m (mini_data w1)) [f..<f + n])"
    unfolding map_map using mini_sector(1) [OF c k] by (intro arg_cong [of _ _ concat] map_cong refl) simp
  then show "gather ?F (blocks ?m (map (mini_off w1) [f..<f + n])) = slice (f * ?m) (n * ?m) (mini_data w1)"
    using gather_blocks [OF le] sc by simp
  show "\<forall>a \<in> set (blocks ?m (map (mini_off w1) [f..<f + n])). a < length ?F"
    using le by (auto simp: blocks_def)
qed

section \<open>The parser\<close>

definition close_parser :: "writer \<Rightarrow> writer \<Rightarrow> layoutEntry list \<Rightarrow> regions \<Rightarrow> parser" where
  "close_parser w w1 lay rg = \<lparr>pr_h = close_header w1 rg, pr_secSize = w_secSize w1, pr_fat = fat_table w1 rg,
     pr_miniFAT = mini_table w1 rg, pr_miniStream = w_miniSecs w1, pr_entries = raw_entries w w1 lay\<rparr>"

lemma numSectorsOf_nat:
  assumes "n + z = k * S" "z < S" "0 < S" "S < 2 ^ 32" "n < 2 ^ 63"
  shows "numSectorsOf (word_of_nat n) S = k"
proof -
  have u: "unat (word_of_nat n :: u64) = n" using assms(5) by (intro unat_u64) simp
  have "(n + S - 1) div S = k"
  proof (rule order_antisym)
    show "(n + S - 1) div S \<le> k" using ceil_div_le_iff [OF assms(3), of n k] assms(1) by simp
    show "k \<le> (n + S - 1) div S" using assms(1-3) by (simp add: less_eq_div_iff_mult_less_eq)
  qed
  then show ?thesis using numSectorsOf_eq [of "word_of_nat n" S] u assms(3-5) by simp
qed

lemma close_loadMiniStream:
  assumes c: "closes w D w1 lay rg" and b: "closable w"
  shows "loadMiniStream (close_header w1 rg) (fat_table w1 rg) (raw_entries w w1 lay) = Inr (w_miniSecs w1)"
proof -
  note g = closes_geom [OF c]
  let ?S = "w_secSize w1" and ?n = "mini_len w" and ?secs = "w_miniSecs w1"
  have S: "0 < ?S" "?S < 2 ^ 32" using g(1) by auto
  have n: "?n < 2 ^ 32" using b by (simp add: closable_def)
  obtain z where z: "z < ?S" "length ?secs * ?S = ?n + z" using c g(4) unfolding closes_def by metis
  have secs: "\<forall>s \<in> set ?secs. unat s < nsec w1" using c unfolding closes_def by blast
  obtain m es where de: "dir_ents w w1 lay = storageEntry \<lparr>sz_miniStart = (if ?n = 0 then endOfChain else hd ?secs),
    sz_miniSize = ?n, sz_layout = lay\<rparr> m True (lay ! 0) # es" using dir_ents_hd [of w w1 lay] by auto
  have v: "version_size (majorOf ?S) (word_of_nat ?n) = word_of_nat ?n" using n by (intro version_size_id) simp
  have hd: "re_streamSize (hd (raw_entries w w1 lay)) = word_of_nat ?n"
    "re_startSector (hd (raw_entries w w1 lay)) = (if ?n = 0 then endOfChain else hd ?secs)"
    using v by (auto simp: raw_entries_def de rawOf_def storageEntry_def Let_def version_size_def)
  have ne0: "raw_entries w w1 lay \<noteq> []" by (simp add: raw_entries_def de)
  show ?thesis
  proof (cases "?n = 0")
    case True
    then have "?secs = []" using z by (cases ?secs) auto
    then show ?thesis by (simp add: loadMiniStream_total [OF ne0] hd True)
  next
    case False
    have "unat (word_of_nat ?n :: u64) = ?n" using n by (intro unat_u64) simp
    then have w0: "(word_of_nat ?n :: u64) \<noteq> 0" using False by (metis unat_0)
    have ne: "?secs \<noteq> []" using False z by auto
    have sb: "\<forall>s \<in> set ?secs. unat s < 2 ^ 32 - 1" using secs nsec_end [OF c] end_bound(1) [OF c] by fastforce
    have mr: "linked (miniSecRuns ?secs)" "fr_first (hd (miniSecRuns ?secs)) = hd ?secs" "runs_secs (miniSecRuns ?secs) = map unat ?secs"
      using miniSecRuns_ok [OF sb] ne by auto
    have sub: "set (miniSecRuns ?secs) \<subseteq> set (all_runs w1 rg)" by (auto simp: all_runs_def)
    have "hd ?secs \<noteq> endOfChain"
    proof
      assume "hd ?secs = endOfChain"
      then have "unat endOfChain < nsec w1" using secs ne by (metis hd_in_set)
      then show False using nsec_end [OF c] end_bound(1) [OF c] by (simp add: endOfChain_def)
    qed
    moreover have "numSectorsOf (word_of_nat ?n) ?S = length ?secs"
      using z S n by (intro numSectorsOf_nat [where z = z]) simp_all
    ultimately show ?thesis
      using close_chain [OF c mr(1) sub, of "length ?secs"] mr w0 False
      by (simp add: loadMiniStream_total [OF ne0] hd close_headerOf(1) [OF c] o_def)
  qed
qed

text \<open>All the sizes of the directory.\<close>

lemma size_fits_storage: "size_fits h n m (storageEntry sz mt r le)"
  by (simp add: size_fits_def checkStreamSize_def rawOf_def storageEntry_def Let_def object_defs)

fun node_sids :: "node \<Rightarrow> nat list" where
  "node_sids (StreamN sid) = [sid]"
| "node_sids (StorageN m cs) = concat (map node_sids cs)"

lemma sizes_ents:
  "(\<And>sid le. sid \<in> set (node_sids c) \<Longrightarrow> size_fits h n' m (streamDe (ss ! sid) le)) \<Longrightarrow>
    list_all (size_fits h n' m) (node_ents sz ss r n c)"
  "(\<And>sid le. sid \<in> set (concat (map node_sids cs)) \<Longrightarrow> size_fits h n' m (streamDe (ss ! sid) le)) \<Longrightarrow>
    list_all (size_fits h n' m) (nodes_ents sz ss n cs)"
  by (induction sz ss r n c and sz ss n cs rule: node_ents_nodes_ents.induct)
    (auto simp: size_fits_storage)

lemma node_sids_of: "set (node_sids (node_of nm sg)) = set (sg_sids sg)"
  by (induction sg) auto

lemma close_loadParser:
  assumes c: "closes w D w1 lay rg" and cl: "closed_all w" and inv: "winv w D" and b: "closable w" and cap: "capped w"
    and tree: "tree_ok w" and rd: "strict_reader_at rd (close_file w1 rg) EOF"
  shows "loadParser rd = Inr (close_parser w w1 lay rg)"
proof -
  have g0: "geom w" using inv by (simp add: winv_def)
  have "list_all (size_fits (close_header w1 rg) (length (fat_table w1 rg)) (length (mini_table w1 rg))) (dir_ents w w1 lay)"
    unfolding dir_ents_def
  proof (rule sizes_ents(1))
    fix sid le assume "sid \<in> set (node_sids (node_of (stream_name w) (w_root w)))"
    then have "sid < length (w_streams w)" using mset_sids_all [OF tree cl] by (simp add: node_sids_of)
    then show "size_fits (close_header w1 rg) (length (fat_table w1 rg)) (length (mini_table w1 rg)) (streamDe (w_streams w ! sid) le)"
      by (rule stream_size_fits [OF c cl g0 b cap])
  qed
  note pe = close_parseEntries [OF c rd this]
  show ?thesis
    using close_parseHeader [OF c rd] close_loadFAT [OF c rd] close_loadMiniFAT [OF c rd] pe close_loadMiniStream [OF c b]
      close_headerOf(1) [OF c]
    by (simp add: loadParser_def close_parser_def)
qed

section \<open>Streams\<close>

definition stream_back :: "writer \<Rightarrow> (nat \<Rightarrow> bytes) \<Rightarrow> bytes \<Rightarrow> nat \<Rightarrow> stream \<Rightarrow> bool" where
  "stream_back w D F sid st \<longleftrightarrow> smName st = utf16_decode (stream_name w sid) \<and> smStateBits st = sw_stateBits (w_streams w ! sid) \<and>
     smSize st = int (length (D sid)) \<and> readable st \<and> (\<forall>a \<in> set (runs_addrs (smRuns st)). a < length F) \<and>
     gather F (runs_addrs (smRuns st)) = D sid"

lemma gather_prefix:
  assumes "gather F xs = d @ e" "n = length d" "\<forall>a \<in> set xs. a < length F"
  shows "gather F (take n xs) = d" "\<forall>a \<in> set (take n xs). a < length F" "length (take n xs) = n"
proof -
  have "length xs = length (d @ e)" using arg_cong [OF assms(1), of length] by (simp add: gather_def)
  then show "length (take n xs) = n" using assms(2) by simp
qed (use assms in \<open>auto simp: gather_take dest: in_set_takeD\<close>)

abbreviation stream_raw :: "writer \<Rightarrow> writer \<Rightarrow> nat \<Rightarrow> layoutEntry \<Rightarrow> rawEntry" where
  "stream_raw w w1 sid le \<equiv> rawOf (majorOf (w_secSize w1)) (streamDe (w_streams w ! sid) le)"

abbreviation back_base :: "writer \<Rightarrow> nat \<Rightarrow> stream" where
  "back_base w sid \<equiv> \<lparr>smName = utf16_decode (stream_name w sid), smStateBits = sw_stateBits (w_streams w ! sid),
     smSize = int (sw_size (w_streams w ! sid)), smRuns = []\<rparr>"

lemma stream_raw_fields:
  assumes sm: "sw_size (w_streams w ! sid) < 2 ^ 44" and S: "w_secSize w1 = 512 \<or> w_secSize w1 = 4096"
    and v3: "w_secSize w1 = 512 \<Longrightarrow> sw_size (w_streams w ! sid) \<le> streamSizeMaxV3"
  shows "re_stream (stream_raw w w1 sid le) = Some (back_base w sid)"
    "re_streamSize (stream_raw w w1 sid le) = word_of_nat (sw_size (w_streams w ! sid))"
    "re_startSector (stream_raw w w1 sid le) =
      (if 0 < sw_size (w_streams w ! sid) then sr_first (hd (sw_chain (w_streams w ! sid))) else endOfChain)"
    "word_of_nat (sw_size (w_streams w ! sid)) = (0 :: u64) \<longleftrightarrow> sw_size (w_streams w ! sid) = 0"
    "(word_of_nat (sw_size (w_streams w ! sid)) :: u64) < word_of_nat miniStreamCutoff \<longleftrightarrow> sw_size (w_streams w ! sid) < miniStreamCutoff"
proof -
  let ?sz = "sw_size (w_streams w ! sid)"
  have v: "version_size (majorOf (w_secSize w1)) (word_of_nat ?sz) = word_of_nat ?sz"
    using S v3 by (intro version_size_id) (auto simp: streamSizeMaxV3_def)
  have u: "unat (word_of_nat ?sz :: u64) = ?sz" using sm by (intro unat_u64) simp
  have si: "sint (word_of_nat ?sz :: u64) = int ?sz" using smSize_nat [of "word_of_nat ?sz"] u sm by simp
  show "re_stream (stream_raw w w1 sid le) = Some (back_base w sid)"
    "re_streamSize (stream_raw w w1 sid le) = word_of_nat ?sz"
    "re_startSector (stream_raw w w1 sid le) = (if 0 < ?sz then sr_first (hd (sw_chain (w_streams w ! sid))) else endOfChain)"
    using v si by (simp_all add: rawOf_def streamDe_def stream_name_def)
  show "word_of_nat ?sz = (0 :: u64) \<longleftrightarrow> ?sz = 0" using u by (metis unat_eq_0)
  show "(word_of_nat ?sz :: u64) < word_of_nat miniStreamCutoff \<longleftrightarrow> ?sz < miniStreamCutoff"
    using u unat_u64 [of miniStreamCutoff] by (simp add: word_less_nat_alt miniStreamCutoff_def)
qed

text \<open>A small stream: the chain of its one run in the mini FAT, and the bytes at its mini sectors.\<close>

lemma mini_back:
  assumes c: "closes w D w1 lay rg" and g0: "geom w" and b: "closable w" and len: "sw_size (w_streams w ! sid) = length (D sid)"
    and r: "sr_count r \<noteq> 0" "unat (sr_count r) * miniSectorSize = length (D sid) + z" "z < miniSectorSize"
      "rdata miniSectorSize (mini_data w1) r = D sid @ replicate z 0"
      "(unat (sr_first r) + unat (sr_count r)) * miniSectorSize \<le> mini_len w" "set (chainRuns [r]) \<subseteq> set (tree_minis w1)"
    and sm: "length (D sid) < 2 ^ 44"
  shows "\<exists>ms runs. walkChain (mini_table w1 rg) (sr_first r) (numSectorsOf (word_of_nat (length (D sid))) miniSectorSize) = Inr ms \<and>
    resolveMiniRuns (w_miniSecs w1) (w_secSize w1) ms (length (D sid)) = Inr runs \<and> ms \<noteq> [] \<and> sr_first r \<noteq> endOfChain \<and>
    stream_back w D (close_file w1 rg) sid (back_base w sid\<lparr>smRuns := runs\<rparr>)"
proof -
  let ?f = "unat (sr_first r)" and ?n = "unat (sr_count r)" and ?sz = "length (D sid)" and ?m = miniSectorSize
  let ?ms = "map word_of_nat [?f..<?f + ?n] :: u32 list"
  have wfm: "wf_runs (mini_len w div ?m) (tree_minis w1)" using c unfolding closes_def by blast
  have ml: "mini_len w < 2 ^ 32" using b by (simp add: closable_def)
  have "mini_len w div ?m \<le> length (mini_table w1 rg)" using close_lengths(1) [OF c g0 b] by (simp add: miniSectorSize_def)
  then have n2: "mini_len w div ?m \<le> rg_miniFATSecs rg * (w_secSize w1 div 4)" by (simp add: mini_table_def)
  have "mini_len w div ?m \<le> unat maxRegSect + 1" using closable_mini [OF b] by (simp add: maxRegSect_def)
  from chain_path_linked [OF wfm this n2 _ r(6)] have "chain_path (mini_table w1 rg) (sr_first r) ?ms"
    using r(1) by (simp add: mini_table_def run_sectors_def run_end_def)
  moreover have "numSectorsOf (word_of_nat ?sz) ?m = ?n"
    using r(2,3) sm by (intro numSectorsOf_nat [where z = z]) (simp_all add: miniSectorSize_def)
  ultimately have wc: "walkChain (mini_table w1 rg) (sr_first r) (numSectorsOf (word_of_nat ?sz) ?m) = Inr ?ms"
    by (simp add: walkChain_iff)
  have n0: "0 < ?n" using r(1) by (simp add: unat_gt_0)
  note mo = miniOffsets [OF c r(5) ml] and mb = mini_bytes [OF c r(5) g0]
  have "length ?ms * ?m < ?sz + ?m" using r(2,3) by simp
  from resolveMiniRuns_ok [OF _ this mo] obtain runs where
    runs: "resolveMiniRuns (w_miniSecs w1) (w_secSize w1) ?ms ?sz = Inr runs" "runs_ok 0 runs"
    "runs_addrs runs = take ?sz (blocks ?m (map (mini_off w1) [?f..<?f + ?n]))" using n0 by auto
  have "gather (close_file w1 rg) (blocks ?m (map (mini_off w1) [?f..<?f + ?n])) = D sid @ replicate z 0"
    using mb(1) r(4) by (simp add: rdata_def)
  note gp = gather_prefix [OF this refl mb(2)]
  have "?f * ?m < 2 ^ 32" using r(5) ml by (simp add: add_mult_distrib)
  then have start: "sr_first r \<noteq> endOfChain" by (auto simp: endOfChain_def miniSectorSize_def)
  have "stream_back w D (close_file w1 rg) sid (back_base w sid\<lparr>smRuns := runs\<rparr>)"
    using gp runs(2,3) len by (simp add: stream_back_def readable_def)
  then show ?thesis using wc runs(1) start n0 by (intro exI [of _ ?ms] exI [of _ runs]) simp
qed

text \<open>Any other stream: its chain in the FAT, and the bytes at its sectors.\<close>

lemma regular_back:
  assumes c: "closes w D w1 lay rg" and len: "sw_size (w_streams w ! sid) = length (D sid)" and ne: "D sid \<noteq> []"
    and ch: "runs_in (nsec w1) chain" "chain \<noteq> []" "z < w_secSize w1"
      "cdata (w_secSize w1) (outB w1) chain = D sid @ replicate z 0" "set (chainRuns chain) \<subseteq> set (tree_runs w1)"
    and sm: "length (D sid) < 2 ^ 44"
  shows "\<exists>ss. walkChain (fat_table w1 rg) (sr_first (hd chain)) (numSectorsOf (word_of_nat (length (D sid))) (w_secSize w1)) = Inr ss \<and>
    sr_first (hd chain) \<noteq> endOfChain \<and>
    stream_back w D (close_file w1 rg) sid (back_base w sid\<lparr>smRuns := resolveRegularRuns ss (w_secSize w1) (length (D sid))\<rparr>)"
proof -
  let ?sz = "length (D sid)" and ?S = "w_secSize w1" and ?ss = "map word_of_nat (csecs chain) :: u32 list"
  note g = closes_geom [OF c]
  have S: "0 < ?S" "?S < 2 ^ 32" using g(1) by auto
  have o: "length (outB w1) = nsec w1 * ?S" using c g(3) unfolding closes_def by simp
  have l: "length (csecs chain) * ?S = ?sz + z" using length_cdata [OF ch(1) o] ch(4) by simp
  have "numSectorsOf (word_of_nat ?sz) ?S = length (csecs chain)"
    using l ch(3) S sm by (intro numSectorsOf_nat [where z = z]) simp_all
  then have wc: "walkChain (fat_table w1 rg) (sr_first (hd chain)) (numSectorsOf (word_of_nat ?sz) ?S) = Inr ?ss"
    using regular_chain(1) [OF c ch(2,1,5)] by simp
  have "?ss \<noteq> []" using l ne by auto
  note rr = resolveRegularRuns_ok [OF this S(1)]
  have lss: "length ?ss * ?S < ?sz + ?S" using l ch(3) by simp
  note rb = regular_bytes [OF c ch(1)]
  have "gather (close_file w1 rg) (sector_addrs ?S ?ss) = D sid @ replicate z 0" using rb(1) ch(4) by simp
  note gp = gather_prefix [OF this refl rb(2)]
  have "0 < unat (sr_count (hd chain))" "unat (sr_first (hd chain)) + unat (sr_count (hd chain)) \<le> nsec w1"
    using ch(1,2) by (simp_all add: runs_in_def unat_gt_0)
  then have "unat (sr_first (hd chain)) < nsec w1" by linarith
  then have "sr_first (hd chain) \<noteq> endOfChain" using nsec_end [OF c] end_bound(1) [OF c] by (auto simp: endOfChain_def)
  moreover have "stream_back w D (close_file w1 rg) sid (back_base w sid\<lparr>smRuns := resolveRegularRuns ?ss ?S ?sz\<rparr>)"
    using gp rr [OF lss] len by (simp add: stream_back_def readable_def)
  ultimately show ?thesis using wc by blast
qed

lemma close_buildStream:
  assumes c: "closes w D w1 lay rg" and cl: "closed_all w" and inv: "winv w D" and b: "closable w" and cap: "capped w"
    and sid: "sid < length (w_streams w)"
  shows "\<exists>st. buildStream (close_parser w w1 lay rg) (rawOf (majorOf (w_secSize w1)) (streamDe (w_streams w ! sid) le)) = Inr st \<and>
    stream_back w D (close_file w1 rg) sid st"
proof -
  note g = closes_geom [OF c]
  have g0: "geom w" using inv by (simp add: winv_def)
  have sm: "sw_size (w_streams w ! sid) < 2 ^ 44" by (rule stream_size_small [OF c cl g0 b sid])
  have v3: "w_secSize w1 = 512 \<Longrightarrow> sw_size (w_streams w ! sid) \<le> streamSizeMaxV3" using cap g(4) sid by (simp add: capped_def)
  note de = stream_raw_fields [OF sm g(1) v3]
  show ?thesis
    using c cl sid
  proof (cases rule: stream_cases)
    case empty
    then show ?thesis using de by (simp add: buildStream_def stream_back_def readable_def gather_def)
  next
    case (mini r z)
    from mini_back [OF c g0 b mini(10) [symmetric] mini(4) _ mini(6-9)] obtain ms runs where
      "walkChain (mini_table w1 rg) (sr_first r) (numSectorsOf (word_of_nat (sw_size (w_streams w ! sid))) miniSectorSize) = Inr ms"
      "resolveMiniRuns (w_miniSecs w1) (w_secSize w1) ms (sw_size (w_streams w ! sid)) = Inr runs" "ms \<noteq> []" "sr_first r \<noteq> endOfChain"
      "stream_back w D (close_file w1 rg) sid (back_base w sid\<lparr>smRuns := runs\<rparr>)"
      using mini(5,10) sm by auto
    then show ?thesis using mini(1,2,3) by (auto simp: buildStream_def de close_parser_def Let_def)
  next
    case (regular z)
    have sz: "0 < sw_size (w_streams w ! sid)" using regular(1) by (simp add: miniStreamCutoff_def)
    then have "D sid \<noteq> []" using regular(7) by auto
    from regular_back [OF c regular(7) [symmetric] this regular(2-6)] obtain ss where
      "walkChain (fat_table w1 rg) (sr_first (hd (sw_chain (w_streams w ! sid)))) (numSectorsOf (word_of_nat (sw_size (w_streams w ! sid))) (w_secSize w1)) = Inr ss"
      "sr_first (hd (sw_chain (w_streams w ! sid))) \<noteq> endOfChain"
      "stream_back w D (close_file w1 rg) sid (back_base w sid\<lparr>smRuns := resolveRegularRuns ss (w_secSize w1) (sw_size (w_streams w ! sid))\<rparr>)"
      using regular(7) sm by auto
    then show ?thesis using regular(1) sz by (auto simp: buildStream_def de close_parser_def Let_def)
  qed
qed

end
