(* ===== verification/RoundTrip.thy ===== *)
theory RoundTrip
  imports StreamBack
begin

text \<open>
  The end-to-end property: what a writer has been given, \<open>NewReader\<close> gives back from the file \<open>Close\<close> has
  made. \<open>entry_back\<close> relates a node of the writer's sorted tree to an entry of the reader.
\<close>

section \<open>Entries\<close>

definition info_of :: "bool \<Rightarrow> storageMeta \<Rightarrow> storageInfo" where
  "info_of isRoot m = \<lparr>stName = utf16_decode (sg_name m), stCLSID = sg_clsid m, stStateBits = sg_stateBits m,
     stCreated = decodeFiletime (if isRoot then 0 else timeTicks (sg_created m)),
     stModified = decodeFiletime (timeTicks (sg_modified m))\<rparr>"

fun entry_back :: "writer \<Rightarrow> (nat \<Rightarrow> bytes) \<Rightarrow> bytes \<Rightarrow> bool \<Rightarrow> node \<Rightarrow> entry \<Rightarrow> bool" where
  "entry_back w D F isRoot (StreamN sid) (StreamE st) \<longleftrightarrow> stream_back w D F sid st"
| "entry_back w D F isRoot (StorageN m cs) (StorageE s es) \<longleftrightarrow>
     s = info_of isRoot m \<and> list_all2 (entry_back w D F False) cs es"
| "entry_back w D F isRoot (StreamN sid) (StorageE s es) \<longleftrightarrow> False"
| "entry_back w D F isRoot (StorageN m cs) (StreamE st) \<longleftrightarrow> False"

text \<open>The links the reader sees are those of the layout.\<close>

definition linked_at :: "layoutEntry list \<Rightarrow> rawEntry list \<Rightarrow> nat \<Rightarrow> bool" where
  "linked_at lay es i \<longleftrightarrow> i < length es \<and> re_leftSib (es ! i) = le_leftSib (lay ! i) \<and> re_rightSib (es ! i) = le_rightSib (lay ! i)"

lemma bst_dir_tree:
  "bst_of lay h eid ids \<Longrightarrow> \<forall>i \<in> set ids. linked_at lay es (unat i) \<and> entry_node p es (unat i) (idf (unat i)) [ef (unat i)] \<Longrightarrow>
   \<exists>all. dir_tree p es eid all (map (\<lambda>i. ef (unat i)) ids) \<and> mset all = mset (concat (map (\<lambda>i. unat i # idf (unat i)) ids))"
proof (induction rule: bst_of.induct)
  case (bst_none h)
  show ?case using dir_tree.tree_none [of p es] by (intro exI [of _ "[]"]) simp
next
  case (bst_node eid h ls rs)
  let ?i = "unat eid" and ?e = "\<lambda>i :: u32. ef (unat i)"
  obtain la where l: "dir_tree p es (le_leftSib (lay ! ?i)) la (map ?e ls)"
    "mset la = mset (concat (map (\<lambda>i. unat i # idf (unat i)) ls))" using bst_node by auto
  obtain ra where r: "dir_tree p es (le_rightSib (lay ! ?i)) ra (map ?e rs)"
    "mset ra = mset (concat (map (\<lambda>i. unat i # idf (unat i)) rs))" using bst_node by auto
  have at: "linked_at lay es ?i" "entry_node p es ?i (idf ?i) [ef ?i]" using bst_node.prems by simp_all
  then have "dir_tree p es eid (?i # la @ idf ?i @ ra) (map ?e ls @ [ef ?i] @ map ?e rs)"
    using bst_node.hyps(1) l(1) r(1) by (intro dir_tree_node) (simp_all add: linked_at_def)
  then show ?case using l(2) r(2) by (intro exI [of _ "?i # la @ idf ?i @ ra"]) (simp add: ac_simps)
qed

section \<open>The tree of the entries\<close>

lemma starts_csum: "set (starts n cs) \<subseteq> {n..<n + csum cs}"
  using starts_bounds by fastforce

lemma slice_Cons: "slice n (Suc k) xs = y # ys \<Longrightarrow> n < length xs \<and> xs ! n = y \<and> slice (n + 1) k xs = ys"
proof -
  assume s: "slice n (Suc k) xs = y # ys"
  then have n: "n < length xs" by (metis drop_all linorder_not_less list.distinct(1) slice_def take_Nil)
  then show ?thesis using s by (simp add: slice_def Cons_nth_drop_Suc [OF n, symmetric])
qed

lemma slice_appendD: "slice n (a + b) xs = ys @ zs \<Longrightarrow> length ys = a \<Longrightarrow> slice n a xs = ys \<and> slice (n + a) b xs = zs"
proof -
  assume s: "slice n (a + b) xs = ys @ zs" "length ys = a"
  then have "slice n a xs @ slice (n + a) b xs = ys @ zs" by (simp add: slice_add)
  moreover have "a \<le> length (slice n (a + b) xs)" using s by simp
  then have "length (slice n a xs) = a" by simp
  ultimately show ?thesis using s(2) by (simp add: append_eq_append_conv)
qed

lemma rawOf_links [simp]: "re_leftSib (rawOf v de) = de_leftSib de" "re_rightSib (rawOf v de) = de_rightSib de"
  "re_childID (rawOf v de) = de_childID de" "re_objectType (rawOf v de) = de_objectType de"
  by (simp_all add: rawOf_def)

lemma storageEntry_sel [simp]:
  "de_leftSib (storageEntry sz m r le) = le_leftSib le" "de_rightSib (storageEntry sz m r le) = le_rightSib le"
  "de_childID (storageEntry sz m r le) = le_childID le"
  "de_objectType (storageEntry sz m r le) = (if r then objectRoot else objectStorage)"
  "re_storage (rawOf v (storageEntry sz m r le)) = Some (info_of r m)"
  by (simp_all add: storageEntry_def Let_def rawOf_def info_of_def)

lemma streamDe_sel [simp]: "de_leftSib (streamDe s le) = le_leftSib le" "de_rightSib (streamDe s le) = le_rightSib le"
  "de_objectType (streamDe s le) = objectStream"
  by (simp_all add: streamDe_def)

text \<open>What the reader makes of a node laid out from id \<open>n\<close> on.\<close>

definition node_back :: "writer \<Rightarrow> (nat \<Rightarrow> bytes) \<Rightarrow> bytes \<Rightarrow> parser \<Rightarrow> layoutEntry list \<Rightarrow> rawEntry list \<Rightarrow> nat \<Rightarrow> node \<Rightarrow> bool" where
  "node_back w D F p lay es n c \<longleftrightarrow> (\<exists>e ids. linked_at lay es n \<and> entry_node p es n ids [e] \<and>
     entry_back w D F False c e \<and> mset (n # ids) = mset [n..<n + cnt c])"

definition children_back :: "writer \<Rightarrow> (nat \<Rightarrow> bytes) \<Rightarrow> bytes \<Rightarrow> parser \<Rightarrow> layoutEntry list \<Rightarrow> rawEntry list \<Rightarrow> nat \<Rightarrow> node list \<Rightarrow> bool" where
  "children_back w D F p lay es n cs \<longleftrightarrow> (\<exists>ef idf. (\<forall>i \<in> set (starts n cs). linked_at lay es i \<and> entry_node p es i (idf i) [ef i]) \<and>
     list_all2 (entry_back w D F False) cs (map ef (starts n cs)) \<and>
     mset (concat (map (\<lambda>i. i # idf i) (starts n cs))) = mset [n..<n + csum cs])"

lemma children_back_Cons:
  assumes "node_back w D F p lay es n c" "children_back w D F p lay es (n + cnt c) cs"
  shows "children_back w D F p lay es n (c # cs)"
proof -
  obtain e ids where e: "linked_at lay es n" "entry_node p es n ids [e]" "entry_back w D F False c e" "mset (n # ids) = mset [n..<n + cnt c]"
    using assms(1) unfolding node_back_def by blast
  obtain ef idf where r: "\<forall>i \<in> set (starts (n + cnt c) cs). linked_at lay es i \<and> entry_node p es i (idf i) [ef i]"
    "list_all2 (entry_back w D F False) cs (map ef (starts (n + cnt c) cs))"
    "mset (concat (map (\<lambda>i. i # idf i) (starts (n + cnt c) cs))) = mset [n + cnt c..<n + cnt c + csum cs]"
    using assms(2) unfolding children_back_def by blast
  have ne: "i \<noteq> n" if "i \<in> set (starts (n + cnt c) cs)" for i using starts_bounds [OF that] cnt_pos [of c] by simp
  let ?ef = "ef(n := e)" and ?idf = "idf(n := ids)"
  have m: "map ?ef (starts (n + cnt c) cs) = map ef (starts (n + cnt c) cs)"
    "map (\<lambda>i. i # ?idf i) (starts (n + cnt c) cs) = map (\<lambda>i. i # idf i) (starts (n + cnt c) cs)"
    using ne by (auto intro!: map_cong)
  have "[n..<n + csum (c # cs)] = [n..<n + cnt c] @ [n + cnt c..<n + cnt c + csum cs]"
    using upt_add_eq_append [of n "n + cnt c" "csum cs"] by (simp add: add.assoc)
  moreover have "concat (map (\<lambda>i. i # ?idf i) (starts n (c # cs))) = (n # ids) @ concat (map (\<lambda>i. i # idf i) (starts (n + cnt c) cs))"
    by (simp only: starts.simps list.map concat.simps m(2) fun_upd_same)
  ultimately have "mset (concat (map (\<lambda>i. i # ?idf i) (starts n (c # cs)))) = mset [n..<n + csum (c # cs)]"
    using e(4) r(3) by (simp only: mset_append)
  moreover have "list_all2 (entry_back w D F False) (c # cs) (map ?ef (starts n (c # cs)))"
    using e(3) r(2) by (simp only: starts.simps list.map m(1) fun_upd_same list_all2_Cons simp_thms)
  moreover have "\<forall>i \<in> set (starts n (c # cs)). linked_at lay es i \<and> entry_node p es i (?idf i) [?ef i]"
    using e(1,2) r(1) ne by auto
  ultimately show ?thesis unfolding children_back_def by blast
qed

lemma children_back_tree:
  assumes cb: "children_back w D F p lay es n cs" and small: "n + csum cs < 2 ^ 32"
    and bst: "bst_of lay h root (map word_of_nat (starts n cs))"
  obtains ids out where "dir_tree p es root ids out" "list_all2 (entry_back w D F False) cs out" "mset ids = mset [n..<n + csum cs]"
proof -
  obtain ef idf where r: "\<forall>i \<in> set (starts n cs). linked_at lay es i \<and> entry_node p es i (idf i) [ef i]"
    "list_all2 (entry_back w D F False) cs (map ef (starts n cs))"
    "mset (concat (map (\<lambda>i. i # idf i) (starts n cs))) = mset [n..<n + csum cs]"
    using cb unfolding children_back_def by blast
  have u: "unat (word_of_nat i :: u32) = i" if "i \<in> set (starts n cs)" for i
    using starts_bounds [OF that] small by (intro unat_u32) simp
  have "\<forall>i \<in> set (map word_of_nat (starts n cs) :: u32 list). linked_at lay es (unat i) \<and> entry_node p es (unat i) (idf (unat i)) [ef (unat i)]"
    using r(1) u by auto
  from bst_dir_tree [OF bst this] obtain all where
    a: "dir_tree p es root all (map (\<lambda>i. ef (unat i)) (map word_of_nat (starts n cs) :: u32 list))"
    "mset all = mset (concat (map (\<lambda>i. unat i # idf (unat i)) (map word_of_nat (starts n cs) :: u32 list)))" by blast
  have m: "map (\<lambda>i. ef (unat i)) (map word_of_nat (starts n cs) :: u32 list) = map ef (starts n cs)"
    "map (\<lambda>i. unat i # idf (unat i)) (map word_of_nat (starts n cs) :: u32 list) = map (\<lambda>i. i # idf i) (starts n cs)"
    using u by (auto intro!: map_cong)
  show thesis using that [OF a(1) [unfolded m] r(2)] a(2) r(3) unfolding m by simp
qed

text \<open>Every laid out node is found, if its streams can be built.\<close>

lemma nodes_back:
  fixes sz :: serializer
  assumes "\<And>sid le. sid < length (w_streams w) \<Longrightarrow>
      \<exists>st. buildStream p (rawOf v (streamDe (w_streams w ! sid) le)) = Inr st \<and> stream_back w D F sid st"
  shows "r = False \<Longrightarrow> slice n (cnt c) es = map (rawOf v) (node_ents sz (w_streams w) r n c) \<Longrightarrow> laid (sz_layout sz) n c \<Longrightarrow>
      n + cnt c < 2 ^ 32 \<Longrightarrow> \<forall>sid \<in> set (node_sids c). sid < length (w_streams w) \<Longrightarrow> node_back w D F p (sz_layout sz) es n c"
    "slice n (csum cs) es = map (rawOf v) (nodes_ents sz (w_streams w) n cs) \<Longrightarrow> laids (sz_layout sz) n cs \<Longrightarrow>
      n + csum cs < 2 ^ 32 \<Longrightarrow> \<forall>sid \<in> set (concat (map node_sids cs)). sid < length (w_streams w) \<Longrightarrow>
      children_back w D F p (sz_layout sz) es n cs"
proof (induction sz "w_streams w" r n c and sz "w_streams w" n cs rule: node_ents_nodes_ents.induct)
  case (1 sz isRoot n sid)
  then have "slice n (Suc 0) es = rawOf v (streamDe (w_streams w ! sid) (sz_layout sz ! n)) # []" by simp
  note at = slice_Cons [OF this]
  obtain st where st: "buildStream p (rawOf v (streamDe (w_streams w ! sid) (sz_layout sz ! n))) = Inr st" "stream_back w D F sid st"
    using assms [of sid] "1.prems"(5) by auto
  have "linked_at (sz_layout sz) es n" using at by (simp add: linked_at_def)
  moreover have "entry_node p es n [] [StreamE st]" using at st(1) by (simp add: entry_node_def)
  ultimately show ?case
    unfolding node_back_def using st(2) by (intro exI [of _ "StreamE st"] exI [of _ "[]"]) simp
next
  case (2 sz isRoot n m cs)
  then have "slice n (Suc (csum cs)) es = rawOf v (storageEntry sz m False (sz_layout sz ! n)) #
      map (rawOf v) (nodes_ents sz (w_streams w) (n + 1) cs)" by simp
  note at = slice_Cons [OF this]
  have cb: "children_back w D F p (sz_layout sz) es (n + 1) cs"
    using "2.hyps" at "2.prems" by simp
  have bst: "bst_of (sz_layout sz) (length cs) (le_childID (sz_layout sz ! n)) (map word_of_nat (starts (n + 1) cs))"
    using "2.prems"(3) by simp
  have sm: "n + 1 + csum cs < 2 ^ 32" using "2.prems"(4) by simp
  obtain ids out where t: "dir_tree p es (le_childID (sz_layout sz ! n)) ids out" "list_all2 (entry_back w D F False) cs out"
    "mset ids = mset [n + 1..<n + 1 + csum cs]"
    by (rule children_back_tree [OF cb sm bst])
  have l: "linked_at (sz_layout sz) es n" using at by (simp add: linked_at_def)
  have e: "entry_node p es n ids [StorageE (info_of False m) out]"
    unfolding entry_node_def using at t(1) by simp
  have "cnt (StorageN m cs) = Suc (csum cs)" by simp
  then have "[n..<n + cnt (StorageN m cs)] = n # [n + 1..<n + 1 + csum cs]"
    using upt_conv_Cons [of n "n + Suc (csum cs)"] by (simp only: add_Suc_right add_Suc Suc_eq_plus1) simp
  then have ms: "mset (n # ids) = mset [n..<n + cnt (StorageN m cs)]" using t(3) by (simp only: mset.simps)
  have "entry_back w D F False (StorageN m cs) (StorageE (info_of False m) out)" using t(2) by simp
  then show ?case unfolding node_back_def using l e ms by blast
next
  case (3 sz n)
  show ?case unfolding children_back_def by simp
next
  case (4 sz n c cs)
  have "slice n (cnt c + csum cs) es = map (rawOf v) (node_ents sz (w_streams w) False n c) @ map (rawOf v) (nodes_ents sz (w_streams w) (n + cnt c) cs)"
    using "4.prems"(1) by simp
  from slice_appendD [OF this] have s: "slice n (cnt c) es = map (rawOf v) (node_ents sz (w_streams w) False n c)"
    "slice (n + cnt c) (csum cs) es = map (rawOf v) (nodes_ents sz (w_streams w) (n + cnt c) cs)" by simp_all
  have "node_back w D F p (sz_layout sz) es n c" using "4.hyps"(1) [OF refl s(1)] "4.prems" by simp
  moreover have "children_back w D F p (sz_layout sz) es (n + cnt c) cs" using "4.hyps"(2) [OF s(2)] "4.prems" by simp
  ultimately show ?case by (rule children_back_Cons)
qed

section \<open>NewReader on the file\<close>

lemma raw_entries_unvisited: "i < length (raw_entries w w1 lay) \<Longrightarrow> \<not> re_visited (raw_entries w w1 lay ! i)"
  by (auto simp: raw_entries_def nth_append rawOf_def rawEmpty_def)

lemma raw_entries_slice: "slice 0 (sg_nodes (w_root w)) (raw_entries w w1 lay) = map (rawOf (majorOf (w_secSize w1))) (dir_ents w w1 lay)"
  by (simp add: raw_entries_def slice_def length_dir_ents)

lemma close_newReader:
  assumes c: "closes w D w1 lay rg" and cl: "closed_all w" and inv: "winv w D" and b: "closable w" and cap: "capped w"
    and tree: "tree_ok w" and rd: "strict_reader_at rd (close_file w1 rg) EOF"
  obtains root where "newReader rd = Inr (close_header w1 rg, root)"
    "entry_back w D (close_file w1 rg) True (node_of (stream_name w) (w_root w)) root"
proof -
  let ?F = "close_file w1 rg" and ?p = "close_parser w w1 lay rg" and ?es = "raw_entries w w1 lay" and ?v = "majorOf (w_secSize w1)"
  let ?sz = "\<lparr>sz_miniStart = (if mini_len w = 0 then endOfChain else hd (w_miniSecs w1)), sz_miniSize = mini_len w, sz_layout = lay\<rparr>"
  obtain m cs where nd: "node_of (stream_name w) (w_root w) = StorageN m cs" by (cases "w_root w") simp
  have laid: "laid lay 0 (StorageN m cs)" using c nd unfolding closes_def by metis
  have nodes: "sg_nodes (w_root w) = Suc (csum cs)" using cnt_node_of [of "stream_name w" "w_root w"] nd by simp
  have small: "1 + csum cs < 2 ^ 32" using b nodes by (simp add: closable_def)
  have "slice 0 (Suc (csum cs)) ?es = rawOf ?v (storageEntry ?sz m True (lay ! 0)) # map (rawOf ?v) (nodes_ents ?sz (w_streams w) 1 cs)"
    using raw_entries_slice [of w w1 lay] nodes by (simp add: dir_ents_def nd)
  note at = slice_Cons [OF this]
  have sids: "\<forall>sid \<in> set (concat (map node_sids cs)). sid < length (w_streams w)"
    using node_sids_of [of "stream_name w" "w_root w"] mset_sids_all [OF tree cl] by (simp add: nd)
  have "children_back w D ?F ?p (sz_layout ?sz) ?es 1 cs"
  proof (rule nodes_back(2) [where sz = ?sz])
    show "\<exists>st. buildStream ?p (rawOf ?v (streamDe (w_streams w ! sid) le)) = Inr st \<and> stream_back w D ?F sid st"
      if "sid < length (w_streams w)" for sid le
      using close_buildStream [OF c cl inv b cap that] .
  qed (use at laid small sids in simp_all)
  then have cb: "children_back w D ?F ?p lay ?es 1 cs" by simp
  have bst: "bst_of lay (length cs) (le_childID (lay ! 0)) (map word_of_nat (starts 1 cs))" using laid by simp
  obtain ids out where t: "dir_tree ?p ?es (le_childID (lay ! 0)) ids out" "list_all2 (entry_back w D ?F False) cs out"
    "mset ids = mset [1..<1 + csum cs]"
    by (rule children_back_tree [OF cb small bst])
  have "distinct ids" using mset_eq_imp_distinct_iff [OF t(3)] by simp
  then have fr: "fresh ?es ids"
    using dir_tree_ids [OF t(1)] raw_entries_unvisited by (simp add: fresh_def)
  have "length ids = csum cs" using mset_eq_length [OF t(3)] by (simp only: length_upt add_diff_cancel_left')
  moreover have "csum cs < length ?es" using nodes by (simp add: raw_entries_def length_dir_ents)
  ultimately have "length ids < Suc (length ?es)" by simp
  from walkBST_complete [OF t(1) _ fr this, of "[]"]
  have wk: "walkBST (Suc (length ?es)) ?p (le_childID (lay ! 0)) ?es [] = Inr (mark ids ?es, out)" by (simp add: same_def)
  have ne: "?es \<noteq> []" "pr_entries ?p = ?es" using at by (auto simp: close_parser_def)
  have e0: "re_storage (?es ! 0) = Some (info_of True m)" "re_childID (?es ! 0) = le_childID (lay ! 0)" using at by simp_all
  have root: "buildRoot ?p = Inr (StorageE (info_of True m) out)"
  proof (cases "le_childID (lay ! 0) = noStream")
    case True
    then have "out = []" using t(1) by (simp add: dir_tree_none)
    then show ?thesis using True e0 ne by (simp add: buildRoot_total)
  next
    case False
    then show ?thesis using e0 ne wk by (simp add: buildRoot_total del: walkBST.simps)
  qed
  have "newReader rd = Inr (close_header w1 rg, StorageE (info_of True m) out)"
    using close_loadParser [OF c cl inv b cap tree rd] root by (simp add: newReader_def close_parser_def)
  moreover have "entry_back w D ?F True (node_of (stream_name w) (w_root w)) (StorageE (info_of True m) out)"
    using t(2) by (simp add: nd)
  ultimately show thesis by (rule that)
qed

text \<open>Every reachable writer whose streams are closed can be closed, and its file read back.\<close>

lemma reach_close:
  assumes r: "wreach (dv_bw dv) S c" and S: "S = 512 \<or> S = 4096" and dv: "device_ok dv"
    and cl: "closed_all (cs_w c)" and b: "closable (cs_w c)"
  obtains w' w1 lay rg where "closeWriter dv (cs_w c) = (w', Inr (close_file w1 rg))" "closes (cs_w c) (cs_data c) w1 lay rg"
    "winv (cs_w c) (cs_data c)" "tree_ok (cs_w c)" "capped (cs_w c)"
proof -
  have wr: "sink_ok (dv_bw dv)" using dv by (simp add: device_ok_def)
  have inv: "winv (cs_w c) (cs_data c)" and cap: "cap_ok c"
    using wreach_cinv [OF r wr S closable_fits [OF b]] wreach_cap [OF r wr S closable_fits [OF b]] by (simp_all add: cinv_def)
  have "sw_size st \<le> streamSizeMaxV3" if v3: "w_secSize (cs_w c) = 512" and st: "st \<in> set (w_streams (cs_w c))" for st
  proof -
    obtain sid where sid: "sid < length (w_streams (cs_w c))" "st = w_streams (cs_w c) ! sid" using st by (auto simp: in_set_conv_nth)
    then have "sw_size st = length (cs_data c sid)" using inv by (simp add: winv_def stream_ok_def)
    moreover have "length (cs_data c sid) + length (cs_pend c sid) \<le> streamSizeMaxV3" using cap v3 by (simp add: cap_ok_def)
    ultimately show ?thesis by simp
  qed
  then have "capped (cs_w c)" by (simp add: capped_def)
  then show thesis
    using closeWriter_ok [OF dv inv wreach_tree [OF r] wreach_root [OF r] cl wreach_open [OF r] b] that inv wreach_tree [OF r] by metis
qed

section \<open>Names\<close>

lemma entry_back_name: "entry_back w D F r c e \<Longrightarrow> entryName e = utf16_decode (node_name (stream_name w) c)"
  by (cases c; cases e) (auto simp: stream_back_def info_of_def)

lemma find_list_all2:
  assumes "list_all2 R xs ys" "x \<in> set xs" "\<And>y. R x y \<Longrightarrow> P y" "\<And>x' y. x' \<in> set xs \<Longrightarrow> x' \<noteq> x \<Longrightarrow> R x' y \<Longrightarrow> \<not> P y"
  shows "\<exists>y. find P ys = Some y \<and> R x y"
  using assms
proof (induction xs ys rule: list_all2_induct)
  case (Cons x' xs y ys)
  show ?case
  proof (cases "x' = x")
    case True
    then show ?thesis using Cons by auto
  next
    case False
    then have "\<not> P y" using Cons.prems(3) [of x' y] Cons.hyps(1) by simp
    then show ?thesis using Cons False by auto
  qed
qed simp

lemma reencode_valid: "valid_name enc \<Longrightarrow> utf16_encode (utf16_decode enc) = enc"
  using encodeName_reencoded by (auto simp: valid_name_def)

text \<open>A stream is found under any spelling of its name.\<close>

lemma openStream_back:
  assumes e: "entry_back w D F r (node_of (stream_name w) sg) (StorageE s es)" and ok: "sg_ok (stream_name w) sg"
    and sid: "sid \<in> set (sg_streams sg)" and name: "map toUpper (utf16_encode name) = map toUpper (stream_name w sid)"
  shows "\<exists>st. openStream es name = Inr st \<and> stream_back w D F sid st"
proof -
  obtain m sgs sts where sg: "sg = StorageW m sgs sts" by (cases sg)
  let ?nm = "stream_name w"
  let ?cs = "sortFunc (cmpNode ?nm) (map StreamN sts @ map (node_of ?nm) sgs)"
  let ?P = "\<lambda>e. (case e of StreamE st \<Rightarrow> True | StorageE s cs \<Rightarrow> False) \<and> compareNamesStr name (entryName e) = 0"
  have l: "list_all2 (entry_back w D F False) ?cs es" using e by (simp add: sg)
  have mem: "set ?cs = StreamN ` set sts \<union> node_of ?nm ` set sgs" by simp
  have d: "distinct (map (map toUpper) (map sg_name_of sgs @ map ?nm sts))" and v: "list_all valid_name (map sg_name_of sgs @ map ?nm sts)"
    using ok by (simp_all add: sg node_ok_def upper_distinct_def child_names_def)
  have "\<exists>y. find ?P es = Some y \<and> entry_back w D F False (StreamN sid) y"
  proof (rule find_list_all2 [OF l])
    show "StreamN sid \<in> set ?cs" using sid by (simp add: sg)
    show "?P y" if y: "entry_back w D F False (StreamN sid) y" for y
    proof (cases y)
      case (StreamE st)
      have "valid_name (?nm sid)" using v sid by (simp add: sg list_all_iff)
      then have "utf16_encode (entryName y) = ?nm sid" using entry_back_name [OF y] by (simp add: reencode_valid)
      then show ?thesis using StreamE name by (simp add: compareNamesStr_eq compareNames_0)
    qed (use y in simp)
    show "\<not> ?P y" if x: "x \<in> set ?cs" "x \<noteq> StreamN sid" "entry_back w D F False x y" for x y
    proof
      assume P: "?P y"
      then obtain st where st: "y = StreamE st" by (cases y) auto
      then obtain sid' where sid': "x = StreamN sid'" using x(3) by (cases x) auto
      then have in': "sid' \<in> set sts" "sid' \<noteq> sid" using x(1,2) unfolding mem by (auto elim: node_of.elims simp: image_iff) (metis node.distinct(1) node_of.elims)
      have "valid_name (?nm sid')" using v in'(1) by (simp add: list_all_iff)
      then have "utf16_encode (entryName y) = ?nm sid'" using entry_back_name [OF x(3)] sid' by (simp add: reencode_valid)
      then have "map toUpper (?nm sid') = map toUpper (?nm sid)" using P name by (simp add: compareNamesStr_eq compareNames_0)
      moreover have "inj_on (\<lambda>i. map toUpper (?nm i)) (set sts)" using d by (simp add: distinct_map o_def inj_on_def)
      ultimately show False using in' sid by (auto simp: sg inj_on_def)
    qed
  qed
  then obtain y where y: "find ?P es = Some y" "entry_back w D F False (StreamN sid) y" by blast
  then obtain st where "y = StreamE st" "stream_back w D F sid st" by (cases y) auto
  then show ?thesis using y(1) by (simp add: openStream_def)
qed

section \<open>A sample\<close>

lemma sample_closed_sel:
  "closed_all (cs_w sample_closed)" "closable (cs_w sample_closed)" "cs_data sample_closed 0 = [1, 2, 3]"
  "sg_streams (w_root (cs_w sample_closed)) = [0]" "stream_name (cs_w sample_closed) 0 = [0x41]"
  by (simp_all add: closed_all_def closable_def sample_closed_def sample_writer_def sample_stream_def newWriter_def
      nsec_def outB_def mini_len_def padMini_def Let_def miniSectorSize_def stream_name_def)

lemma sample_reach: "wreach (dv_bw sample_device) 512 sample_closed"
  using sample_closed_reach by (simp add: sample_device_def)

section \<open>Written and read back\<close>

text \<open>C1: Round trip of a whole file. Whatever sequence of operations a writer has gone through, once its
  streams are closed, \<open>Writer.Close\<close> on devices that take everything succeeds, and \<open>NewReader\<close> accepts the
  file it has made and returns the same tree: every storage with its name, class id, state bits and
  times and its children in collation order, and every stream with its name, state bits, size and runs
  that hold exactly the bytes written.\<close>

theorem close_roundtrip:
  assumes "wreach (dv_bw dv) S c" "S = 512 \<or> S = 4096" "device_ok dv" "closed_all (cs_w c)" "closable (cs_w c)"
  shows "\<exists>w' file h root. closeWriter dv (cs_w c) = (w', Inr file) \<and>
    newReader (bytesReaderAt EOF file) = Inr (h, root) \<and>
    entry_back (cs_w c) (cs_data c) file True (node_of (stream_name (cs_w c)) (w_root (cs_w c))) root"
proof -
  obtain w' w1 lay rg where w: "closeWriter dv (cs_w c) = (w', Inr (close_file w1 rg))" "closes (cs_w c) (cs_data c) w1 lay rg"
    "winv (cs_w c) (cs_data c)" "tree_ok (cs_w c)" "capped (cs_w c)"
    by (rule reach_close [OF assms])
  show ?thesis
    by (rule close_newReader [OF w(2) assms(4) w(3) assms(5) w(5,4) bytes_reader.strict_reader_at_axioms]) (use w(1) in blast)
qed

theorem close_roundtrip_witness:
  "\<exists>w' file h root. closeWriter sample_device (cs_w sample_closed) = (w', Inr file) \<and>
    newReader (bytesReaderAt EOF file) = Inr (h, root) \<and>
    entry_back (cs_w sample_closed) (cs_data sample_closed) file True
      (node_of (stream_name (cs_w sample_closed)) (w_root (cs_w sample_closed))) root"
  by (rule close_roundtrip [OF sample_reach _ sample_device_ok sample_closed_sel(1,2)]) simp

text \<open>C2: What is written through the API is what is read through it: after \<open>Close\<close> and \<open>NewReader\<close>,
  \<open>OpenStream\<close> on the root finds each stream created in it under every spelling of its name that differs
  only in case, with the number of bytes written as its size, and \<open>ReadAt\<close> returns the bytes written from
  the offset on, with \<open>io.EOF\<close> exactly when fewer are left than asked for.\<close>

theorem written_stream_read:
  assumes "wreach (dv_bw dv) S c" "S = 512 \<or> S = 4096" "device_ok dv" "closed_all (cs_w c)" "closable (cs_w c)"
    and "sid \<in> set (sg_streams (w_root (cs_w c)))"
    and "map toUpper (utf16_encode name) = map toUpper (stream_name (cs_w c) sid)"
  shows "\<exists>w' file h s es st. closeWriter dv (cs_w c) = (w', Inr file) \<and>
    newReader (bytesReaderAt EOF file) = Inr (h, StorageE s es) \<and> openStream es name = Inr st \<and>
    smSize st = int (length (cs_data c sid)) \<and>
    (\<forall>plen off. 0 \<le> off \<and> off < smSize st \<longrightarrow> streamReadAt (bytesReaderAt EOF file) st plen off =
      (slice (nat off) plen (cs_data c sid), if smSize st - off < int plen then Some EOF else None))"
proof -
  let ?w = "cs_w c" and ?D = "cs_data c"
  obtain w' w1 lay rg where w: "closeWriter dv ?w = (w', Inr (close_file w1 rg))" "closes ?w ?D w1 lay rg"
    "winv ?w ?D" "tree_ok ?w" "capped ?w"
    by (rule reach_close [OF assms(1-5)])
  let ?F = "close_file w1 rg" and ?rd = "bytesReaderAt EOF (close_file w1 rg)"
  obtain root where r: "newReader ?rd = Inr (close_header w1 rg, root)"
    "entry_back ?w ?D ?F True (node_of (stream_name ?w) (w_root ?w)) root"
    by (rule close_newReader [OF w(2) assms(4) w(3) assms(5) w(5,4) bytes_reader.strict_reader_at_axioms])
  obtain s es where root: "root = StorageE s es" using r(2) by (cases "w_root ?w"; cases root) auto
  obtain st where st: "openStream es name = Inr st" "stream_back ?w ?D ?F sid st"
    using openStream_back [OF r(2) [unfolded root] _ assms(6,7)] w(4) by (auto simp: tree_ok_def)
  then have sz: "smSize st = int (length (?D sid))" and rb: "readable st" "\<forall>a \<in> set (runs_addrs (smRuns st)). a < length ?F"
    and g: "gather ?F (runs_addrs (smRuns st)) = ?D sid" by (simp_all add: stream_back_def)
  have "streamReadAt ?rd st plen off = (slice (nat off) plen (?D sid), if smSize st - off < int plen then Some EOF else None)"
    if "0 \<le> off \<and> off < smSize st" for plen off
    using streamReadAt_ok [OF bytes_reader.reader_at_axioms _ _ rb(2), of off plen] rb(1) that by (simp add: readable_def g)
  then show ?thesis using w(1) r(1) st(1) sz unfolding root by blast
qed

theorem written_stream_read_witness:
  "\<exists>w' file h s es st. closeWriter sample_device (cs_w sample_closed) = (w', Inr file) \<and>
    newReader (bytesReaderAt EOF file) = Inr (h, StorageE s es) \<and> openStream es [0x61] = Inr st \<and>
    streamReadAt (bytesReaderAt EOF file) st 10 1 = ([2, 3], Some EOF)"
proof -
  have "map toUpper (utf16_encode [0x61]) = map toUpper (stream_name (cs_w sample_closed) 0)"
    by (simp add: sample_closed_sel(5) toUpper_def utf16_encode_def appendRune_def)
  from written_stream_read [OF sample_reach _ sample_device_ok sample_closed_sel(1,2) _ this] obtain w' f h s es st where
    r: "closeWriter sample_device (cs_w sample_closed) = (w', Inr f)" "newReader (bytesReaderAt EOF f) = Inr (h, StorageE s es)"
      "openStream es [0x61] = Inr st" "smSize st = int (length (cs_data sample_closed 0))"
      "\<And>plen off. 0 \<le> off \<and> off < smSize st \<Longrightarrow> streamReadAt (bytesReaderAt EOF f) st plen off =
        (slice (nat off) plen (cs_data sample_closed 0), if smSize st - off < int plen then Some EOF else None)"
    by (auto simp: sample_closed_sel(4))
  then have "streamReadAt (bytesReaderAt EOF f) st 10 1 = ([2, 3], Some EOF)"
    by (simp add: sample_closed_sel(3) slice_def)
  then show ?thesis using r(1-3) by blast
qed

end
