(* ===== verification/GoIO.thy ===== *)
theory GoIO
  imports Runs
begin

text \<open>
  What fs.go and \<open>AddFS\<close> use of Go's library beyond \<open>GoStd\<close>: \<open>fs.ValidPath\<close>, \<open>strings.Split\<close> and
  \<open>LastIndexByte\<close>, \<open>path.Base\<close>, and \<open>io.SectionReader\<close> over a stream (\<open>Read\<close> and \<open>Seek\<close>), with the lemmas
  on reading a stream to its end through it.
\<close>

section \<open>Paths\<close>

definition slash :: rune where "slash = 0x2F"

definition dot :: rune where "dot = 0x2E"

fun splitOn :: "'a \<Rightarrow> 'a list \<Rightarrow> 'a list list" where
  "splitOn c [] = [[]]"
| "splitOn c (x # xs) =
     (if x = c then [] # splitOn c xs
      else case splitOn c xs of [] \<Rightarrow> [[x]] | y # ys \<Rightarrow> (x # y) # ys)"

fun lastIndexByte :: "'a list \<Rightarrow> 'a \<Rightarrow> nat option" where
  "lastIndexByte [] c = None"
| "lastIndexByte (x # xs) c =
     (case lastIndexByte xs c of Some i \<Rightarrow> Some (Suc i) | None \<Rightarrow> if x = c then Some 0 else None)"

definition bad_elem :: "gostring \<Rightarrow> bool" where
  "bad_elem e \<longleftrightarrow> e = [] \<or> e = [dot] \<or> e = [dot, dot]"

text \<open>The loop of \<open>fs.ValidPath\<close>; a string that is no valid UTF-8 is no list of valid runes.\<close>

function validElems :: "gostring \<Rightarrow> bool" where
  "validElems name =
     (let elem = takeWhile (\<lambda>r. r \<noteq> slash) name in
      if bad_elem elem then False
      else if length elem = length name then True
      else validElems (drop (length elem + 1) name))"
  by pat_completeness auto
termination
proof (relation "measure length")
  fix name elem assume "elem = takeWhile (\<lambda>r. r \<noteq> slash) (name :: gostring)" "\<not> bad_elem elem"
  then show "(drop (length elem + 1) name, name) \<in> measure length"
    by (cases name) (auto simp: bad_elem_def)
qed simp

declare validElems.simps [simp del]

definition validPath :: "gostring \<Rightarrow> bool" where
  "validPath name \<longleftrightarrow> list_all valid_rune name \<and> (name = [dot] \<or> validElems name)"

definition pathBase :: "gostring \<Rightarrow> gostring" where
  "pathBase p =
     (if p = [] then [dot]
      else
        let p = rev (dropWhile (\<lambda>r. r = slash) (rev p));
            p = (case lastIndexByte p slash of Some i \<Rightarrow> drop (i + 1) p | None \<Rightarrow> p)
        in if p = [] then [slash] else p)"

lemma splitOn_nonempty [simp]: "splitOn c xs \<noteq> []"
  by (cases "splitOn c (tl xs)"; cases xs) auto

lemma splitOn_no: "c \<notin> set xs \<Longrightarrow> splitOn c xs = [xs]"
  by (induction xs) auto

lemma splitOn_append: "c \<notin> set e \<Longrightarrow> splitOn c (e @ c # xs) = e # splitOn c xs"
  by (induction e) auto

lemma splitOn_snoc: "c \<notin> set e \<Longrightarrow> splitOn c (xs @ c # e) = splitOn c xs @ [e]"
proof (induction xs)
  case Nil
  then show ?case by (simp add: splitOn_no)
next
  case (Cons x xs)
  then show ?case by (cases "splitOn c xs") auto
qed

lemma lastIndexByte_None: "lastIndexByte xs c = None \<longleftrightarrow> c \<notin> set xs"
  by (induction xs) (auto split: option.splits)

lemma lastIndexByte_Some: "lastIndexByte xs c = Some i \<Longrightarrow> xs = take i xs @ c # drop (i + 1) xs \<and> c \<notin> set (drop (i + 1) xs)"
proof (induction xs arbitrary: i)
  case (Cons x xs)
  then show ?case by (cases "lastIndexByte xs c") (auto simp: lastIndexByte_None split: if_splits)
qed simp

lemma validElems_iff: "validElems name \<longleftrightarrow> (\<forall>e \<in> set (splitOn slash name). \<not> bad_elem e)"
proof (induction name rule: validElems.induct)
  case (1 name)
  let ?e = "takeWhile (\<lambda>r. r \<noteq> slash) name"
  have ns: "slash \<notin> set ?e" by (auto dest: set_takeWhileD)
  show ?case
  proof (cases "length ?e = length name")
    case True
    then have "?e = name" by (metis takeWhile_eq_take take_all order_refl)
    then have "splitOn slash name = [name]" using ns splitOn_no by metis
    then show ?thesis unfolding validElems.simps [of name] Let_def \<open>?e = name\<close> by simp
  next
    case False
    then have "dropWhile (\<lambda>r. r \<noteq> slash) name \<noteq> []"
      by (metis append_Nil2 takeWhile_dropWhile_id)
    then obtain rest where d: "dropWhile (\<lambda>r. r \<noteq> slash) name = slash # rest"
      by (metis (mono_tags, lifting) hd_dropWhile list.collapse)
    then have n: "name = ?e @ slash # rest" by (metis takeWhile_dropWhile_id)
    then have r: "drop (length ?e + 1) name = rest" by (metis append_eq_conv_conj drop_drop add.commute drop0 drop_Suc_Cons One_nat_def)
    have "splitOn slash name = ?e # splitOn slash rest" using splitOn_append [OF ns] n by metis
    then show ?thesis using 1 [OF refl] False r by (subst validElems.simps) (simp add: Let_def)
  qed
qed

lemma pathBase_plain: "name \<noteq> [] \<Longrightarrow> slash \<notin> set name \<Longrightarrow> pathBase name = name"
proof -
  assume a: "name \<noteq> []" "slash \<notin> set name"
  then have "dropWhile (\<lambda>r. r = slash) (rev name) = rev name" by (cases name rule: rev_cases) auto
  then show ?thesis using a lastIndexByte_None [of name slash] by (simp add: pathBase_def Let_def)
qed

section \<open>io.SectionReader\<close>

text \<open>\<open>io.NewSectionReader(s, 0, s.Size)\<close>: the state is the offset; \<open>n\<close> is \<open>len(p)\<close>. The size
  of a stream that \<open>NewReader\<close> has accepted is not negative.\<close>

definition sectionRead :: "goerr readerAt \<Rightarrow> stream \<Rightarrow> int \<Rightarrow> nat \<Rightarrow> (bytes \<times> goerr option) \<times> int" where
  "sectionRead rd s off n =
     (if smSize s \<le> off then (([], Some EOF), off)
      else
        let n = (if smSize s - off < int n then nat (smSize s - off) else n);
            (b, err) = streamReadAt rd s n off
        in ((b, err), off + int (length b)))"

text \<open>Reads into buffers of the given sizes, up to the first error.\<close>

fun readSeq :: "goerr readerAt \<Rightarrow> stream \<Rightarrow> int \<Rightarrow> nat list \<Rightarrow> bytes \<times> goerr option" where
  "readSeq rd s off [] = ([], None)"
| "readSeq rd s off (n # ns) =
     (case sectionRead rd s off n of
        ((b, Some e), off') \<Rightarrow> (b, Some e)
      | ((b, None), off') \<Rightarrow> (case readSeq rd s off' ns of (bs, err) \<Rightarrow> (b @ bs, err)))"

lemma sectionRead_ok:
  assumes "reader_at rd src EOF" "runs_ok 0 (smRuns s)" "smSize s = int (length (runs_addrs (smRuns s)))"
    "\<forall>a \<in> set (runs_addrs (smRuns s)). a < length src" "0 \<le> off"
  shows "sectionRead rd s off n =
    (if smSize s \<le> off then (([], Some EOF), off)
     else ((slice (nat off) n (gather src (runs_addrs (smRuns s))), None),
           off + int (min n (nat (smSize s - off)))))"
proof (cases "smSize s \<le> off")
  case False
  let ?d = "gather src (runs_addrs (smRuns s))"
  have l: "int (length ?d) = smSize s" using assms(3) by (simp add: gather_def)
  let ?n = "if smSize s - off < int n then nat (smSize s - off) else n"
  have "streamReadAt rd s ?n off = (slice (nat off) ?n ?d, None)"
    using streamReadAt_ok [OF assms(1-4) assms(5), of ?n] False by simp
  moreover have "slice (nat off) ?n ?d = slice (nat off) n ?d"
    using l False assms(5) by (auto simp: slice_def)
  moreover have "length (slice (nat off) n ?d) = min n (nat (smSize s - off))"
    using l False assms(5) by (simp add: slice_def)
  ultimately show ?thesis using False by (simp add: sectionRead_def Let_def)
qed (simp add: sectionRead_def)

lemma readSeq_ok:
  assumes "reader_at rd src EOF" "runs_ok 0 (smRuns s)" "smSize s = int (length (runs_addrs (smRuns s)))"
    "\<forall>a \<in> set (runs_addrs (smRuns s)). a < length src" "0 \<le> off" "off \<le> smSize s" "\<forall>n \<in> set ns. 0 < n"
  shows "readSeq rd s off ns =
    (slice (nat off) (sum_list ns) (gather src (runs_addrs (smRuns s))),
     if (\<exists>k < length ns. smSize s \<le> off + int (sum_list (take k ns))) then Some EOF else None)"
  using assms(5-)
proof (induction ns arbitrary: off)
  case (Cons n ns)
  let ?d = "gather src (runs_addrs (smRuns s))"
  have l: "int (length ?d) = smSize s" using assms(3) by (simp add: gather_def)
  note r = sectionRead_ok [OF assms(1-4) Cons.prems(1), of n]
  show ?case
  proof (cases "smSize s \<le> off")
    case True
    then have "slice (nat off) m ?d = []" for m using l by (simp add: slice_def)
    then show ?thesis using r True by (auto intro!: exI [of _ 0])
  next
    case False
    let ?off' = "off + int (min n (nat (smSize s - off)))"
    have b: "0 \<le> ?off'" "?off' \<le> smSize s" using Cons.prems False by linarith+
    have ih: "readSeq rd s ?off' ns = (slice (nat ?off') (sum_list ns) ?d,
        if (\<exists>k < length ns. smSize s \<le> ?off' + int (sum_list (take k ns))) then Some EOF else None)"
      using Cons.IH [OF b] Cons.prems(3) by simp
    have "slice (nat off) n ?d @ slice (nat ?off') (sum_list ns) ?d = slice (nat off) (n + sum_list ns) ?d"
    proof (cases "int n \<le> smSize s - off")
      case True
      then have "nat ?off' = nat off + n" using Cons.prems(1) False by linarith
      then show ?thesis by (simp only: slice_add)
    next
      case big: False
      then have o: "nat ?off' = length ?d" "length ?d - nat off \<le> n" using l Cons.prems(1) False by linarith+
      then have "slice (nat ?off') (sum_list ns) ?d = []" by (simp add: slice_def)
      then show ?thesis using o(2) by (simp add: slice_def)
    qed
    moreover have "(\<exists>k < length ns. smSize s \<le> ?off' + int (sum_list (take k ns))) \<longleftrightarrow>
        (\<exists>k < length (n # ns). smSize s \<le> off + int (sum_list (take k (n # ns))))"
    proof -
      have "smSize s \<le> ?off' + int m \<longleftrightarrow> smSize s \<le> off + int (n + m)" for m using False Cons.prems(1) by linarith
      then show ?thesis using False
        by (simp only: length_Cons Ex_less_Suc2 take_Suc_Cons sum_list.Cons) simp
    qed
    ultimately show ?thesis using r False ih by simp
  qed
qed (simp add: slice_def)

text \<open>More buffers than bytes left reach the end.\<close>

lemma readSeq_rest:
  assumes "reader_at rd src EOF" "runs_ok 0 (smRuns s)" "smSize s = int (length (runs_addrs (smRuns s)))"
    "\<forall>a \<in> set (runs_addrs (smRuns s)). a < length src" "\<forall>n \<in> set ns. 0 < n" "0 \<le> off" "ns \<noteq> []" "smSize s < off + int (length ns)"
  shows "readSeq rd s off ns = (drop (nat off) (gather src (runs_addrs (smRuns s))), Some EOF)"
proof (cases "smSize s < off")
  case True
  then have "drop (nat off) (gather src (runs_addrs (smRuns s))) = []" using assms(3) by (simp add: gather_def)
  then show ?thesis using True assms(7) by (cases ns) (simp_all add: sectionRead_def)
next
  case False
  have ge: "length ms \<le> sum_list ms" if "\<forall>n \<in> set ms. 0 < n" for ms :: "nat list" using that by (induction ms) force+
  have "length ns - 1 < length ns" "smSize s \<le> off + int (length ns - 1)" using assms(7,8) by (cases ns; simp)+
  moreover have "length ns - 1 \<le> sum_list (take (length ns - 1) ns)"
    using ge [of "take (length ns - 1) ns"] assms(5) by (auto dest: in_set_takeD)
  ultimately have "\<exists>k < length ns. smSize s \<le> off + int (sum_list (take k ns))" by (intro exI [of _ "length ns - 1"]) linarith
  moreover have "length (gather src (runs_addrs (smRuns s))) - nat off \<le> sum_list ns"
    using ge [OF assms(5)] assms(3,6,8) by (simp add: gather_def)
  ultimately show ?thesis using readSeq_ok [OF assms(1-4) assms(6) _ assms(5)] False by (simp add: slice_def)
qed

lemma readSeq_all:
  assumes "reader_at rd src EOF" "runs_ok 0 (smRuns s)" "smSize s = int (length (runs_addrs (smRuns s)))"
    "\<forall>a \<in> set (runs_addrs (smRuns s)). a < length src" "\<forall>n \<in> set ns. 0 < n" "smSize s < int (length ns)"
  shows "readSeq rd s 0 ns = (gather src (runs_addrs (smRuns s)), Some EOF)"
  using readSeq_rest [OF assms(1-5), of 0] assms(3,6) by force

section \<open>Seek\<close>

text \<open>
  \<open>Seek\<close> of the cursor that \<open>Stream.Open\<close> returns. Sums that exceed an \<open>int64\<close> wrap to negative ones and are
  refused like those. It may go beyond the end.
\<close>

datatype seekError = ErrWhence | ErrOffset

definition sectionSeek :: "stream \<Rightarrow> int \<Rightarrow> int \<Rightarrow> int \<Rightarrow> (int \<times> seekError option) \<times> int" where
  "sectionSeek s off offset whence =
     (if whence < 0 \<or> 2 < whence then ((0, Some ErrWhence), off)
      else
        let n = offset + (if whence = 0 then 0 else if whence = 1 then off else smSize s)
        in if n < 0 \<or> 2 ^ 63 \<le> n then ((0, Some ErrOffset), off) else ((n, None), n))"

text \<open>A refused \<open>Seek\<close> leaves the cursor. After any other, reading gives what there is from the new position to the end.\<close>

lemma sectionSeek_refused: "sectionSeek s off offset whence = ((k, Some e), off') \<Longrightarrow> off' = off \<and> k = 0"
  by (auto simp: sectionSeek_def Let_def split: if_splits)

lemma seek_then_read:
  assumes "reader_at rd src EOF" "runs_ok 0 (smRuns s)" "smSize s = int (length (runs_addrs (smRuns s)))"
    "\<forall>a \<in> set (runs_addrs (smRuns s)). a < length src" and sk: "sectionSeek s off offset whence = ((k, None), off')"
    and ns: "\<forall>n \<in> set ns. 0 < n" "ns \<noteq> []" "smSize s < k + int (length ns)"
  shows "readSeq rd s off' ns = (drop (nat k) (gather src (runs_addrs (smRuns s))), Some EOF)"
proof -
  have "off' = k" "0 \<le> k" using sk by (auto simp: sectionSeek_def Let_def split: if_splits)
  then show ?thesis using readSeq_rest [OF assms(1-4) ns(1) _ ns(2,3)] by simp
qed

end
