(* ===== verification/FsView.thy ===== *)
theory FsView
  imports GoIO DirWalk
begin

text \<open>
  fs.go: the reader as an \<open>io/fs\<close> file system. \<open>fsOpen\<close> is \<open>Reader.Open\<close>; a handle is a stream with the
  offset of its cursor or a storage with the position of the next entry \<open>ReadDir\<close> returns. The
  specification of a lookup is \<open>at_path\<close>: an entry that is reached by going down children of the given
  names, each up to case.
\<close>

section \<open>Open\<close>

datatype fs_reason = FsInvalid | FsNotExist | FsIsDirectory

datatype fs_error = PathError string gostring fs_reason | FsEOF

datatype fsHandle = FileH stream int | DirH storageInfo "entry list" nat

definition findEntry :: "(entry \<Rightarrow> bool) \<Rightarrow> entry list \<Rightarrow> gostring \<Rightarrow> entry option" where
  "findEntry kind entries name = find (\<lambda>e. kind e \<and> compareNamesStr name (entryName e) = 0) entries"

fun isStorage :: "entry \<Rightarrow> bool" where
  "isStorage (StorageE s es) \<longleftrightarrow> True"
| "isStorage (StreamE st) \<longleftrightarrow> False"

text \<open>The children of a storage; only storages are passed.\<close>

fun entriesOf :: "entry \<Rightarrow> entry list" where
  "entriesOf (StorageE s es) = es"
| "entriesOf (StreamE st) = []"

definition splitPath :: "gostring \<Rightarrow> gostring \<times> gostring" where
  "splitPath p = (case lastIndexByte p slash of Some i \<Rightarrow> (take i p, drop (i + 1) p) | None \<Rightarrow> ([], p))"

text \<open>The loop over the parts of the directory.\<close>

fun descend :: "entry \<Rightarrow> gostring list \<Rightarrow> entry option" where
  "descend storage [] = Some storage"
| "descend storage (part # parts) =
     (case findEntry isStorage (entriesOf storage) part of
        None \<Rightarrow> None
      | Some sub \<Rightarrow> descend sub parts)"

fun openHandle :: "entry \<Rightarrow> fsHandle" where
  "openHandle (StreamE st) = FileH st 0"
| "openHandle (StorageE s es) = DirH s es 0"

definition fsOpen :: "entry \<Rightarrow> gostring \<Rightarrow> fs_error + fsHandle" where
  "fsOpen root name =
     (if \<not> validPath name then Inl (PathError ''open'' name FsInvalid)
      else if name = [dot] then Inr (openHandle root)
      else
        let (dir, base) = splitPath name in
        case (if dir \<noteq> [] then descend root (splitOn slash dir) else Some root) of
          None \<Rightarrow> Inl (PathError ''open'' name FsNotExist)
        | Some storage \<Rightarrow>
            (case findEntry (\<lambda>e. True) (entriesOf storage) base of
               None \<Rightarrow> Inl (PathError ''open'' name FsNotExist)
             | Some e \<Rightarrow> Inr (openHandle e)))"

section \<open>File information\<close>

record fileInfo =
  fi_name :: gostring
  fi_size :: int
  fi_isDir :: bool
  fi_modTime :: gotime
  fi_sys :: entry

definition modeDir :: u32 where "modeDir = 0x80000000"

definition fi_mode :: "fileInfo \<Rightarrow> u32" where
  "fi_mode fi = (if fi_isDir fi then or modeDir 0x16D else 0x124)"

definition streamFileInfo :: "stream \<Rightarrow> fileInfo" where
  "streamFileInfo s = \<lparr>fi_name = pathBase (smName s), fi_size = smSize s, fi_isDir = False, fi_modTime = zeroTime, fi_sys = StreamE s\<rparr>"

definition storageFileInfo :: "storageInfo \<Rightarrow> entry list \<Rightarrow> fileInfo" where
  "storageFileInfo s es = \<lparr>fi_name = pathBase (stName s), fi_size = 0, fi_isDir = True, fi_modTime = stModified s, fi_sys = StorageE s es\<rparr>"

fun entryInfo :: "entry \<Rightarrow> fileInfo" where
  "entryInfo (StreamE st) = streamFileInfo st"
| "entryInfo (StorageE s es) = storageFileInfo s es"

fun fsStat :: "fsHandle \<Rightarrow> fileInfo" where
  "fsStat (FileH st off) = streamFileInfo st"
| "fsStat (DirH s es pos) = storageFileInfo s es"

section \<open>Reading files and directories\<close>

text \<open>\<open>Read\<close> into a buffer of \<open>n\<close> bytes.\<close>

fun fsRead :: "goerr readerAt \<Rightarrow> fsHandle \<Rightarrow> nat \<Rightarrow> fsHandle \<times> bytes \<times> (fs_error + goerr) option" where
  "fsRead rd (FileH st off) n = (case sectionRead rd st off n of ((b, err), off) \<Rightarrow> (FileH st off, b, map_option Inr err))"
| "fsRead rd (DirH s es pos) n = (DirH s es pos, [], Some (Inl (PathError ''read'' (stName s) FsIsDirectory)))"

definition fsReadDir :: "entry list \<Rightarrow> nat \<Rightarrow> int \<Rightarrow> nat \<times> (fs_error + fileInfo list)" where
  "fsReadDir entries pos n =
     (let remaining = drop pos entries; k = length remaining in
      if 0 < n then
        (let k = min k (nat n) in
         if k = 0 then (pos, Inl FsEOF)
         else (pos + k, Inr (map entryInfo (take k remaining))))
      else (pos + k, Inr (map entryInfo (take k remaining))))"

section \<open>Lookup\<close>

definition same_name :: "gostring \<Rightarrow> gostring \<Rightarrow> bool" where
  "same_name a b \<longleftrightarrow> map toUpper (utf16_encode a) = map toUpper (utf16_encode b)"

lemma compareNamesStr_same: "compareNamesStr a b = 0 \<longleftrightarrow> same_name a b"
  by (simp add: compareNamesStr_eq compareNames_0 same_name_def)

fun at_path :: "entry \<Rightarrow> gostring list \<Rightarrow> entry \<Rightarrow> bool" where
  "at_path e [] x \<longleftrightarrow> x = e"
| "at_path (StorageE s es) (n # ns) x \<longleftrightarrow> (\<exists>c \<in> set es. same_name n (entryName c) \<and> at_path c ns x)"
| "at_path (StreamE st) (n # ns) x \<longleftrightarrow> False"

text \<open>No two children of a storage have names that differ only in case.\<close>

definition upper_of :: "entry \<Rightarrow> u16 list" where
  "upper_of e = map toUpper (utf16_encode (entryName e))"

fun names_unique :: "entry \<Rightarrow> bool" where
  "names_unique (StorageE s es) \<longleftrightarrow> distinct (map upper_of es) \<and> (\<forall>c \<in> set es. names_unique c)"
| "names_unique (StreamE st) \<longleftrightarrow> True"

lemma find_unique:
  assumes "distinct (map f xs)" "\<And>x. P x \<Longrightarrow> f x = k" "x \<in> set xs" "P x"
  shows "find P xs = Some x"
  using assms
proof (induction xs)
  case (Cons y ys)
  then show ?case by (cases "P y") force+
qed simp

lemma findEntry_Some:
  assumes "names_unique (StorageE s es)"
  shows "findEntry kind es n = Some c \<longleftrightarrow> c \<in> set es \<and> kind c \<and> same_name n (entryName c)"
proof
  assume "findEntry kind es n = Some c"
  then show "c \<in> set es \<and> kind c \<and> same_name n (entryName c)"
    by (auto simp: findEntry_def find_Some_iff compareNamesStr_same)
next
  assume c: "c \<in> set es \<and> kind c \<and> same_name n (entryName c)"
  show "findEntry kind es n = Some c" unfolding findEntry_def
    by (rule find_unique [where f = upper_of and k = "map toUpper (utf16_encode n)"])
      (use assms c in \<open>auto simp: compareNamesStr_same same_name_def upper_of_def\<close>)
qed

lemma splitPath_parts:
  "splitPath p = (dir, base) \<Longrightarrow> validElems p \<Longrightarrow>
   splitOn slash p = (if dir \<noteq> [] then splitOn slash dir else []) @ [base]"
proof (cases "lastIndexByte p slash")
  case None
  assume "splitPath p = (dir, base)"
  then show ?thesis using None lastIndexByte_None [of p slash] by (simp add: splitPath_def splitOn_no)
next
  case (Some i)
  assume s: "splitPath p = (dir, base)" and v: "validElems p"
  then have d: "dir = take i p" "base = drop (i + 1) p" using Some by (simp_all add: splitPath_def)
  have l: "p = dir @ slash # base" "slash \<notin> set base" using lastIndexByte_Some [OF Some] d by simp_all
  then have sp: "splitOn slash p = splitOn slash dir @ [base]" using splitOn_snoc [of slash base dir] by simp
  have "dir \<noteq> []"
  proof
    assume "dir = []"
    then have "[] \<in> set (splitOn slash p)" using sp by simp
    then show False using v by (auto simp: validElems_iff bad_elem_def)
  qed
  then show ?thesis using sp by simp
qed

lemma descend_path:
  "names_unique root \<Longrightarrow> isStorage root \<Longrightarrow>
   descend root ps = Some x \<longleftrightarrow> at_path root ps x \<and> isStorage x"
proof (induction ps arbitrary: root)
  case (Cons p ps)
  obtain s es where r: "root = StorageE s es" using Cons.prems(2) by (cases root) auto
  note f = findEntry_Some [OF Cons.prems(1) [unfolded r], of isStorage p]
  have sub: "at_path c ps x \<and> isStorage x \<longleftrightarrow> descend c ps = Some x" if "c \<in> set es" "isStorage c" for c
    using Cons.IH [of c] Cons.prems that by (simp add: r)
  have st: "isStorage c" if "at_path c ps x" "isStorage x" for c using that by (cases c; cases ps) auto
  have "descend root (p # ps) = Some x \<longleftrightarrow> (\<exists>c. findEntry isStorage es p = Some c \<and> descend c ps = Some x)"
    by (auto simp: r split: option.splits)
  also have "\<dots> \<longleftrightarrow> (\<exists>c \<in> set es. same_name p (entryName c) \<and> at_path c ps x \<and> isStorage x)"
    using f sub st by metis
  finally show ?case by (auto simp: r)
qed auto

lemma at_path_snoc:
  "at_path root (ps @ [n]) x \<longleftrightarrow> (\<exists>s es. at_path root ps (StorageE s es) \<and> x \<in> set es \<and> same_name n (entryName x))"
proof (induction ps arbitrary: root)
  case Nil
  then show ?case by (cases root) auto
next
  case (Cons p ps)
  show ?case by (cases root) (auto simp: Cons)
qed

lemma names_unique_at: "at_path root ps x \<Longrightarrow> names_unique root \<Longrightarrow> names_unique x"
proof (induction ps arbitrary: root)
  case (Cons p ps)
  then show ?case by (cases root) auto
qed simp

definition is_path :: "gostring \<Rightarrow> bool" where
  "is_path name \<longleftrightarrow> validPath name \<and> name \<noteq> [dot]"

text \<open>What the name of a lookup stands for: the root, or the entry at its path.\<close>

definition named_entry :: "entry \<Rightarrow> gostring \<Rightarrow> entry \<Rightarrow> bool" where
  "named_entry root name e \<longleftrightarrow> validPath name \<and> at_path root (if name = [dot] then [] else splitOn slash name) e"

lemma fsOpen_iff:
  assumes u: "names_unique (StorageE s es)"
  shows "fsOpen (StorageE s es) name = Inr h \<longleftrightarrow> (\<exists>e. named_entry (StorageE s es) name e \<and> h = openHandle e)"
proof -
  let ?root = "StorageE s es"
  consider "\<not> validPath name" | "name = [dot]" "validPath name" | "validPath name" "name \<noteq> [dot]" by blast
  then show ?thesis
  proof cases
    case 3
    then have v: "validElems name" by (simp add: validPath_def)
    obtain dir base where sp: "splitPath name = (dir, base)" by fastforce
    let ?ps = "if dir \<noteq> [] then splitOn slash dir else []"
    note parts = splitPath_parts [OF sp v]
    have d: "(if dir \<noteq> [] then descend ?root (splitOn slash dir) else Some ?root) = descend ?root ?ps" by simp
    have "fsOpen ?root name = Inr h \<longleftrightarrow>
        (\<exists>st e. descend ?root ?ps = Some st \<and> findEntry (\<lambda>e. True) (entriesOf st) base = Some e \<and> h = openHandle e)"
      using 3 unfolding fsOpen_def Let_def sp d by (auto split: option.splits)
    also have "\<dots> \<longleftrightarrow> (\<exists>s' es' e. at_path ?root ?ps (StorageE s' es') \<and> e \<in> set es' \<and> same_name base (entryName e) \<and> h = openHandle e)"
    proof (intro iffI; elim exE conjE)
      fix st e
      assume a: "descend ?root ?ps = Some st" "findEntry (\<lambda>e. True) (entriesOf st) base = Some e" "h = openHandle e"
      then have p: "at_path ?root ?ps st" "isStorage st" using descend_path [OF u] by simp_all
      then obtain s' es' where "st = StorageE s' es'" by (cases st) auto
      then show "\<exists>s' es' e. at_path ?root ?ps (StorageE s' es') \<and> e \<in> set es' \<and> same_name base (entryName e) \<and> h = openHandle e"
        using p a findEntry_Some [of s' es'] names_unique_at [OF p(1) u] by (metis entriesOf.simps(1))
    next
      fix s' es' e
      assume a: "at_path ?root ?ps (StorageE s' es')" "e \<in> set es'" "same_name base (entryName e)" "h = openHandle e"
      then have "descend ?root ?ps = Some (StorageE s' es')" using descend_path [OF u] by simp
      moreover have "findEntry (\<lambda>e. True) es' base = Some e" using findEntry_Some [OF names_unique_at [OF a(1) u]] a by simp
      ultimately show "\<exists>st e. descend ?root ?ps = Some st \<and> findEntry (\<lambda>e. True) (entriesOf st) base = Some e \<and> h = openHandle e"
        using a(4) by (metis entriesOf.simps(1))
    qed
    also have "\<dots> \<longleftrightarrow> (\<exists>e. at_path ?root (splitOn slash name) e \<and> h = openHandle e)"
      unfolding parts at_path_snoc by blast
    finally show ?thesis using 3 by (simp add: named_entry_def)
  qed (auto simp: fsOpen_def named_entry_def)
qed

lemma fsOpen_error:
  "fsOpen root name = Inl err \<Longrightarrow> err = PathError ''open'' name (if validPath name then FsNotExist else FsInvalid)"
  by (auto simp: fsOpen_def Let_def split: if_splits option.splits prod.splits)

section \<open>Directory pages\<close>

text \<open>\<open>ReadDir\<close> called with the counts \<open>ns\<close> one after the other, up to the first error.\<close>

fun readPages :: "entry list \<Rightarrow> nat \<Rightarrow> int list \<Rightarrow> fileInfo list \<times> fs_error option" where
  "readPages es pos [] = ([], None)"
| "readPages es pos (n # ns) =
     (case fsReadDir es pos n of
        (pos, Inl e) \<Rightarrow> ([], Some e)
      | (pos, Inr fis) \<Rightarrow> (case readPages es pos ns of (rest, err) \<Rightarrow> (fis @ rest, err)))"

lemma fsReadDir_pos:
  "0 < n \<Longrightarrow> pos \<le> length es \<Longrightarrow> fsReadDir es pos n =
    (if pos = length es then (pos, Inl FsEOF)
     else (min (pos + nat n) (length es), Inr (map entryInfo (slice pos (nat n) es))))"
  by (auto simp: fsReadDir_def Let_def slice_def min_def)

lemma readPages_ok:
  assumes "\<forall>n \<in> set ns. 0 < n" "pos \<le> length es"
  shows "readPages es pos ns = (map entryInfo (slice pos (nat (sum_list ns)) es),
    if (\<exists>k < length ns. int (length es) \<le> int pos + sum_list (take k ns)) then Some FsEOF else None)"
  using assms
proof (induction ns arbitrary: pos)
  case (Cons n ns)
  have n: "0 < n" "0 \<le> sum_list ns" using Cons.prems(1) by (auto intro: sum_list_nonneg order.strict_implies_order)
  show ?case
  proof (cases "pos = length es")
    case True
    then show ?thesis using n fsReadDir_pos [of n pos es] by (auto simp: slice_def intro!: exI [of _ 0])
  next
    case False
    let ?p = "min (pos + nat n) (length es)"
    have ih: "readPages es ?p ns = (map entryInfo (slice ?p (nat (sum_list ns)) es),
        if (\<exists>k < length ns. int (length es) \<le> int ?p + sum_list (take k ns)) then Some FsEOF else None)"
      using Cons by simp
    have "slice pos (nat n) es @ slice ?p (nat (sum_list ns)) es = slice pos (nat (n + sum_list ns)) es"
    proof (cases "pos + nat n \<le> length es")
      case True
      then have p: "?p = pos + nat n" by simp
      have "nat (n + sum_list ns) = nat n + nat (sum_list ns)" using n by (simp add: nat_add_distrib)
      then show ?thesis by (simp only: p slice_add)
    next
      case big: False
      then have "slice ?p m es = []" for m by (simp add: slice_def)
      moreover have "slice pos (nat n) es = drop pos es" "slice pos (nat (n + sum_list ns)) es = drop pos es"
        using big n by (simp_all add: slice_def)
      ultimately show ?thesis by simp
    qed
    moreover have "int (length es) \<le> int ?p + sum_list (take k ns) \<longleftrightarrow> int (length es) \<le> int pos + (n + sum_list (take k ns))" for k
    proof -
      have "set (take k ns) \<subseteq> set ns" by (rule set_take_subset)
      then have "0 \<le> sum_list (take k ns)" using Cons.prems(1) by (intro sum_list_nonneg) fastforce
      then show ?thesis using n by (simp add: min_def nat_le_iff) linarith
    qed
    ultimately show ?thesis
      using n False Cons.prems(2) fsReadDir_pos [of n pos es] ih
      by (simp only: length_Cons Ex_less_Suc2 take_Suc_Cons sum_list.Cons readPages.simps) (simp add: map_append [symmetric] del: map_append)
  qed
qed (simp add: slice_def)

text \<open>C28: \<open>Reader.Open\<close> is lookup by path: in a tree in which no storage has two children of the same name
  up to case, it opens exactly the entry that is reached from the root by going down children of the
  names in the path (the root for "."), and its only errors are an invalid path and a path that
  does not exist.\<close>

theorem fsOpen_exact:
  assumes "names_unique (StorageE s es)"
  shows "(\<forall>h. fsOpen (StorageE s es) name = Inr h \<longleftrightarrow> (\<exists>e. named_entry (StorageE s es) name e \<and> h = openHandle e)) \<and>
    (\<forall>err. fsOpen (StorageE s es) name = Inl err \<longleftrightarrow>
       (\<nexists>e. named_entry (StorageE s es) name e) \<and>
       err = PathError ''open'' name (if validPath name then FsNotExist else FsInvalid))"
  using fsOpen_iff [OF assms, of name] fsOpen_error [of "StorageE s es" name]
  by (cases "fsOpen (StorageE s es) name") auto

definition sample_fs_info :: "gostring \<Rightarrow> storageInfo" where
  "sample_fs_info n = \<lparr>stName = n, stCLSID = [], stStateBits = 0, stCreated = zeroTime, stModified = zeroTime\<rparr>"

definition sample_fs_stream :: stream where
  "sample_fs_stream = \<lparr>smName = [0x78], smStateBits = 0, smSize = 0, smRuns = []\<rparr>"

text \<open>A root with the storage \<open>a\<close>, which holds the stream \<open>x\<close>.\<close>

definition sample_fs :: "entry list" where
  "sample_fs = [StorageE (sample_fs_info [0x61]) [StreamE sample_fs_stream], StreamE sample_fs_stream]"

theorem fsOpen_exact_witness:
  "fsOpen (StorageE (sample_fs_info []) sample_fs) [0x61, 0x2F, 0x58] = Inr (FileH sample_fs_stream 0)"
proof -
  let ?root = "StorageE (sample_fs_info []) sample_fs"
  have u: "names_unique ?root"
    by (simp add: sample_fs_def sample_fs_info_def sample_fs_stream_def upper_of_def utf16_encode_def appendRune_def toUpper_def)
  have "validPath [0x61, 0x2F, 0x58]"
    by (simp add: validPath_def valid_rune_def validElems_iff slash_def bad_elem_def dot_def)
  moreover have "at_path ?root [[0x61], [0x58]] (StreamE sample_fs_stream)"
    by (simp add: sample_fs_def sample_fs_info_def sample_fs_stream_def same_name_def utf16_encode_def appendRune_def toUpper_def)
  ultimately have "named_entry ?root [0x61, 0x2F, 0x58] (StreamE sample_fs_stream)"
    by (simp add: named_entry_def slash_def dot_def)
  then show ?thesis using fsOpen_exact [OF u, of "[0x61, 0x2F, 0x58]"] by (metis openHandle.simps(1))
qed

text \<open>C29: \<open>ReadDir\<close> called again and again with any positive counts returns the information of every entry
  exactly once and in order, at most as many as asked for so far, and \<open>io.EOF\<close> exactly when it is
  called after the last entry has been returned; with a count that is not positive it returns all that
  are left, without an error.\<close>

theorem fsReadDir_pages:
  "((\<forall>n \<in> set ns. 0 < n) \<longrightarrow> readPages es 0 ns = (take (nat (sum_list ns)) (map entryInfo es),
      if (\<exists>k < length ns. int (length es) \<le> sum_list (take k ns)) then Some FsEOF else None)) \<and>
   (n \<le> 0 \<and> pos \<le> length es \<longrightarrow> fsReadDir es pos n = (length es, Inr (map entryInfo (drop pos es))))"
  using readPages_ok [of ns 0 es] by (auto simp: slice_def take_map fsReadDir_def Let_def)

theorem fsReadDir_pages_witness:
  "readPages sample_fs 0 [1, 5, 3] = (map entryInfo sample_fs, Some FsEOF) \<and>
   fsReadDir sample_fs 1 (- 1) = (2, Inr (map entryInfo (drop 1 sample_fs)))"
proof -
  have "\<exists>k < length [1, 5, 3 :: int]. int (length sample_fs) \<le> sum_list (take k [1, 5, 3])"
    by (intro exI [of _ 2]) (simp add: sample_fs_def)
  then show ?thesis
    using fsReadDir_pages [of "[1, 5, 3]" sample_fs "- 1" 1] by (simp add: sample_fs_def)
qed

end
