(* ===== verification/FsRoundTrip.thy ===== *)
theory FsRoundTrip
  imports RoundTrip FsView
begin

text \<open>
  The file system view of a file the writer has made: every stream of the writer's tree is opened by its
  path, in any spelling, and reading it to the end returns what was written.
\<close>

section \<open>Names of the tree\<close>

text \<open>A path in the writer's sorted tree.\<close>

fun node_at :: "(nat \<Rightarrow> u16 list) \<Rightarrow> node \<Rightarrow> gostring list \<Rightarrow> node \<Rightarrow> bool" where
  "node_at nm c [] x \<longleftrightarrow> x = c"
| "node_at nm (StorageN m cs) (n # ns) x \<longleftrightarrow>
     (\<exists>c \<in> set cs. map toUpper (utf16_encode n) = map toUpper (node_name nm c) \<and> node_at nm c ns x)"
| "node_at nm (StreamN sid) (n # ns) x \<longleftrightarrow> False"

fun node_names_ok :: "(nat \<Rightarrow> u16 list) \<Rightarrow> node \<Rightarrow> bool" where
  "node_names_ok nm (StorageN m cs) \<longleftrightarrow> distinct (map (\<lambda>c. map toUpper (node_name nm c)) cs) \<and>
     (\<forall>c \<in> set cs. valid_name (node_name nm c) \<and> node_names_ok nm c)"
| "node_names_ok nm (StreamN sid) \<longleftrightarrow> True"

lemma node_names_ok_of: "sg_ok nm sg \<Longrightarrow> node_names_ok nm (node_of nm sg)"
proof (induction nm sg rule: sg_ok.induct)
  case (1 nm m sgs sts)
  let ?cs = "sortFunc (cmpNode nm) (map StreamN sts @ map (node_of nm) sgs)"
  have ok: "distinct (map (map toUpper) (map sg_name_of sgs @ map nm sts))" "list_all valid_name (map sg_name_of sgs @ map nm sts)"
    "list_all (sg_ok nm) sgs" using "1.prems" by (simp_all add: node_ok_def upper_distinct_def child_names_def)
  have "mset (map (\<lambda>c. map toUpper (node_name nm c)) ?cs) = mset (map (map toUpper) (map sg_name_of sgs @ map nm sts))"
    by (simp add: image_mset.compositionality o_def)
  then have "distinct (map (\<lambda>c. map toUpper (node_name nm c)) ?cs)" using ok(1) mset_eq_imp_distinct_iff by metis
  then show ?case using ok(2,3) 1 by (auto simp: list_all_iff)
qed

lemma entry_back_upper:
  "entry_back w D F r c e \<Longrightarrow> valid_name (node_name (stream_name w) c) \<Longrightarrow> upper_of e = map toUpper (node_name (stream_name w) c)"
  using entry_back_name [of w D F r c e] by (simp add: upper_of_def reencode_valid)

lemma entry_back_unique:
  "entry_back w D F r c e \<Longrightarrow> node_names_ok (stream_name w) c \<Longrightarrow> names_unique e"
proof (induction w D F r c e rule: entry_back.induct)
  case (2 w D F r m cs s es)
  have l: "list_all2 (entry_back w D F False) cs es" using "2.prems"(1) by simp
  have ok: "\<forall>c \<in> set cs. valid_name (node_name (stream_name w) c) \<and> node_names_ok (stream_name w) c" using "2.prems"(2) by simp
  have "map upper_of es = map (\<lambda>c. map toUpper (node_name (stream_name w) c)) cs"
    using l ok by (induction rule: list_all2_induct) (auto simp: entry_back_upper)
  moreover have "names_unique e" if e: "e \<in> set es" for e
  proof -
    obtain i where i: "i < length es" "e = es ! i" using e by (auto simp: in_set_conv_nth)
    then have "entry_back w D F False (cs ! i) e" "cs ! i \<in> set cs" using l by (auto simp: list_all2_conv_all_nth)
    then show ?thesis using "2.IH" e ok by blast
  qed
  ultimately show ?case using "2.prems"(2) by simp
qed auto

lemma entry_back_path:
  "entry_back w D F r c e \<Longrightarrow> node_names_ok (stream_name w) c \<Longrightarrow> node_at (stream_name w) c ns x \<Longrightarrow>
   \<exists>e' r'. at_path e ns e' \<and> entry_back w D F r' x e'"
proof (induction ns arbitrary: r c e)
  case (Cons n ns)
  obtain m cs where c: "c = StorageN m cs" using Cons.prems(3) by (cases c) auto
  obtain s es where e: "e = StorageE s es" using Cons.prems(1) c by (cases e) auto
  obtain c' where c': "c' \<in> set cs" "map toUpper (utf16_encode n) = map toUpper (node_name (stream_name w) c')"
    "node_at (stream_name w) c' ns x" using Cons.prems(3) by (auto simp: c)
  obtain i where i: "i < length cs" "c' = cs ! i" using c'(1) by (auto simp: in_set_conv_nth)
  have l: "list_all2 (entry_back w D F False) cs es" using Cons.prems(1) by (simp add: c e)
  then have b: "entry_back w D F False c' (es ! i)" "es ! i \<in> set es" using i by (auto simp: list_all2_conv_all_nth)
  have v: "valid_name (node_name (stream_name w) c')" "node_names_ok (stream_name w) c'"
    using Cons.prems(2) c'(1) by (auto simp: c)
  have "same_name n (entryName (es ! i))" using entry_back_upper [OF b(1) v(1)] c'(2) by (simp add: same_name_def upper_of_def)
  then show ?case using Cons.IH [OF b(1) v(2) c'(3)] b(2) by (auto simp: e)
qed auto

section \<open>Opened by path and read to the end\<close>

lemma opened_and_read:
  assumes "wreach (dv_bw dv) S c" "S = 512 \<or> S = 4096" "device_ok dv" "closed_all (cs_w c)" "closable (cs_w c)"
    and "validPath path" "path \<noteq> [dot]"
    and "node_at (stream_name (cs_w c)) (node_of (stream_name (cs_w c)) (w_root (cs_w c))) (splitOn slash path) (StreamN sid)"
  shows "\<exists>w' file h root st. closeWriter dv (cs_w c) = (w', Inr file) \<and>
    newReader (bytesReaderAt EOF file) = Inr (h, root) \<and> fsOpen root path = Inr (FileH st 0) \<and>
    fi_size (fsStat (FileH st 0)) = int (length (cs_data c sid)) \<and>
    (\<forall>ns. (\<forall>n \<in> set ns. 0 < n) \<and> length (cs_data c sid) < length ns \<longrightarrow>
       readSeq (bytesReaderAt EOF file) st 0 ns = (cs_data c sid, Some EOF))"
proof -
  let ?w = "cs_w c" and ?D = "cs_data c" and ?nm = "stream_name (cs_w c)"
  obtain w' w1 lay rg where w: "closeWriter dv ?w = (w', Inr (close_file w1 rg))" "closes ?w ?D w1 lay rg"
    "winv ?w ?D" "tree_ok ?w" "capped ?w"
    by (rule reach_close [OF assms(1-5)])
  let ?F = "close_file w1 rg" and ?rd = "bytesReaderAt EOF (close_file w1 rg)" and ?root = "node_of ?nm (w_root ?w)"
  obtain root where r: "newReader ?rd = Inr (close_header w1 rg, root)" "entry_back ?w ?D ?F True ?root root"
    by (rule close_newReader [OF w(2) assms(4) w(3) assms(5) w(5,4) bytes_reader.strict_reader_at_axioms])
  have ok: "node_names_ok ?nm ?root" using w(4) by (intro node_names_ok_of) (simp add: tree_ok_def)
  obtain s es where root: "root = StorageE s es" using r(2) by (cases "w_root ?w"; cases root) auto
  obtain e' r' where p: "at_path root (splitOn slash path) e'" "entry_back ?w ?D ?F r' (StreamN sid) e'"
    using entry_back_path [OF r(2) ok assms(8)] by blast
  obtain st where st: "e' = StreamE st" "stream_back ?w ?D ?F sid st" using p(2) by (cases e') auto
  have "named_entry root path (StreamE st)" using p(1) st(1) assms(6,7) by (simp add: named_entry_def)
  then have op: "fsOpen root path = Inr (FileH st 0)"
    using fsOpen_iff [OF entry_back_unique [OF r(2) ok, unfolded root]] unfolding root by (metis openHandle.simps(1))
  have sb: "smSize st = int (length (?D sid))" "readable st" "\<forall>a \<in> set (runs_addrs (smRuns st)). a < length ?F"
    "gather ?F (runs_addrs (smRuns st)) = ?D sid" using st(2) by (simp_all add: stream_back_def)
  have "readSeq ?rd st 0 ns = (?D sid, Some EOF)" if "(\<forall>n \<in> set ns. 0 < n) \<and> length (?D sid) < length ns" for ns
    using readSeq_all [OF bytes_reader.reader_at_axioms _ _ sb(3), of ns] sb that by (simp add: readable_def)
  moreover have "fi_size (fsStat (FileH st 0)) = int (length (?D sid))" using sb(1) by (simp add: streamFileInfo_def)
  ultimately show ?thesis using w(1) r(1) op by blast
qed

text \<open>C24: The file system view is complete and its reads come to an end: after \<open>Close\<close> and \<open>NewReader\<close>,
  \<open>Reader.Open\<close> on the path of any stream of the tree, in any spelling, opens it; and a loop that
  \<open>Read\<close>s it into buffers of any positive sizes, once there are more buffers than bytes, has got
  exactly the bytes written and ends in \<open>io.EOF\<close>.\<close>

theorem written_file_read_to_end:
  assumes "wreach (dv_bw dv) S c" "S = 512 \<or> S = 4096" "device_ok dv" "closed_all (cs_w c)" "closable (cs_w c)"
    and "validPath path" "path \<noteq> [dot]"
    and "node_at (stream_name (cs_w c)) (node_of (stream_name (cs_w c)) (w_root (cs_w c))) (splitOn slash path) (StreamN sid)"
  shows "\<exists>w' file h root st. closeWriter dv (cs_w c) = (w', Inr file) \<and>
    newReader (bytesReaderAt EOF file) = Inr (h, root) \<and> fsOpen root path = Inr (FileH st 0) \<and>
    fi_size (fsStat (FileH st 0)) = int (length (cs_data c sid)) \<and>
    (\<forall>ns. (\<forall>n \<in> set ns. 0 < n) \<and> length (cs_data c sid) < length ns \<longrightarrow>
       readSeq (bytesReaderAt EOF file) st 0 ns = (cs_data c sid, Some EOF))"
  by (rule opened_and_read [OF assms])

theorem written_file_read_to_end_witness:
  "\<exists>w' file h root st. closeWriter sample_device (cs_w sample_closed) = (w', Inr file) \<and>
    newReader (bytesReaderAt EOF file) = Inr (h, root) \<and> fsOpen root [0x61] = Inr (FileH st 0) \<and>
    readSeq (bytesReaderAt EOF file) st 0 [2, 2, 2, 2] = ([1, 2, 3], Some EOF)"
proof -
  let ?w = "cs_w sample_closed"
  have v: "validPath [0x61]" "[0x61] \<noteq> [dot]"
    by (simp_all add: validPath_def valid_rune_def validElems_iff slash_def bad_elem_def dot_def)
  obtain m where sg: "w_root ?w = StorageW m [] [0]"
    by (simp add: sample_closed_def sample_writer_def)
  have "node_at (stream_name ?w) (node_of (stream_name ?w) (w_root ?w)) (splitOn slash [0x61]) (StreamN 0)"
    using sample_closed_sel(5) by (simp add: sg slash_def toUpper_def utf16_encode_def appendRune_def)
  from written_file_read_to_end [OF sample_reach _ sample_device_ok sample_closed_sel(1,2) v this]
  obtain w' f h root st where r: "closeWriter sample_device ?w = (w', Inr f)" "newReader (bytesReaderAt EOF f) = Inr (h, root)"
    "fsOpen root [0x61] = Inr (FileH st 0)"
    "\<And>ns. (\<forall>n \<in> set ns. 0 < n) \<and> length (cs_data sample_closed 0) < length ns \<Longrightarrow>
       readSeq (bytesReaderAt EOF f) st 0 ns = (cs_data sample_closed 0, Some EOF)"
    by blast
  have "readSeq (bytesReaderAt EOF f) st 0 [2, 2, 2, 2] = ([1, 2, 3], Some EOF)"
    using r(4) [of "[2, 2, 2, 2]"] by (simp add: sample_closed_sel(3))
  then show ?thesis using r(1-3) by blast
qed

end
