(* ===== verification/ArchiveRoundTrip.thy ===== *)
theory ArchiveRoundTrip
  imports AddFs FsRoundTrip
begin

text \<open>
  A file system that is added to a new writer with \<open>AddFS\<close>, closed and read with \<open>NewReader\<close>: every file
  and every directory is found by its name with its metadata and its bytes, and there is nothing else
  (\<open>tree_back\<close>). What must be found is stated without the code's own helpers: \<open>fs_tree\<close> relates a file system to the
  tree of what is at its paths, \<open>dir_info\<close> a directory's file information to the storage it becomes.
  The theorem joins \<open>addFSDir_copies\<close> of theory \<open>AddFs\<close> to the round trip of theory \<open>RoundTrip\<close>.
\<close>

section \<open>Storages found by name\<close>

lemma openStorage_back:
  assumes e: "entry_back w D F r (node_of (stream_name w) sg) (StorageE s es)" and ok: "sg_ok (stream_name w) sg"
    and x: "x \<in> set (sg_storages sg)" and name: "map toUpper (utf16_encode name) = map toUpper (sg_name_of x)"
  shows "\<exists>s' es'. openStorage es name = Inr (StorageE s' es') \<and>
    entry_back w D F False (node_of (stream_name w) x) (StorageE s' es')"
proof -
  obtain m sgs sts where sg: "sg = StorageW m sgs sts" by (cases sg)
  let ?nm = "stream_name w"
  let ?cs = "sortFunc (cmpNode ?nm) (map StreamN sts @ map (node_of ?nm) sgs)"
  let ?P = "\<lambda>e. (case e of StorageE s cs \<Rightarrow> True | StreamE st \<Rightarrow> False) \<and> compareNamesStr name (entryName e) = 0"
  have l: "list_all2 (entry_back w D F False) ?cs es" using e by (simp add: sg)
  have mem: "set ?cs = StreamN ` set sts \<union> node_of ?nm ` set sgs" by simp
  have d: "distinct (map (map toUpper) (map sg_name_of sgs @ map ?nm sts))" and v: "list_all valid_name (map sg_name_of sgs @ map ?nm sts)"
    using ok by (simp_all add: sg node_ok_def upper_distinct_def child_names_def)
  have inj: "inj_on (\<lambda>y. map toUpper (sg_name_of y)) (set sgs)" using d by (simp add: distinct_map o_def inj_on_def)
  have rb: "utf16_encode (entryName e) = sg_name_of y" if "y \<in> set sgs" "entry_back w D F False (node_of ?nm y) e" for y e
  proof -
    have "valid_name (sg_name_of y)" using v that(1) by (simp add: list_all_iff)
    then show ?thesis using entry_back_name [OF that(2)] by (simp add: reencode_valid)
  qed
  have "\<exists>y. find ?P es = Some y \<and> entry_back w D F False (node_of ?nm x) y"
  proof (rule find_list_all2 [OF l])
    show "node_of ?nm x \<in> set ?cs" using x by (simp add: sg)
    show "?P y" if y: "entry_back w D F False (node_of ?nm x) y" for y
      using y rb [OF _ y] x name by (cases x; cases y) (auto simp: sg compareNamesStr_eq compareNames_0)
    show "\<not> ?P y" if z: "z \<in> set ?cs" "z \<noteq> node_of ?nm x" "entry_back w D F False z y" for z y
    proof (rule notI)
      assume P: "?P y"
      then obtain x2 where x2: "x2 \<in> set sgs" "z = node_of ?nm x2" using z(1,3) unfolding mem by (cases y) auto
      then have "map toUpper (sg_name_of x2) = map toUpper (sg_name_of x)"
        using rb [of x2 y] z(3) P name by (simp add: compareNamesStr_eq compareNames_0)
      then have "x2 = x" using inj x x2(1) by (simp add: sg inj_on_def)
      then show False using x2(2) z(2) by simp
    qed
  qed
  then obtain y where y: "find ?P es = Some y" "entry_back w D F False (node_of ?nm x) y" by blast
  then obtain s' es' where "y = StorageE s' es'" by (cases x; cases y) auto
  then show ?thesis using y by (auto simp: openStorage_def)
qed

section \<open>The tree of files, read back\<close>

definition stream_holds :: "bytes \<Rightarrow> stream \<Rightarrow> bytes \<Rightarrow> bool" where
  "stream_holds F st b \<longleftrightarrow> smSize st = int (length b) \<and>
     (\<forall>plen off. 0 \<le> off \<and> off < smSize st \<longrightarrow> streamReadAt (bytesReaderAt EOF F) st plen off =
        (slice (nat off) plen b, if smSize st - off < int plen then Some EOF else None))"

text \<open>
  What a FILETIME keeps of a time: nothing outside the years it covers, and in the tick that stands for
  an unset time, and otherwise the time cut to 100 nanoseconds.
\<close>

definition kept_time :: "gotime \<Rightarrow> gotime" where
  "kept_time t =
     (if unix_sec t < - 11644473600 \<or> 1833029933769 < unix_sec t \<or> unix_sec t = - 11644473600 \<and> nanosecond t < 100
      then zeroTime else t\<lparr>nanosecond := nanosecond t div 100 * 100\<rparr>)"

lemma kept_time_ticks: "valid_time t \<Longrightarrow> decodeFiletime (timeTicks t) = kept_time t"
proof (cases "encodeFiletime t")
  case (Inl e)
  then have "unix_sec t < - 11644473600 \<or> 1833029933769 < unix_sec t"
    by (auto simp: encodeFiletime_def Let_def filetime_consts split: if_splits)
  then show ?thesis by (auto simp: timeTicks_def Inl kept_time_def decodeFiletime_def)
next
  case (Inr ft)
  assume v: "valid_time t"
  have tt: "timeTicks t = ft" by (simp add: timeTicks_def Inr)
  show ?thesis
  proof (cases "isZero t")
    case True
    then show ?thesis using Inr tt by (auto simp: encodeFiletime_def isZero_def kept_time_def decodeFiletime_def zeroTime_def)
  next
    case False
    have r: "- 11644473600 \<le> unix_sec t" "unix_sec t \<le> 1833029933769"
      using Inr False by (auto simp: encodeFiletime_def Let_def filetime_consts split: if_splits)
    have u: "unat ft = nat (unix_sec t + 11644473600) * 10000000 + nanosecond t div 100"
      using encodeFiletime_unat(1) [OF Inr v False] by (simp add: filetime_consts)
    show ?thesis
    proof (cases "ft = 0")
      case True
      then have "unix_sec t = - 11644473600" "nanosecond t < 100" using u r(1) by (auto simp: div_eq_0_iff)
      then show ?thesis using True tt by (simp add: kept_time_def decodeFiletime_def)
    next
      case f0: False
      then have "unat ft \<noteq> 0" by (simp add: unat_eq_0)
      then have "\<not> (unix_sec t = - 11644473600 \<and> nanosecond t < 100)" using u by auto
      then show ?thesis using decode_encode_filetime [OF Inr v f0] r tt by (auto simp: kept_time_def)
    qed
  qed
qed

text \<open>
  The metadata a directory of the file system has: all of it where the file system is a compound file,
  and otherwise its modification time and the creation time its platform knows, if any.
\<close>

definition created_time :: "goFileInfo \<Rightarrow> gotime" where
  "created_time info =
     (case gi_sys info of
        SysStorage s \<Rightarrow> stCreated s
      | SysStat sec ns \<Rightarrow> if sec = 0 \<and> ns = 0 then gi_modTime info else timeUnix sec ns
      | SysWin32 ft \<Rightarrow> if ft = 0 then gi_modTime info else timeUnix0 (filetimeNanos ft)
      | _ \<Rightarrow> gi_modTime info)"

definition dir_info :: "gostring \<Rightarrow> goFileInfo \<Rightarrow> storageInfo" where
  "dir_info name info =
     \<lparr>stName = map fix_rune name,
      stCLSID = (case gi_sys info of SysStorage s \<Rightarrow> stCLSID s | _ \<Rightarrow> replicate 16 0),
      stStateBits = (case gi_sys info of SysStorage s \<Rightarrow> stStateBits s | _ \<Rightarrow> 0),
      stCreated = kept_time (created_time info),
      stModified = kept_time (case gi_sys info of SysStorage s \<Rightarrow> stModified s | _ \<Rightarrow> gi_modTime info)\<rparr>"

lemma valid_timeUnix: "valid_time (timeUnix s n)"
proof -
  have "n mod 10 ^ 9 < 10 ^ 9" by simp
  then show ?thesis by (simp add: valid_time_def timeUnix_def)
qed

lemma dir_info_copied:
  assumes "encodeName name = Inr enc" "info_ok info"
  shows "info_of False (copyMeta info (newMeta enc)) = dir_info name info"
proof -
  have "valid_time (created_time info)"
    using assms(2) valid_timeUnix by (auto simp: info_ok_def created_time_def split: goSys.splits)
  then show ?thesis
    using assms(2) encodeName_decoded(1) [OF assms(1)] kept_time_ticks
    by (auto simp: info_of_def copyMeta_def newMeta_def dir_info_def created_time_def info_ok_def birthtime_def
        birthtimeBsd_def birthtimeWindows_def split: goSys.splits)
qed

text \<open>
  \<open>fs_tree fs ts\<close>: the tree \<open>ts\<close> is what the file system holds. Paths are those of \<open>io/fs\<close>: the names from
  the root on, separated by slashes, and a dot for the root itself.
\<close>

fun joinPath :: "gostring list \<Rightarrow> gostring" where
  "joinPath [] = [0x2E]"
| "joinPath [name] = name"
| "joinPath (name # names) = name @ [0x2F] @ joinPath names"

fun entry_is :: "gofs \<Rightarrow> gostring list \<Rightarrow> goDirEntry \<Rightarrow> ftree \<Rightarrow> bool"
  and entries_are :: "gofs \<Rightarrow> gostring list \<Rightarrow> goDirEntry list \<Rightarrow> ftree list \<Rightarrow> bool" where
  "entry_is fs dir d (FFile name bits b) \<longleftrightarrow> \<not> gd_isDir d \<and> gd_name d = name \<and>
     (\<exists>info f. gd_info d = Inr info \<and> bits = (case gi_sys info of SysStream m \<Rightarrow> smStateBits m | _ \<Rightarrow> 0) \<and>
        gf_open fs (joinPath (dir @ [name])) = Inr f \<and> b = content f)"
| "entry_is fs dir d (FDir name info sub) \<longleftrightarrow> gd_isDir d \<and> gd_name d = name \<and> gd_info d = Inr info \<and>
     (case gf_readDir fs (joinPath (dir @ [name])) of Inl e \<Rightarrow> False | Inr ds \<Rightarrow> entries_are fs (dir @ [name]) ds sub)"
| "entries_are fs dir [] [] \<longleftrightarrow> True"
| "entries_are fs dir (d # ds) (t # ts) \<longleftrightarrow> entry_is fs dir d t \<and> entries_are fs dir ds ts"
| "entries_are fs dir [] (t # ts) \<longleftrightarrow> False"
| "entries_are fs dir (d # ds) [] \<longleftrightarrow> False"

definition fs_tree :: "gofs \<Rightarrow> ftree list \<Rightarrow> bool" where
  "fs_tree fs ts \<longleftrightarrow> (case gf_readDir fs [0x2E] of Inl e \<Rightarrow> False | Inr ds \<Rightarrow> entries_are fs [] ds ts)"

lemma entries_are_Nil: "entries_are fs dir [] ts \<longleftrightarrow> ts = []"
  by (cases ts) simp_all

lemma entries_are_Cons:
  "entries_are fs dir (d # ds) ts \<longleftrightarrow> (\<exists>t ts'. ts = t # ts' \<and> entry_is fs dir d t \<and> entries_are fs dir ds ts')"
  by (cases ts) auto

lemma entry_is_iff:
  "entry_is fs dir d t \<longleftrightarrow>
     (\<exists>info. gd_info d = Inr info \<and>
       (if gd_isDir d
        then \<exists>sub ds. gf_readDir fs (joinPath (dir @ [gd_name d])) = Inr ds \<and>
          entries_are fs (dir @ [gd_name d]) ds sub \<and> t = FDir (gd_name d) info sub
        else \<exists>f. gf_open fs (joinPath (dir @ [gd_name d])) = Inr f \<and>
          t = FFile (gd_name d) (case gi_sys info of SysStream m \<Rightarrow> smStateBits m | _ \<Rightarrow> 0) (content f)))"
  by (cases t) (auto split: sum.splits)

lemma joinPath_snoc: "dir \<noteq> [] \<Longrightarrow> joinPath (dir @ [name]) = joinPath dir @ [0x2F] @ name"
  by (induction dir rule: joinPath.induct) simp_all

text \<open>A path the walk descends to: not the root again under another name.\<close>

definition proper :: "gostring list \<Rightarrow> bool" where
  "proper dir \<longleftrightarrow> dir = [] \<or> joinPath dir \<noteq> [0x2E]"

lemma childPath_join: "proper dir \<Longrightarrow> childPath (joinPath dir) name = joinPath (dir @ [name])"
  by (cases "dir = []") (auto simp: proper_def childPath_def joinPath_snoc)

lemma read_entries_all:
  "read_entries rt fs p ds = Some ts \<Longrightarrow> d \<in> set ds \<Longrightarrow> gd_isDir d \<Longrightarrow> rt (childPath p (gd_name d)) \<noteq> None"
  by (induction ds arbitrary: ts) (auto split: sum.splits option.splits if_splits)

text \<open>A tree that was read to its end has no directory that is the root again.\<close>

lemma read_tree_no_dot:
  "read_tree n fs [0x2E] = Some ts \<Longrightarrow> gf_readDir fs [0x2E] = Inr ds \<Longrightarrow> d \<in> set ds \<Longrightarrow> gd_isDir d \<Longrightarrow> gd_name d \<noteq> [0x2E]"
proof (induction n arbitrary: ts)
  case (Suc n)
  have r: "read_entries (read_tree n fs) fs [0x2E] ds = Some ts" using Suc.prems(1,2) by simp
  show ?case
  proof
    assume "gd_name d = [0x2E]"
    then have "read_tree n fs [0x2E] \<noteq> None"
      using read_entries_all [OF r Suc.prems(3,4)] by (simp add: childPath_def)
    then show False using Suc.IH Suc.prems(2-4) \<open>gd_name d = [0x2E]\<close> by blast
  qed
qed simp

lemma read_entries_are:
  assumes "proper dir"
    and "\<And>d sub. d \<in> set ds \<Longrightarrow> gd_isDir d \<Longrightarrow> rt (joinPath (dir @ [gd_name d])) = Some sub \<Longrightarrow>
      \<exists>ds'. gf_readDir fs (joinPath (dir @ [gd_name d])) = Inr ds' \<and> entries_are fs (dir @ [gd_name d]) ds' sub"
  shows "read_entries rt fs (joinPath dir) ds = Some ts \<Longrightarrow> entries_are fs dir ds ts"
  using assms(2)
proof (induction ds arbitrary: ts)
  case (Cons d ds)
  obtain info where i: "gd_info d = Inr info" using Cons.prems(1) by (cases "gd_info d") auto
  let ?t = "if gd_isDir d then map_option (FDir (gd_name d) info) (rt (joinPath (dir @ [gd_name d])))
      else case gf_open fs (joinPath (dir @ [gd_name d])) of Inl e \<Rightarrow> None
        | Inr f \<Rightarrow> Some (FFile (gd_name d) (file_bits info) (content f))"
  have "(case ?t of None \<Rightarrow> None | Some t \<Rightarrow> map_option ((#) t) (read_entries rt fs (joinPath dir) ds)) = Some ts"
    using Cons.prems(1) unfolding read_entries.simps i sum.case childPath_join [OF assms(1)] .
  then obtain t ts' where t: "?t = Some t" "ts = t # ts'" "read_entries rt fs (joinPath dir) ds = Some ts'"
    by (cases ?t) auto
  have "entry_is fs dir d t"
    using t(1) i Cons.prems(2) [of d] by (auto simp: file_bits_def split: if_splits sum.splits)
  moreover have "entries_are fs dir ds ts'" using Cons.prems(2) by (intro Cons.IH [OF t(3)]) simp
  ultimately show ?case using t(2) by simp
qed simp

lemma read_tree_entries:
  "read_tree n fs (joinPath dir) = Some ts \<Longrightarrow> proper dir \<Longrightarrow>
   \<exists>ds. gf_readDir fs (joinPath dir) = Inr ds \<and> entries_are fs dir ds ts"
proof (induction n arbitrary: dir ts)
  case (Suc n)
  obtain ds where ds: "gf_readDir fs (joinPath dir) = Inr ds" "read_entries (read_tree n fs) fs (joinPath dir) ds = Some ts"
    using Suc.prems(1) by (auto split: sum.splits)
  have "proper (dir @ [gd_name d])" if d: "d \<in> set ds" "gd_isDir d" for d
  proof (cases "dir = []")
    case True
    then have "gd_name d \<noteq> [0x2E]" using read_tree_no_dot [of "Suc n" fs ts ds d] Suc.prems(1) ds(1) d by simp
    then show ?thesis using True by (simp add: proper_def)
  next
    case False
    have "0x2F \<in> set (joinPath (dir @ [gd_name d]))" by (simp add: joinPath_snoc [OF False])
    then show ?thesis by (auto simp: proper_def)
  qed
  then have "entries_are fs dir ds ts" using Suc.IH by (intro read_entries_are [OF Suc.prems(2) _ ds(2)]) blast
  then show ?case using ds(1) by blast
qed simp

lemma read_tree_fs: "read_tree n fs [0x2E] = Some ts \<Longrightarrow> fs_tree fs ts"
  using read_tree_entries [of n fs "[]" ts] by (auto simp: proper_def fs_tree_def)

text \<open>The directories of the tree have metadata of their Go types.\<close>

fun infos_ok :: "ftree list \<Rightarrow> bool" where
  "infos_ok [] \<longleftrightarrow> True"
| "infos_ok (FFile name bits b # ts) \<longleftrightarrow> infos_ok ts"
| "infos_ok (FDir name info sub # ts) \<longleftrightarrow> info_ok info \<and> infos_ok sub \<and> infos_ok ts"

lemma entries_infos:
  "entry_is fs dir d t \<Longrightarrow> fs_ok fs \<Longrightarrow> types_ok d \<Longrightarrow> infos_ok [t]"
  "entries_are fs dir ds ts \<Longrightarrow> fs_ok fs \<Longrightarrow> list_all types_ok ds \<Longrightarrow> infos_ok ts"
proof (induction fs dir d t and fs dir ds ts rule: entry_is_entries_are.induct)
  case (2 fs dir d name info sub)
  obtain ds where ds: "gf_readDir fs (joinPath (dir @ [name])) = Inr ds" "entries_are fs (dir @ [name]) ds sub"
    using "2.prems"(1) by (auto split: sum.splits)
  then have "list_all types_ok ds" using "2.prems"(2) by (auto simp: fs_ok_def split: sum.splits)
  then have "infos_ok sub" using "2.IH" ds "2.prems"(2) by blast
  then show ?case using "2.prems"(1,3) by (simp add: types_ok_def)
next
  case (4 fs dir d ds t ts)
  then show ?case by (cases t) simp_all
qed simp_all

lemma fs_tree_infos: "fs_tree fs ts \<Longrightarrow> fs_ok fs \<Longrightarrow> infos_ok ts"
  using entries_infos(2) by (auto simp: fs_tree_def fs_ok_def split: sum.splits)

fun tree_back :: "bytes \<Rightarrow> ftree list \<Rightarrow> entry list \<Rightarrow> bool" where
  "tree_back F [] es \<longleftrightarrow> True"
| "tree_back F (FFile name bits b # ts) es \<longleftrightarrow>
     (\<exists>st. openStream es name = Inr st \<and> smStateBits st = bits \<and> stream_holds F st b) \<and> tree_back F ts es"
| "tree_back F (FDir name info sub # ts) es \<longleftrightarrow>
     (\<exists>es'. openStorage es name = Inr (StorageE (dir_info name info) es') \<and> length es' = length sub \<and> tree_back F sub es') \<and>
     tree_back F ts es"

lemma stream_back_holds: "stream_back w D F sid st \<Longrightarrow> stream_holds F st (D sid)"
  using streamReadAt_ok [OF bytes_reader.reader_at_axioms]
  by (auto simp: stream_back_def stream_holds_def readable_def)

lemma copied_length: "copied w D sgs sts ts \<Longrightarrow> length ts = length sgs + length sts"
  by (induction w D sgs sts ts rule: copied.induct) auto

lemma entry_back_length: "entry_back w D F r (node_of nm (StorageW m sgs sts)) (StorageE s es) \<Longrightarrow> length es = length sgs + length sts"
  by (auto dest!: list_all2_lengthD)

lemma copied_closed: "copied w D sgs sts ts \<Longrightarrow> sid \<in> set sts \<union> set (concat (map sg_sids sgs)) \<Longrightarrow> sw_closed (w_streams w ! sid)"
  by (induction w D sgs sts ts rule: copied.induct) (auto simp: file_copied_def, blast+)

lemma copied_back:
  "copied w D sgs sts ts \<Longrightarrow> set sgs \<subseteq> set (sg_storages sg) \<Longrightarrow> set sts \<subseteq> set (sg_streams sg) \<Longrightarrow> sg_ok (stream_name w) sg \<Longrightarrow>
   entry_back w D F r (node_of (stream_name w) sg) (StorageE s es) \<Longrightarrow> infos_ok ts \<Longrightarrow> tree_back F ts es"
proof (induction w D sgs sts ts arbitrary: r sg s es rule: copied.induct)
  case (2 w D sgs sts name bits b ts)
  obtain sid sts' where sid: "sts = sid # sts'" "file_copied w D sid name bits b" "copied w D sgs sts' ts"
    using "2.prems"(1) by auto
  have "utf16_encode name = stream_name w sid" using sid(2) by (simp add: file_copied_def encodeName_Inr)
  then obtain st where st: "openStream es name = Inr st" "stream_back w D F sid st"
    using openStream_back [OF "2.prems"(5,4), of sid name] "2.prems"(3) sid(1) by auto
  have "smStateBits st = bits" "stream_holds F st b"
    using st(2) sid(2) stream_back_holds [OF st(2)] by (simp_all add: stream_back_def file_copied_def)
  moreover have "tree_back F ts es" using "2.IH" [OF sid(3) "2.prems"(2) _ "2.prems"(4,5)] "2.prems"(3,6) sid(1) by simp
  ultimately show ?case using st(1) by auto
next
  case (3 w D sgs sts name info sub ts)
  obtain enc csgs csts sgs' where g: "sgs = StorageW (copyMeta info (newMeta enc)) csgs csts # sgs'" "encodeName name = Inr enc"
    "copied w D csgs csts sub" "copied w D sgs' sts ts"
    using "3.prems"(1) by auto
  let ?x = "StorageW (copyMeta info (newMeta enc)) csgs csts"
  have enc: "enc = utf16_encode name" using g(2) by (simp add: encodeName_Inr)
  have x: "?x \<in> set (sg_storages sg)" using "3.prems"(2) g(1) by simp
  have nm: "sg_name_of ?x = enc" by (simp add: sg_name_of_def copyMeta_def newMeta_def split: goSys.split)
  obtain s' es' where o: "openStorage es name = Inr (StorageE s' es')" "entry_back w D F False (node_of (stream_name w) ?x) (StorageE s' es')"
    using openStorage_back [OF "3.prems"(5,4) x] nm enc by auto
  have "info_ok info" using "3.prems"(6) by simp
  then have s': "s' = dir_info name info" using o(2) dir_info_copied [OF g(2)] by simp
  have "sg_ok (stream_name w) y" if "y \<in> set (sg_storages sg)" for y
    using "3.prems"(4) that by (cases sg) (auto simp: list_all_iff)
  then have okx: "sg_ok (stream_name w) ?x" using x by blast
  have "tree_back F sub es'" using "3.IH"(1) [OF g(3) _ _ okx o(2)] "3.prems"(6) by simp
  moreover have "length es' = length sub" using copied_length [OF g(3)] entry_back_length [OF o(2)] by simp
  moreover have "tree_back F ts es" using "3.IH"(2) [OF g(4) _ "3.prems"(3,4,5)] "3.prems"(2,6) g(1) by simp
  ultimately show ?case using o(1) s' by auto
qed simp

section \<open>From a file system to a file and back\<close>

text \<open>C3: a file system archived and read back. When \<open>AddFS\<close> on the root of a new writer succeeds, the file system
  holds a finite tree \<open>ts\<close>, each file and directory of it at the path of its names from the root,
  \<open>Writer.Close\<close> succeeds on devices that take everything, and \<open>NewReader\<close> accepts the file.
  In the storage it gives, \<open>OpenStream\<close> finds every file of \<open>ts\<close> by its name, with the state bits it had as a stream,
  its size and, at every offset, the bytes the file at its path gave; \<open>OpenStorage\<close> finds every
  directory by its name, with the CLSID, state bits and times it had as a storage or else its modification
  and creation time, each as a FILETIME keeps it, and, recursively, its contents; and the number of
  children shows that there is nothing else.\<close>

theorem addFS_roundtrip:
  assumes "S = 512 \<or> S = 4096" "device_ok dv" "fs_ok fs" "addFS n (dv_bw dv) fs [] (newWriter S) = (w', None)" "closable w'"
  shows "\<exists>ts w2 file h s es. fs_tree fs ts \<and> closeWriter dv w' = (w2, Inr file) \<and>
    newReader (bytesReaderAt EOF file) = Inr (h, StorageE s es) \<and> length es = length ts \<and> tree_back file ts es"
proof -
  let ?c = "winit S"
  have "addFSDir n (dv_bw dv) fs [0x2E] [] (cs_w ?c) = (w', None)" using assms(4) by (simp add: addFS_def winit_def)
  moreover have root0: "sg_at (w_root (cs_w ?c)) [] = Some (StorageW (newMeta rootName) [] [])" by (simp add: winit_def newWriter_def)
  ultimately obtain c ns nt ts where c: "read_tree n fs [0x2E] = Some ts" "cs_w c = w'" "appends (dv_bw dv) [] ?c c ns nt ts"
    using addFSDir_copies [OF assms(3), of "dv_bw dv" n] unfolding copies_def by blast
  have reach: "wreach (dv_bw dv) S c" using c(3) wreach.reach_init by (auto simp: appends_def intro: wsteps_reach)
  have root: "w_root (cs_w c) = StorageW (newMeta rootName) ns nt" and cp: "copied (cs_w c) (cs_data c) ns nt ts"
    using c(3) root0 by (auto simp: appends_def)
  have tree: "tree_ok (cs_w c)" by (rule wreach_tree [OF reach])
  have cl: "closed_all (cs_w c)"
  proof -
    have "set (sg_sids (w_root (cs_w c))) = {0..<length (w_streams (cs_w c))}"
      using tree mset_eq_setD [of "sg_sids (w_root (cs_w c))" "[0..<length (w_streams (cs_w c))]"] by (simp add: tree_ok_def)
    then have "sw_closed (w_streams (cs_w c) ! i)" if "i < length (w_streams (cs_w c))" for i
      using that copied_closed [OF cp, of i] root by auto
    then show ?thesis by (auto simp: closed_all_def in_set_conv_nth)
  qed
  have b: "closable (cs_w c)" using assms(5) c(2) by simp
  obtain w2 w1 lay rg where w: "closeWriter dv (cs_w c) = (w2, Inr (close_file w1 rg))" "closes (cs_w c) (cs_data c) w1 lay rg"
    "winv (cs_w c) (cs_data c)" "capped (cs_w c)"
    by (rule reach_close [OF reach assms(1,2) cl b])
  let ?F = "close_file w1 rg"
  obtain e where r: "newReader (bytesReaderAt EOF ?F) = Inr (close_header w1 rg, e)"
    "entry_back (cs_w c) (cs_data c) ?F True (node_of (stream_name (cs_w c)) (w_root (cs_w c))) e"
    by (rule close_newReader [OF w(2) cl w(3) b w(4) tree bytes_reader.strict_reader_at_axioms])
  obtain s es where e: "e = StorageE s es" using r(2) root by (cases e) auto
  have ft: "fs_tree fs ts" using c(1) by (rule read_tree_fs)
  have "tree_back ?F ts es"
    using copied_back [OF cp _ _ _ r(2) [unfolded e] fs_tree_infos [OF ft assms(3)]] root tree by (simp add: tree_ok_def)
  moreover have "length es = length ts" using entry_back_length [OF r(2) [unfolded e root]] copied_length [OF cp] by simp
  ultimately show ?thesis using ft c(2) w(1) r(1) e by blast
qed

theorem addFS_roundtrip_witness:
  "\<exists>w2 file h s es st i. closeWriter sample_device (fst (addFS 2 full_sink sample_gofs [] (newWriter 512))) = (w2, Inr file) \<and>
    newReader (bytesReaderAt EOF file) = Inr (h, StorageE s es) \<and> length es = 2 \<and>
    openStream es [0x41] = Inr st \<and> streamReadAt (bytesReaderAt EOF file) st 10 1 = ([2, 3], Some EOF) \<and>
    openStorage es [0x44] = Inr (StorageE i [])"
proof -
  let ?w = "copied_writer (padMini [1, 2, 3]) [(part_stream [])\<lparr>sw_size := 3, sw_closed := True, sw_chain := [\<lparr>sr_first = 0, sr_count = 1\<rparr>]\<rparr>] [0] 3"
  have ok: "fs_ok sample_gofs" by (simp add: fs_ok_def sample_gofs_def Let_def types_ok_def info_ok_def valid_time_def zeroTime_def)
  have add: "addFS 2 (dv_bw sample_device) sample_gofs [] (newWriter 512) = (?w, None)"
    using sample_fs_add by (simp add: sample_device_def)
  have b: "closable ?w"
    by (simp add: closable_def copied_writer_def newWriter_def nsec_def outB_def mini_len_def padMini_def Let_def miniSectorSize_def)
  obtain ts w2 F h s es where r: "fs_tree sample_gofs ts" "closeWriter sample_device ?w = (w2, Inr F)"
    "newReader (bytesReaderAt EOF F) = Inr (h, StorageE s es)" "length es = length ts" "tree_back F ts es"
    using addFS_roundtrip [OF _ sample_device_ok ok add b] by blast
  have ts: "ts = [FDir [0x44] \<lparr>gi_sys = SysOther, gi_modTime = zeroTime\<rparr> [], FFile [0x41] 0 [1, 2, 3]]"
    using r(1) by (auto simp: fs_tree_def sample_gofs_def Let_def entries_are_Cons entries_are_Nil entry_is_iff)
  then obtain st i where st: "openStream es [0x41] = Inr st" "stream_holds F st [1, 2, 3]" "openStorage es [0x44] = Inr (StorageE i [])"
    using r(5) by auto
  have "streamReadAt (bytesReaderAt EOF F) st 10 1 = ([2, 3], Some EOF)"
    using st(2) by (simp add: stream_holds_def slice_def)
  then show ?thesis using r(2-4) st(1,3) sample_fs_add ts by auto
qed

end
