(* ===== verification/Device.thy ===== *)
theory Device
  imports RoundTrip
begin

text \<open>
  The devices under the writer: \<open>seekOnce\<close> of writer.go, which seeks past the header sector before the first
  write, the \<open>bufio.Writer\<close> around it, and the writes of the header at the end of \<open>Close\<close>. Elsewhere they are the
  parameters \<open>sink\<close> and \<open>device\<close>; here they run on an \<open>io.WriteSeeker\<close> with a state, and the result is the
  file that the model of \<open>Close\<close> returns.

  The contracts are locales: \<open>io_writer\<close> (what a writer has taken is \<open>holds\<close>, whatever it reports),
  \<open>write_seeker\<close> (writes go to the position, which \<open>Seek\<close> sets), and \<open>skipping\<close>, a \<open>write_seeker\<close> under
  \<open>seekOnce\<close>, which is an \<open>io_writer\<close> again. A file of bounded size interprets them.
\<close>

section \<open>io.Writer and bufio.Writer\<close>

type_synonym 's ioput = "'s \<Rightarrow> bytes \<Rightarrow> (nat \<times> goerr option) \<times> 's"

definition never_fails :: "'s ioput \<Rightarrow> bool" where
  "never_fails put \<longleftrightarrow> (\<forall>s p. snd (fst (put s p)) = None)"

record 's bufWriter =
  bf_wr :: 's
  bf_buf :: bytes
  bf_err :: "goerr option"

definition newBufWriter :: "'s \<Rightarrow> 's bufWriter" where
  "newBufWriter s = \<lparr>bf_wr = s, bf_buf = [], bf_err = None\<rparr>"

definition bufFlush :: "'s ioput \<Rightarrow> 's bufWriter \<Rightarrow> goerr option \<times> 's bufWriter" where
  "bufFlush put b =
     (if bf_err b \<noteq> None then (bf_err b, b)
      else if bf_buf b = [] then (None, b)
      else
        let ((n, err), s) = put (bf_wr b) (bf_buf b);
            err = (if n < length (bf_buf b) \<and> err = None then Some ErrShortWrite else err)
        in (err, \<lparr>bf_wr = s, bf_buf = (if err = None then [] else drop n (bf_buf b)), bf_err = err\<rparr>))"

text \<open>
  \<open>Write\<close> with a buffer of \<open>cap\<close> bytes: the loop empties or bypasses the buffer until the rest fits. A writer
  that takes nothing and reports no error makes the code loop forever, which is \<open>None\<close>.
\<close>

partial_function (option) bufWrite_loop ::
  "nat \<Rightarrow> 's ioput \<Rightarrow> nat \<Rightarrow> bytes \<Rightarrow> 's bufWriter \<Rightarrow> ((nat \<times> goerr option) \<times> 's bufWriter) option" where
  "bufWrite_loop cap put nn p b =
     (if cap - length (bf_buf b) < length p \<and> bf_err b = None then
        (if bf_buf b = [] then
           let ((n, err), s) = put (bf_wr b) p
           in bufWrite_loop cap put (nn + n) (drop n p) (b\<lparr>bf_wr := s, bf_err := err\<rparr>)
         else
           let n = min (cap - length (bf_buf b)) (length p);
               (err, b) = bufFlush put (b\<lparr>bf_buf := bf_buf b @ take n p\<rparr>)
           in bufWrite_loop cap put (nn + n) (drop n p) b)
      else if bf_err b \<noteq> None then Some ((nn, bf_err b), b)
      else Some ((nn + length p, None), b\<lparr>bf_buf := bf_buf b @ p\<rparr>))"

definition bufWrite :: "nat \<Rightarrow> 's ioput \<Rightarrow> 's bufWriter \<Rightarrow> bytes \<Rightarrow> ((nat \<times> goerr option) \<times> 's bufWriter) option" where
  "bufWrite cap put b p = bufWrite_loop cap put 0 p b"

text \<open>A sequence of calls; their results are the caller's business.\<close>

fun bufWrites :: "nat \<Rightarrow> 's ioput \<Rightarrow> bytes list \<Rightarrow> 's bufWriter \<Rightarrow> 's bufWriter option" where
  "bufWrites cap put [] b = Some b"
| "bufWrites cap put (p # ps) b = (case bufWrite cap put b p of None \<Rightarrow> None | Some (r, b) \<Rightarrow> bufWrites cap put ps b)"

locale io_writer =
  fixes put :: "'s ioput" and holds :: "'s \<Rightarrow> bytes \<Rightarrow> bool"
  assumes put: "holds s d \<Longrightarrow> put s p = ((n, err), s') \<Longrightarrow>
      n \<le> length p \<and> (err = None \<longrightarrow> n = length p) \<and> holds s' (d @ take n p)"
begin

text \<open>What a buffered writer has accepted: what is below it and what it still has in its buffer.\<close>

definition accepted :: "nat \<Rightarrow> 's bufWriter \<Rightarrow> bytes \<Rightarrow> bool" where
  "accepted cap b d \<longleftrightarrow> length (bf_buf b) \<le> cap \<and> (\<exists>below. holds (bf_wr b) below \<and> d = below @ bf_buf b)"

lemma new: "holds s [] \<Longrightarrow> accepted cap (newBufWriter s) []"
  by (simp add: accepted_def newBufWriter_def)

lemma flush_ok:
  assumes "accepted cap b d" "bufFlush put b = (err, b')"
  shows "accepted cap b' d \<and> bf_err b' = err \<and> (err = None \<longrightarrow> bf_buf b' = [] \<and> holds (bf_wr b') d) \<and>
    (never_fails put \<and> bf_err b = None \<longrightarrow> err = None)"
proof -
  obtain below where b: "holds (bf_wr b) below" "d = below @ bf_buf b" "length (bf_buf b) \<le> cap"
    using assms(1) by (auto simp: accepted_def)
  obtain n e s where p: "put (bf_wr b) (bf_buf b) = ((n, e), s)" by (metis surj_pair)
  have "n \<le> length (bf_buf b)" "e = None \<Longrightarrow> n = length (bf_buf b)" "holds s (below @ take n (bf_buf b))"
    using put [OF b(1) p] by auto
  moreover have "e = None" if "never_fails put" using that p unfolding never_fails_def by (metis fst_conv snd_conv)
  ultimately show ?thesis
    using assms b p by (auto simp: bufFlush_def accepted_def split: if_splits intro!: exI [of _ "below @ take n (bf_buf b)"])
qed

text \<open>What a loop that has begun in \<open>b\<close> with \<open>p\<close> must come to.\<close>

definition loop_goal :: "nat \<Rightarrow> nat \<Rightarrow> bytes \<Rightarrow> 's bufWriter \<Rightarrow> bytes \<Rightarrow> bool" where
  "loop_goal cap nn p b d \<longleftrightarrow> (\<exists>n err b'. bufWrite_loop cap put nn p b = Some ((nn + n, err), b') \<and> n \<le> length p \<and>
    (err = None \<longrightarrow> n = length p) \<and> accepted cap b' (d @ take n p) \<and> bf_err b' = err \<and>
    (never_fails put \<and> bf_err b = None \<longrightarrow> err = None))"

lemma loop_done:
  assumes "accepted cap b d" "bf_err b \<noteq> None \<or> length p \<le> cap - length (bf_buf b)"
  shows "loop_goal cap nn p b d"
  using assms unfolding loop_goal_def by (subst bufWrite_loop.simps) (auto simp: accepted_def)

text \<open>With an empty buffer, a large \<open>p\<close> is one write below.\<close>

lemma loop_direct:
  assumes b: "accepted cap b d" "bf_buf b = []" "bf_err b = None" and big: "cap < length p"
  shows "loop_goal cap nn p b d"
proof -
  obtain n e s where p: "put (bf_wr b) p = ((n, e), s)" by (metis surj_pair)
  let ?b = "b\<lparr>bf_wr := s, bf_err := e\<rparr>"
  have h: "holds (bf_wr b) d" using b by (auto simp: accepted_def)
  have pn: "n \<le> length p" "e = None \<Longrightarrow> n = length p" "holds s (d @ take n p)" using put [OF h p] by auto
  have acc: "accepted cap ?b (d @ take n p)" using pn b(2) by (simp add: accepted_def)
  have eq: "bufWrite_loop cap put nn p b = bufWrite_loop cap put (nn + n) (drop n p) ?b"
    by (subst bufWrite_loop.simps) (use b big p in simp)
  have "bufWrite_loop cap put (nn + n) (drop n p) ?b = Some ((nn + n, e), ?b)"
    using pn b(2) by (subst bufWrite_loop.simps) (cases e, simp_all)
  moreover have "e = None" if "never_fails put" using that p unfolding never_fails_def by (metis fst_conv snd_conv)
  ultimately show ?thesis using eq pn acc unfolding loop_goal_def by auto
qed

lemma loop_ok:
  assumes "0 < cap" "accepted cap b d"
  shows "loop_goal cap nn p b d"
  using assms(2)
proof (induction "2 * length p + (if bf_buf b = [] then 0 else 1)" arbitrary: nn p b d rule: less_induct)
  case less
  let ?n = "cap - length (bf_buf b)" and ?b = "b\<lparr>bf_buf := bf_buf b @ take (cap - length (bf_buf b)) p\<rparr>"
  consider (stop) "bf_err b \<noteq> None \<or> length p \<le> ?n" | (direct) "bf_buf b = []" "bf_err b = None" "cap < length p"
    | (fill) "bf_buf b \<noteq> []" "bf_err b = None" "?n < length p" by fastforce
  then show ?case
  proof cases
    case stop
    with less.prems show ?thesis by (rule loop_done)
  next
    case direct
    with less.prems show ?thesis by (rule loop_direct)
  next
    case fill
    obtain below where b: "holds (bf_wr b) below" "d = below @ bf_buf b" "length (bf_buf b) \<le> cap"
      using less.prems by (auto simp: accepted_def)
    have n: "min ?n (length p) = ?n" using fill(3) by simp
    obtain e b1 where f: "bufFlush put ?b = (e, b1)" by (metis surj_pair)
    have "accepted cap ?b (d @ take ?n p)" using b by (auto simp: accepted_def)
    note fl = flush_ok [OF this f]
    have eq: "bufWrite_loop cap put nn p b = bufWrite_loop cap put (nn + ?n) (drop ?n p) b1"
      by (subst bufWrite_loop.simps) (use fill f n in \<open>simp add: Let_def\<close>)
    show ?thesis
    proof (cases e)
      case (Some x)
      then have "bufWrite_loop cap put (nn + ?n) (drop ?n p) b1 = Some ((nn + ?n, e), b1)"
        using fl by (subst bufWrite_loop.simps) simp
      then show ?thesis using eq fl fill Some unfolding loop_goal_def by auto
    next
      case None
      then have "2 * length (drop ?n p) + (if bf_buf b1 = [] then 0 else 1) < 2 * length p + (if bf_buf b = [] then 0 else 1)"
        using fl fill(1) by simp
      from less.hyps [OF this fl [THEN conjunct1], of "nn + ?n"] obtain m err b' where
        "bufWrite_loop cap put (nn + ?n) (drop ?n p) b1 = Some ((nn + ?n + m, err), b')" "m \<le> length (drop ?n p)"
        "err = None \<longrightarrow> m = length (drop ?n p)" "accepted cap b' ((d @ take ?n p) @ take m (drop ?n p))" "bf_err b' = err"
        "never_fails put \<and> bf_err b1 = None \<longrightarrow> err = None" unfolding loop_goal_def by blast
      then show ?thesis using eq fill fl None unfolding loop_goal_def
        by (intro exI [of _ "?n + m"] exI [of _ err] exI [of _ b']) (auto simp: take_add add.assoc)
    qed
  qed
qed

lemma write_ok:
  assumes "0 < cap" "accepted cap b d"
  obtains n err b' where "bufWrite cap put b p = Some ((n, err), b')" "n \<le> length p" "err = None \<longrightarrow> n = length p"
    "accepted cap b' (d @ take n p)" "bf_err b' = err"
    "never_fails put \<and> bf_err b = None \<longrightarrow> err = None"
proof -
  obtain n err b' where r: "bufWrite_loop cap put 0 p b = Some ((0 + n, err), b') \<and> n \<le> length p \<and>
    (err = None \<longrightarrow> n = length p) \<and> accepted cap b' (d @ take n p) \<and> bf_err b' = err \<and>
    (never_fails put \<and> bf_err b = None \<longrightarrow> err = None)"
    using loop_ok [OF assms, of 0 p] unfolding loop_goal_def by blast
  show thesis by (rule that [of n err b']) (use r in \<open>simp_all add: bufWrite_def\<close>)
qed

text \<open>After an error nothing more is taken and every call reports it.\<close>

lemma sticky: "bf_err b = Some e \<Longrightarrow> bufWrite cap put b p = Some ((0, Some e), b) \<and> bufFlush put b = (Some e, b)"
  by (simp add: bufWrite_def bufFlush_def bufWrite_loop.simps)

text \<open>Any sequence of writes, whatever becomes of their errors, and a flush.\<close>

lemma writes_sticky: "bf_err b = Some e \<Longrightarrow> bufWrites cap put ps b = Some b"
  by (induction ps) (simp_all add: sticky)

lemma writes_ok:
  assumes "0 < cap" "accepted cap b d"
  shows "\<exists>b' n. bufWrites cap put ps b = Some b' \<and> accepted cap b' (d @ take n (concat ps)) \<and>
    (bf_err b' = None \<longrightarrow> length (concat ps) \<le> n) \<and> (never_fails put \<and> bf_err b = None \<longrightarrow> bf_err b' = None)"
  using assms(2)
proof (induction ps arbitrary: b d)
  case Nil
  then show ?case by auto
next
  case (Cons p ps)
  obtain n err b1 where w: "bufWrite cap put b p = Some ((n, err), b1)" "n \<le> length p" "err = None \<longrightarrow> n = length p"
    "accepted cap b1 (d @ take n p)" "bf_err b1 = err" "never_fails put \<and> bf_err b = None \<longrightarrow> err = None"
    by (rule write_ok [OF assms(1) Cons.prems, of p])
  show ?case
  proof (cases err)
    case None
    obtain b' m where r: "bufWrites cap put ps b1 = Some b'" "accepted cap b' ((d @ take n p) @ take m (concat ps))"
      "bf_err b' = None \<longrightarrow> length (concat ps) \<le> m" "never_fails put \<and> bf_err b1 = None \<longrightarrow> bf_err b' = None"
      using Cons.IH [OF w(4)] by (elim exE conjE) (rule that)
    then show ?thesis using w None by (intro exI [of _ b'] exI [of _ "length p + m"]) simp
  next
    case (Some e)
    then show ?thesis using w writes_sticky [of b1 e cap ps] by (intro exI [of _ b1] exI [of _ n]) auto
  qed
qed

lemma session_ok:
  assumes "0 < cap" "holds s []"
  shows "\<exists>b err b'. bufWrites cap put ps (newBufWriter s) = Some b \<and> bufFlush put b = (err, b') \<and>
    (err = None \<longrightarrow> holds (bf_wr b') (concat ps)) \<and> (\<exists>n. accepted cap b' (take n (concat ps))) \<and> (never_fails put \<longrightarrow> err = None)"
proof -
  obtain b n where b: "bufWrites cap put ps (newBufWriter s) = Some b" "accepted cap b (take n (concat ps))"
    "bf_err b = None \<longrightarrow> length (concat ps) \<le> n" "never_fails put \<longrightarrow> bf_err b = None"
    using writes_ok [OF assms(1) new [OF assms(2)], of ps] by (auto simp: newBufWriter_def)
  obtain err b' where f: "bufFlush put b = (err, b')" by (metis surj_pair)
  note fl = flush_ok [OF b(2) f]
  have "bf_err b = None" if "err = None" using that f by (cases "bf_err b") (simp_all add: bufFlush_def)
  then show ?thesis using f b fl by (intro exI [of _ b] exI [of _ err] exI [of _ b']) auto
qed

end

section \<open>seekOnce over an io.WriteSeeker\<close>

record 's writeSeeker =
  ws_write :: "'s ioput"
  ws_seek :: "'s \<Rightarrow> nat \<Rightarrow> goerr option \<times> 's"

record 's seekOnce =
  so_seeker :: 's
  so_offset :: nat
  so_done :: bool

definition seekOnce_write :: "'s writeSeeker \<Rightarrow> 's seekOnce ioput" where
  "seekOnce_write ws s p =
     (let (err, s) =
        (if so_done s then (None, s)
         else let (err, st) = ws_seek ws (so_seeker s) (so_offset s) in
           case err of Some e \<Rightarrow> (Some e, s\<lparr>so_seeker := st\<rparr>) | None \<Rightarrow> (None, s\<lparr>so_seeker := st, so_done := True\<rparr>))
      in case err of Some e \<Rightarrow> ((0, Some e), s)
         | None \<Rightarrow> let (r, st) = ws_write ws (so_seeker s) p in (r, s\<lparr>so_seeker := st\<rparr>))"

text \<open>Bytes written at a position; a gap before it is filled with zeros.\<close>

definition overwrite :: "bytes \<Rightarrow> nat \<Rightarrow> bytes \<Rightarrow> bytes" where
  "overwrite c p d = (if d = [] then c else take p (c @ replicate (p - length c) 0) @ d @ drop (p + length d) c)"

lemma overwrite_append: "overwrite (overwrite c p d) (p + length d) e = overwrite c p (d @ e)"
proof (cases "d = [] \<or> e = []")
  case False
  let ?h = "take p (c @ replicate (p - length c) 0)"
  have "length (?h @ d) = p + length d" by simp
  then have "take (p + length d) ((?h @ d @ drop (p + length d) c) @ x) = ?h @ d"
    "drop (p + length d + length e) (?h @ d @ drop (p + length d) c) = drop (p + length d + length e) c" for x
    by (simp_all add: add.commute)
  then show ?thesis using False by (simp add: overwrite_def add.assoc)
qed (auto simp: overwrite_def)

lemma overwrite_front: "overwrite (overwrite c (length h) d) 0 h = h @ d @ drop (length h + length d) c"
  by (cases "h = []"; cases "d = []") (simp_all add: overwrite_def)

locale write_seeker =
  fixes ws :: "'s writeSeeker" and contents :: "'s \<Rightarrow> bytes" and pos :: "'s \<Rightarrow> nat"
  assumes write_law: "ws_write ws s p = ((n, err), s') \<Longrightarrow>
      n \<le> length p \<and> (err = None \<longrightarrow> n = length p) \<and> contents s' = overwrite (contents s) (pos s) (take n p) \<and> pos s' = pos s + n"
    and seek_law: "ws_seek ws s k = (err, s') \<Longrightarrow> contents s' = contents s \<and> (err = None \<longrightarrow> pos s' = k)"
begin

lemma write_all: "ws_write ws s p = ((n, None), s') \<Longrightarrow> contents s' = overwrite (contents s) (pos s) p \<and> pos s' = pos s + length p"
  using write_law [of s p n None s'] by simp

end

text \<open>\<open>seekOnce\<close> with the offset \<open>off\<close> on a file that first was \<open>c0\<close>.\<close>

locale skipping = write_seeker +
  fixes c0 :: bytes and off :: nat
begin

definition once_holds :: "'a seekOnce \<Rightarrow> bytes \<Rightarrow> bool" where
  "once_holds s d \<longleftrightarrow> so_offset s = off \<and>
     (if so_done s then contents (so_seeker s) = overwrite c0 off d \<and> pos (so_seeker s) = off + length d
      else contents (so_seeker s) = c0 \<and> d = [])"

lemma once_contents: "once_holds s d \<Longrightarrow> contents (so_seeker s) = overwrite c0 off d"
  by (simp add: once_holds_def overwrite_def split: if_splits)

lemma once_put:
  assumes h: "once_holds s d" and p: "seekOnce_write ws s p = ((n, err), s')"
  shows "n \<le> length p \<and> (err = None \<longrightarrow> n = length p) \<and> once_holds s' (d @ take n p)"
proof -
  have at: "m \<le> length p \<and> (e = None \<longrightarrow> m = length p) \<and> contents t = overwrite c0 off (d @ take m p) \<and> pos t = off + length (d @ take m p)"
    if "contents u = overwrite c0 off d" "pos u = off + length d" "ws_write ws u p = ((m, e), t)" for u m e t
    using write_law [OF that(3)] that(1,2) by (auto simp: overwrite_append min_def)
  show ?thesis
  proof (cases "so_done s")
    case True
    obtain m e t where w: "ws_write ws (so_seeker s) p = ((m, e), t)" by (metis surj_pair)
    show ?thesis using at [OF _ _ w] h p True w by (auto simp: once_holds_def seekOnce_write_def)
  next
    case False
    obtain e u where k: "ws_seek ws (so_seeker s) (so_offset s) = (e, u)" by (metis surj_pair)
    have u: "contents u = c0" "e = None \<longrightarrow> pos u = off" "d = []" "so_offset s = off"
      using seek_law [OF k] h False by (auto simp: once_holds_def)
    show ?thesis
    proof (cases e)
      case (Some x)
      then show ?thesis using p k u False by (auto simp: seekOnce_write_def once_holds_def)
    next
      case None
      obtain m e' t where w: "ws_write ws u p = ((m, e'), t)" by (metis surj_pair)
      have "contents u = overwrite c0 off d" "pos u = off + length d" using u None by (simp_all add: overwrite_def)
      from at [OF this w] show ?thesis using p k u w False None by (auto simp: seekOnce_write_def once_holds_def)
    qed
  qed
qed

end

sublocale skipping \<subseteq> once: io_writer "seekOnce_write ws" once_holds
  by unfold_locales (rule once_put)

section \<open>A file\<close>

text \<open>
  A file with a position and, where there is one, a largest size: a write beyond it is cut short and
  reports an error.
\<close>

record memFile =
  mf_bytes :: bytes
  mf_pos :: nat

definition memOps :: "nat option \<Rightarrow> memFile writeSeeker" where
  "memOps lim =
     \<lparr>ws_write = (\<lambda>f p.
        let n = (case lim of None \<Rightarrow> length p | Some m \<Rightarrow> min (length p) (m - mf_pos f))
        in ((n, if n < length p then Some (IOErr 28) else None),
            \<lparr>mf_bytes = overwrite (mf_bytes f) (mf_pos f) (take n p), mf_pos = mf_pos f + n\<rparr>)),
      ws_seek = (\<lambda>f k. (None, f\<lparr>mf_pos := k\<rparr>))\<rparr>"

interpretation mem_file: skipping "memOps lim" mf_bytes mf_pos c0 off for lim c0 off
  by unfold_locales (auto simp: memOps_def Let_def split: option.splits)

section \<open>The device of a Writer\<close>

text \<open>
  \<open>newWriter\<close> puts \<open>seekOnce\<close> and a buffer of 32 KiB over the caller's \<open>ws\<close>. The end of \<open>Close\<close> flushes the buffer,
  and \<open>patchHeader\<close> writes the header and its padding to \<open>ws\<close> itself.
\<close>

definition newDevice :: "nat \<Rightarrow> 's \<Rightarrow> 's seekOnce bufWriter" where
  "newDevice secSize s = newBufWriter \<lparr>so_seeker = s, so_offset = secSize, so_done = False\<rparr>"

definition bufSize :: nat where "bufSize = 32 * 2 ^ 10"

definition rawHeader :: "'s writeSeeker \<Rightarrow> nat \<Rightarrow> bytes \<Rightarrow> 's \<Rightarrow> goerr option \<times> 's" where
  "rawHeader ws secSize hbuf s =
     (case ws_write ws s hbuf of ((n, Some e), s) \<Rightarrow> (Some e, s) | ((n, None), s) \<Rightarrow>
      if headerSize < secSize then
        (case ws_write ws s (wb_skip (secSize - headerSize)) of ((n, err), s) \<Rightarrow> (err, s))
      else (None, s))"

definition rawPatch :: "'s writeSeeker \<Rightarrow> nat \<Rightarrow> bytes \<Rightarrow> 's \<Rightarrow> goerr option \<times> 's" where
  "rawPatch ws secSize hbuf s =
     (case ws_seek ws s 0 of (Some e, s) \<Rightarrow> (Some e, s) | (None, s) \<Rightarrow> rawHeader ws secSize hbuf s)"

definition finishDevice :: "'s writeSeeker \<Rightarrow> nat \<Rightarrow> bytes \<Rightarrow> 's seekOnce bufWriter \<Rightarrow> goerr option \<times> 's" where
  "finishDevice ws secSize hbuf b =
     (case bufFlush (seekOnce_write ws) b of
        (Some e, b) \<Rightarrow> (Some e, so_seeker (bf_wr b))
      | (None, b) \<Rightarrow> rawPatch ws secSize hbuf (so_seeker (bf_wr b)))"

text \<open>All of it: the writes \<open>ps\<close> of a session in their order, then \<open>Close\<close> with the header \<open>hbuf\<close>.\<close>

definition deviceRun :: "'s writeSeeker \<Rightarrow> nat \<Rightarrow> 's \<Rightarrow> bytes list \<Rightarrow> bytes \<Rightarrow> (goerr option \<times> 's) option" where
  "deviceRun ws secSize s ps hbuf =
     (case bufWrites bufSize (seekOnce_write ws) ps (newDevice secSize s) of
        None \<Rightarrow> None | Some b \<Rightarrow> Some (finishDevice ws secSize hbuf b))"

definition seeks_fine :: "'s writeSeeker \<Rightarrow> bool" where
  "seeks_fine ws \<longleftrightarrow> never_fails (ws_write ws) \<and> (\<forall>s k. fst (ws_seek ws s k) = None)"

lemma seeks_fine_once: "seeks_fine ws \<Longrightarrow> never_fails (seekOnce_write ws)"
proof -
  assume f: "seeks_fine ws"
  have "snd (fst (seekOnce_write ws s p)) = None" for s p
  proof -
    obtain e u where k: "ws_seek ws (so_seeker s) (so_offset s) = (e, u)" by (metis surj_pair)
    then have "e = None" using f unfolding seeks_fine_def by (metis fst_conv)
    moreover have "snd r = None" if "ws_write ws t p = (r, u)" for t r u
      using f that unfolding seeks_fine_def never_fails_def by (metis fst_conv)
    ultimately show ?thesis using k by (auto simp: seekOnce_write_def split: prod.split)
  qed
  then show ?thesis by (simp add: never_fails_def)
qed

context write_seeker
begin

lemma rawPatch_ok:
  assumes r: "rawPatch ws secSize hbuf s = (err, s')" and h: "length hbuf = headerSize" "headerSize \<le> secSize"
    and c: "contents s = overwrite c0 secSize d"
  shows "(err = None \<longrightarrow> contents s' = hbuf @ wb_skip (secSize - headerSize) @ d @ drop (secSize + length d) c0) \<and>
    (seeks_fine ws \<longrightarrow> err = None)"
proof -
  obtain e1 s1 where k: "ws_seek ws s 0 = (e1, s1)" by (metis surj_pair)
  obtain n2 e2 s2 where w2: "ws_write ws s1 hbuf = ((n2, e2), s2)" by (metis surj_pair)
  obtain n3 e3 s3 where w3: "ws_write ws s2 (wb_skip (secSize - headerSize)) = ((n3, e3), s3)" by (metis surj_pair)
  have fine: "e1 = None \<and> e2 = None \<and> e3 = None" if "seeks_fine ws"
    using that k w2 w3 unfolding seeks_fine_def never_fails_def by (metis fst_conv snd_conv)
  let ?h = "hbuf @ wb_skip (secSize - headerSize)"
  have lh: "length ?h = secSize" using h by (simp add: wb_skip_def)
  have front: "overwrite (contents s) 0 ?h = ?h @ d @ drop (secSize + length d) c0"
    using overwrite_front [of c0 ?h d] c lh by simp
  have "contents s' = overwrite (contents s) 0 ?h" if none: "err = None"
  proof (cases "headerSize < secSize")
    case True
    then have e: "e1 = None" "e2 = None" "e3 = None" "s' = s3"
      using r k w2 w3 none by (auto simp: rawPatch_def rawHeader_def split: option.splits)
    have "contents s1 = contents s" "pos s1 = 0" using seek_law [OF k] e by simp_all
    moreover have "contents s2 = overwrite (contents s1) (pos s1) hbuf" "pos s2 = pos s1 + length hbuf"
      using write_all w2 e by simp_all
    moreover have "contents s3 = overwrite (contents s2) (pos s2) (wb_skip (secSize - headerSize))" using write_all w3 e by simp
    ultimately show ?thesis using e overwrite_append [of "contents s" 0 hbuf] by simp
  next
    case False
    then have e: "e1 = None" "e2 = None" "s' = s2" using r k w2 none by (auto simp: rawPatch_def rawHeader_def split: option.splits)
    have "contents s1 = contents s" "pos s1 = 0" using seek_law [OF k] e by simp_all
    then show ?thesis using write_all w2 e False by (simp add: wb_skip_def)
  qed
  moreover have "err = None" if "seeks_fine ws"
    using fine [OF that] r k w2 w3 by (simp add: rawPatch_def rawHeader_def split: if_splits)
  ultimately show ?thesis using front by simp
qed

lemma once_device:
  "io_writer (seekOnce_write ws) (skipping.once_holds contents pos c0 off)"
  "skipping.once_holds contents pos (contents s) secSize \<lparr>so_seeker = s, so_offset = secSize, so_done = False\<rparr> []"
  "skipping.once_holds contents pos c0 off u d \<Longrightarrow> contents (so_seeker u) = overwrite c0 off d"
proof -
  have sk: "skipping ws contents pos" by unfold_locales
  show "io_writer (seekOnce_write ws) (skipping.once_holds contents pos c0 off)"
    by unfold_locales (rule skipping.once_put [OF sk])
  show "skipping.once_holds contents pos (contents s) secSize \<lparr>so_seeker = s, so_offset = secSize, so_done = False\<rparr> []"
    by (simp add: skipping.once_holds_def [OF sk])
  show "skipping.once_holds contents pos c0 off u d \<Longrightarrow> contents (so_seeker u) = overwrite c0 off d"
    by (rule skipping.once_contents [OF sk])
qed

lemma writes_prefix:
  "\<exists>b n. bufWrites bufSize (seekOnce_write ws) ps (newDevice secSize s) = Some b \<and> n \<le> length (concat ps) \<and>
    contents (so_seeker (bf_wr b)) = overwrite (contents s) secSize (take n (concat ps)) \<and>
    (bf_err b = None \<longrightarrow> length (concat ps) \<le> n + bufSize)"
proof -
  note new = io_writer.new [OF once_device(1) once_device(2) [of s secSize], of bufSize]
  have "0 < bufSize" by (simp add: bufSize_def)
  from io_writer.writes_ok [OF once_device(1) this new, of ps] obtain b m where
    b: "bufWrites bufSize (seekOnce_write ws) ps (newDevice secSize s) = Some b"
    "io_writer.accepted (skipping.once_holds contents pos (contents s) secSize) bufSize b (take m (concat ps))"
    "bf_err b = None \<longrightarrow> length (concat ps) \<le> m" unfolding append.append_Nil by (elim exE conjE) (rule that, simp_all only: newDevice_def simp_thms)
  obtain below where a: "skipping.once_holds contents pos (contents s) secSize (bf_wr b) below"
    "take m (concat ps) = below @ bf_buf b" "length (bf_buf b) \<le> bufSize"
    using b(2) unfolding io_writer.accepted_def [OF once_device(1)] by auto
  have l: "length below + length (bf_buf b) = min m (length (concat ps))"
    using arg_cong [OF a(2), of length] by simp
  have "take (length below) (take m (concat ps)) = below" unfolding a(2) by simp
  moreover have "min (length below) m = length below" using l by linarith
  ultimately have "take (length below) (concat ps) = below" by (simp only: take_take)
  moreover have "length below \<le> length (concat ps)" using l by linarith
  moreover have "length (concat ps) \<le> length below + bufSize" if "bf_err b = None"
    using l a(3) b(3) that by linarith
  ultimately show ?thesis using b(1) once_device(3) [OF a(1)] by (intro exI [of _ b] exI [of _ "length below"]) simp
qed

lemma deviceRun_ok:
  assumes h: "length hbuf = headerSize" "headerSize \<le> secSize"
  shows "\<exists>err s'. deviceRun ws secSize s ps hbuf = Some (err, s') \<and>
    (err = None \<longrightarrow> contents s' = hbuf @ wb_skip (secSize - headerSize) @ concat ps @ drop (secSize + length (concat ps)) (contents s)) \<and>
    (seeks_fine ws \<longrightarrow> err = None)"
proof -
  obtain b err b' where b: "bufWrites bufSize (seekOnce_write ws) ps (newDevice secSize s) = Some b"
    "bufFlush (seekOnce_write ws) b = (err, b')"
    "err = None \<longrightarrow> skipping.once_holds contents pos (contents s) secSize (bf_wr b') (concat ps)"
    "never_fails (seekOnce_write ws) \<longrightarrow> err = None"
    using io_writer.session_ok [OF once_device(1) _ once_device(2) [of s secSize], of bufSize ps] unfolding newDevice_def by (auto simp: bufSize_def)
  show ?thesis
  proof (cases err)
    case (Some e)
    then show ?thesis using b seeks_fine_once [of ws] by (simp add: deviceRun_def finishDevice_def) blast
  next
    case None
    have c: "contents (so_seeker (bf_wr b')) = overwrite (contents s) secSize (concat ps)"
      using once_device(3) [OF b(3) [rule_format, OF None]] .
    obtain e2 s2 where r: "rawPatch ws secSize hbuf (so_seeker (bf_wr b')) = (e2, s2)" by (metis surj_pair)
    show ?thesis using rawPatch_ok [OF r h c] b(1,2) None r by (simp add: deviceRun_def finishDevice_def)
  qed
qed

end

section \<open>The file Close returns is the file on the device\<close>

lemma closeWriter_parts:
  assumes "closeWriter dv w = (w', Inr f)" "w_secSize w' = 512 \<or> w_secSize w' = 4096"
  shows "\<exists>hbuf. length hbuf = headerSize \<and> f = hbuf @ wb_skip (w_secSize w' - headerSize) @ cw_out (w_cw w')"
proof -
  obtain v rg hdr where p: "patchHeader dv w' rg = Inr hdr" "f = hdr @ cw_out (w_cw w')"
    using assms(1) by (auto simp: closeWriter_def serialize_def bindE_eq_Inr Let_def split: option.splits if_splits sum.splits)
  then have "hdr = encodeHeader (w_secSize w') rg @ wb_skip (w_secSize w' - headerSize)"
    using assms(2) by (auto simp: patchHeader_def Let_def headerSize_def wb_skip_def split: option.splits if_splits)
  then show ?thesis using p(2) length_encodeHeader [of "w_secSize w'" rg] by auto
qed

text \<open>\<open>Close\<close> does not change the sector size.\<close>

lemma writeMini_secSize: "w_secSize (fst (writeMini wr w p)) = w_secSize w"
proof (induction wr w p rule: writeMini.induct)
  case (1 wr w p)
  then show ?case by (subst writeMini.simps) (auto simp: Let_def split: prod.splits option.splits)
qed

lemma serialize_secSize:
  assumes "serialize dv w = Inr (w', f)"
  shows "w_secSize w' = w_secSize w"
proof -
  have m: "w_secSize v = w_secSize u" if "writeMini wr u p = (v, e)" for wr u v p e
    using writeMini_secSize [of wr u p] that by simp
  have i: "w_secSize v = w_secSize u" if "serInit wr u = Inr (v, sz)" for wr u v sz
    using that m by (auto simp: serInit_def Let_def split: prod.splits option.splits if_splits)
  have d: "w_secSize v = w_secSize u" if "emitDirectory wr u sz = Inr (v, r)" for wr u v sz r
    using that by (auto simp: emitDirectory_def Let_def bindE_eq_Inr)
  have t: "w_secSize v = w_secSize u" if "writeTable wr u n rs = Inr v" for wr u v n rs
    using that by (auto simp: writeTable_def bindE_eq_Inr)
  have f: "w_secSize v = w_secSize u" if "emitFAT wr u sz a b = Inr (v, rg)" for wr u v sz a b rg
    using that t by (auto simp: emitFAT_def Let_def bindE_eq_Inr split: option.splits if_splits)
  have g: "w_secSize v = w_secSize u" if "emitDIFAT wr u rg = Inr v" for wr u v rg
    using that by (auto simp: emitDIFAT_def bindE_eq_Inr)
  show ?thesis
    using assms by (auto simp: serialize_def bindE_eq_Inr split: option.splits dest!: i d f g)
qed

lemma closeWriter_secSize: "closeWriter dv w = (w', Inr f) \<Longrightarrow> w_secSize w' = w_secSize w"
  by (auto simp: closeWriter_def Let_def split: option.splits if_splits sum.splits dest!: serialize_secSize)

text \<open>C31: what a session leaves on the caller's \<open>io.WriteSeeker\<close> before \<open>Close\<close>, errors or not: the buffered writes
  return, and the file holds, from the sector after the header on, a prefix of the bytes written, over what was there
  before. The header sector is not touched. While no error has been reported, at most the 32 KiB of the buffer
  are missing.\<close>

theorem device_prefix:
  assumes "write_seeker ws contents pos"
  shows "\<exists>b n. bufWrites bufSize (seekOnce_write ws) ps (newDevice secSize s) = Some b \<and> n \<le> length (concat ps) \<and>
    contents (so_seeker (bf_wr b)) = overwrite (contents s) secSize (take n (concat ps)) \<and>
    (bf_err b = None \<longrightarrow> length (concat ps) \<le> n + bufSize)"
  by (rule write_seeker.writes_prefix [OF assms])

theorem device_prefix_witness:
  "\<exists>b n. bufWrites bufSize (seekOnce_write (memOps (Some 515))) [[1, 2], [3, 4, 5]] (newDevice 512 \<lparr>mf_bytes = [9], mf_pos = 0\<rparr>) = Some b \<and>
    mf_bytes (so_seeker (bf_wr b)) = overwrite [9] 512 (take n [1, 2, 3, 4, 5])"
  using device_prefix [OF mem_file.write_seeker_axioms [of "Some 515"], of "[[1, 2], [3, 4, 5]]" 512 "\<lparr>mf_bytes = [9], mf_pos = 0\<rparr>"]
  by auto

text \<open>C5: the file on the caller's \<open>io.WriteSeeker\<close>. However the bytes of a session are split into writes to the
  buffer, the calls return, and if \<open>Flush\<close> and the header's writes at the end report no error, then the file is what
  the model of \<open>Close\<close> returns, over what was there before: no earlier error is lost, nothing is reordered, and
  the header sector that \<open>seekOnce\<close> skipped is filled. On a device without errors they report none.\<close>

theorem stored_file:
  assumes "write_seeker ws contents pos" "w_secSize w = 512 \<or> w_secSize w = 4096"
    "closeWriter dv w = (w', Inr f)" "concat ps = cw_out (w_cw w')"
  shows "\<exists>err s'. deviceRun ws (w_secSize w) s ps (take headerSize f) = Some (err, s') \<and>
    (err = None \<longrightarrow> contents s' = f @ drop (length f) (contents s)) \<and> (seeks_fine ws \<longrightarrow> err = None)"
proof -
  have S: "w_secSize w' = w_secSize w" by (rule closeWriter_secSize [OF assms(3)])
  obtain hbuf where h: "length hbuf = headerSize" "f = hbuf @ wb_skip (w_secSize w - headerSize) @ cw_out (w_cw w')"
    using closeWriter_parts [OF assms(3)] assms(2) unfolding S by blast
  moreover have le: "headerSize \<le> w_secSize w" using assms(2) by (auto simp: headerSize_def)
  moreover from le have "length f = w_secSize w + length (concat ps)" using h assms(4) by (simp add: wb_skip_def)
  ultimately show ?thesis using write_seeker.deviceRun_ok [OF assms(1), of hbuf "w_secSize w" s ps] assms(4) by simp
qed

theorem stored_file_witness:
  "\<exists>w' f err s. closeWriter sample_device (cs_w sample_closed) = (w', Inr f) \<and>
    deviceRun (memOps None) 512 \<lparr>mf_bytes = [], mf_pos = 7\<rparr> [[], cw_out (w_cw w')] (take headerSize f) = Some (err, s) \<and>
    err = None \<and> mf_bytes s = f"
proof -
  obtain w' f where c: "closeWriter sample_device (cs_w sample_closed) = (w', Inr f)"
    using reach_close [OF sample_reach _ sample_device_ok sample_closed_sel(1,2)] by (metis refl)
  have S: "w_secSize (cs_w sample_closed) = 512" using wreach_secSize [OF sample_reach] .
  have "seeks_fine (memOps None)" by (simp add: seeks_fine_def never_fails_def memOps_def Let_def)
  then show ?thesis
    using stored_file [OF mem_file.write_seeker_axioms [of None] disjI1 [OF S] c, of "[[], cw_out (w_cw w')]" "\<lparr>mf_bytes = [], mf_pos = 7\<rparr>"] c
    unfolding S by auto
qed

end
