(* ===== verification/OleValue.thy ===== *)
theory OleValue
  imports Bytes Filetime
begin

text \<open>
  The package \<open>oleps\<close>, a reader and writer of OLE property sets: the data of oleps.go and value.go, and
  the code pages of codepage.go. A Go string is the list of its bytes here, since the text of a property
  is handed to a character set as a whole. The character sets themselves are those of
  golang.org/x/text: a parameter (\<open>texts\<close>) that encodes and decodes strings, or fails.

  Errors keep the sentinel the code wraps and the message; the numbers printed in some are left out.
\<close>

section \<open>Errors\<close>

datatype ole_error =
    OleFormat string        \<comment> \<open>\<open>ErrFormat\<close>\<close>
  | OleUnsupported string   \<comment> \<open>\<open>ErrUnsupported\<close>\<close>
  | OleError string         \<comment> \<open>other errors of the package\<close>
  | OleTime filetime_error
  | OleUnexpectedEOF
  | OlePanic

section \<open>Data\<close>

datatype ole_value = I2 u16 | I4 u32 | UI4 u32 | LPSTR bytes | FileTime gotime

text \<open>A nil value is \<open>None\<close>.\<close>

record ole_property =
  op_id :: u32
  op_value :: "ole_value option"

record propertySet =
  ps_fmtid :: bytes
  ps_properties :: "ole_property list"

record propertySetStream =
  pss_clsid :: bytes
  pss_version :: u16
  pss_systemIdentifier :: u32
  pss_propertySets :: "propertySet list"

definition cpWinUnicode :: u16 where "cpWinUnicode = 0x04B0"
definition byteOrder :: u16 where "byteOrder = 0xFFFE"

definition vtI2 :: u16 where "vtI2 = 0x02"
definition vtI4 :: u16 where "vtI4 = 0x03"
definition vtUI4 :: u16 where "vtUI4 = 0x13"
definition vtLPSTR :: u16 where "vtLPSTR = 0x1E"
definition vtFileTime :: u16 where "vtFileTime = 0x40"

lemmas vt_defs = vtI2_def vtI4_def vtUI4_def vtLPSTR_def vtFileTime_def

fun propertyType :: "ole_value \<Rightarrow> u16" where
  "propertyType (I2 n) = vtI2"
| "propertyType (I4 n) = vtI4"
| "propertyType (UI4 n) = vtUI4"
| "propertyType (LPSTR s) = vtLPSTR"
| "propertyType (FileTime t) = vtFileTime"

datatype valueCoder = I2Coder | I4Coder | UI4Coder | LPSTRCoder | FileTimeCoder

definition resolveCoder :: "u16 \<Rightarrow> ole_error + valueCoder" where
  "resolveCoder t =
     (if t = vtI2 then Inr I2Coder
      else if t = vtI4 then Inr I4Coder
      else if t = vtUI4 then Inr UI4Coder
      else if t = vtLPSTR then Inr LPSTRCoder
      else if t = vtFileTime then Inr FileTimeCoder
      else Inl (OleUnsupported ''property type''))"

section \<open>Code pages\<close>

datatype charset = Windows1252 | UTF16LE | UTF8 | Windows874 | ShiftJIS | GBK | EUCKR | Big5
  | Windows1250 | Windows1251 | Windows1253 | Windows1254 | Windows1255 | Windows1256 | Windows1257
  | Windows1258 | Macintosh | ISO8859_1 | ISO8859_2 | ISO8859_3 | ISO8859_4 | ISO8859_5 | ISO8859_6
  | ISO8859_7 | ISO8859_8 | ISO8859_9 | ISO8859_13 | ISO8859_15

definition codepageEncoding :: "u16 \<Rightarrow> charset option" where
  "codepageEncoding cp =
     (if cp = 0 \<or> cp = 1252 then Some Windows1252
      else if cp = 1200 then Some UTF16LE
      else if cp = 65001 then Some UTF8
      else if cp = 874 then Some Windows874
      else if cp = 932 then Some ShiftJIS
      else if cp = 936 then Some GBK
      else if cp = 949 then Some EUCKR
      else if cp = 950 then Some Big5
      else if cp = 1250 then Some Windows1250
      else if cp = 1251 then Some Windows1251
      else if cp = 1253 then Some Windows1253
      else if cp = 1254 then Some Windows1254
      else if cp = 1255 then Some Windows1255
      else if cp = 1256 then Some Windows1256
      else if cp = 1257 then Some Windows1257
      else if cp = 1258 then Some Windows1258
      else if cp = 10000 then Some Macintosh
      else if cp = 28591 then Some ISO8859_1
      else if cp = 28592 then Some ISO8859_2
      else if cp = 28593 then Some ISO8859_3
      else if cp = 28594 then Some ISO8859_4
      else if cp = 28595 then Some ISO8859_5
      else if cp = 28596 then Some ISO8859_6
      else if cp = 28597 then Some ISO8859_7
      else if cp = 28598 then Some ISO8859_8
      else if cp = 28599 then Some ISO8859_9
      else if cp = 28603 then Some ISO8859_13
      else if cp = 28605 then Some ISO8859_15
      else None)"

text \<open>The encoders and decoders of golang.org/x/text.\<close>

record texts =
  tx_encode :: "charset \<Rightarrow> bytes \<Rightarrow> bytes option"
  tx_decode :: "charset \<Rightarrow> bytes \<Rightarrow> bytes option"

text \<open>The terminator of a string: two bytes in UTF-16.\<close>

definition terminator :: "u16 \<Rightarrow> bytes" where
  "terminator cp = (if cp = cpWinUnicode then [0, 0] else [0])"

lemma resolveCoder_simps [simp]:
  "resolveCoder vtI2 = Inr I2Coder" "resolveCoder vtI4 = Inr I4Coder" "resolveCoder vtUI4 = Inr UI4Coder"
  "resolveCoder vtLPSTR = Inr LPSTRCoder" "resolveCoder vtFileTime = Inr FileTimeCoder"
  by (simp_all add: resolveCoder_def vt_defs)

lemma resolveCoder_type:
  "resolveCoder (propertyType v) = Inr (case v of I2 n \<Rightarrow> I2Coder | I4 n \<Rightarrow> I4Coder | UI4 n \<Rightarrow> UI4Coder
     | LPSTR s \<Rightarrow> LPSTRCoder | FileTime t \<Rightarrow> FileTimeCoder)"
  by (cases v) simp_all

end
