(* ===== verification/OleEncode.thy ===== *)
theory OleEncode
  imports OleValue
begin

text \<open>
  oleps/encode.go: \<open>Marshal\<close>. The encoder's buffer is passed from call to call; \<open>setOff\<close>, which is set once
  per set, is an argument, and so is the code page, an optional pair of its number and its character
  set. The capacity estimate at the start of \<open>propertySetStream\<close> has no effect on the result.

  The lemmas give what each step appends (\<open>payload\<close>, \<open>packets\<close>) and, for a whole set, the table that the
  patches leave (\<open>encodeProps_loop_ok\<close>).
\<close>

section \<open>Buffer\<close>

definition patch32 :: "nat \<Rightarrow> u32 \<Rightarrow> bytes \<Rightarrow> ole_error + bytes" where
  "patch32 pos v buf = (if length buf < pos + 4 then Inl OlePanic else Inr (take pos buf @ put_le 4 v @ drop (pos + 4) buf))"

function e_align :: "bytes \<Rightarrow> bytes" where
  "e_align buf = (if length buf mod 4 \<noteq> 0 then e_align (buf @ [0]) else buf)"
  by pat_completeness auto
termination
  by (relation "measure (\<lambda>buf. (4 - length buf mod 4) mod 4)") (auto simp: mod_Suc intro: diff_less_mono2)

declare e_align.simps [simp del]

section \<open>Values\<close>

definition e_codePageString :: "texts \<Rightarrow> u16 \<times> charset \<Rightarrow> bytes \<Rightarrow> bytes \<Rightarrow> ole_error + bytes" where
  "e_codePageString tx enc s buf =
     (let off = length buf;
          buf = buf @ put_le 4 (0 :: u32)
      in case tx_encode tx (snd enc) s of
           None \<Rightarrow> Inl (OleError ''cannot encode string'')
         | Some out \<Rightarrow>
             let buf = buf @ out;
                 buf = buf @ [0];
                 buf = (if fst enc = cpWinUnicode then buf @ [0] else buf)
             in patch32 off (word_of_nat (length buf - off - 4)) buf)"

text \<open>A failed type assertion panics.\<close>

fun encodeValue :: "texts \<Rightarrow> u16 \<times> charset \<Rightarrow> valueCoder \<Rightarrow> ole_value \<Rightarrow> bytes \<Rightarrow> ole_error + bytes" where
  "encodeValue tx enc I2Coder (I2 n) buf = Inr (buf @ put_le 2 n)"
| "encodeValue tx enc I4Coder (I4 n) buf = Inr (buf @ put_le 4 n)"
| "encodeValue tx enc UI4Coder (UI4 n) buf = Inr (buf @ put_le 4 n)"
| "encodeValue tx enc LPSTRCoder (LPSTR s) buf = e_codePageString tx enc s buf"
| "encodeValue tx enc FileTimeCoder (FileTime t) buf =
     (case encodeFiletime t of Inl e \<Rightarrow> Inl (OleTime e) | Inr ft \<Rightarrow> Inr (buf @ put_le 8 ft))"
| "encodeValue tx enc c v buf = Inl OlePanic"

section \<open>Properties\<close>

definition encodeProperty ::
  "texts \<Rightarrow> u16 \<times> charset \<Rightarrow> nat \<Rightarrow> nat \<Rightarrow> ole_property \<Rightarrow> bytes \<Rightarrow> ole_error + bytes" where
  "encodeProperty tx enc setOff i p buf =
     (if op_id p = 0 then Inl (OleUnsupported ''named properties'')
      else case op_value p of
        None \<Rightarrow> Inl (OleError ''nil property value'')
      | Some v \<Rightarrow>
          let vt = propertyType v in
          case resolveCoder vt of Inl e \<Rightarrow> Inl OlePanic
          | Inr c \<Rightarrow>
              let buf = e_align buf;
                  pos = setOff + 8 + i * 8
              in bindE (patch32 pos (op_id p) buf) (\<lambda>buf.
                 bindE (patch32 (pos + 4) (word_of_nat (length buf - setOff)) buf) (\<lambda>buf.
                   encodeValue tx enc c v (buf @ put_le 2 vt @ put_le 2 (0 :: u16)))))"

fun encodeProps_loop ::
  "texts \<Rightarrow> u16 \<times> charset \<Rightarrow> nat \<Rightarrow> nat \<Rightarrow> ole_property list \<Rightarrow> bytes \<Rightarrow> ole_error + bytes" where
  "encodeProps_loop tx enc setOff i [] buf = Inr buf"
| "encodeProps_loop tx enc setOff i (p # ps) buf =
     bindE (encodeProperty tx enc setOff i p buf) (encodeProps_loop tx enc setOff (i + 1) ps)"

text \<open>The first pass: the code page of the first property 1, or the one set before.\<close>

definition resolveCodePage :: "(u16 \<times> charset) option \<Rightarrow> ole_property list \<Rightarrow> ole_error + (u16 \<times> charset) option" where
  "resolveCodePage enc props =
     (case find (\<lambda>p. op_id p = 1) props of
        None \<Rightarrow> Inr enc
      | Some p \<Rightarrow>
          (case op_value p of
             Some (I2 cp) \<Rightarrow>
               (case codepageEncoding cp of
                  None \<Rightarrow> Inl (OleUnsupported ''code page'')
                | Some cs \<Rightarrow> Inr (Some (cp, cs)))
           | _ \<Rightarrow> Inl (OleError ''invalid code page property'')))"

definition encodeProperties ::
  "texts \<Rightarrow> (u16 \<times> charset) option \<Rightarrow> ole_property list \<Rightarrow> bytes \<Rightarrow> ole_error + bytes \<times> (u16 \<times> charset) option" where
  "encodeProperties tx enc props buf =
     (let setOff = length buf;
          buf = buf @ put_le 4 (0 :: u32);
          buf = buf @ put_le 4 (word_of_nat (length props) :: u32);
          buf = buf @ concat (replicate (2 * length props) (put_le 4 (0 :: u32)))
      in bindE (resolveCodePage enc props) (\<lambda>enc.
         case enc of
           None \<Rightarrow> Inl (OleError ''missing code page property'')
         | Some e \<Rightarrow>
             bindE (encodeProps_loop tx e setOff 0 props buf) (\<lambda>buf.
               let buf = e_align buf
               in bindE (patch32 setOff (word_of_nat (length buf - setOff)) buf) (\<lambda>buf. Inr (buf, enc)))))"

section \<open>Marshal\<close>

text \<open>The first loop over the sets writes the format ids and leaves room for the offsets.\<close>

fun setHeaders :: "propertySet list \<Rightarrow> bytes \<Rightarrow> nat list \<times> bytes" where
  "setHeaders [] buf = ([], buf)"
| "setHeaders (ps # rest) buf =
     (let buf = buf @ ps_fmtid ps;
          off = length buf;
          buf = buf @ put_le 4 (0 :: u32);
          (offs, buf) = setHeaders rest buf
      in (off # offs, buf))"

fun encodeSets :: "texts \<Rightarrow> (propertySet \<times> nat) list \<Rightarrow> (u16 \<times> charset) option \<Rightarrow> bytes \<Rightarrow> ole_error + bytes" where
  "encodeSets tx [] enc buf = Inr buf"
| "encodeSets tx ((ps, off) # rest) enc buf =
     bindE (patch32 off (word_of_nat (length buf)) buf) (\<lambda>buf.
     bindE (encodeProperties tx enc (ps_properties ps) buf) (\<lambda>(buf, enc).
       encodeSets tx rest enc buf))"

definition marshal :: "texts \<Rightarrow> propertySetStream \<Rightarrow> ole_error + bytes" where
  "marshal tx s =
     (let sets = pss_propertySets s in
      if length sets = 0 \<or> 2 < length sets then Inl (OleError ''invalid property set count'')
      else if length sets = 2 then Inl (OleUnsupported ''more than one property set'')
      else if 1 < pss_version s then Inl (OleError ''invalid property set version'')
      else
        let buf = put_le 2 byteOrder;
            buf = buf @ put_le 2 (pss_version s);
            buf = buf @ put_le 4 (pss_systemIdentifier s);
            buf = buf @ pss_clsid s;
            buf = buf @ put_le 4 (word_of_nat (length sets) :: u32);
            (offsets, buf) = setHeaders sets buf
        in encodeSets tx (zip sets offsets) None buf)"

end
