(* ===== verification/OleDecode.thy ===== *)
theory OleDecode
  imports OleValue
begin

text \<open>
  oleps/decode.go: \<open>Unmarshal\<close>. The decoder's buffer is passed from call to call; what is set once per
  property set (\<open>setBuf\<close>, \<open>numProps\<close>, the code page) is an argument of the operations that use it. Slicing
  and indexing out of range is the error \<open>OlePanic\<close>.
\<close>

section \<open>The cursor\<close>

definition d_bytes :: "nat \<Rightarrow> bytes \<Rightarrow> ole_error + bytes \<times> bytes" where
  "d_bytes n buf = (if length buf < n then Inl OleUnexpectedEOF else Inr (take n buf, drop n buf))"

definition d_uint16 :: "bytes \<Rightarrow> ole_error + u16 \<times> bytes" where
  "d_uint16 buf = bindE (d_bytes 2 buf) (\<lambda>(b, buf). Inr (get_le b, buf))"

definition d_uint32 :: "bytes \<Rightarrow> ole_error + u32 \<times> bytes" where
  "d_uint32 buf = bindE (d_bytes 4 buf) (\<lambda>(b, buf). Inr (get_le b, buf))"

definition d_uint64 :: "bytes \<Rightarrow> ole_error + u64 \<times> bytes" where
  "d_uint64 buf = bindE (d_bytes 8 buf) (\<lambda>(b, buf). Inr (get_le b, buf))"

text \<open>\<open>v, _ := read(d)\<close>: a failed read gives the zero value \<open>z\<close> and leaves the buffer.\<close>

definition ignoring :: "'v \<Rightarrow> bytes \<Rightarrow> ole_error + 'v \<times> bytes \<Rightarrow> 'v \<times> bytes" where
  "ignoring z buf r = (case r of Inl e \<Rightarrow> (z, buf) | Inr v \<Rightarrow> v)"

section \<open>Values\<close>

definition d_codePageString :: "texts \<Rightarrow> u16 \<times> charset \<Rightarrow> bytes \<Rightarrow> ole_error + bytes \<times> bytes" where
  "d_codePageString tx enc buf =
     bindE (d_uint32 buf) (\<lambda>(n, buf).
       if n = 0 then Inr ([], buf)
       else bindE (d_bytes (unat n) buf) (\<lambda>(raw, buf).
         let term = (if fst enc = cpWinUnicode then [0, 0] else [0]) in
         if length raw < length term \<or> drop (length raw - length term) raw \<noteq> term then Inl (OleFormat ''missing string terminator'')
         else
           let raw = take (length raw - length term) raw
           in case tx_decode tx (snd enc) raw of
                None \<Rightarrow> Inl (OleFormat ''invalid string'')
              | Some out \<Rightarrow> Inr (out, buf)))"

fun decodeValue :: "texts \<Rightarrow> u16 \<times> charset \<Rightarrow> valueCoder \<Rightarrow> bytes \<Rightarrow> ole_error + ole_value \<times> bytes" where
  "decodeValue tx enc I2Coder buf = bindE (d_uint16 buf) (\<lambda>(n, buf). Inr (I2 n, buf))"
| "decodeValue tx enc I4Coder buf = bindE (d_uint32 buf) (\<lambda>(n, buf). Inr (I4 n, buf))"
| "decodeValue tx enc UI4Coder buf = bindE (d_uint32 buf) (\<lambda>(n, buf). Inr (UI4 n, buf))"
| "decodeValue tx enc LPSTRCoder buf = bindE (d_codePageString tx enc buf) (\<lambda>(s, buf). Inr (LPSTR s, buf))"
| "decodeValue tx enc FileTimeCoder buf = bindE (d_uint64 buf) (\<lambda>(ft, buf). Inr (FileTime (decodeFiletime ft), buf))"

section \<open>Properties\<close>

text \<open>The table entry at index \<open>i\<close> and the end of its packet; the arithmetic is that of \<open>uint32\<close>.\<close>

definition propertyPacket :: "bytes \<Rightarrow> u32 \<Rightarrow> u32 \<Rightarrow> ole_error + u32 \<times> u32 \<times> u32" where
  "propertyPacket setBuf numProps i =
     (if length setBuf < unat (8 + i * 8) then Inl OlePanic
      else
        let b = drop (unat (8 + i * 8)) setBuf in
        if length b < 8 then Inl OlePanic
        else
          let pid = get_le (take 4 b); off = get_le (take 4 (drop 4 b)) in
          if i + 1 < numProps then
            (if length b < 16 then Inl OlePanic else Inr (pid, off, get_le (take 4 (drop 12 b))))
          else Inr (pid, off, word_of_nat (length setBuf)))"

text \<open>\<open>d.setBuf[off:end]\<close>\<close>

definition packetSlice :: "bytes \<Rightarrow> u32 \<Rightarrow> u32 \<Rightarrow> ole_error + bytes" where
  "packetSlice setBuf off till =
     (if till < off \<or> length setBuf < unat till then Inl OlePanic
      else Inr (take (unat till - unat off) (drop (unat off) setBuf)))"

text \<open>The loop that checks all offsets before any property is read.\<close>

fun checkOffsets :: "bytes \<Rightarrow> u32 \<Rightarrow> u32 \<Rightarrow> u32 \<Rightarrow> u32 list \<Rightarrow> ole_error + unit" where
  "checkOffsets setBuf numProps sz minOff [] = Inr ()"
| "checkOffsets setBuf numProps sz minOff (i # is) =
     bindE (propertyPacket setBuf numProps i) (\<lambda>(pid, off, till).
       if off < minOff \<or> till < off \<or> till - off < 4 \<or> sz < till then Inl (OleFormat ''invalid property offset'')
       else checkOffsets setBuf numProps sz minOff is)"

fun d_codePage :: "bytes \<Rightarrow> u32 \<Rightarrow> u32 list \<Rightarrow> ole_error + u16" where
  "d_codePage setBuf numProps [] = Inl (OleFormat ''missing code page property'')"
| "d_codePage setBuf numProps (i # is) =
     bindE (propertyPacket setBuf numProps i) (\<lambda>(pid, off, till).
       if pid \<noteq> 1 then d_codePage setBuf numProps is
       else bindE (packetSlice setBuf off till) (\<lambda>buf.
         let (vt, buf) = ignoring 0 buf (d_uint16 buf) in
         if vt \<noteq> vtI2 then Inl (OleFormat ''invalid code page property'')
         else
           let (pad, buf) = ignoring [] buf (d_bytes 2 buf)
           in case d_uint16 buf of
                Inl e \<Rightarrow> Inl (OleFormat ''truncated property value'')
              | Inr (cp, buf) \<Rightarrow> Inr cp))"

definition decodeProperty :: "texts \<Rightarrow> u16 \<times> charset \<Rightarrow> bytes \<Rightarrow> u32 \<Rightarrow> u32 \<Rightarrow> ole_error + ole_property" where
  "decodeProperty tx enc setBuf numProps i =
     bindE (propertyPacket setBuf numProps i) (\<lambda>(pid, off, till).
       if pid = 0 then Inl (OleUnsupported ''named properties'')
       else bindE (packetSlice setBuf off till) (\<lambda>buf.
         let (vt, buf) = ignoring 0 buf (d_uint16 buf);
             (pad, buf) = ignoring 0 buf (d_uint16 buf)
         in if pad \<noteq> 0 then Inl (OleFormat ''property padding is not zero'')
            else bindE (resolveCoder vt) (\<lambda>c.
              case decodeValue tx enc c buf of
                Inl e \<Rightarrow> Inl (if e = OleUnexpectedEOF then OleFormat ''truncated property value'' else e)
              | Inr (v, buf) \<Rightarrow> Inr \<lparr>op_id = pid, op_value = Some v\<rparr>)))"

definition indices :: "u32 \<Rightarrow> u32 list" where
  "indices n = map word_of_nat [0..<unat n]"

definition decodeProperties :: "texts \<Rightarrow> bytes \<Rightarrow> ole_error + ole_property list" where
  "decodeProperties tx buf =
     (let setBuf = buf in
      bindE (d_uint32 buf) (\<lambda>(sz, buf).
      bindE (d_uint32 buf) (\<lambda>(numProps, buf).
      if length setBuf < unat sz then Inl OleUnexpectedEOF
      else if sz < 8 \<or> unat sz < 8 + 8 * unat numProps then Inl (OleFormat ''invalid property set size'')
      else
        let setBuf = take (unat sz) setBuf;
            minOff = 8 + numProps * 8
        in bindE (checkOffsets setBuf numProps sz minOff (indices numProps)) (\<lambda>_.
           bindE (d_codePage setBuf numProps (indices numProps)) (\<lambda>cp.
           case codepageEncoding cp of
             None \<Rightarrow> Inl (OleUnsupported ''code page'')
           | Some cs \<Rightarrow> mapE (decodeProperty tx (cp, cs) setBuf numProps) (indices numProps))))))"

section \<open>Unmarshal\<close>

text \<open>The loop over the \<open>k\<close> property sets left; \<open>buf\<close> is the rest of the table of sets.\<close>

fun decodeSets :: "texts \<Rightarrow> bytes \<Rightarrow> u32 \<Rightarrow> nat \<Rightarrow> bytes \<Rightarrow> ole_error + propertySet list" where
  "decodeSets tx data setsOff 0 buf = Inr []"
| "decodeSets tx data setsOff (Suc k) buf =
     (let (fmtid, buf) = ignoring [] buf (d_bytes 16 buf);
          (off, buf) = ignoring 0 buf (d_uint32 buf)
      in if off < setsOff then Inl (OleFormat ''invalid property set offset'')
         else if length data < unat off then Inl OleUnexpectedEOF
         else bindE (decodeProperties tx (drop (unat off) data)) (\<lambda>props.
           if length fmtid < 16 then Inl OlePanic
           else bindE (decodeSets tx data setsOff k buf) (\<lambda>rest.
             Inr (\<lparr>ps_fmtid = fmtid, ps_properties = props\<rparr> # rest))))"

definition oleHeaderSize :: nat where "oleHeaderSize = 28"

definition unmarshal :: "texts \<Rightarrow> bytes \<Rightarrow> ole_error + propertySetStream" where
  "unmarshal tx data =
     bindE (d_uint16 data) (\<lambda>(bo, buf).
       if bo \<noteq> byteOrder then Inl (OleFormat ''invalid byte order'')
       else if length data < oleHeaderSize then Inl OleUnexpectedEOF
       else
         let (version, buf) = ignoring 0 buf (d_uint16 buf) in
         if 1 < version then Inl (OleFormat ''invalid property set version'')
         else
           let (sysid, buf) = ignoring 0 buf (d_uint32 buf);
               (clsid, buf) = ignoring [] buf (d_bytes 16 buf)
           in if length clsid < 16 then Inl OlePanic
              else
                let (numSets, buf) = ignoring 0 buf (d_uint32 buf) in
                if numSets = 2 then Inl (OleUnsupported ''more than one property set'')
                else if numSets \<noteq> 1 then Inl (OleFormat ''invalid property set count'')
                else
                  let setsOff = word_of_nat oleHeaderSize + numSets * 20 in
                  if length data < unat setsOff then Inl OleUnexpectedEOF
                  else bindE (decodeSets tx data setsOff (unat numSets) buf) (\<lambda>sets.
                    Inr \<lparr>pss_clsid = clsid, pss_version = version, pss_systemIdentifier = sysid, pss_propertySets = sets\<rparr>))"

end
