(* ===== verification/OleRoundTrip.thy ===== *)
theory OleRoundTrip
  imports OleEncode OleDecode
begin

text \<open>
  \<open>Unmarshal\<close> inverts \<open>Marshal\<close>. A property is a packet (\<open>is_packet\<close>); \<open>packets_placed\<close> says where the loop over the
  properties puts the packets after the table, and which offsets it has patched into the table. The
  decoder's side is reading table and packets of such a set.
\<close>

section \<open>Buffer\<close>

lemma e_align_eq: "\<exists>k < 4. e_align buf = buf @ replicate k 0 \<and> length (e_align buf) mod 4 = 0"
proof (induction buf rule: e_align.induct)
  case (1 buf)
  show ?case
  proof (cases "length buf mod 4 = 0")
    case True
    then show ?thesis by (intro exI [of _ 0]) (simp add: e_align.simps [of buf])
  next
    case False
    then obtain k where k: "k < 4" "e_align (buf @ [0]) = buf @ [0] @ replicate k 0" "length (e_align (buf @ [0])) mod 4 = 0"
      using 1 by auto
    have e: "e_align buf = e_align (buf @ [0])" using False by (simp add: e_align.simps [of buf])
    show ?thesis
    proof (cases "k = 3")
      case True
      then have "length (e_align (buf @ [0])) = length buf + 4" using k(2) by simp
      then show ?thesis using False k(3) by simp
    next
      case no: False
      then show ?thesis using k e by (intro exI [of _ "Suc k"]) simp
    qed
  qed
qed

lemma e_align_append: "length a mod 4 = 0 \<Longrightarrow> e_align (a @ b) = a @ e_align b"
proof (induction b rule: e_align.induct)
  case (1 b)
  have l: "length (a @ b) mod 4 = length b mod 4" using "1.prems" by (simp add: mod_add_left_eq [symmetric])
  show ?case
  proof (cases "length b mod 4 = 0")
    case True
    then show ?thesis using l by (simp add: e_align.simps [of "a @ b"] e_align.simps [of b])
  next
    case False
    then show ?thesis using l 1 by (simp add: e_align.simps [of "a @ b"] e_align.simps [of b])
  qed
qed

lemma patch32_at: "length a = pos \<Longrightarrow> length b = 4 \<Longrightarrow> patch32 pos v (a @ b @ c) = Inr (a @ put_le 4 v @ c)"
  by (simp add: patch32_def)

section \<open>Packets\<close>

fun payload :: "texts \<Rightarrow> u16 \<times> charset \<Rightarrow> ole_value \<Rightarrow> ole_error + bytes" where
  "payload tx enc (I2 n) = Inr (put_le 2 n)"
| "payload tx enc (I4 n) = Inr (put_le 4 n)"
| "payload tx enc (UI4 n) = Inr (put_le 4 n)"
| "payload tx enc (LPSTR s) =
     (case tx_encode tx (snd enc) s of None \<Rightarrow> Inl (OleError ''cannot encode string'')
      | Some out \<Rightarrow> Inr (put_le 4 (word_of_nat (length (out @ terminator (fst enc))) :: u32) @ out @ terminator (fst enc)))"
| "payload tx enc (FileTime t) = (case encodeFiletime t of Inl e \<Rightarrow> Inl (OleTime e) | Inr ft \<Rightarrow> Inr (put_le 8 ft))"

lemma e_codePageString_eq:
  "e_codePageString tx enc s buf = bindE (payload tx enc (LPSTR s)) (\<lambda>b. Inr (buf @ b))"
proof (cases "tx_encode tx (snd enc) s")
  case (Some out)
  then have "e_codePageString tx enc s buf = patch32 (length buf)
      (word_of_nat (length (buf @ put_le 4 (0 :: u32) @ out @ terminator (fst enc)) - length buf - 4))
      (buf @ put_le 4 (0 :: u32) @ out @ terminator (fst enc))"
    by (simp add: e_codePageString_def terminator_def Let_def add.commute)
  also have "\<dots> = Inr (buf @ put_le 4 (word_of_nat (length (out @ terminator (fst enc))) :: u32) @ out @ terminator (fst enc))"
    by (subst patch32_at) simp_all
  finally show ?thesis using Some by simp
qed (simp add: e_codePageString_def Let_def)

lemma encodeValue_eq:
  "resolveCoder (propertyType v) = Inr c \<Longrightarrow> encodeValue tx enc c v buf = bindE (payload tx enc v) (\<lambda>b. Inr (buf @ b))"
  using resolveCoder_type [of v] by (cases v) (auto simp: e_codePageString_eq split: sum.splits)

definition is_packet :: "texts \<Rightarrow> u16 \<times> charset \<Rightarrow> ole_property \<Rightarrow> bytes \<Rightarrow> bool" where
  "is_packet tx enc p pk \<longleftrightarrow> op_id p \<noteq> 0 \<and> (\<exists>v pl. op_value p = Some v \<and> payload tx enc v = Inr pl \<and>
     pk = put_le 2 (propertyType v) @ put_le 2 (0 :: u16) @ pl)"

lemma packet_length: "is_packet tx enc p pk \<Longrightarrow> 4 \<le> length pk"
  by (auto simp: is_packet_def)

text \<open>
  The properties \<open>ps\<close> follow \<open>bd\<close>, which starts at \<open>B\<close> in the set; \<open>offs\<close> are their offsets and \<open>bd'\<close> is
  what there is at the end.
\<close>

fun packets_placed :: "texts \<Rightarrow> u16 \<times> charset \<Rightarrow> nat \<Rightarrow> bytes \<Rightarrow> ole_property list \<Rightarrow> nat list \<Rightarrow> bytes \<Rightarrow> bool" where
  "packets_placed tx enc B bd [] offs bd' \<longleftrightarrow> offs = [] \<and> bd' = bd"
| "packets_placed tx enc B bd (p # ps) offs bd' \<longleftrightarrow> (\<exists>pk offs1. offs = (B + length (e_align bd)) # offs1 \<and>
     is_packet tx enc p pk \<and> packets_placed tx enc B (e_align bd @ pk) ps offs1 bd')"

definition cell :: "ole_property \<Rightarrow> nat \<Rightarrow> bytes" where
  "cell p off = put_le 4 (op_id p) @ put_le 4 (word_of_nat off :: u32)"

lemma length_cell [simp]: "length (cell p off) = 8"
  by (simp add: cell_def)

lemma encodeProperty_ok:
  assumes e: "encodeProperty tx enc setOff i p (pre @ done @ put_le 4 (0 :: u32) @ put_le 4 (0 :: u32) @ zs @ bd) = Inr buf'"
    and l: "length pre = setOff + 8" "length done = 8 * i" "setOff mod 4 = 0" "length zs mod 4 = 0"
  shows "\<exists>pk. is_packet tx enc p pk \<and>
    buf' = pre @ done @ cell p (8 + 8 * i + 8 + length zs + length (e_align bd)) @ zs @ e_align bd @ pk"
proof -
  let ?h = "pre @ done @ put_le 4 (0 :: u32) @ put_le 4 (0 :: u32) @ zs"
  obtain v where v: "op_id p \<noteq> 0" "op_value p = Some v"
    using e by (auto simp: encodeProperty_def split: if_splits option.splits)
  obtain c where c: "resolveCoder (propertyType v) = Inr c" by (simp add: resolveCoder_type)
  have m: "length ?h mod 4 = 0" using l by (simp add: mod_eq_0_iff_dvd)
  have al: "e_align (pre @ done @ put_le 4 (0 :: u32) @ put_le 4 (0 :: u32) @ zs @ bd) = ?h @ e_align bd"
    using e_align_append [OF m, of bd] by simp
  let ?o = "8 + 8 * i + 8 + length zs + length (e_align bd)"
  have p1: "patch32 (setOff + 8 + i * 8) (op_id p) (?h @ e_align bd) =
      Inr ((pre @ done) @ put_le 4 (op_id p) @ put_le 4 (0 :: u32) @ zs @ e_align bd)"
    using l patch32_at [of "pre @ done" "setOff + 8 + i * 8" "put_le 4 (0 :: u32)" "op_id p" "put_le 4 (0 :: u32) @ zs @ e_align bd"]
    by simp
  have p2: "patch32 (setOff + 8 + i * 8 + 4) (word_of_nat ?o) ((pre @ done @ put_le 4 (op_id p)) @ put_le 4 (0 :: u32) @ zs @ e_align bd) =
      Inr ((pre @ done @ put_le 4 (op_id p)) @ put_le 4 (word_of_nat ?o :: u32) @ zs @ e_align bd)"
    using l by (intro patch32_at) simp_all
  have o: "length ((pre @ done) @ put_le 4 (op_id p) @ put_le 4 (0 :: u32) @ zs @ e_align bd) - setOff = ?o" using l by simp
  have "encodeProperty tx enc setOff i p (pre @ done @ put_le 4 (0 :: u32) @ put_le 4 (0 :: u32) @ zs @ bd) =
     encodeValue tx enc c v (((pre @ done @ put_le 4 (op_id p)) @ put_le 4 (word_of_nat ?o :: u32) @ zs @ e_align bd) @
       put_le 2 (propertyType v) @ put_le 2 (0 :: u16))"
    using v c p2 unfolding encodeProperty_def al Let_def p1 bindE.simps o
    by (simp del: of_nat_add of_nat_mult)
  also have "\<dots> = bindE (payload tx enc v) (\<lambda>b. Inr ((((pre @ done @ put_le 4 (op_id p)) @ put_le 4 (word_of_nat ?o :: u32) @ zs @ e_align bd) @
       put_le 2 (propertyType v) @ put_le 2 (0 :: u16)) @ b))" by (rule encodeValue_eq [OF c])
  finally have "Inr buf' = bindE (payload tx enc v) (\<lambda>b. Inr ((((pre @ done @ put_le 4 (op_id p)) @ put_le 4 (word_of_nat ?o :: u32) @ zs @ e_align bd) @
       put_le 2 (propertyType v) @ put_le 2 (0 :: u16)) @ b))" unfolding e .
  then obtain pl where pl: "payload tx enc v = Inr pl"
    "buf' = (((pre @ done @ put_le 4 (op_id p)) @ put_le 4 (word_of_nat ?o :: u32) @ zs @ e_align bd) @
       put_le 2 (propertyType v) @ put_le 2 (0 :: u16)) @ pl"
    by (cases "payload tx enc v") (auto simp only: bindE.simps sum.inject sum.distinct)
  then show ?thesis
    using v by (intro exI [of _ "put_le 2 (propertyType v) @ put_le 2 (0 :: u16) @ pl"])
      (simp add: is_packet_def cell_def del: of_nat_add of_nat_mult)
qed

lemma encodeProps_loop_ok:
  assumes "encodeProps_loop tx enc setOff i ps (pre @ done @ concat (replicate (2 * length ps) (put_le 4 (0 :: u32))) @ bd) = Inr buf'"
    and "length pre = setOff + 8" "length done = 8 * i" "setOff mod 4 = 0"
  shows "\<exists>offs bd'. packets_placed tx enc (8 + 8 * (i + length ps)) bd ps offs bd' \<and> buf' = pre @ done @ concat (map2 cell ps offs) @ bd'"
  using assms
proof (induction ps arbitrary: i "done" bd)
  case (Cons p ps)
  let ?zs = "concat (replicate (2 * length ps) (put_le 4 (0 :: u32)))"
  have z: "length ?zs = 8 * length ps" by (simp add: length_concat sum_list_replicate)
  obtain b where b: "encodeProperty tx enc setOff i p (pre @ done @ put_le 4 (0 :: u32) @ put_le 4 (0 :: u32) @ ?zs @ bd) = Inr b"
    "encodeProps_loop tx enc setOff (i + 1) ps b = Inr buf'"
    using Cons.prems(1) by (auto simp: bindE_eq_Inr)
  let ?o = "8 + 8 * i + 8 + length ?zs + length (e_align bd)" and ?B = "8 + 8 * (i + length (p # ps))"
  have o: "?o = ?B + length (e_align bd)" unfolding z by simp
  obtain pk where pk: "is_packet tx enc p pk" "b = pre @ done @ cell p ?o @ ?zs @ e_align bd @ pk"
    using encodeProperty_ok [OF b(1) Cons.prems(2-4)] z by auto
  obtain offs bd' where r: "packets_placed tx enc (8 + 8 * (i + 1 + length ps)) (e_align bd @ pk) ps offs bd'"
    "buf' = pre @ (done @ cell p ?o) @ concat (map2 cell ps offs) @ bd'"
    using Cons.IH [of "i + 1" "done @ cell p ?o" "e_align bd @ pk"] b(2) pk(2) Cons.prems(2-4) by auto
  have "packets_placed tx enc ?B bd (p # ps) (?o # offs) bd'"
    using r(1) pk(1) o by auto
  moreover have "buf' = pre @ done @ concat (map2 cell (p # ps) (?o # offs)) @ bd'" using r(2) by simp
  ultimately show ?case by blast
qed simp

section \<open>Where the packets are\<close>

text \<open>Property \<open>p\<close> is at \<open>o1\<close>, not before \<open>n\<close>, and its packet ends before \<open>o2\<close>; \<open>body\<close> starts at \<open>B\<close>.\<close>

definition packet_at :: "texts \<Rightarrow> u16 \<times> charset \<Rightarrow> nat \<Rightarrow> bytes \<Rightarrow> nat \<Rightarrow> ole_property \<Rightarrow> nat \<Rightarrow> nat \<Rightarrow> bool" where
  "packet_at tx enc B body n p o1 o2 \<longleftrightarrow> B + n \<le> o1 \<and> o1 + 4 \<le> o2 \<and> o2 \<le> B + length body \<and>
     (\<exists>pk rest. is_packet tx enc p pk \<and> slice (o1 - B) (o2 - o1) body = pk @ rest)"

lemma packets_placed_ends:
  "packets_placed tx enc B bd ps offs bd' \<Longrightarrow> length offs = length ps \<and> (\<exists>z. bd' = bd @ z) \<and>
   (\<forall>pad. \<forall>k < length ps. packet_at tx enc B (bd' @ pad) (length bd) (ps ! k) (offs ! k) ((offs @ [B + length (bd' @ pad)]) ! Suc k))"
proof (induction ps arbitrary: bd offs)
  case (Cons p ps)
  obtain pk offs1 where o: "offs = (B + length (e_align bd)) # offs1" "is_packet tx enc p pk"
    "packets_placed tx enc B (e_align bd @ pk) ps offs1 bd'" using Cons.prems by auto
  obtain j where j: "e_align bd = bd @ replicate j 0" using e_align_eq by blast
  note ih = Cons.IH [OF o(3)]
  obtain z where z: "bd' = (e_align bd @ pk) @ z" using ih by auto
  have first: "packet_at tx enc B (bd' @ pad) (length bd) p (offs ! 0) ((offs @ [B + length (bd' @ pad)]) ! Suc 0)" for pad
  proof -
    let ?o = "B + length (e_align bd)" and ?t = "(offs1 @ [B + length (bd' @ pad)]) ! 0"
    have t: "?o + length pk \<le> ?t \<and> ?t \<le> B + length (bd' @ pad)"
    proof (cases "ps = []")
      case True
      then show ?thesis using ih z by simp
    next
      case False
      then have "packet_at tx enc B (bd' @ pad) (length (e_align bd @ pk)) (ps ! 0) (offs1 ! 0) ((offs1 @ [B + length (bd' @ pad)]) ! Suc 0)"
        using ih by blast
      moreover have "?t = offs1 ! 0" using False ih by (cases offs1) auto
      ultimately show ?thesis by (simp add: packet_at_def)
    qed
    have "slice (?o - B) (?t - ?o) (bd' @ pad) = pk @ take (?t - ?o - length pk) (z @ pad)"
    proof -
      have le: "length pk \<le> ?t - ?o" using t by linarith
      have "drop (?o - B) (bd' @ pad) = pk @ z @ pad" by (simp add: z)
      then show ?thesis unfolding slice_def using le by (simp del: append_assoc)
    qed
    then have "\<exists>pk rest. is_packet tx enc p pk \<and> slice (?o - B) (?t - ?o) (bd' @ pad) = pk @ rest" using o(2) by blast
    then show ?thesis using t packet_length [OF o(2)] j by (simp add: o(1) packet_at_def)
  qed
  have "packet_at tx enc B (bd' @ pad) (length bd) ((p # ps) ! k) (offs ! k) ((offs @ [B + length (bd' @ pad)]) ! Suc k)"
    if k: "k < length (p # ps)" for pad k
  proof (cases k)
    case 0
    then show ?thesis using first [of pad] by simp
  next
    case (Suc i)
    then have "i < length ps" using k by simp
    then have "packet_at tx enc B (bd' @ pad) (length (e_align bd @ pk)) (ps ! i) (offs1 ! i) ((offs1 @ [B + length (bd' @ pad)]) ! Suc i)"
      using ih by blast
    then show ?thesis using j by (simp add: packet_at_def o(1) Suc)
  qed
  then show ?case using ih z j by (auto simp: o(1))
qed simp

section \<open>Reading the table\<close>

lemma get_le_put_u32: "get_le (put_le 4 v) = (v :: u32)"
  by (rule get_le_put_le) simp

lemma get_le_put_u16: "get_le (put_le 2 v) = (v :: u16)"
  by (rule get_le_put_le) simp

lemma get_le_put_u64: "get_le (put_le 8 v) = (v :: u64)"
  by (rule get_le_put_le) simp

lemmas get_put = get_le_put_u32 get_le_put_u16 get_le_put_u64

lemma cell_get:
  "get_le (take 4 (cell p q @ r)) = op_id p" "get_le (take 4 (drop 4 (cell p q @ r))) = (word_of_nat q :: u32)"
  "get_le (take 4 (drop 12 (cell p q @ cell p' q' @ r))) = (word_of_nat q' :: u32)"
  by (simp_all add: cell_def get_put)

lemma cells_at:
  assumes "k < length ps" "length offs = length ps"
  shows "slice (8 * k) 8 (concat (map2 cell ps offs)) = cell (ps ! k) (offs ! k)"
proof -
  have "slice (k * 8) 8 (concat (map (\<lambda>(p, q). cell p q) (zip ps offs))) = (case zip ps offs ! k of (p, q) \<Rightarrow> cell p q)"
    using assms by (intro slice_concat_const) auto
  then show ?thesis using assms by (simp add: mult.commute)
qed

lemma cells_drop:
  assumes "k < length ps" "length offs = length ps"
  shows "drop (8 * k) (concat (map2 cell ps offs)) = cell (ps ! k) (offs ! k) @ drop (8 * Suc k) (concat (map2 cell ps offs))"
proof -
  let ?d = "drop (8 * k) (concat (map2 cell ps offs))"
  have "take 8 ?d = cell (ps ! k) (offs ! k)" using cells_at [OF assms] by (simp add: slice_def)
  moreover have "drop 8 ?d = drop (8 * Suc k) (concat (map2 cell ps offs))" by simp
  ultimately show ?thesis using append_take_drop_id [of 8 ?d] by argo
qed

text \<open>A set as the encoder has made it: size, count, table and packets.\<close>

definition set_bytes :: "ole_property list \<Rightarrow> nat list \<Rightarrow> bytes \<Rightarrow> bytes" where
  "set_bytes ps offs body = put_le 4 (word_of_nat (8 + 8 * length ps + length body) :: u32) @
     put_le 4 (word_of_nat (length ps) :: u32) @ concat (map2 cell ps offs) @ body"

lemma length_cells: "length offs = length ps \<Longrightarrow> length (concat (map2 cell ps offs)) = 8 * length ps"
proof (induction ps arbitrary: offs)
  case (Cons p ps)
  then show ?case by (cases offs) auto
qed simp

lemma length_set_bytes: "length offs = length ps \<Longrightarrow> length (set_bytes ps offs body) = 8 + 8 * length ps + length body"
  by (simp add: set_bytes_def length_cells)

lemma propertyPacket_set:
  assumes k: "k < length ps" and l: "length offs = length ps" and small: "length (set_bytes ps offs body) < 2 ^ 32"
    and b: "\<forall>q \<in> set offs. q < 2 ^ 32"
  shows "propertyPacket (set_bytes ps offs body) (word_of_nat (length ps)) (word_of_nat k) =
    Inr (op_id (ps ! k), word_of_nat (offs ! k), word_of_nat ((offs @ [length (set_bytes ps offs body)]) ! Suc k))"
proof -
  let ?s = "set_bytes ps offs body" and ?t = "concat (map2 cell ps offs)"
  have n: "8 + 8 * length ps < 2 ^ 32" using small length_set_bytes [OF l] by simp
  have i: "unat (8 + word_of_nat k * 8 :: u32) = 8 + 8 * k"
  proof -
    have "(8 + word_of_nat k * 8 :: u32) = word_of_nat (8 + 8 * k)" by simp
    moreover have "8 + 8 * k < 2 ^ 32" using n k by simp
    ultimately show ?thesis using unat_u32 by metis
  qed
  have d: "drop (8 + 8 * k) ?s = drop (8 * k) ?t @ body" using k length_cells [OF l] by (simp add: set_bytes_def)
  have len: "length (drop (8 + 8 * k) ?s) = 8 * (length ps - k) + length body" using k length_cells [OF l] by (simp add: d)
  have c0: "drop (8 * k) ?t = cell (ps ! k) (offs ! k) @ drop (8 * Suc k) ?t" by (rule cells_drop [OF k l])
  have nx: "(word_of_nat k + 1 :: u32) < word_of_nat (length ps) \<longleftrightarrow> Suc k < length ps"
  proof -
    have "word_of_nat k + 1 = (word_of_nat (Suc k) :: u32)" by simp
    moreover have "unat (word_of_nat (Suc k) :: u32) = Suc k" by (rule unat_u32) (use n k in simp)
    moreover have "unat (word_of_nat (length ps) :: u32) = length ps" by (rule unat_u32) (use n in simp)
    ultimately show ?thesis by (metis word_less_nat_alt)
  qed
  let ?b = "drop (8 + 8 * k) ?s"
  have e1: "?b = cell (ps ! k) (offs ! k) @ drop (8 * Suc k) ?t @ body" unfolding d c0 by simp
  have b1: "get_le (take 4 ?b) = op_id (ps ! k)" "get_le (take 4 (drop 4 ?b)) = (word_of_nat (offs ! k) :: u32)"
    unfolding e1 by (rule cell_get)+
  have b2: "get_le (take 4 (drop 12 ?b)) = (word_of_nat (offs ! Suc k) :: u32)" if "Suc k < length ps"
  proof -
    have "drop (8 * Suc k) ?t = cell (ps ! Suc k) (offs ! Suc k) @ drop (8 * Suc (Suc k)) ?t" by (rule cells_drop [OF that l])
    then show ?thesis unfolding e1 by (simp only: append_assoc cell_get)
  qed
  have g: "\<not> length ?s < 8 + 8 * k" "\<not> length ?b < 8" using k len length_set_bytes [OF l] by simp_all
  have g2: "\<not> length ?b < 16" if "Suc k < length ps" using that len by simp
  show ?thesis
  proof (cases "Suc k < length ps")
    case True
    then have "(offs @ [length ?s]) ! Suc k = offs ! Suc k" using l by (simp add: nth_append)
    then show ?thesis using True g g2 b1 b2 nx unfolding propertyPacket_def i Let_def by simp
  next
    case False
    then have "(offs @ [length ?s]) ! Suc k = length ?s" using l k by (simp add: nth_append)
    then show ?thesis using False g b1 nx unfolding propertyPacket_def i Let_def by simp
  qed
qed

section \<open>Reading the packets\<close>

text \<open>The values that come back: text its character set can decode again, and times in whole ticks.\<close>

fun value_ok :: "texts \<Rightarrow> charset \<Rightarrow> ole_value \<Rightarrow> bool" where
  "value_ok tx cs (LPSTR s) \<longleftrightarrow> (\<forall>out. tx_encode tx cs s = Some out \<longrightarrow> tx_decode tx cs out = Some s)"
| "value_ok tx cs (FileTime t) \<longleftrightarrow>
     t = zeroTime \<or> valid_time t \<and> nanosecond t mod 100 = 0 \<and> encodeFiletime t \<noteq> Inr 0"
| "value_ok tx cs v \<longleftrightarrow> True"

lemma d_read:
  "d_uint16 (put_le 2 a @ r) = Inr (a, r)" "d_uint32 (put_le 4 b @ r) = Inr (b, r)" "d_uint64 (put_le 8 c @ r) = Inr (c, r)"
  by (simp_all add: d_uint16_def d_uint32_def d_uint64_def d_bytes_def get_put)

lemma d_bytes_append: "length a = n \<Longrightarrow> d_bytes n (a @ r) = Inr (a, r)"
  by (simp add: d_bytes_def)

lemma d_codePageString_ok:
  assumes e: "tx_encode tx cs s = Some out" and ok: "tx_decode tx cs out = Some s" and l: "length (out @ terminator cp) < 2 ^ 32"
  shows "d_codePageString tx (cp, cs) (put_le 4 (word_of_nat (length (out @ terminator cp)) :: u32) @ (out @ terminator cp) @ r) = Inr (s, r)"
proof -
  let ?n = "length (out @ terminator cp)"
  have u: "unat (word_of_nat ?n :: u32) = ?n" by (rule unat_u32 [OF l])
  have "0 < ?n" by (simp add: terminator_def)
  then have nz: "(word_of_nat ?n :: u32) \<noteq> 0" using u by (metis unat_0 less_irrefl)
  have "d_codePageString tx (cp, cs) (put_le 4 (word_of_nat ?n :: u32) @ (out @ terminator cp) @ r) =
    (let raw = out @ terminator cp; term = terminator cp in
     if length raw < length term \<or> drop (length raw - length term) raw \<noteq> term then Inl (OleFormat ''missing string terminator'')
     else case tx_decode tx cs (take (length raw - length term) raw) of
         None \<Rightarrow> Inl (OleFormat ''invalid string'') | Some out \<Rightarrow> Inr (out, r))"
    unfolding d_codePageString_def d_read bindE.simps case_prod_conv u d_bytes_append [OF refl] fst_conv snd_conv
      terminator_def [symmetric] Let_def if_not_P [OF nz] by (rule refl)
  then show ?thesis using ok by (simp add: Let_def)
qed

lemma decodeValue_ok:
  assumes p: "payload tx (cp, cs) v = Inr pl" and ok: "value_ok tx cs v" and l: "length pl < 2 ^ 32"
  shows "\<exists>c. resolveCoder (propertyType v) = Inr c \<and> decodeValue tx (cp, cs) c (pl @ r) = Inr (v, r)"
proof (cases v)
  case (LPSTR s)
  then obtain out where "tx_encode tx cs s = Some out"
    "pl = put_le 4 (word_of_nat (length (out @ terminator cp)) :: u32) @ out @ terminator cp"
    using p by (auto split: option.splits)
  then show ?thesis
    using d_codePageString_ok [of tx cs s out cp r] ok l LPSTR by (simp add: resolveCoder_type del: of_nat_add)
next
  case (FileTime t)
  then obtain ft where ft: "encodeFiletime t = Inr ft" "pl = put_le 8 ft" using p by (auto split: sum.splits)
  have "decodeFiletime ft = t"
  proof (cases "t = zeroTime")
    case True
    then show ?thesis using ft(1) by (simp add: encodeFiletime_def isZero_def decodeFiletime_def)
  next
    case False
    then have t: "valid_time t" "nanosecond t mod 100 = 0" "ft \<noteq> 0" using ok ft(1) FileTime by auto
    have "nanosecond t div 100 * 100 = nanosecond t" using t(2) by (simp add: mod_eq_0_iff_dvd)
    then show ?thesis using decode_encode_filetime [OF ft(1) t(1,3)] by simp
  qed
  then show ?thesis using ft FileTime d_read(3) by (simp add: resolveCoder_type)
qed (use p in \<open>auto simp: resolveCoder_type d_read\<close>)

text \<open>What is known of a set the encoder has made, with the packets in \<open>body\<close>.\<close>

definition set_ok :: "texts \<Rightarrow> u16 \<times> charset \<Rightarrow> ole_property list \<Rightarrow> nat list \<Rightarrow> bytes \<Rightarrow> bool" where
  "set_ok tx enc ps offs body \<longleftrightarrow> length offs = length ps \<and> length (set_bytes ps offs body) < 2 ^ 32 \<and>
     (\<forall>k < length ps. packet_at tx enc (8 + 8 * length ps) body 0 (ps ! k) (offs ! k)
        ((offs @ [length (set_bytes ps offs body)]) ! Suc k))"

lemma set_okD:
  assumes s: "set_ok tx enc ps offs body" and k: "k < length ps"
  defines "B \<equiv> 8 + 8 * length ps" and "T \<equiv> (offs @ [length (set_bytes ps offs body)]) ! Suc k"
  shows "propertyPacket (set_bytes ps offs body) (word_of_nat (length ps)) (word_of_nat k) =
      Inr (op_id (ps ! k), word_of_nat (offs ! k), word_of_nat T)"
    "B \<le> offs ! k" "offs ! k + 4 \<le> T" "T \<le> length (set_bytes ps offs body)" "T < 2 ^ 32" "offs ! k < 2 ^ 32"
    "packetSlice (set_bytes ps offs body) (word_of_nat (offs ! k)) (word_of_nat T) = Inr (slice (offs ! k - B) (T - offs ! k) body)"
    "\<exists>pk rest. is_packet tx enc (ps ! k) pk \<and> slice (offs ! k - B) (T - offs ! k) body = pk @ rest \<and> length pk < 2 ^ 32"
proof -
  have l: "length offs = length ps" and small: "length (set_bytes ps offs body) < 2 ^ 32" using s by (simp_all add: set_ok_def)
  have pa: "packet_at tx enc B body 0 (ps ! j) (offs ! j) ((offs @ [length (set_bytes ps offs body)]) ! Suc j)" if "j < length ps" for j
    using s that by (simp add: set_ok_def B_def)
  have len: "length (set_bytes ps offs body) = B + length body" by (simp add: length_set_bytes [OF l] B_def)
  then show b: "B \<le> offs ! k" "offs ! k + 4 \<le> T" "T \<le> length (set_bytes ps offs body)"
    using pa [OF k] by (simp_all add: packet_at_def T_def)
  then show T: "T < 2 ^ 32" and o: "offs ! k < 2 ^ 32" using small by linarith+
  have "offs ! j < 2 ^ 32" if "j < length ps" for j using pa [OF that] len small by (auto simp: packet_at_def)
  then have "\<forall>q \<in> set offs. q < 2 ^ 32" using l by (auto simp: in_set_conv_nth)
  then show "propertyPacket (set_bytes ps offs body) (word_of_nat (length ps)) (word_of_nat k) =
      Inr (op_id (ps ! k), word_of_nat (offs ! k), word_of_nat T)"
    unfolding T_def by (rule propertyPacket_set [OF k l small])
  have "drop (offs ! k) (set_bytes ps offs body) = drop (offs ! k - B) body"
    using b(1) length_cells [OF l] by (simp add: set_bytes_def B_def)
  then show "packetSlice (set_bytes ps offs body) (word_of_nat (offs ! k)) (word_of_nat T) = Inr (slice (offs ! k - B) (T - offs ! k) body)"
    using b T o by (simp add: packetSlice_def unat_u32 word_less_nat_alt slice_def)
  obtain pk rest where pk: "is_packet tx enc (ps ! k) pk" "slice (offs ! k - B) (T - offs ! k) body = pk @ rest"
    using pa [OF k] by (auto simp: packet_at_def T_def)
  have "length (pk @ rest) \<le> T - offs ! k" unfolding pk(2) [symmetric] by simp
  then have "length pk < 2 ^ 32" using T by simp
  then show "\<exists>pk rest. is_packet tx enc (ps ! k) pk \<and> slice (offs ! k - B) (T - offs ! k) body = pk @ rest \<and> length pk < 2 ^ 32"
    using pk by blast
qed

lemma decodeProperty_set:
  assumes s: "set_ok tx (cp, cs) ps offs body" and k: "k < length ps" and ok: "\<forall>v. op_value (ps ! k) = Some v \<longrightarrow> value_ok tx cs v"
  shows "decodeProperty tx (cp, cs) (set_bytes ps offs body) (word_of_nat (length ps)) (word_of_nat k) = Inr (ps ! k)"
proof -
  note d = set_okD [OF s k]
  obtain pk rest where pk: "is_packet tx (cp, cs) (ps ! k) pk" "length pk < 2 ^ 32"
    "slice (offs ! k - (8 + 8 * length ps)) ((offs @ [length (set_bytes ps offs body)]) ! Suc k - offs ! k) body = pk @ rest"
    using d(8) by blast
  obtain v pl where v: "op_id (ps ! k) \<noteq> 0" "op_value (ps ! k) = Some v" "payload tx (cp, cs) v = Inr pl"
    "pk = put_le 2 (propertyType v) @ put_le 2 (0 :: u16) @ pl" using pk(1) by (auto simp: is_packet_def)
  obtain c where c: "resolveCoder (propertyType v) = Inr c" "decodeValue tx (cp, cs) c (pl @ rest) = Inr (v, rest)"
    using decodeValue_ok [OF v(3), of rest] ok v(2,4) pk(2) by auto
  have sl: "packetSlice (set_bytes ps offs body) (word_of_nat (offs ! k)) (word_of_nat ((offs @ [length (set_bytes ps offs body)]) ! Suc k)) =
      Inr (put_le 2 (propertyType v) @ put_le 2 (0 :: u16) @ pl @ rest)" using d(7) pk(3) v(4) by simp
  have "decodeProperty tx (cp, cs) (set_bytes ps offs body) (word_of_nat (length ps)) (word_of_nat k) =
      Inr \<lparr>op_id = op_id (ps ! k), op_value = Some v\<rparr>"
    unfolding decodeProperty_def d(1) bindE.simps case_prod_conv if_not_P [OF v(1)] sl
    by (simp add: d_read ignoring_def c)
  then show ?thesis using v(2) by (cases "ps ! k") simp
qed

lemma checkOffsets_set:
  assumes s: "set_ok tx enc ps offs body" and ks: "\<forall>k \<in> set ks. k < length ps"
  shows "checkOffsets (set_bytes ps offs body) (word_of_nat (length ps)) (word_of_nat (length (set_bytes ps offs body)))
    (8 + word_of_nat (length ps) * 8) (map word_of_nat ks) = Inr ()"
  using ks
proof (induction ks)
  case (Cons k ks)
  let ?T = "(offs @ [length (set_bytes ps offs body)]) ! Suc k"
  have k: "k < length ps" using Cons.prems by simp
  note d = set_okD [OF s k]
  have small: "length (set_bytes ps offs body) < 2 ^ 32" "8 + 8 * length ps < 2 ^ 32" using s d(2,6) by (simp_all add: set_ok_def)
  have m: "(8 + word_of_nat (length ps) * 8 :: u32) = word_of_nat (8 + 8 * length ps)" by simp
  have le: "(word_of_nat (offs ! k) :: u32) \<le> word_of_nat ?T" using d(3,5,6) by (simp add: word_le_nat_alt unat_u32)
  have "unat (word_of_nat ?T - word_of_nat (offs ! k) :: u32) = ?T - offs ! k"
    using d(5,6) le by (simp add: unat_sub unat_u32)
  then have g: "\<not> ((word_of_nat (offs ! k) :: u32) < 8 + word_of_nat (length ps) * 8 \<or> (word_of_nat ?T :: u32) < word_of_nat (offs ! k) \<or>
      (word_of_nat ?T - word_of_nat (offs ! k) :: u32) < 4 \<or> (word_of_nat (length (set_bytes ps offs body)) :: u32) < word_of_nat ?T)"
    unfolding m using d(2-6) small by (auto simp: word_less_nat_alt unat_u32 simp del: of_nat_add of_nat_mult)
  show ?case using Cons g by (simp add: d(1))
qed simp

lemma d_codePage_set:
  assumes s: "set_ok tx enc ps offs body" and ks: "\<forall>k \<in> set ks. k < length ps"
    and f: "find (\<lambda>p. op_id p = 1) (map ((!) ps) ks) = Some p" "op_value p = Some (I2 cp)"
  shows "d_codePage (set_bytes ps offs body) (word_of_nat (length ps)) (map word_of_nat ks) = Inr cp"
  using ks f(1)
proof (induction ks)
  case (Cons k ks)
  have k: "k < length ps" using Cons.prems by simp
  note d = set_okD [OF s k]
  show ?case
  proof (cases "op_id (ps ! k) = 1")
    case True
    then have p: "op_value (ps ! k) = Some (I2 cp)" using Cons.prems f(2) by simp
    obtain pk rest where pk: "is_packet tx enc (ps ! k) pk"
      "slice (offs ! k - (8 + 8 * length ps)) ((offs @ [length (set_bytes ps offs body)]) ! Suc k - offs ! k) body = pk @ rest"
      using d(8) by blast
    then have "pk @ rest = put_le 2 vtI2 @ put_le 2 (0 :: u16) @ put_le 2 cp @ rest" using p by (simp add: is_packet_def)
    then have sl: "packetSlice (set_bytes ps offs body) (word_of_nat (offs ! k)) (word_of_nat ((offs @ [length (set_bytes ps offs body)]) ! Suc k)) =
        Inr (put_le 2 vtI2 @ put_le 2 (0 :: u16) @ put_le 2 cp @ rest)" using d(7) pk(2) by simp
    have "d_bytes 2 (put_le 2 (0 :: u16) @ put_le 2 cp @ rest) = Inr (put_le 2 (0 :: u16), put_le 2 cp @ rest)"
      by (rule d_bytes_append) simp
    then show ?thesis using True by (simp add: d(1) sl d_read ignoring_def)
  next
    case False
    then show ?thesis using Cons by (simp add: d(1))
  qed
qed simp

lemma decodeProperties_set:
  assumes s: "set_ok tx (cp, cs) ps offs body" and f: "find (\<lambda>p. op_id p = 1) ps = Some p" "op_value p = Some (I2 cp)"
    and cs: "codepageEncoding cp = Some cs" and ok: "\<forall>p \<in> set ps. \<forall>v. op_value p = Some v \<longrightarrow> value_ok tx cs v"
  shows "decodeProperties tx (set_bytes ps offs body) = Inr ps"
proof -
  let ?s = "set_bytes ps offs body" and ?N = "word_of_nat (length ps) :: u32"
  have l: "length offs = length ps" and small: "length ?s < 2 ^ 32" using s by (simp_all add: set_ok_def)
  have sz: "length ?s = 8 + 8 * length ps + length body" by (rule length_set_bytes [OF l])
  have u: "unat (word_of_nat (length ?s) :: u32) = length ?s" "unat ?N = length ps"
    by (rule unat_u32, use small sz in simp)+
  have r: "d_uint32 ?s = Inr (word_of_nat (length ?s), put_le 4 ?N @ concat (map2 cell ps offs) @ body)"
  proof -
    have "?s = put_le 4 (word_of_nat (length ?s) :: u32) @ put_le 4 ?N @ concat (map2 cell ps offs) @ body"
      unfolding sz by (simp only: set_bytes_def)
    then show ?thesis using d_read(2) by metis
  qed
  have i: "indices ?N = map word_of_nat [0..<length ps]" unfolding indices_def u(2) by (rule refl)
  have g: "\<not> length ?s < length ?s" "\<not> ((word_of_nat (length ?s) :: u32) < 8 \<or> length ?s < 8 + 8 * length ps)"
    using u(1) sz by (auto simp: word_less_nat_alt)
  have m: "map ((!) ps) [0..<length ps] = ps" by (rule map_nth)
  have c1: "checkOffsets ?s ?N (word_of_nat (length ?s)) (8 + ?N * 8) (map word_of_nat [0..<length ps]) = Inr ()"
    by (rule checkOffsets_set [OF s]) simp
  have c2: "d_codePage ?s ?N (map word_of_nat [0..<length ps]) = Inr cp"
    by (rule d_codePage_set [OF s _ _ f(2)]) (use f(1) m in simp_all)
  have c3: "mapE (decodeProperty tx (cp, cs) ?s ?N) (map word_of_nat [0..<length ps]) = Inr ps"
  proof -
    have "mapE (decodeProperty tx (cp, cs) ?s ?N) (map word_of_nat ks) = Inr (map ((!) ps) ks)" if "\<forall>k \<in> set ks. k < length ps" for ks
      using that
    proof (induction ks)
      case (Cons k ks)
      then have k: "k < length ps" by simp
      have "decodeProperty tx (cp, cs) ?s ?N (word_of_nat k) = Inr (ps ! k)"
        by (rule decodeProperty_set [OF s k]) (use ok nth_mem [OF k] in blast)
      then show ?case using Cons by simp
    qed simp
    then show ?thesis using m by simp
  qed
  have t: "take (length ?s) ?s = ?s" by simp
  show ?thesis
    unfolding decodeProperties_def Let_def r bindE.simps case_prod_conv d_read u if_not_P [OF g(1)] if_not_P [OF g(2)] t i c1 c2
    using c3 by (simp add: cs)
qed

section \<open>Marshal and Unmarshal\<close>

lemma encodeProperties_ok:
  assumes e: "encodeProperties tx None ps buf = Inr (buf', enc)" and m: "length buf mod 4 = 0"
  obtains p cp cs offs body where "find (\<lambda>p. op_id p = 1) ps = Some p" "op_value p = Some (I2 cp)" "codepageEncoding cp = Some cs"
    "buf' = buf @ set_bytes ps offs body" "length offs = length ps"
    "\<forall>k < length ps. packet_at tx (cp, cs) (8 + 8 * length ps) body 0 (ps ! k) (offs ! k)
        ((offs @ [length (set_bytes ps offs body)]) ! Suc k)"
proof -
  let ?N = "put_le 4 (word_of_nat (length ps) :: u32)" and ?z = "put_le 4 (0 :: u32)"
  obtain cp cs b where r: "resolveCodePage None ps = Inr (Some (cp, cs))"
    "encodeProps_loop tx (cp, cs) (length buf) 0 ps ((buf @ ?z @ ?N) @ [] @ concat (replicate (2 * length ps) ?z) @ []) = Inr b"
    "patch32 (length buf) (word_of_nat (length (e_align b) - length buf)) (e_align b) = Inr buf'"
    using e by (auto simp: encodeProperties_def Let_def bindE_eq_Inr split: option.splits)
  obtain p where f: "find (\<lambda>p. op_id p = 1) ps = Some p" "op_value p = Some (I2 cp)" "codepageEncoding cp = Some cs"
    using r(1) by (auto simp: resolveCodePage_def split: option.splits ole_value.splits)
  have "\<exists>offs bd'. packets_placed tx (cp, cs) (8 + 8 * (0 + length ps)) [] ps offs bd' \<and>
      b = (buf @ ?z @ ?N) @ [] @ concat (map2 cell ps offs) @ bd'"
    by (rule encodeProps_loop_ok [OF r(2)]) (use m in simp_all)
  then obtain offs bd' where pl: "packets_placed tx (cp, cs) (8 + 8 * length ps) [] ps offs bd'"
    and b: "b = buf @ ?z @ ?N @ concat (map2 cell ps offs) @ bd'" by auto
  obtain j where j: "e_align b = b @ replicate j 0" using e_align_eq by blast
  define body where "body = bd' @ replicate j 0"
  note ends = packets_placed_ends [OF pl]
  then have l: "length offs = length ps" by simp
  have al: "e_align b = buf @ ?z @ ?N @ concat (map2 cell ps offs) @ body" unfolding j unfolding b body_def by simp
  have len: "length (e_align b) - length buf = 8 + 8 * length ps + length body" unfolding al by (simp add: length_cells [OF l])
  have "patch32 (length buf) (word_of_nat (length (e_align b) - length buf)) (e_align b) = Inr (buf @ set_bytes ps offs body)"
    unfolding len unfolding al set_bytes_def by (rule patch32_at) simp_all
  then have b': "buf' = buf @ set_bytes ps offs body" using r(3) by simp
  have T: "length (set_bytes ps offs body) = 8 + 8 * length ps + length body" by (rule length_set_bytes [OF l])
  have "\<forall>k < length ps. packet_at tx (cp, cs) (8 + 8 * length ps) body (length ([] :: bytes)) (ps ! k) (offs ! k)
        ((offs @ [8 + 8 * length ps + length body]) ! Suc k)"
    unfolding body_def using ends by blast
  then have "\<forall>k < length ps. packet_at tx (cp, cs) (8 + 8 * length ps) body 0 (ps ! k) (offs ! k)
        ((offs @ [length (set_bytes ps offs body)]) ! Suc k)"
    unfolding T by simp
  then show thesis using that f b' l by blast
qed

text \<open>The fixed header, and the only entry of the table of sets.\<close>

definition ole_header :: "propertySetStream \<Rightarrow> bytes \<Rightarrow> bytes" where
  "ole_header s fmtid = put_le 2 byteOrder @ put_le 2 (pss_version s) @ put_le 4 (pss_systemIdentifier s) @ pss_clsid s @
     put_le 4 (1 :: u32) @ fmtid @ put_le 4 (48 :: u32)"

lemma marshal_ok:
  assumes mk: "marshal tx s = Inr b" and wf: "length (pss_clsid s) = 16" "\<forall>ps \<in> set (pss_propertySets s). length (ps_fmtid ps) = 16"
  obtains ps buf' enc where "pss_propertySets s = [ps]" "pss_version s \<le> 1" "b = buf'"
    "encodeProperties tx None (ps_properties ps) (ole_header s (ps_fmtid ps)) = Inr (buf', enc)"
proof -
  have "length (pss_propertySets s) \<noteq> 0" "\<not> 2 < length (pss_propertySets s)" "length (pss_propertySets s) \<noteq> 2"
    and v: "pss_version s \<le> 1"
    using mk by (auto simp: marshal_def Let_def split: if_splits)
  then have "length (pss_propertySets s) = 1" by linarith
  then obtain ps where ps: "pss_propertySets s = [ps]" by (cases "pss_propertySets s") auto
  have f: "length (ps_fmtid ps) = 16" using wf(2) ps by simp
  let ?h = "put_le 2 byteOrder @ put_le 2 (pss_version s) @ put_le 4 (pss_systemIdentifier s) @ pss_clsid s @ put_le 4 (1 :: u32) @ ps_fmtid ps"
  have l: "length ?h = 44" using wf(1) f by simp
  have "encodeSets tx [(ps, 44)] None (?h @ put_le 4 (0 :: u32)) = Inr b"
    using mk v wf(1) f by (simp add: marshal_def Let_def ps not_less [symmetric])
  moreover have "patch32 44 48 (?h @ put_le 4 (0 :: u32) @ []) = Inr (?h @ put_le 4 (48 :: u32) @ [])"
    by (rule patch32_at) (use l in simp_all)
  moreover have "length (?h @ put_le 4 (0 :: u32)) = 48" using l by simp
  ultimately obtain buf' enc where "encodeProperties tx None (ps_properties ps) (ole_header s (ps_fmtid ps)) = Inr (buf', enc)" "b = buf'"
    by (auto simp: ole_header_def bindE_eq_Inr wf(1) f)
  then show thesis using that ps v by blast
qed

lemma unmarshal_header:
  assumes wf: "length (pss_clsid s) = 16" "length fmtid = 16" "pss_version s \<le> 1"
  shows "unmarshal tx (ole_header s fmtid @ r) = bindE (decodeProperties tx r) (\<lambda>props.
    Inr (s\<lparr>pss_propertySets := [\<lparr>ps_fmtid = fmtid, ps_properties = props\<rparr>]\<rparr>))"
proof -
  let ?d = "ole_header s fmtid @ r"
  have "length ?d = 48 + length r" using wf by (simp add: ole_header_def)
  then have g: "\<not> length ?d < oleHeaderSize" "\<not> length ?d < 48" by (simp_all add: oleHeaderSize_def)
  have d48: "drop 48 ?d = r" using wf by (simp add: ole_header_def)
  have e: "?d = put_le 2 byteOrder @ put_le 2 (pss_version s) @ put_le 4 (pss_systemIdentifier s) @ pss_clsid s @
     put_le 4 (1 :: u32) @ fmtid @ put_le 4 (48 :: u32) @ r" by (simp add: ole_header_def)
  have b: "d_bytes 16 (pss_clsid s @ x) = Inr (pss_clsid s, x)" "d_bytes 16 (fmtid @ x) = Inr (fmtid, x)" for x
    using wf by (simp_all add: d_bytes_append)
  have "unmarshal tx ?d = bindE (decodeSets tx ?d 48 (Suc 0) (fmtid @ put_le 4 (48 :: u32) @ r)) (\<lambda>sets.
      Inr \<lparr>pss_clsid = pss_clsid s, pss_version = pss_version s, pss_systemIdentifier = pss_systemIdentifier s, pss_propertySets = sets\<rparr>)"
    unfolding unmarshal_def using g wf
    by (subst (1) e) (simp add: d_read ignoring_def b not_less [symmetric] Let_def oleHeaderSize_def del: decodeSets.simps)
  also have "decodeSets tx ?d 48 (Suc 0) (fmtid @ put_le 4 (48 :: u32) @ r) =
      bindE (decodeProperties tx r) (\<lambda>props. Inr [\<lparr>ps_fmtid = fmtid, ps_properties = props\<rparr>])"
    using g(2) d48 wf(2) by (simp add: b ignoring_def d_read)
  finally show ?thesis by (cases "decodeProperties tx r") simp_all
qed

lemma unmarshal_marshal:
  assumes "marshal tx s = Inr b" "length b < 2 ^ 32"
    and "length (pss_clsid s) = 16" "\<forall>ps \<in> set (pss_propertySets s). length (ps_fmtid ps) = 16"
    and "\<forall>ps \<in> set (pss_propertySets s). \<forall>p \<in> set (ps_properties ps). \<forall>v cs. op_value p = Some v \<longrightarrow> value_ok tx cs v"
  shows "unmarshal tx b = Inr s"
proof -
  obtain ps buf' enc where m: "pss_propertySets s = [ps]" "pss_version s \<le> 1" "b = buf'"
    "encodeProperties tx None (ps_properties ps) (ole_header s (ps_fmtid ps)) = Inr (buf', enc)"
    by (rule marshal_ok [OF assms(1,3,4)])
  have f: "length (ps_fmtid ps) = 16" using assms(4) m(1) by simp
  have "length (ole_header s (ps_fmtid ps)) mod 4 = 0" using assms(3) f by (simp add: ole_header_def)
  then obtain p cp cs offs body where e: "find (\<lambda>p. op_id p = 1) (ps_properties ps) = Some p" "op_value p = Some (I2 cp)"
    "codepageEncoding cp = Some cs" "buf' = ole_header s (ps_fmtid ps) @ set_bytes (ps_properties ps) offs body"
    "length offs = length (ps_properties ps)"
    "\<forall>k < length (ps_properties ps). packet_at tx (cp, cs) (8 + 8 * length (ps_properties ps)) body 0 (ps_properties ps ! k) (offs ! k)
        ((offs @ [length (set_bytes (ps_properties ps) offs body)]) ! Suc k)"
    by (rule encodeProperties_ok [OF m(4)])
  have "set_ok tx (cp, cs) (ps_properties ps) offs body"
    using e assms(2) m(3) by (simp add: set_ok_def)
  then have "decodeProperties tx (set_bytes (ps_properties ps) offs body) = Inr (ps_properties ps)"
    by (rule decodeProperties_set [OF _ e(1,2,3)]) (use assms(5) m(1) in simp)
  then show ?thesis unfolding m(3) e(4) using m(1) by (simp add: unmarshal_header [OF assms(3) f m(2)])
qed

text \<open>C25: What \<open>Marshal\<close> writes, \<open>Unmarshal\<close> reads back: the class id, version and system identifier, the
  format id, and every property with its identifier and value, provided the character set of the code
  page decodes the strings it has encoded, times are whole ticks, and the result is below 4 GiB.\<close>

theorem property_set_roundtrip:
  assumes "marshal tx s = Inr b" "length b < 2 ^ 32"
    and "length (pss_clsid s) = 16" "\<forall>ps \<in> set (pss_propertySets s). length (ps_fmtid ps) = 16"
    and "\<forall>ps \<in> set (pss_propertySets s). \<forall>p \<in> set (ps_properties ps). \<forall>v cs. op_value p = Some v \<longrightarrow> value_ok tx cs v"
  shows "unmarshal tx b = Inr s"
  by (rule unmarshal_marshal [OF assms])

text \<open>A set with the code page 1252 and the title "Hi", with a character set that changes nothing.\<close>

definition sample_texts :: texts where
  "sample_texts = \<lparr>tx_encode = (\<lambda>cs s. Some s), tx_decode = (\<lambda>cs s. Some s)\<rparr>"

definition sample_set :: propertySetStream where
  "sample_set = \<lparr>pss_clsid = replicate 16 0, pss_version = 0, pss_systemIdentifier = 7,
     pss_propertySets = [\<lparr>ps_fmtid = replicate 16 9, ps_properties =
       [\<lparr>op_id = 1, op_value = Some (I2 1252)\<rparr>, \<lparr>op_id = 2, op_value = Some (LPSTR [0x48, 0x69])\<rparr>]\<rparr>]\<rparr>"

definition sample_set_bytes :: bytes where
  "sample_set_bytes = put_le 2 (0xFFFE :: u16) @ put_le 2 (0 :: u16) @ put_le 4 (7 :: u32) @ replicate 16 0 @ put_le 4 (1 :: u32) @
     replicate 16 9 @ put_le 4 (48 :: u32) @ put_le 4 (44 :: u32) @ put_le 4 (2 :: u32) @
     put_le 4 (1 :: u32) @ put_le 4 (24 :: u32) @ put_le 4 (2 :: u32) @ put_le 4 (32 :: u32) @
     put_le 2 (0x02 :: u16) @ put_le 2 (0 :: u16) @ put_le 2 (1252 :: u16) @ [0, 0] @
     put_le 2 (0x1E :: u16) @ put_le 2 (0 :: u16) @ put_le 4 (3 :: u32) @ [0x48, 0x69, 0] @ [0]"

lemma e_align_at:
  "length b mod 4 = 0 \<Longrightarrow> e_align b = b" "length b mod 4 = 2 \<Longrightarrow> e_align b = b @ [0, 0]" "length b mod 4 = 3 \<Longrightarrow> e_align b = b @ [0]"
  by (simp_all add: e_align.simps [of b] e_align.simps [of "b @ [0]"] e_align.simps [of "b @ [0, 0]"] mod_Suc)

lemma sample_marshal: "marshal sample_texts sample_set = Inr sample_set_bytes"
proof -
  have rep4: "replicate 4 z = [z, z, z, z]" for z :: bytes by (simp add: numeral_eq_Suc)
  have h: "marshal sample_texts sample_set = bindE (encodeProperties sample_texts None (ps_properties (hd (pss_propertySets sample_set)))
      (ole_header sample_set (replicate 16 9))) (\<lambda>(buf, enc). Inr buf)"
    by (simp add: marshal_def sample_set_def patch32_def ole_header_def)
  have p: "encodeProps_loop sample_texts (1252, Windows1252) 48 0 (ps_properties (hd (pss_propertySets sample_set)))
      (ole_header sample_set (replicate 16 9) @ put_le 4 (0 :: u32) @ put_le 4 (2 :: u32) @ concat (replicate 4 (put_le 4 (0 :: u32)))) =
    Inr (ole_header sample_set (replicate 16 9) @ put_le 4 (0 :: u32) @ put_le 4 (2 :: u32) @
      put_le 4 (1 :: u32) @ put_le 4 (24 :: u32) @ put_le 4 (2 :: u32) @ put_le 4 (32 :: u32) @
      put_le 2 vtI2 @ put_le 2 (0 :: u16) @ put_le 2 (1252 :: u16) @ [0, 0] @
      put_le 2 vtLPSTR @ put_le 2 (0 :: u16) @ put_le 4 (3 :: u32) @ [0x48, 0x69, 0])"
    by (simp add: sample_set_def ole_header_def encodeProperty_def Let_def rep4 e_align_at patch32_def e_codePageString_def
        sample_texts_def cpWinUnicode_def)
  have c: "resolveCodePage None (ps_properties (hd (pss_propertySets sample_set))) = Inr (Some (1252, Windows1252))"
    by (simp add: sample_set_def resolveCodePage_def codepageEncoding_def)
  have l: "length (ps_properties (hd (pss_propertySets sample_set))) = 2" "length (ole_header sample_set (replicate 16 9)) = 48"
    by (simp_all add: sample_set_def ole_header_def)
  show ?thesis
    unfolding h encodeProperties_def Let_def l c bindE.simps using p
    by (simp add: e_align_at l patch32_def) (simp add: sample_set_bytes_def ole_header_def sample_set_def vt_defs byteOrder_def)
qed

theorem property_set_roundtrip_witness: "unmarshal sample_texts sample_set_bytes = Inr sample_set"
proof (rule property_set_roundtrip [OF sample_marshal])
  show "length sample_set_bytes < 2 ^ 32" by (simp add: sample_set_bytes_def)
qed (simp_all add: sample_set_def sample_texts_def)

end
