(* ===== verification/OleStream.thy ===== *)
theory OleStream
  imports AddFs FsRoundTrip OleRoundTrip
begin

text \<open>
  \<open>oleps.Encode\<close> and \<open>oleps.Decode\<close>, and a property set kept in a stream of a compound file: written with
  \<open>Encode\<close> to a \<open>StreamWriter\<close>, read with \<open>Decode\<close> from the file system view. Their errors are those of the
  writer or reader (left) and those of the package (right).
\<close>

text \<open>\<open>io.ReadAll\<close>, by what reading to the first error gives.\<close>

definition readAll :: "bytes \<times> goerr option \<Rightarrow> bytes \<times> goerr option" where
  "readAll r = (case r of (data, err) \<Rightarrow> (data, if err = Some EOF then None else err))"

definition oleDecode :: "texts \<Rightarrow> bytes \<times> goerr option \<Rightarrow> (goerr + ole_error) + propertySetStream" where
  "oleDecode tx r =
     (case readAll r of
        (data, Some e) \<Rightarrow> Inl (Inl e)
      | (data, None) \<Rightarrow> (case unmarshal tx data of Inl e \<Rightarrow> Inl (Inr e) | Inr s \<Rightarrow> Inr s))"

definition oleEncode ::
  "('w \<Rightarrow> bytes \<Rightarrow> 'w \<times> nat \<times> goerr option) \<Rightarrow> texts \<Rightarrow> propertySetStream \<Rightarrow> 'w \<Rightarrow> 'w \<times> (goerr + ole_error) option" where
  "oleEncode wrt tx s w =
     (case marshal tx s of
        Inl e \<Rightarrow> (w, Some (Inr e))
      | Inr b \<Rightarrow> (case wrt w b of (w, n, err) \<Rightarrow> (w, map_option Inl err)))"

text \<open>C26: a property set in a compound file. A set that \<open>Encode\<close> writes to a new stream of any reachable writer is, once
  the stream and the writer are closed, what \<open>Decode\<close> returns for the file that \<open>Reader.Open\<close> opens at the path
  of the stream, in whatever buffer sizes it is read.\<close>

theorem property_set_stored:
  assumes "wreach (dv_bw dv) S c" "S = 512 \<or> S = 4096" "device_ok dv"
    and new: "cs_pend c sid = []" "cs_data c sid = []" "sid < length (w_streams (cs_w c))"
    and enc: "oleEncode (\<lambda>w p. writeStream (dv_bw dv) w sid p) tx s (cs_w c) = (w1, None)"
    and cls: "closeStream (dv_bw dv) w1 sid = (w2, None)" "closed_all w2" "closable w2"
    and path: "validPath path" "path \<noteq> [dot]"
      "node_at (stream_name w2) (node_of (stream_name w2) (w_root w2)) (splitOn slash path) (StreamN sid)"
    and s: "length (pss_clsid s) = 16" "\<forall>ps \<in> set (pss_propertySets s). length (ps_fmtid ps) = 16"
      "\<forall>ps \<in> set (pss_propertySets s). \<forall>p \<in> set (ps_properties ps). \<forall>v cs. op_value p = Some v \<longrightarrow> value_ok tx cs v"
    and small: "\<forall>b. marshal tx s = Inr b \<longrightarrow> length b < 2 ^ 32"
  shows "\<exists>w3 file h root st. closeWriter dv w2 = (w3, Inr file) \<and>
    newReader (bytesReaderAt EOF file) = Inr (h, root) \<and> fsOpen root path = Inr (FileH st 0) \<and>
    (\<forall>ns. (\<forall>n \<in> set ns. 0 < n) \<and> nat (smSize st) < length ns \<longrightarrow>
       oleDecode tx (readSeq (bytesReaderAt EOF file) st 0 ns) = Inr s)"
proof -
  let ?wr = "dv_bw dv"
  obtain b n where b: "marshal tx s = Inr b" "writeStream ?wr (cs_w c) sid b = (w1, n, None)"
    using enc by (auto simp: oleEncode_def split: sum.splits prod.splits)
  have um: "unmarshal tx b = Inr s" by (rule unmarshal_marshal [OF b(1) _ s]) (use small b(1) in blast)
  then have ne: "b \<noteq> []" by (auto simp: unmarshal_def d_uint16_def d_bytes_def)
  let ?c1 = "c\<lparr>cs_w := w1, cs_data := (cs_data c)(sid := cs_data c sid @ b)\<rparr>"
  have w1: "wsteps ?wr c ?c1" "one_stream (cs_w c) sid w1"
    using writeStream_steps [OF b(2) ne new(1,3)] by auto
  have "sid < length (w_streams w1)" using one_stream_length [OF w1(2)] new(3) by simp
  then have "wstep ?wr ?c1 (?c1\<lparr>cs_w := w2\<rparr>)" using wstep.step_close [of ?c1 sid ?wr w2] new(1) cls(1) by simp
  then have r: "wreach ?wr S (?c1\<lparr>cs_w := w2\<rparr>)" using wsteps_reach [OF w1(1) assms(1)] wreach.reach_step by blast
  obtain w3 F h root st where op: "closeWriter dv w2 = (w3, Inr F)" "newReader (bytesReaderAt EOF F) = Inr (h, root)"
    "fsOpen root path = Inr (FileH st 0)" "fi_size (fsStat (FileH st 0)) = int (length b)"
    "\<And>ns. (\<forall>n \<in> set ns. 0 < n) \<Longrightarrow> length b < length ns \<Longrightarrow> readSeq (bytesReaderAt EOF F) st 0 ns = (b, Some EOF)"
    using opened_and_read [OF r assms(2,3), of path sid] cls(2,3) path new(2) by auto
  have "nat (smSize st) = length b" using op(4) by (simp add: streamFileInfo_def)
  then have "oleDecode tx (readSeq (bytesReaderAt EOF F) st 0 ns) = Inr s"
    if "(\<forall>n \<in> set ns. 0 < n) \<and> nat (smSize st) < length ns" for ns
    using op(5) [of ns] that um by (simp add: oleDecode_def readAll_def)
  then show ?thesis using op(1-3) by blast
qed

section \<open>An example\<close>

definition held :: "bytes \<Rightarrow> streamW" where
  "held b = (newStream [0x41])\<lparr>sw_buf := b, sw_size := length b\<rparr>"

definition new_state :: cstate where
  "new_state = \<lparr>cs_w = sample_writer [] (held []), cs_pend = (\<lambda>_. []), cs_data = (\<lambda>_. [])\<rparr>"

lemma new_state_reach: "wreach full_sink 512 new_state"
proof -
  have "createStream (newWriter 512) [] [0x41] = Inr (cs_w new_state, 0)"
    by (simp add: createStream_def validateChildName_def encodeName_A newWriter_def new_state_def sample_writer_def held_def newStream_def)
  then have "wstep full_sink (winit 512) new_state"
    using wstep.step_stream [of "winit 512" "[]" "[0x41]" "cs_w new_state" 0 full_sink]
    by (simp add: winit_def new_state_def fun_upd_idem)
  then show ?thesis using wreach.intros by blast
qed

lemma sample_set_length: "length sample_set_bytes = 92"
  by (simp add: sample_set_bytes_def)

lemma hold_write:
  assumes "b \<noteq> []" "length b < 4096"
  shows "writeStream full_sink (sample_writer [] (held [])) 0 b = (sample_writer [] (held b), length b, None)"
proof -
  have it: "write_iter full_sink (sample_writer [] (held [])) 0 b = (sample_writer [] (held b), length b, None)"
    using assms by (simp add: write_iter_def writeRoom_def Let_def sample_writer_def held_def newWriter_def newStream_def
       w_upd_def miniStreamCutoff_def)
  have "write_loop full_sink (sample_writer [] (held [])) 0 b 0 = (sample_writer [] (held b), length b, None)"
    using it assms(1) by (simp add: write_loop.simps [of _ "sample_writer [] (held [])"]
       write_loop.simps [of _ "sample_writer [] (held b)" 0 "[]"])
  then show ?thesis
    using assms by (simp add: writeStream_def Let_def sample_writer_def held_def newWriter_def newStream_def streamSizeMaxV3_def)
qed

definition held_closed :: "bytes \<Rightarrow> streamW" where
  "held_closed b = (held b)\<lparr>sw_buf := [], sw_closed := True, sw_chain := [\<lparr>sr_first = 0, sr_count = 2\<rparr>]\<rparr>"

lemma hold_close:
  assumes "length b = 92"
  shows "closeStream full_sink (sample_writer [] (held b)) 0 = (sample_writer (padMini b) (held_closed b), None)"
proof -
  have l: "length (padMini b) = 128" using assms by (simp add: padMini_def miniSectorSize_def Let_def)
  then have ne: "padMini b \<noteq> []" by auto
  have w: "writeMini full_sink (sample_writer [] (held b)) (padMini b) = (sample_writer (padMini b) (held b), None)"
    using l ne by (subst writeMini.simps) (simp add: sample_writer_def newWriter_def Let_def)
  show ?thesis
    using w l assms by (simp add: closeStream_def sample_writer_def held_def held_closed_def newStream_def
        newWriter_def w_upd_def Let_def miniStreamCutoff_def miniSectorSize_def)
qed

theorem property_set_stored_witness:
  "\<exists>w3 file h root st. closeWriter sample_device (sample_writer (padMini sample_set_bytes) (held_closed sample_set_bytes)) = (w3, Inr file) \<and>
    newReader (bytesReaderAt EOF file) = Inr (h, root) \<and> fsOpen root [0x61] = Inr (FileH st 0) \<and>
    (\<forall>ns. (\<forall>n \<in> set ns. 0 < n) \<and> nat (smSize st) < length ns \<longrightarrow>
       oleDecode sample_texts (readSeq (bytesReaderAt EOF file) st 0 ns) = Inr sample_set)"
proof -
  let ?w2 = "sample_writer (padMini sample_set_bytes) (held_closed sample_set_bytes)"
  have ne: "sample_set_bytes \<noteq> []" using sample_set_length by auto
  have wr: "dv_bw sample_device = full_sink" by (simp add: sample_device_def)
  have enc: "oleEncode (\<lambda>w p. writeStream (dv_bw sample_device) w 0 p) sample_texts sample_set (cs_w new_state) =
      (sample_writer [] (held sample_set_bytes), None)"
    using hold_write [OF ne] sample_set_length by (simp add: oleEncode_def sample_marshal wr new_state_def)
  have cls: "closeStream (dv_bw sample_device) (sample_writer [] (held sample_set_bytes)) 0 = (?w2, None)"
    unfolding wr by (rule hold_close [OF sample_set_length])
  have all: "closed_all ?w2" "closable ?w2"
    using sample_set_length by (simp_all add: closed_all_def closable_def sample_writer_def held_closed_def newWriter_def
      nsec_def outB_def mini_len_def padMini_def Let_def miniSectorSize_def)
  have v: "validPath [0x61]" "[0x61] \<noteq> [dot]"
    by (simp_all add: validPath_def valid_rune_def validElems_iff slash_def bad_elem_def dot_def)
  have at: "node_at (stream_name ?w2) (node_of (stream_name ?w2) (w_root ?w2)) (splitOn slash [0x61]) (StreamN 0)"
    by (simp add: sample_writer_def stream_name_def held_closed_def held_def newStream_def slash_def toUpper_def
      utf16_encode_def appendRune_def)
  have reach: "wreach (dv_bw sample_device) 512 new_state" unfolding wr by (rule new_state_reach)
  have new: "cs_pend new_state 0 = []" "cs_data new_state 0 = []" "0 < length (w_streams (cs_w new_state))"
    by (simp_all add: new_state_def sample_writer_def)
  have set: "length (pss_clsid sample_set) = 16" "\<forall>ps \<in> set (pss_propertySets sample_set). length (ps_fmtid ps) = 16"
    "\<forall>ps \<in> set (pss_propertySets sample_set). \<forall>p \<in> set (ps_properties ps). \<forall>v cs. op_value p = Some v \<longrightarrow> value_ok sample_texts cs v"
    by (simp_all add: sample_set_def sample_texts_def)
  show ?thesis
    by (rule property_set_stored [OF reach _ sample_device_ok new enc cls all v at set])
      (simp_all add: sample_marshal sample_set_length)
qed

end
