(* ===== verification/OleSafe.thy ===== *)
theory OleSafe
  imports OleDecode
begin

text \<open>
  \<open>Unmarshal\<close> on any input: no index or slice is out of range, and what it accepts is well formed. The
  check of all offsets before the first property is read is what makes the later slices safe
  (\<open>offsets_ok\<close>).
\<close>

text \<open>The size check of a set makes every table entry readable.\<close>

lemma propertyPacket_in:
  assumes np: "8 + 8 * unat np \<le> length sb" "length sb < 2 ^ 32" and i: "i < np"
  shows "\<exists>r. propertyPacket sb np i = Inr r"
proof -
  let ?i = "unat i"
  have lt: "?i < unat np" using i by (simp add: word_less_nat_alt)
  have "8 + ?i * 8 < 2 ^ 32" using lt np by linarith
  moreover have "8 + i * 8 = word_of_nat (8 + ?i * 8)" by simp
  ultimately have u: "unat (8 + i * 8) = 8 + ?i * 8" using unat_u32 by metis
  have "i + 1 < np \<longrightarrow> ?i + 1 < unat np"
  proof -
    have "i + 1 = word_of_nat (?i + 1)" "?i + 1 < 2 ^ 32" using lt np by simp_all
    then have "unat (i + 1) = ?i + 1" using unat_u32 by metis
    then show ?thesis by (simp add: word_less_nat_alt)
  qed
  then show ?thesis using lt np u by (auto simp: propertyPacket_def Let_def)
qed

definition offsets_ok :: "bytes \<Rightarrow> u32 \<Rightarrow> u32 list \<Rightarrow> bool" where
  "offsets_ok sb np is \<longleftrightarrow> (\<forall>i \<in> set is. \<exists>pid off till. propertyPacket sb np i = Inr (pid, off, till) \<and>
     off \<le> till \<and> 4 \<le> till - off \<and> unat till \<le> length sb)"

lemma checkOffsets_result:
  assumes "8 + 8 * unat np \<le> length sb" "length sb < 2 ^ 32" "\<forall>i \<in> set is. i < np" "unat sz \<le> length sb"
  shows "checkOffsets sb np sz m is \<noteq> Inl OlePanic \<and> (checkOffsets sb np sz m is = Inr () \<longrightarrow> offsets_ok sb np is)"
  using assms(3)
proof (induction "is")
  case (Cons i "is")
  obtain pid off till where p: "propertyPacket sb np i = Inr (pid, off, till)"
    using propertyPacket_in [OF assms(1,2)] Cons.prems by (metis list.set_intros(1) prod_cases3)
  have "\<not> sz < till \<Longrightarrow> unat till \<le> length sb" using assms(4) by (auto simp: word_less_nat_alt)
  then show ?case using Cons p by (auto simp: offsets_ok_def not_less)
qed (simp add: offsets_ok_def)

lemma packetSlice_in:
  assumes "off \<le> till" "4 \<le> till - off" "unat till \<le> length sb"
  shows "\<exists>b. packetSlice sb off till = Inr b \<and> 4 \<le> length b"
proof -
  have "unat off \<le> unat till" "4 \<le> unat till - unat off"
    using assms(1,2) by (simp_all add: word_le_nat_alt unat_sub)
  then show ?thesis using assms by (simp add: packetSlice_def not_less)
qed

lemma d_reads_safe:
  "d_bytes n b \<noteq> Inl OlePanic" "d_uint16 b \<noteq> Inl OlePanic" "d_uint32 b \<noteq> Inl OlePanic" "d_uint64 b \<noteq> Inl OlePanic"
  by (auto simp: d_bytes_def d_uint16_def d_uint32_def d_uint64_def bindE_eq_Inl)

lemma decodeValue_safe: "decodeValue tx enc c b \<noteq> Inl OlePanic"
  using d_reads_safe
  by (cases c) (auto simp: bindE_eq_Inl d_codePageString_def Let_def split: if_splits option.splits)

lemma d_codePage_safe: "offsets_ok sb np is \<Longrightarrow> d_codePage sb np is \<noteq> Inl OlePanic"
proof (induction "is")
  case (Cons i "is")
  obtain pid off till where p: "propertyPacket sb np i = Inr (pid, off, till)" "off \<le> till" "4 \<le> till - off" "unat till \<le> length sb"
    using Cons.prems by (auto simp: offsets_ok_def)
  obtain b where "packetSlice sb off till = Inr b" using packetSlice_in [OF p(2-4)] by blast
  then show ?case using Cons p(1) by (auto simp: offsets_ok_def Let_def split: prod.splits sum.splits)
qed simp

definition property_ok :: "ole_property \<Rightarrow> bool" where
  "property_ok p \<longleftrightarrow> op_id p \<noteq> 0 \<and> op_value p \<noteq> None"

lemma decodeProperty_safe:
  assumes "offsets_ok sb np [i]"
  shows "decodeProperty tx enc sb np i \<noteq> Inl OlePanic \<and> (\<forall>p. decodeProperty tx enc sb np i = Inr p \<longrightarrow> property_ok p)"
proof -
  obtain pid off till where p: "propertyPacket sb np i = Inr (pid, off, till)" "off \<le> till" "4 \<le> till - off" "unat till \<le> length sb"
    using assms by (auto simp: offsets_ok_def)
  obtain b where b: "packetSlice sb off till = Inr b" using packetSlice_in [OF p(2-4)] by blast
  obtain vt b1 where vt: "ignoring 0 b (d_uint16 b) = (vt, b1)" by fastforce
  obtain pad b2 where pad: "ignoring 0 b1 (d_uint16 b1) = (pad, b2)" by fastforce
  have run: "decodeProperty tx enc sb np i = (if pid = 0 then Inl (OleUnsupported ''named properties'')
      else if pad \<noteq> 0 then Inl (OleFormat ''property padding is not zero'')
      else bindE (resolveCoder vt) (\<lambda>c. case decodeValue tx enc c b2 of
          Inl e \<Rightarrow> Inl (if e = OleUnexpectedEOF then OleFormat ''truncated property value'' else e)
        | Inr (v, buf) \<Rightarrow> Inr \<lparr>op_id = pid, op_value = Some v\<rparr>))"
    by (simp add: decodeProperty_def p(1) b vt pad)
  show ?thesis
  proof (cases "resolveCoder vt")
    case (Inl e)
    then have "e \<noteq> OlePanic" by (auto simp: resolveCoder_def split: if_splits)
    then show ?thesis using Inl run by simp
  next
    case (Inr c)
    show ?thesis
    proof (cases "decodeValue tx enc c b2")
      case (Inl e)
      then show ?thesis using Inr run decodeValue_safe [of tx enc c b2] by simp
    next
      case v: (Inr r)
      obtain v b3 where "r = (v, b3)" by (cases r)
      then show ?thesis using Inr v run by (simp add: property_ok_def)
    qed
  qed
qed

lemma decodeEach_safe:
  assumes ok: "offsets_ok sb np js" and l: "length sb < 2 ^ 32" "8 + 8 * unat np \<le> length sb"
  shows "set is \<subseteq> set js \<Longrightarrow> mapE (decodeProperty tx enc sb np) is \<noteq> Inl OlePanic \<and>
    (\<forall>ps. mapE (decodeProperty tx enc sb np) is = Inr ps \<longrightarrow> list_all property_ok ps)"
proof (induction "is")
  case (Cons i "is")
  have "decodeProperty tx enc sb np i \<noteq> Inl OlePanic \<and> (\<forall>p. decodeProperty tx enc sb np i = Inr p \<longrightarrow> property_ok p)"
    using ok Cons.prems by (intro decodeProperty_safe) (auto simp: offsets_ok_def)
  then show ?case using Cons by (auto simp: bindE_eq_Inl bindE_eq_Inr)
qed simp

definition decodeSetBody :: "texts \<Rightarrow> bytes \<Rightarrow> u32 \<Rightarrow> u32 \<Rightarrow> ole_error + ole_property list" where
  "decodeSetBody tx sb np sz =
     bindE (checkOffsets sb np sz (8 + np * 8) (indices np)) (\<lambda>_.
     bindE (d_codePage sb np (indices np)) (\<lambda>cp.
     case codepageEncoding cp of
       None \<Rightarrow> Inl (OleUnsupported ''code page'')
     | Some cs \<Rightarrow> mapE (decodeProperty tx (cp, cs) sb np) (indices np)))"

lemma decodeSetBody_safe:
  assumes le: "8 + 8 * unat np \<le> length sb" "length sb < 2 ^ 32" "unat sz \<le> length sb"
  shows "decodeSetBody tx sb np sz \<noteq> Inl OlePanic \<and>
    (\<forall>ps. decodeSetBody tx sb np sz = Inr ps \<longrightarrow> list_all property_ok ps \<and> length ps = unat np)"
proof -
  have "unat np < 2 ^ 32" using unsigned_less [of np] by simp
  then have "unat (word_of_nat k :: u32) = k" if "k < unat np" for k using that by (intro unat_u32) simp
  then have i: "\<forall>i \<in> set (indices np). i < np" by (auto simp: indices_def word_less_nat_alt)
  note c = checkOffsets_result [OF le(1,2) i le(3), of "8 + np * 8"]
  have len: "length ps = unat np" if "mapE f (indices np) = Inr ps" for f :: "u32 \<Rightarrow> ole_error + ole_property" and ps
    using mapE_length [OF that] by (simp add: indices_def)
  show ?thesis
  proof (cases "checkOffsets sb np sz (8 + np * 8) (indices np)")
    case (Inl e)
    then show ?thesis using c by (simp add: decodeSetBody_def)
  next
    case (Inr u)
    then have ok: "offsets_ok sb np (indices np)" using c by simp
    note each = decodeEach_safe [OF ok le(2,1) subset_refl]
    show ?thesis
      using Inr each len d_codePage_safe [OF ok]
      by (cases "d_codePage sb np (indices np)") (auto simp: decodeSetBody_def split: option.splits)
  qed
qed

lemma decodeProperties_safe:
  assumes l: "length buf < 2 ^ 32"
  shows "decodeProperties tx buf \<noteq> Inl OlePanic \<and>
    (\<forall>ps. decodeProperties tx buf = Inr ps \<longrightarrow> list_all property_ok ps \<and> 8 + 8 * length ps \<le> length buf)"
proof (cases "d_uint32 buf")
  case (Inl e)
  then show ?thesis using d_reads_safe(3) [of buf] by (simp add: decodeProperties_def)
next
  case sz: (Inr r)
  obtain sz b where r: "r = (sz, b)" by (cases r)
  show ?thesis
  proof (cases "d_uint32 b")
    case (Inl e)
    then show ?thesis using sz r d_reads_safe(3) [of b] by (simp add: decodeProperties_def)
  next
    case np: (Inr q)
    obtain np b' where q: "q = (np, b')" by (cases q)
    show ?thesis
    proof (cases "length buf < unat sz \<or> sz < 8 \<or> unat sz < 8 + 8 * unat np")
      case True
      then show ?thesis using sz r np q by (auto simp: decodeProperties_def Let_def)
    next
      case False
      then have g: "\<not> length buf < unat sz" "\<not> (sz < 8 \<or> unat sz < 8 + 8 * unat np)" by auto
      have "decodeProperties tx buf = decodeSetBody tx (take (unat sz) buf) np sz"
        by (simp only: decodeProperties_def decodeSetBody_def Let_def sz np r q bindE.simps case_prod_conv
          if_not_P [OF g(1)] if_not_P [OF g(2)])
      then show ?thesis using decodeSetBody_safe [of np "take (unat sz) buf" sz tx] False l by auto
    qed
  qed
qed

definition stream_wf :: "propertySetStream \<Rightarrow> nat \<Rightarrow> bool" where
  "stream_wf s n \<longleftrightarrow> length (pss_clsid s) = 16 \<and> pss_version s \<le> 1 \<and>
     (\<exists>ps. pss_propertySets s = [ps] \<and> length (ps_fmtid ps) = 16 \<and> list_all property_ok (ps_properties ps) \<and>
        56 + 8 * length (ps_properties ps) \<le> n)"

text \<open>The reads of the headers, where there are enough bytes.\<close>

lemma ignoring_reads:
  "2 \<le> length x \<Longrightarrow> ignoring 0 x (d_uint16 x) = (get_le (take 2 x), drop 2 x)"
  "4 \<le> length x \<Longrightarrow> ignoring 0 x (d_uint32 x) = (get_le (take 4 x), drop 4 x)"
  "16 \<le> length x \<Longrightarrow> ignoring [] x (d_bytes 16 x) = (take 16 x, drop 16 x)"
  by (simp_all add: ignoring_def d_uint16_def d_uint32_def d_bytes_def)

lemma unmarshal_run:
  fixes data :: bytes
  assumes "d_uint16 data = Inr (byteOrder, buf)" "oleHeaderSize \<le> length data"
  defines "v \<equiv> get_le (take 2 (drop 2 data)) :: u16" and "n \<equiv> get_le (take 4 (drop 24 data)) :: u32"
  shows "unmarshal tx data =
     (if 1 < v then Inl (OleFormat ''invalid property set version'')
      else if n = 2 then Inl (OleUnsupported ''more than one property set'')
      else if n \<noteq> 1 then Inl (OleFormat ''invalid property set count'')
      else if length data < 48 then Inl OleUnexpectedEOF
      else bindE (decodeSets tx data 48 (Suc 0) (drop 28 data)) (\<lambda>sets.
        Inr \<lparr>pss_clsid = take 16 (drop 8 data), pss_version = v,
          pss_systemIdentifier = get_le (take 4 (drop 4 data)), pss_propertySets = sets\<rparr>))"
proof -
  have n: "28 \<le> length data" using assms(2) by (simp add: oleHeaderSize_def)
  have b: "buf = drop 2 data" using assms(1) by (auto simp: d_uint16_def d_bytes_def split: if_splits)
  show ?thesis
    using n assms(1,2) by (simp add: unmarshal_def b ignoring_reads Let_def oleHeaderSize_def v_def n_def del: decodeSets.simps)
qed

lemma decodeSets_run:
  fixes data :: bytes
  assumes "48 \<le> length data"
  defines "off \<equiv> get_le (take 4 (drop 44 data)) :: u32"
  shows "decodeSets tx data 48 (Suc 0) (drop 28 data) =
    (if off < 48 then Inl (OleFormat ''invalid property set offset'')
     else if length data < unat off then Inl OleUnexpectedEOF
     else bindE (decodeProperties tx (drop (unat off) data)) (\<lambda>props.
       Inr [\<lparr>ps_fmtid = take 16 (drop 28 data), ps_properties = props\<rparr>]))"
proof -
  have "16 \<le> length (drop 28 data)" "4 \<le> length (drop 44 data)" using assms(1) by auto
  then show ?thesis by (simp add: ignoring_reads Let_def off_def)
qed

lemma decodeSets_safe:
  assumes "length data < 2 ^ 32" "48 \<le> length data"
  shows "case decodeSets tx data 48 (Suc 0) (drop 28 data) of Inl e \<Rightarrow> e \<noteq> OlePanic
    | Inr sets \<Rightarrow> (\<exists>ps. sets = [ps] \<and> length (ps_fmtid ps) = 16 \<and> list_all property_ok (ps_properties ps) \<and>
        56 + 8 * length (ps_properties ps) \<le> length data)"
proof -
  let ?off = "get_le (take 4 (drop 44 data)) :: u32"
  show ?thesis
  proof (cases "?off < 48 \<or> length data < unat ?off")
    case True
    then show ?thesis unfolding decodeSets_run [OF assms(2)] by auto
  next
    case False
    then have o: "48 \<le> unat ?off" "unat ?off \<le> length data" by (auto simp: not_less word_le_nat_alt)
    have "length (drop (unat ?off) data) < 2 ^ 32" using assms(1) by simp
    note d = decodeProperties_safe [OF this, of tx]
    show ?thesis
    proof (cases "decodeProperties tx (drop (unat ?off) data)")
      case (Inl e)
      then show ?thesis unfolding decodeSets_run [OF assms(2)] using False d by auto
    next
      case (Inr ps)
      then have "list_all property_ok ps" "8 + 8 * length ps \<le> length data - unat ?off" using d by auto
      then show ?thesis unfolding decodeSets_run [OF assms(2)] using False Inr o assms(2) by (simp add: not_less)
    qed
  qed
qed

text \<open>C27: \<open>Unmarshal\<close> is safe on every input below 4 GiB: no index or slice is out of range, and a property
  set stream it accepts has the fixed-size fields, one set, only properties with a nonzero identifier
  and a value, and no more of them than the input has table entries.\<close>

theorem unmarshal_safe:
  assumes "length data < 2 ^ 32"
  shows "unmarshal tx data \<noteq> Inl OlePanic \<and> (\<forall>s. unmarshal tx data = Inr s \<longrightarrow> stream_wf s (length data))"
proof (cases "d_uint16 data")
  case (Inl e)
  then show ?thesis using d_reads_safe(2) [of data] by (simp add: unmarshal_def)
next
  case (Inr r)
  obtain bo buf where r: "d_uint16 data = Inr (bo, buf)" using Inr by (cases r) auto
  show ?thesis
  proof (cases "bo = byteOrder \<and> oleHeaderSize \<le> length data")
    case False
    then show ?thesis using r by (auto simp: unmarshal_def)
  next
    case True
    then have run: "d_uint16 data = Inr (byteOrder, buf)" "oleHeaderSize \<le> length data" using r by simp_all
    show ?thesis
    proof (cases "48 \<le> length data")
      case ok: True
      show ?thesis using decodeSets_safe [OF assms ok, of tx] ok
        unfolding unmarshal_run [OF run] by (auto simp: stream_wf_def not_less simp del: decodeSets.simps split: sum.splits)
    qed (auto simp: unmarshal_run [OF run] simp del: decodeSets.simps)
  qed
qed

theorem unmarshal_safe_witness:
  "\<exists>e. unmarshal \<lparr>tx_encode = (\<lambda>cs s. Some s), tx_decode = (\<lambda>cs s. Some s)\<rparr> [0xFE, 0xFF, 0, 0] = Inl e \<and> e \<noteq> OlePanic"
proof -
  let ?tx = "\<lparr>tx_encode = (\<lambda>cs s. Some s), tx_decode = (\<lambda>cs s. Some s)\<rparr> :: texts"
  have "unmarshal ?tx [0xFE, 0xFF, 0, 0] \<noteq> Inl OlePanic \<and>
      (\<forall>s. unmarshal ?tx [0xFE, 0xFF, 0, 0] = Inr s \<longrightarrow> stream_wf s (length [0xFE, 0xFF, 0, 0 :: u8]))"
    by (rule unmarshal_safe) simp
  then show ?thesis by (cases "unmarshal ?tx [0xFE, 0xFF, 0, 0]") (auto simp: stream_wf_def)
qed

end
