(* ===== verification/CaseTableGen.thy ===== *)
theory CaseTableGen
  imports CaseTable "HOL-Library.AList"
begin

text \<open>
  The generator of the upper-casing table (internal/casetablegen/main.go): \<open>apply\<close> puts the exceptions of
  MS-CFB into the map of lower to upper case and sorts it, \<open>compress\<close> packs the sorted pairs into ranges. The
  Go map is an association list with distinct keys; the order Go iterates over it in is lost in the sort.
  The theorems show that the search of \<open>toUpper\<close> in the generated ranges (theory \<open>CaseTable\<close>) is the map.
\<close>

section \<open>Pairs and exceptions\<close>

record pair =
  pr_lo :: u16
  pr_up :: u16

record exception =
  ex_add :: bool
  ex_from :: u16
  ex_to :: u16

abbreviation ex :: "bool \<Rightarrow> u16 \<Rightarrow> u16 \<Rightarrow> exception" where
  "ex a f t \<equiv> \<lparr>ex_add = a, ex_from = f, ex_to = t\<rparr>"

definition vistaExceptions :: "exception list" where
  "vistaExceptions = [
    ex True 0x023A 0x2C65, ex False 0x023A 0x023A, ex True 0x2C65 0x2C65, ex False 0x2C65 0x023A,
    ex True 0x023E 0x2C66, ex False 0x023E 0x023E, ex True 0x2C66 0x2C66, ex False 0x2C66 0x023E,
    ex True 0x03C2 0x03A3, ex False 0x03C2 0x03C2, ex True 0x03C3 0x03A3, ex False 0x03C3 0x03C2,
    ex True 0x1FC3 0x1FC3, ex False 0x1FC3 0x1FCC, ex True 0x1FCC 0x1FC3, ex False 0x1FCC 0x1FCC,
    ex True 0x1FF3 0x1FF3, ex False 0x1FF3 0x1FFC, ex True 0x1FFC 0x1FF3, ex False 0x1FFC 0x1FFC]"

type_synonym folding = "(u16 \<times> u16) list"

definition applyException :: "folding \<Rightarrow> exception \<Rightarrow> folding" where
  "applyException base e =
     (if ex_add e
      then if ex_from e = ex_to e then AList.delete (ex_from e) base
           else AList.update (ex_from e) (ex_to e) base
      else case map_of base (ex_from e) of
             Some v \<Rightarrow> if v = ex_to e then AList.delete (ex_from e) base else base
           | None \<Rightarrow> base)"

definition applyExceptions :: "folding \<Rightarrow> exception list \<Rightarrow> pair list" where
  "applyExceptions base exs =
     sort_key pr_lo (map (\<lambda>(lo, up). \<lparr>pr_lo = lo, pr_up = up\<rparr>)
       (filter (\<lambda>(lo, up). lo \<noteq> up) (foldl applyException base exs)))"

section \<open>Runs\<close>

function alternatingLoop :: "pair list \<Rightarrow> nat \<Rightarrow> nat" where
  "alternatingLoop ps j =
     (if j < length ps \<and> pr_lo (ps ! j) = pr_lo (ps ! (j - 1)) + 2 \<and> pr_up (ps ! j) = pr_up (ps ! (j - 1)) + 2 \<and>
         pr_lo (ps ! j) = pr_up (ps ! j) + 1
      then alternatingLoop ps (j + 1) else j)"
  by pat_completeness auto
termination by (relation "measure (\<lambda>(ps, j). length ps - j)") auto

definition alternatingRunEnd :: "pair list \<Rightarrow> nat \<Rightarrow> nat" where
  "alternatingRunEnd ps i = (if pr_lo (ps ! i) \<noteq> pr_up (ps ! i) + 1 then i else alternatingLoop ps (i + 1))"

function constantLoop :: "int \<Rightarrow> pair list \<Rightarrow> nat \<Rightarrow> nat" where
  "constantLoop delta ps j =
     (if j < length ps \<and> pr_lo (ps ! j) = pr_lo (ps ! (j - 1)) + 1 \<and> uint (pr_up (ps ! j)) - uint (pr_lo (ps ! j)) = delta
      then constantLoop delta ps (j + 1) else j)"
  by pat_completeness auto
termination by (relation "measure (\<lambda>(delta, ps, j). length ps - j)") auto

definition constantRunEnd :: "pair list \<Rightarrow> nat \<Rightarrow> nat" where
  "constantRunEnd ps i = constantLoop (uint (pr_up (ps ! i)) - uint (pr_lo (ps ! i))) ps (i + 1)"

declare alternatingLoop.simps [simp del] constantLoop.simps [simp del]

lemma alternatingLoop_ge: "j \<le> alternatingLoop ps j"
proof (induction ps j rule: alternatingLoop.induct)
  case (1 ps j)
  then show ?case by (subst alternatingLoop.simps) (simp, fastforce)
qed

lemma constantLoop_ge: "j \<le> constantLoop delta ps j"
proof (induction delta ps j rule: constantLoop.induct)
  case (1 delta ps j)
  then show ?case by (subst constantLoop.simps) (simp, fastforce)
qed

text \<open>The conversion \<open>int16(...)\<close> of a delta.\<close>

definition int16_of :: "int \<Rightarrow> int" where
  "int16_of d = sint (word_of_int d :: u16)"

function compressFrom :: "pair list \<Rightarrow> nat \<Rightarrow> caseRange list" where
  "compressFrom ps i =
     (if i < length ps then
        let j = alternatingRunEnd ps i in
        if 2 \<le> j - i then
          \<lparr>Lo = pr_up (ps ! i), Hi = pr_lo (ps ! (j - 1)), Delta = upperLower\<rparr> # compressFrom ps j
        else let j = constantRunEnd ps i in
          \<lparr>Lo = pr_lo (ps ! i), Hi = pr_lo (ps ! (j - 1)),
           Delta = int16_of (uint (pr_up (ps ! i)) - uint (pr_lo (ps ! i)))\<rparr> # compressFrom ps j
      else [])"
  by pat_completeness auto
termination
proof (relation "measure (\<lambda>(ps, i). length ps - i)")
  fix ps i j assume "i < length ps" "j = constantRunEnd ps i"
  then show "((ps, j), (ps, i)) \<in> measure (\<lambda>(ps, i). length ps - i)"
    using constantLoop_ge [of "i + 1" _ ps] by (simp add: constantRunEnd_def) (meson Suc_le_lessD diff_less_mono2)
qed auto

declare compressFrom.simps [simp del]

definition compress :: "pair list \<Rightarrow> caseRange list" where
  "compress ps = compressFrom ps 0"

section \<open>What the pairs mean\<close>

definition pairs_map :: "pair list \<Rightarrow> u16 \<Rightarrow> u16" where
  "pairs_map ps c = (case find (\<lambda>p. pr_lo p = c) ps of None \<Rightarrow> c | Some p \<Rightarrow> pr_up p)"

definition lo_sorted :: "pair list \<Rightarrow> bool" where
  "lo_sorted = sorted_wrt (\<lambda>p q. pr_lo p < pr_lo q)"

text \<open>
  What a table can be packed from: no upper-case letter has an upper case of its own, U+0000 has none, and
  no difference is that which stands for alternating pairs.
\<close>

definition foldable :: "pair list \<Rightarrow> bool" where
  "foldable ps \<longleftrightarrow> (\<forall>p \<in> set ps. 0 < pr_lo p \<and> pr_up p \<notin> pr_lo ` set ps \<and> pr_up p - pr_lo p \<noteq> 0x4000)"

lemma lo_sorted_nth: "lo_sorted ps \<Longrightarrow> i < j \<Longrightarrow> j < length ps \<Longrightarrow> pr_lo (ps ! i) < pr_lo (ps ! j)"
  by (simp add: lo_sorted_def sorted_wrt_iff_nth_less)

lemma lo_sorted_inj: "lo_sorted ps \<Longrightarrow> p \<in> set ps \<Longrightarrow> q \<in> set ps \<Longrightarrow> pr_lo p = pr_lo q \<Longrightarrow> p = q"
  by (metis in_set_conv_nth less_irrefl linorder_neqE_nat lo_sorted_nth)

lemma pairs_map_in:
  assumes "lo_sorted ps" "p \<in> set ps"
  shows "pairs_map ps (pr_lo p) = pr_up p"
proof (cases "find (\<lambda>q. pr_lo q = pr_lo p) ps")
  case None
  then show ?thesis using assms(2) by (auto simp: find_None_iff)
next
  case (Some q)
  then have "q \<in> set ps" "pr_lo q = pr_lo p" by (auto simp: find_Some_iff)
  then show ?thesis using Some lo_sorted_inj [OF assms(1)] assms(2) by (auto simp: pairs_map_def)
qed

lemma pairs_map_out: "c \<notin> pr_lo ` set ps \<Longrightarrow> pairs_map ps c = c"
  by (auto simp: pairs_map_def find_Some_iff image_iff split: option.split)

lemma pairs_map_append: "pairs_map (xs @ ys) c = (if c \<in> pr_lo ` set xs then pairs_map xs c else pairs_map ys c)"
  by (induction xs) (auto simp: pairs_map_def)

section \<open>One run\<close>

text \<open>The range \<open>r\<close> stands for the pairs \<open>seg\<close>.\<close>

definition stands_for :: "caseRange \<Rightarrow> pair list \<Rightarrow> bool" where
  "stands_for r seg \<longleftrightarrow> seg \<noteq> [] \<and> Lo r \<le> Hi r \<and> Hi r = pr_lo (last seg) \<and> (\<forall>p \<in> set seg. in_range r (pr_lo p)) \<and>
     (\<forall>c. in_range r c \<longrightarrow> apply_range r c = pairs_map seg c)"

lemma stands_for_step:
  assumes so: "lo_sorted ps" and r: "stands_for r (slice i (j - i) ps)" and ij: "i < j" "j \<le> length ps"
    and lo: "\<forall>q \<in> set (take i ps). pr_lo q < Lo r"
    and rest: "sorted_wrt range_before rs" "\<forall>s \<in> set rs. Lo s \<le> Hi s \<and> (\<forall>q \<in> set (take j ps). pr_lo q < Lo s)"
      "\<forall>c. ranges_map rs c = pairs_map (drop j ps) c"
  shows "sorted_wrt range_before (r # rs)" "\<forall>s \<in> set (r # rs). Lo s \<le> Hi s \<and> (\<forall>q \<in> set (take i ps). pr_lo q < Lo s)"
    "\<forall>c. ranges_map (r # rs) c = pairs_map (drop i ps) c"
proof -
  let ?seg = "slice i (j - i) ps"
  have "?seg = take (j - i) (drop i ps)" by (simp add: slice_def)
  then have tj: "take j ps = take i ps @ ?seg" using ij take_add [of i "j - i" ps] by simp
  have di: "drop i ps = ?seg @ drop j ps" using ij append_take_drop_id [of "j - i" "drop i ps"] by (simp add: slice_def)
  have last: "last ?seg \<in> set (take j ps)" using r by (simp add: tj stands_for_def)
  show "sorted_wrt range_before (r # rs)" using rest(1,2) r last by (auto simp: range_before_def stands_for_def)
  show "\<forall>s \<in> set (r # rs). Lo s \<le> Hi s \<and> (\<forall>q \<in> set (take i ps). pr_lo q < Lo s)"
    using rest(2) r lo by (auto simp: tj stands_for_def)
  have after: "Hi r < pr_lo p" if p: "p \<in> set (drop j ps)" for p
  proof -
    obtain k where k: "k < length ps - j" "p = ps ! (j + k)" using p ij by (auto simp: in_set_conv_nth)
    obtain l where l: "l < j" "last ?seg = ps ! l" using last ij by (auto simp: in_set_conv_nth)
    have "pr_lo (ps ! l) < pr_lo (ps ! (j + k))" by (rule lo_sorted_nth [OF so]) (use k l in auto)
    then show ?thesis using r l k by (simp add: stands_for_def)
  qed
  show "\<forall>c. ranges_map (r # rs) c = pairs_map (drop i ps) c"
  proof
    fix c
    show "ranges_map (r # rs) c = pairs_map (drop i ps) c"
    proof (cases "in_range r c")
      case True
      have "pairs_map (drop j ps) c = c" using after True by (intro pairs_map_out) (force simp: in_range_def)
      then show ?thesis using True r pairs_map_out [of c ?seg] by (simp add: di pairs_map_append ranges_map_def stands_for_def)
    next
      case False
      then have "c \<notin> pr_lo ` set ?seg" using r by (auto simp: stands_for_def)
      then show ?thesis using False rest(3) by (simp add: di pairs_map_append ranges_map_def)
    qed
  qed
qed

section \<open>Alternating runs\<close>

lemma alternatingLoop_run:
  "j \<le> k \<Longrightarrow> k < alternatingLoop ps j \<Longrightarrow>
   k < length ps \<and> pr_lo (ps ! k) = pr_lo (ps ! (k - 1)) + 2 \<and> pr_lo (ps ! k) = pr_up (ps ! k) + 1"
proof (induction ps j rule: alternatingLoop.induct)
  case (1 ps j)
  then show ?case
    by (cases "k = j") (auto simp: alternatingLoop.simps [of ps j] split: if_splits)
qed

lemma unat_add2: "(a :: u16) < a + 2 \<Longrightarrow> unat (a + 2) = unat a + 2"
proof -
  assume lt: "a < a + 2"
  have m: "unat (a + 2) = (unat a + 2) mod 65536" by (simp add: unat_word_ariths)
  have b: "unat a < 65536" using unsigned_less [of a] by simp
  have lt: "unat a < unat (a + 2)" using lt by (simp add: word_less_nat_alt)
  show ?thesis
  proof (cases "unat a + 2 < 65536")
    case False
    then have "(unat a + 2) mod 65536 = unat a + 2 - 65536" using b by (simp add: le_mod_geq)
    then show ?thesis using m b lt False by simp
  qed (simp add: m)
qed

lemma alternating_lo:
  assumes so: "lo_sorted ps" and i: "i + m < alternatingLoop ps (i + 1)" "i < length ps"
  shows "unat (pr_lo (ps ! (i + m))) = unat (pr_lo (ps ! i)) + 2 * m"
  using i(1)
proof (induction m)
  case (Suc m)
  have k: "i + Suc m < length ps" "pr_lo (ps ! (i + Suc m)) = pr_lo (ps ! (i + m)) + 2"
    using alternatingLoop_run [of "i + 1" "i + Suc m" ps] Suc.prems by simp_all
  have "pr_lo (ps ! (i + m)) < pr_lo (ps ! (i + Suc m))" by (rule lo_sorted_nth [OF so]) (use k(1) in auto)
  then show ?case using Suc k(2) unat_add2 [of "pr_lo (ps ! (i + m))"] by simp
qed simp

lemma clear_low: "unat (d :: u16) = 2 * k \<Longrightarrow> d AND NOT 1 = d" "unat (d :: u16) = 2 * k + 1 \<Longrightarrow> d AND NOT 1 = d - 1"
proof -
  have d: "d AND NOT 1 = d - d mod 2"
    using disjunctive_diff [of "d AND 1" d] by (simp add: bit_simps and_one_eq [symmetric] bit.conj_disj_distrib)
  have m: "unat (d mod 2) = unat d mod 2" by (simp add: unat_mod)
  show "unat d = 2 * k \<Longrightarrow> d AND NOT 1 = d" using d m by (simp add: unat_eq_0)
  assume "unat d = 2 * k + 1"
  then have "unat (d mod 2) = 1" using m by simp
  then have "d mod 2 = 1" by (metis unat_1 unsigned_word_eqI)
  then show "d AND NOT 1 = d - 1" using d by simp
qed

text \<open>The pairs of a run, by their place in it.\<close>

lemma set_slice_subset: "set (slice i n ps) \<subseteq> set ps"
  unfolding slice_def by (meson set_drop_subset set_take_subset subset_trans)

lemma set_slice_nth: "i \<le> j \<Longrightarrow> j \<le> length ps \<Longrightarrow> set (slice i (j - i) ps) = (\<lambda>m. ps ! (i + m)) ` {..<j - i}"
proof -
  assume ij: "i \<le> j" "j \<le> length ps"
  then have "slice i (j - i) ps = map (\<lambda>m. ps ! (i + m)) [0..<j - i]" by (intro nth_equalityI) (simp_all add: slice_nth)
  then show ?thesis by (simp add: atLeast0LessThan)
qed

lemma last_slice: "i < j \<Longrightarrow> j \<le> length ps \<Longrightarrow> slice i (j - i) ps \<noteq> [] \<and> last (slice i (j - i) ps) = ps ! (j - 1)"
  by (subst last_conv_nth) (auto simp: slice_nth simp flip: length_greater_0_conv)

lemma lo_sorted_slice: "lo_sorted ps \<Longrightarrow> lo_sorted (slice i n ps)"
  by (simp add: lo_sorted_def slice_def sorted_wrt_take sorted_wrt_drop)

lemma foldable_up: "foldable ps \<Longrightarrow> p \<in> set ps \<Longrightarrow> pr_lo p = pr_up p + 1 \<Longrightarrow> unat (pr_lo p) = unat (pr_up p) + 1"
proof -
  assume p: "foldable ps" "p \<in> set ps" "pr_lo p = pr_up p + 1"
  have "pr_up p + 1 \<noteq> 0" using p by (force simp: foldable_def)
  then show ?thesis using p(3) unatSuc [of "pr_up p"] by (simp add: add.commute)
qed

text \<open>The \<open>m\<close>-th pair of an alternating run.\<close>

lemma alternating_nth:
  assumes so: "lo_sorted ps" and ok: "foldable ps" and i: "i < length ps" and j: "j = alternatingRunEnd ps i" "2 \<le> j - i" and k: "m < j - i"
  shows "i + m < length ps" "pr_lo (ps ! (i + m)) = pr_up (ps ! (i + m)) + 1"
    "unat (pr_lo (ps ! (i + m))) = unat (pr_up (ps ! i)) + 1 + 2 * m" "unat (pr_up (ps ! (i + m))) = unat (pr_up (ps ! i)) + 2 * m"
proof -
  note up = foldable_up [OF ok]
  have loop: "pr_lo (ps ! i) = pr_up (ps ! i) + 1" "j = alternatingLoop ps (i + 1)"
    using j by (auto simp: alternatingRunEnd_def split: if_splits)
  show 1: "i + m < length ps" "pr_lo (ps ! (i + m)) = pr_up (ps ! (i + m)) + 1"
    using alternatingLoop_run [of "i + 1" "i + m" ps] loop i k by (cases "m = 0"; simp)+
  have "unat (pr_lo (ps ! (i + m))) = unat (pr_lo (ps ! i)) + 2 * m" using alternating_lo [OF so _ i, of m] loop(2) k by simp
  then show "unat (pr_lo (ps ! (i + m))) = unat (pr_up (ps ! i)) + 1 + 2 * m" "unat (pr_up (ps ! (i + m))) = unat (pr_up (ps ! i)) + 2 * m"
    using up [OF nth_mem [OF i] loop(1)] up [OF nth_mem [OF 1(1)] 1(2)] by simp_all
qed

lemma alternating_map:
  assumes so: "lo_sorted ps" and ok: "foldable ps" and i: "i < length ps" and j: "j = alternatingRunEnd ps i" "2 \<le> j - i"
    and c: "pr_up (ps ! i) \<le> c" "unat c \<le> unat (pr_up (ps ! i)) + 1 + 2 * (j - i - 1)"
    and sg: "set (slice i (j - i) ps) = (\<lambda>m. ps ! (i + m)) ` {..<j - i}"
  shows "apply_range \<lparr>Lo = pr_up (ps ! i), Hi = h, Delta = upperLower\<rparr> c = pairs_map (slice i (j - i) ps) c"
proof -
  let ?a = "unat (pr_up (ps ! i))" and ?seg = "slice i (j - i) ps"
  note m = alternating_nth [OF so ok i j]
  have b: "?a \<le> unat c" "unat c \<le> ?a + 1 + 2 * (j - i - 1)" using c by (auto simp: word_le_nat_alt)
  define k where "k = (unat c - ?a) div 2"
  have k: "k < j - i" using b j(2) by (simp add: k_def)
  have d: "unat (c - pr_up (ps ! i)) = unat c - ?a" using c by (simp add: unat_sub)
  have mem: "ps ! (i + k) \<in> set ?seg" "ps ! (i + k) \<in> set ps" using k m [OF k] by (auto simp: sg)
  show ?thesis
  proof (cases "even (unat c - ?a)")
    case True
    then have e: "unat c - ?a = 2 * k" by (simp add: k_def)
    then have "c = pr_up (ps ! (i + k))" using m [OF k] b(1) by (intro unsigned_word_eqI [where ?'a = nat]) simp
    then have "c \<notin> pr_lo ` set ps" using ok mem(2) by (simp add: foldable_def)
    then have "c \<notin> pr_lo ` set ?seg" using set_slice_subset [of i "j - i" ps] by blast
    then show ?thesis using clear_low(1) [of "c - pr_up (ps ! i)" k] d e
      by (simp add: apply_range_def pairs_map_out)
  next
    case False
    then have e: "unat c - ?a = 2 * k + 1" unfolding k_def by (rule odd_two_times_div_two_succ [symmetric])
    then have c': "c = pr_lo (ps ! (i + k))" using m(3) [OF k] b(1) by (intro unsigned_word_eqI [where ?'a = nat]) simp
    then have "pairs_map ?seg c = pr_up (ps ! (i + k))" using pairs_map_in [OF lo_sorted_slice [OF so] mem(1)] by simp
    then show ?thesis using clear_low(2) [of "c - pr_up (ps ! i)" k] d e c' m [OF k] by (simp add: apply_range_def)
  qed
qed

lemma alternating_before:
  assumes so: "lo_sorted ps" and ok: "foldable ps" and i: "i < length ps" and a: "pr_lo (ps ! i) = pr_up (ps ! i) + 1"
    and q: "q \<in> set (take i ps)"
  shows "pr_lo q < pr_up (ps ! i)"
proof -
  obtain n where n: "n < i" "q = ps ! n" using q i by (auto simp: in_set_conv_nth)
  have "pr_lo q < pr_lo (ps ! i)" unfolding n(2) by (rule lo_sorted_nth [OF so n(1) i])
  moreover have "pr_lo q \<noteq> pr_up (ps ! i)"
  proof -
    have "q \<in> set ps" "ps ! i \<in> set ps" using q i by (auto dest: in_set_takeD)
    then show ?thesis using ok unfolding foldable_def by (metis image_eqI)
  qed
  ultimately show ?thesis using foldable_up [OF ok nth_mem [OF i] a]
    by (simp add: word_less_nat_alt) (metis less_SucE unsigned_word_eqI)
qed

lemma alternating_stands:
  assumes so: "lo_sorted ps" and ok: "foldable ps" and i: "i < length ps" and j: "j = alternatingRunEnd ps i" "2 \<le> j - i"
  shows "j \<le> length ps \<and> stands_for \<lparr>Lo = pr_up (ps ! i), Hi = pr_lo (ps ! (j - 1)), Delta = upperLower\<rparr> (slice i (j - i) ps) \<and>
    (\<forall>q \<in> set (take i ps). pr_lo q < pr_up (ps ! i))"
proof -
  let ?a = "unat (pr_up (ps ! i))" and ?seg = "slice i (j - i) ps"
  let ?r = "\<lparr>Lo = pr_up (ps ! i), Hi = pr_lo (ps ! (j - 1)), Delta = upperLower\<rparr>"
  note m = alternating_nth [OF so ok i j]
  have lst: "j - i - 1 < j - i" "i + (j - i - 1) = j - 1" "i < j" using j(2) by simp_all
  have jl: "j \<le> length ps" using m(1) [OF lst(1)] lst(2,3) by linarith
  have sg: "set ?seg = (\<lambda>m. ps ! (i + m)) ` {..<j - i}" by (rule set_slice_nth) (use jl j(2) in auto)
  have hi: "unat (pr_lo (ps ! (j - 1))) = ?a + 1 + 2 * (j - i - 1)" by (rule m(3) [OF lst(1), unfolded lst(2)])
  have map: "apply_range ?r c = pairs_map ?seg c" if "in_range ?r c" for c
    using that hi by (intro alternating_map [OF so ok i j _ _ sg]) (auto simp: in_range_def word_le_nat_alt)
  have "in_range ?r (pr_lo (ps ! (i + k)))" if k: "k < j - i" for k
    using m(3) [OF k] k hi by (simp add: in_range_def word_le_nat_alt)
  moreover have "Lo ?r \<le> Hi ?r" using hi by (simp add: word_le_nat_alt)
  ultimately have "stands_for ?r ?seg"
    unfolding stands_for_def using last_slice [OF lst(3) jl] map by (simp add: sg)
  moreover have "pr_lo (ps ! i) = pr_up (ps ! i) + 1" using m(2) [of 0] j(2) by simp
  ultimately show ?thesis using jl alternating_before [OF so ok i] by blast
qed

section \<open>Constant runs\<close>

lemma constantLoop_run:
  "j \<le> k \<Longrightarrow> k < constantLoop delta ps j \<Longrightarrow>
   k < length ps \<and> pr_lo (ps ! k) = pr_lo (ps ! (k - 1)) + 1 \<and> uint (pr_up (ps ! k)) - uint (pr_lo (ps ! k)) = delta"
proof (induction delta ps j rule: constantLoop.induct)
  case (1 delta ps j)
  then show ?case
    by (cases "k = j") (auto simp: constantLoop.simps [of delta ps j] split: if_splits)
qed

lemma unat_add1: "(a :: u16) < a + 1 \<Longrightarrow> unat (a + 1) = unat a + 1"
  using unatSuc [of a] by (simp add: add.commute) (metis not_less_zero unat_0 word_less_nat_alt)

lemma constant_lo:
  assumes so: "lo_sorted ps" and i: "i + m < constantLoop delta ps (i + 1)" "i < length ps"
  shows "unat (pr_lo (ps ! (i + m))) = unat (pr_lo (ps ! i)) + m"
  using i(1)
proof (induction m)
  case (Suc m)
  have k: "i + Suc m < length ps" "pr_lo (ps ! (i + Suc m)) = pr_lo (ps ! (i + m)) + 1"
    using constantLoop_run [of "i + 1" "i + Suc m" delta ps] Suc.prems by simp_all
  have "pr_lo (ps ! (i + m)) < pr_lo (ps ! (i + Suc m))" by (rule lo_sorted_nth [OF so]) (use k(1) in auto)
  then show ?case using Suc k(2) unat_add1 [of "pr_lo (ps ! (i + m))"] by simp
qed simp

lemma constant_stands:
  assumes so: "lo_sorted ps" and ok: "foldable ps" and i: "i < length ps" and j: "j = constantRunEnd ps i"
  defines "delta \<equiv> uint (pr_up (ps ! i)) - uint (pr_lo (ps ! i))"
  shows "i < j \<and> j \<le> length ps \<and>
    stands_for \<lparr>Lo = pr_lo (ps ! i), Hi = pr_lo (ps ! (j - 1)), Delta = int16_of delta\<rparr> (slice i (j - i) ps)"
proof -
  let ?a = "unat (pr_lo (ps ! i))" and ?seg = "slice i (j - i) ps"
  let ?r = "\<lparr>Lo = pr_lo (ps ! i), Hi = pr_lo (ps ! (j - 1)), Delta = int16_of delta\<rparr>"
  have j: "j = constantLoop delta ps (i + 1)" using j by (simp add: constantRunEnd_def delta_def)
  have ij: "i < j" using constantLoop_ge [of "i + 1" delta ps] j by simp
  have diff: "pr_up p - pr_lo p = word_of_int delta" if "uint (pr_up p) - uint (pr_lo p) = delta" for p
    using that by (metis word_of_int_uint wi_hom_sub)
  have m: "i + m < length ps \<and> unat (pr_lo (ps ! (i + m))) = ?a + m \<and> pr_up (ps ! (i + m)) - pr_lo (ps ! (i + m)) = word_of_int delta"
    if "m < j - i" for m
  proof -
    have "i + m < length ps" "uint (pr_up (ps ! (i + m))) - uint (pr_lo (ps ! (i + m))) = delta"
      using constantLoop_run [of "i + 1" "i + m" delta ps] j i that by (cases "m = 0"; simp add: delta_def)+
    then show ?thesis using constant_lo [OF so _ i, of m delta] j that diff by simp
  qed
  have lst: "j - i - 1 < j - i" "i + (j - i - 1) = j - 1" using ij by simp_all
  have "j - 1 < length ps" using m [OF lst(1)] lst(2) by simp
  then have jl: "j \<le> length ps" using ij by linarith
  have hi: "unat (pr_lo (ps ! (j - 1))) = ?a + (j - i - 1)"
    by (rule m [OF lst(1), unfolded lst(2), THEN conjunct2, THEN conjunct1])
  have sg: "set ?seg = (\<lambda>m. ps ! (i + m)) ` {..<j - i}" by (rule set_slice_nth) (use jl ij in auto)
  have nd: "int16_of delta \<noteq> upperLower"
  proof
    assume e: "int16_of delta = upperLower"
    have "(word_of_int delta :: u16) = word_of_int (int16_of delta)" by (simp add: int16_of_def)
    also have "\<dots> = 0x4000" unfolding e by (simp add: upperLower_def)
    finally have "pr_up (ps ! i) - pr_lo (ps ! i) = 0x4000" using diff [OF delta_def [THEN meta_eq_to_obj_eq, symmetric]] by simp
    then show False using ok nth_mem [OF i] by (auto simp: foldable_def)
  qed
  have map: "apply_range ?r c = pairs_map ?seg c" if c: "in_range ?r c" for c
  proof -
    have b: "?a \<le> unat c" "unat c \<le> ?a + (j - i - 1)" using c hi by (auto simp: in_range_def word_le_nat_alt)
    define k where "k = unat c - ?a"
    have k: "k < j - i" using b ij by (simp add: k_def)
    have mem: "ps ! (i + k) \<in> set ?seg" using k by (auto simp: sg)
    have c': "c = pr_lo (ps ! (i + k))" using m [OF k] b(1) by (intro unsigned_word_eqI [where ?'a = nat]) (simp add: k_def)
    have "pairs_map ?seg c = pr_up (ps ! (i + k))" using pairs_map_in [OF lo_sorted_slice [OF so] mem] c' by simp
    also have "\<dots> = c + word_of_int delta" using m [OF k] c' by (simp add: algebra_simps)
    also have "\<dots> = word_of_int (uint c + int16_of delta)" by (simp add: int16_of_def wi_hom_syms)
    finally show ?thesis using nd by (simp add: apply_range_def)
  qed
  have "stands_for ?r ?seg"
    unfolding stands_for_def using last_slice [OF ij jl] map m hi by (auto simp: sg in_range_def word_le_nat_alt)
  then show ?thesis using ij jl by blast
qed

section \<open>The whole table\<close>

lemma compressFrom_ok:
  "lo_sorted ps \<Longrightarrow> foldable ps \<Longrightarrow> i \<le> length ps \<Longrightarrow>
   sorted_wrt range_before (compressFrom ps i) \<and>
   (\<forall>s \<in> set (compressFrom ps i). Lo s \<le> Hi s \<and> (\<forall>q \<in> set (take i ps). pr_lo q < Lo s)) \<and>
   (\<forall>c. ranges_map (compressFrom ps i) c = pairs_map (drop i ps) c)"
proof (induction ps i rule: compressFrom.induct)
  case (1 ps i)
  note so = "1.prems"(1) and ok = "1.prems"(2)
  show ?case
  proof (cases "i < length ps")
    case False
    then show ?thesis by (simp add: compressFrom.simps [of ps i] ranges_map_def pairs_map_def)
  next
    case i: True
    show ?thesis
    proof (cases "2 \<le> alternatingRunEnd ps i - i")
      case True
      let ?j = "alternatingRunEnd ps i"
      let ?r = "\<lparr>Lo = pr_up (ps ! i), Hi = pr_lo (ps ! (?j - 1)), Delta = upperLower\<rparr>"
      have eq: "compressFrom ps i = ?r # compressFrom ps ?j"
        using i True by (subst compressFrom.simps) (simp only: Let_def if_True)
      have run: "stands_for ?r (slice i (?j - i) ps)" "\<forall>q \<in> set (take i ps). pr_lo q < Lo ?r"
        and j: "i < ?j" "?j \<le> length ps"
        using alternating_stands [OF so ok i refl True] True by auto
      note rest = "1.IH"(1) [OF i refl True so ok j(2)]
      show ?thesis unfolding eq
        by (intro conjI; rule stands_for_step [OF so run(1) j run(2) rest [THEN conjunct1]
              rest [THEN conjunct2, THEN conjunct1] rest [THEN conjunct2, THEN conjunct2]])
    next
      case False
      let ?j = "constantRunEnd ps i" and ?d = "int16_of (uint (pr_up (ps ! i)) - uint (pr_lo (ps ! i)))"
      let ?r = "\<lparr>Lo = pr_lo (ps ! i), Hi = pr_lo (ps ! (?j - 1)), Delta = ?d\<rparr>"
      have eq: "compressFrom ps i = ?r # compressFrom ps ?j"
        using i False by (subst compressFrom.simps) (simp only: Let_def if_True if_False)
      have run: "stands_for ?r (slice i (?j - i) ps)" and j: "i < ?j" "?j \<le> length ps"
        using constant_stands [OF so ok i refl] by auto
      have "pr_lo q < pr_lo (ps ! i)" if "q \<in> set (take i ps)" for q
      proof -
        have "\<exists>n < i. q = ps ! n" using that by (auto simp: in_set_conv_nth)
        then show ?thesis using lo_sorted_nth [OF so _ i] by blast
      qed
      then have before: "\<forall>q \<in> set (take i ps). pr_lo q < Lo ?r" by simp
      note rest = "1.IH"(2) [OF i refl False refl so ok j(2)]
      show ?thesis unfolding eq
        by (intro conjI; rule stands_for_step [OF so run j before rest [THEN conjunct1]
              rest [THEN conjunct2, THEN conjunct1] rest [THEN conjunct2, THEN conjunct2]])
    qed
  qed
qed

lemma foldl_distinct: "distinct (map fst base) \<Longrightarrow> distinct (map fst (foldl applyException base exs))"
proof (induction exs arbitrary: base)
  case (Cons e exs)
  have "distinct (map fst (applyException base e))"
    using Cons.prems by (auto simp: applyException_def distinct_update distinct_delete split: option.split)
  then show ?case using Cons.IH by simp
qed simp

section \<open>The map\<close>

text \<open>What an exception does to the map.\<close>

definition except :: "(u16 \<rightharpoonup> u16) \<Rightarrow> exception \<Rightarrow> (u16 \<rightharpoonup> u16)" where
  "except m e =
     (if ex_add e then m(ex_from e := (if ex_from e = ex_to e then None else Some (ex_to e)))
      else if m (ex_from e) = Some (ex_to e) then m(ex_from e := None) else m)"

lemma applyException_map: "map_of (applyException base e) = except (map_of base) e"
  by (auto simp: applyException_def except_def update_conv delete_conv split: option.split)

lemma foldl_map: "map_of (foldl applyException base exs) = foldl except (map_of base) exs"
  by (induction exs arbitrary: base) (simp_all add: applyException_map)

lemma lo_sorted_applied: "distinct (map fst base) \<Longrightarrow> lo_sorted (applyExceptions base exs)"
proof -
  assume d: "distinct (map fst base)"
  let ?f = "foldl applyException base exs" and ?p = "\<lambda>(lo, up). \<lparr>pr_lo = lo, pr_up = up\<rparr>"
  let ?xs = "map ?p (filter (\<lambda>(lo, up). lo \<noteq> up) ?f)"
  have "map pr_lo ?xs = map fst (filter (\<lambda>(lo, up). lo \<noteq> up) ?f)" by auto
  then have "distinct (map pr_lo ?xs)" using foldl_distinct [OF d, of exs] by (simp only: distinct_map_filter)
  moreover have "mset (map pr_lo (sort_key pr_lo ?xs)) = mset (map pr_lo ?xs)" by (simp only: mset_map mset_sort)
  ultimately have "distinct (map pr_lo (sort_key pr_lo ?xs))" using mset_eq_imp_distinct_iff by blast
  then have "sorted_wrt (<) (map pr_lo (sort_key pr_lo ?xs))" by (simp add: strict_sorted_iff)
  then show ?thesis by (simp add: lo_sorted_def applyExceptions_def sorted_wrt_map)
qed

lemma pairs_map_applied:
  assumes d: "distinct (map fst base)"
  shows "pairs_map (applyExceptions base exs) c = (case foldl except (map_of base) exs c of None \<Rightarrow> c | Some u \<Rightarrow> u)"
proof -
  let ?f = "foldl applyException base exs"
  have mem: "\<lparr>pr_lo = lo, pr_up = up\<rparr> \<in> set (applyExceptions base exs) \<longleftrightarrow> (lo, up) \<in> set ?f \<and> lo \<noteq> up" for lo up
    by (auto simp: applyExceptions_def image_iff)
  have mo: "(lo, up) \<in> set ?f \<longleftrightarrow> foldl except (map_of base) exs lo = Some up" for lo up
    using foldl_distinct [OF d, of exs] by (simp add: foldl_map [symmetric])
  show ?thesis
  proof (cases "\<exists>u. foldl except (map_of base) exs c = Some u \<and> c \<noteq> u")
    case True
    then obtain u where u: "foldl except (map_of base) exs c = Some u" "c \<noteq> u" by blast
    then have "\<lparr>pr_lo = c, pr_up = u\<rparr> \<in> set (applyExceptions base exs)" using mem mo by blast
    from pairs_map_in [OF lo_sorted_applied [OF d] this] show ?thesis using u by simp
  next
    case False
    have "c \<notin> pr_lo ` set (applyExceptions base exs)"
    proof
      assume "c \<in> pr_lo ` set (applyExceptions base exs)"
      then obtain p where p: "p \<in> set (applyExceptions base exs)" "c = pr_lo p" by blast
      have "\<lparr>pr_lo = c, pr_up = pr_up p\<rparr> = p" using p(2) by simp
      then have "\<lparr>pr_lo = c, pr_up = pr_up p\<rparr> \<in> set (applyExceptions base exs)" using p(1) by (simp only:)
      then show False using False mem mo by blast
    qed
    from pairs_map_out [OF this] show ?thesis using False by (auto split: option.split)
  qed
qed

text \<open>
  What the search in the packed ranges finds: where the pairs after the exceptions are \<open>foldable\<close>, the ranges are
  non-empty, disjoint and ascending, and for every code unit the search gives what the map with the exceptions gives.
\<close>

lemma searched_table:
  assumes "distinct (map fst base)" "foldable (applyExceptions base exs)"
  shows "sorted_wrt range_before (compress (applyExceptions base exs)) \<and>
    (case binarySearchFunc (compress (applyExceptions base exs)) c range_cmp of (i, ok) \<Rightarrow>
       if \<not> ok then c else apply_range (compress (applyExceptions base exs) ! i) c) =
    (case foldl except (map_of base) exs c of None \<Rightarrow> c | Some u \<Rightarrow> u)"
proof -
  let ?ps = "applyExceptions base exs"
  have ok: "sorted_wrt range_before (compress ?ps)" "ranges_map (compress ?ps) c = pairs_map ?ps c"
    using compressFrom_ok [OF lo_sorted_applied [OF assms(1)] assms(2), of 0] by (simp_all add: compress_def)
  have "range_table (compress ?ps)" by unfold_locales (rule ok(1))
  from range_table.search [OF this, of c] show ?thesis
    using ok pairs_map_applied [OF assms(1)] by simp
qed

end
