(* ===== verification/FoldingFile.thy ===== *)
theory FoldingFile
  imports CaseTableGen GoIO
begin

text \<open>
  The input of the table generator: \<open>parseFolding\<close> of internal/casetablegen/main.go reads the Unicode file
  CaseFolding.txt, and \<open>genTable\<close> is what \<open>main\<close> computes from it. A Go string is the sequence of its runes:
  all the code looks for are ASCII characters and white space. The format of the file (\<open>fileText\<close>) is the
  specification: lines with a folding, its status and a comment, among comment lines and blank ones.
\<close>

section \<open>Package strings and strconv\<close>

text \<open>\<open>unicode.IsSpace\<close>\<close>

definition isSpace :: "rune \<Rightarrow> bool" where
  "isSpace r \<longleftrightarrow> 0x09 \<le> r \<and> r \<le> 0x0D \<or> r = 0x20 \<or> r = 0x85 \<or> r = 0xA0 \<or> r = 0x1680 \<or> 0x2000 \<le> r \<and> r \<le> 0x200A \<or>
     r = 0x2028 \<or> r = 0x2029 \<or> r = 0x202F \<or> r = 0x205F \<or> r = 0x3000"

definition trimSpace :: "gostring \<Rightarrow> gostring" where
  "trimSpace s = rev (dropWhile isSpace (rev (dropWhile isSpace s)))"

function stringFields :: "gostring \<Rightarrow> gostring list" where
  "stringFields s =
     (case dropWhile isSpace s of [] \<Rightarrow> []
      | c # cs \<Rightarrow> (c # takeWhile (\<lambda>r. \<not> isSpace r) cs) # stringFields (dropWhile (\<lambda>r. \<not> isSpace r) cs))"
  by pat_completeness auto
termination
proof (relation "measure length")
  fix s c cs assume "dropWhile isSpace s = c # cs"
  then have "Suc (length cs) \<le> length s" by (metis length_Cons length_dropWhile_le)
  then show "(dropWhile (\<lambda>r. \<not> isSpace r) cs, s) \<in> measure length"
    using length_dropWhile_le [of "\<lambda>r. \<not> isSpace r" cs] by simp
qed auto

declare stringFields.simps [simp del]

text \<open>\<open>strconv.ParseUint(s, 16, 32)\<close>, with \<open>None\<close> for its errors.\<close>

definition hexVal :: "rune \<Rightarrow> nat option" where
  "hexVal c =
     (if 0x30 \<le> c \<and> c \<le> 0x39 then Some (c - 0x30)
      else if 0x61 \<le> c \<and> c \<le> 0x66 then Some (c - 0x61 + 10)
      else if 0x41 \<le> c \<and> c \<le> 0x46 then Some (c - 0x41 + 10)
      else None)"

fun parseUint_loop :: "nat \<Rightarrow> gostring \<Rightarrow> nat option" where
  "parseUint_loop n [] = Some n"
| "parseUint_loop n (c # cs) =
     (case hexVal c of None \<Rightarrow> None
      | Some d \<Rightarrow> if 2 ^ 32 \<le> 16 * n + d then None else parseUint_loop (16 * n + d) cs)"

definition parseUint :: "gostring \<Rightarrow> nat option" where
  "parseUint s = (if s = [] then None else parseUint_loop 0 s)"

section \<open>parseFolding\<close>

text \<open>
  One line of the file: nothing, or the entry \<open>out[dst] = src\<close> it asks for. \<open>strings.Fields(fields[2])[0]\<close>
  panics on a blank third field.
\<close>

definition parseLine :: "gostring \<Rightarrow> goerr + (u16 \<times> u16) option" where
  "parseLine line =
     (let line = trimSpace (takeWhile (\<lambda>r. r \<noteq> 0x23) line) in
      if line = [] then Inr None
      else
       let fs = splitOn 0x3B line in
       if length fs < 3 then Inr None
       else
        let status = trimSpace (fs ! 1) in
        if status \<noteq> [0x43] \<and> status \<noteq> [0x53] then Inr None
        else
         case parseUint (trimSpace (fs ! 0)) of None \<Rightarrow> Inr None
         | Some src \<Rightarrow>
          case stringFields (fs ! 2) of [] \<Rightarrow> Inl Panic
          | f # rest \<Rightarrow>
           case parseUint (trimSpace f) of None \<Rightarrow> Inr None
           | Some dst \<Rightarrow>
             if 0xFFFF < src \<or> 0xFFFF < dst then Inr None else Inr (Some (word_of_nat dst, word_of_nat src)))"

text \<open>The map the lines fill; an entry that is there is kept.\<close>

definition addFolding :: "folding \<Rightarrow> u16 \<times> u16 \<Rightarrow> folding" where
  "addFolding out e = (if map_of out (fst e) = None then out @ [e] else out)"

fun parseLines :: "gostring list \<Rightarrow> folding \<Rightarrow> goerr + folding" where
  "parseLines [] out = Inr out"
| "parseLines (l # ls) out =
     bindE (parseLine l) (\<lambda>r. parseLines ls (case r of None \<Rightarrow> out | Some e \<Rightarrow> addFolding out e))"

definition parseFolding :: "gostring \<Rightarrow> goerr + folding" where
  "parseFolding body = parseLines (splitOn 0x0A body) []"

text \<open>\<open>main\<close> without its input and output.\<close>

definition genTable :: "gostring \<Rightarrow> goerr + caseRange list" where
  "genTable body = bindE (parseFolding body) (\<lambda>m. Inr (compress (applyExceptions m vistaExceptions)))"

section \<open>The format of the file\<close>

datatype foldStatus = StatusC | StatusF | StatusS | StatusT

record foldEntry =
  fo_code :: nat
  fo_status :: foldStatus
  fo_mapping :: "nat list"
  fo_name :: gostring

primrec statusText :: "foldStatus \<Rightarrow> rune" where
  "statusText StatusC = 0x43"
| "statusText StatusF = 0x46"
| "statusText StatusS = 0x53"
| "statusText StatusT = 0x54"

definition digitText :: "nat \<Rightarrow> rune" where
  "digitText d = (if d < 10 then 0x30 + d else 0x37 + d)"

primrec hexDigits :: "nat \<Rightarrow> nat \<Rightarrow> gostring" where
  "hexDigits 0 n = []"
| "hexDigits (Suc k) n = digitText (n div 16 ^ k) # hexDigits k (n mod 16 ^ k)"

text \<open>Code points in four digits, or more where they need them.\<close>

definition codeText :: "nat \<Rightarrow> gostring" where
  "codeText n = hexDigits (if n < 16 ^ 4 then 4 else if n < 16 ^ 5 then 5 else 6) n"

fun codesText :: "nat list \<Rightarrow> gostring" where
  "codesText [] = []"
| "codesText [n] = codeText n"
| "codesText (n # ns) = codeText n @ 0x20 # codesText ns"

definition lineText :: "foldEntry \<Rightarrow> gostring" where
  "lineText e = codeText (fo_code e) @ [0x3B, 0x20, statusText (fo_status e), 0x3B, 0x20] @ codesText (fo_mapping e) @
     [0x3B, 0x20, 0x23, 0x20] @ fo_name e"

text \<open>
  The lines of the file: foldings, comments (the head of the file and its explanations), which may be
  indented, and blank lines, which may hold white space.
\<close>

datatype foldLine = FoldingLine foldEntry | CommentLine gostring gostring | BlankLine gostring

primrec foldLineText :: "foldLine \<Rightarrow> gostring" where
  "foldLineText (FoldingLine e) = lineText e"
| "foldLineText (CommentLine indent s) = indent @ 0x23 # s"
| "foldLineText (BlankLine ws) = ws"

definition fileText :: "foldLine list \<Rightarrow> gostring" where
  "fileText ls = concat (map (\<lambda>l. foldLineText l @ [0x0A]) ls)"

definition fold_ok :: "foldEntry \<Rightarrow> bool" where
  "fold_ok e \<longleftrightarrow> fo_code e < 16 ^ 6 \<and> fo_mapping e \<noteq> [] \<and> (\<forall>n \<in> set (fo_mapping e). n < 16 ^ 6) \<and> 0x0A \<notin> set (fo_name e)"

primrec foldLine_ok :: "foldLine \<Rightarrow> bool" where
  "foldLine_ok (FoldingLine e) \<longleftrightarrow> fold_ok e"
| "foldLine_ok (CommentLine indent s) \<longleftrightarrow> list_all isSpace indent \<and> 0x0A \<notin> set indent \<and> 0x0A \<notin> set s"
| "foldLine_ok (BlankLine ws) \<longleftrightarrow> list_all isSpace ws \<and> 0x0A \<notin> set ws"

primrec line_folding :: "foldLine \<Rightarrow> foldEntry list" where
  "line_folding (FoldingLine e) = [e]"
| "line_folding (CommentLine indent s) = []"
| "line_folding (BlankLine ws) = []"

definition foldings :: "foldLine list \<Rightarrow> foldEntry list" where
  "foldings ls = concat (map line_folding ls)"

text \<open>The foldings of a single code unit to a single code unit, from the folded one to the other.\<close>

definition simple_fold :: "foldEntry \<Rightarrow> (u16 \<times> u16) option" where
  "simple_fold e =
     (if (fo_status e = StatusC \<or> fo_status e = StatusS) \<and> fo_code e \<le> 0xFFFF \<and> hd (fo_mapping e) \<le> 0xFFFF
      then Some (word_of_nat (hd (fo_mapping e)), word_of_nat (fo_code e)) else None)"

definition simple_folds :: "foldEntry list \<Rightarrow> (u16 \<times> u16) list" where
  "simple_folds es = List.map_filter simple_fold es"

section \<open>Reading numbers back\<close>

lemma digitText_val: "d < 16 \<Longrightarrow> hexVal (digitText d) = Some d"
  by (auto simp: hexVal_def digitText_def)

lemma digitText_plain: "d < 16 \<Longrightarrow> \<not> isSpace (digitText d) \<and> digitText d \<noteq> 0x23 \<and> digitText d \<noteq> 0x3B \<and> digitText d \<noteq> 0x0A"
  by (auto simp: digitText_def isSpace_def)

lemma hexDigits_parse:
  "n < 16 ^ k \<Longrightarrow> acc * 16 ^ k + n < 2 ^ 32 \<Longrightarrow> parseUint_loop acc (hexDigits k n) = Some (acc * 16 ^ k + n)"
proof (induction k arbitrary: acc n)
  case (Suc k)
  let ?d = "n div 16 ^ k" and ?m = "n mod 16 ^ k"
  have d: "?d < 16" using Suc.prems(1) by (simp add: less_mult_imp_div_less)
  have e: "acc * 16 ^ Suc k + n = (16 * acc + ?d) * 16 ^ k + ?m" by (simp add: algebra_simps)
  have lt: "(16 * acc + ?d) * 16 ^ k + ?m < 2 ^ 32" using Suc.prems(2) unfolding e .
  have "16 * acc + ?d \<le> (16 * acc + ?d) * 16 ^ k" by simp
  then have "16 * acc + ?d < 2 ^ 32" using lt by linarith
  then show ?case
    using Suc.IH [of ?m "16 * acc + ?d"] lt e by (simp add: digitText_val [OF d])
qed simp

lemma hexDigits_plain: "n < 16 ^ k \<Longrightarrow> r \<in> set (hexDigits k n) \<Longrightarrow> \<not> isSpace r \<and> r \<noteq> 0x23 \<and> r \<noteq> 0x3B \<and> r \<noteq> 0x0A"
proof (induction k arbitrary: n)
  case (Suc k)
  have "n div 16 ^ k < 16" using Suc.prems(1) by (simp add: less_mult_imp_div_less)
  moreover have "n mod 16 ^ k < 16 ^ k" by simp
  ultimately show ?case using Suc.IH [of "n mod 16 ^ k"] Suc.prems(2) digitText_plain [of "n div 16 ^ k"] by auto
qed simp

lemma codeText_ok:
  assumes "n < 16 ^ 6"
  shows "parseUint (codeText n) = Some n" "codeText n \<noteq> []"
    "r \<in> set (codeText n) \<Longrightarrow> \<not> isSpace r \<and> r \<noteq> 0x23 \<and> r \<noteq> 0x3B \<and> r \<noteq> 0x0A"
proof -
  define k where "k = (if n < 16 ^ 4 then 4 else if n < 16 ^ 5 then 5 else 6 :: nat)"
  have k: "n < 16 ^ k" "k \<noteq> 0" using assms by (simp_all add: k_def)
  have c: "codeText n = hexDigits k n" by (simp add: codeText_def k_def)
  show ne: "codeText n \<noteq> []" unfolding c using k(2) by (cases k) auto
  have "n < 2 ^ 32" using assms by simp
  then show "parseUint (codeText n) = Some n" using ne hexDigits_parse [OF k(1), of 0] by (simp add: parseUint_def c)
  show "\<not> isSpace r \<and> r \<noteq> 0x23 \<and> r \<noteq> 0x3B \<and> r \<noteq> 0x0A" if "r \<in> set (codeText n)"
    using hexDigits_plain [OF k(1)] that c by simp
qed

section \<open>Reading lines back\<close>

lemma dropWhile_none: "(\<forall>x \<in> set xs. \<not> P x) \<Longrightarrow> dropWhile P xs = xs"
  by (cases xs) auto

lemma trimSpace_plain: "\<forall>r \<in> set s. \<not> isSpace r \<Longrightarrow> trimSpace s = s"
  by (simp add: trimSpace_def dropWhile_none)

lemma trimSpace_front: "isSpace r \<Longrightarrow> trimSpace (r # s) = trimSpace s"
  by (simp add: trimSpace_def)

lemma isSpace_blank [simp]: "isSpace 0x20" "\<not> isSpace 0x3B" "\<not> isSpace (statusText st)" "statusText st \<noteq> 0x23" "statusText st \<noteq> 0x3B" "statusText st \<noteq> 0x0A"
  by (cases st; simp add: isSpace_def)+

lemma trimSpace_ends: "s \<noteq> [] \<Longrightarrow> \<not> isSpace (hd s) \<Longrightarrow> \<not> isSpace (last s) \<Longrightarrow> trimSpace (s @ [0x20]) = s"
proof -
  assume s: "s \<noteq> []" "\<not> isSpace (hd s)" "\<not> isSpace (last s)"
  then obtain x xs where x: "s = x # xs" by (cases s) auto
  obtain y ys where y: "rev s = y # ys" using s(1) by (cases "rev s") auto
  then have "\<not> isSpace y" using s(3) by (metis hd_rev list.sel(1))
  then show ?thesis using s(2) x y by (simp add: trimSpace_def) (metis append_Cons dropWhile.simps(2) rev.simps(2) rev_rev_ident)
qed

lemma codesText_chars: "\<forall>n \<in> set ns. n < 16 ^ 6 \<Longrightarrow> r \<in> set (codesText ns) \<Longrightarrow> r \<noteq> 0x23 \<and> r \<noteq> 0x3B \<and> r \<noteq> 0x0A"
  by (induction ns rule: codesText.induct) (use codeText_ok(3) in auto)

lemma fields_codes:
  assumes "ns \<noteq> []" "\<forall>n \<in> set ns. n < 16 ^ 6"
  shows "\<exists>rest. stringFields (0x20 # codesText ns) = codeText (hd ns) # rest"
proof -
  obtain n ms where ns: "ns = n # ms" using assms(1) by (cases ns) auto
  have n: "n < 16 ^ 6" using assms(2) ns by simp
  obtain c cs where c: "codeText n = c # cs" using codeText_ok(2) [OF n] by (cases "codeText n") auto
  have plain: "\<not> isSpace c" "\<forall>r \<in> set cs. \<not> isSpace r" using codeText_ok(3) [OF n] by (auto simp: c)
  obtain t where t: "codesText ns = c # cs @ t" "t = [] \<or> (\<exists>u. t = 0x20 # u)"
    using c by (cases ms) (auto simp: ns)
  have d: "dropWhile isSpace (0x20 # codesText ns) = c # cs @ t" using t(1) plain by simp
  have "takeWhile (\<lambda>r. \<not> isSpace r) (cs @ t) = cs" using plain(2) t(2) by (auto simp: takeWhile_append)
  then have "stringFields (0x20 # codesText ns) = codeText n # stringFields (dropWhile (\<lambda>r. \<not> isSpace r) (cs @ t))"
    by (subst stringFields.simps) (simp only: d list.case c)
  then show ?thesis by (simp add: ns)
qed

lemma parseLine_text:
  assumes "fold_ok e"
  shows "parseLine (lineText e) = Inr (simple_fold e)"
proof -
  let ?a = "codeText (fo_code e)" and ?m = "codesText (fo_mapping e)" and ?s = "statusText (fo_status e)"
  have ok: "fo_code e < 16 ^ 6" "fo_mapping e \<noteq> []" "\<forall>n \<in> set (fo_mapping e). n < 16 ^ 6" using assms by (simp_all add: fold_ok_def)
  note a = codeText_ok [OF ok(1)]
  have m: "r \<noteq> 0x23 \<and> r \<noteq> 0x3B" if "r \<in> set ?m" for r using codesText_chars [OF ok(3) that] by simp
  let ?l = "?a @ [0x3B, 0x20, ?s, 0x3B, 0x20] @ ?m @ [0x3B]"
  have "takeWhile (\<lambda>r. r \<noteq> 0x23) (lineText e) = ?l @ [0x20]"
  proof -
    have "lineText e = (?l @ [0x20]) @ 0x23 # 0x20 # fo_name e" by (simp add: lineText_def)
    moreover have "\<forall>r \<in> set (?l @ [0x20]). r \<noteq> 0x23" using a(3) m by auto
    ultimately show ?thesis by (simp only: takeWhile_append2 takeWhile.simps) simp
  qed
  moreover have "trimSpace (?l @ [0x20]) = ?l" using a(2,3) by (intro trimSpace_ends) (auto simp: hd_append intro: hd_in_set)
  ultimately have l: "trimSpace (takeWhile (\<lambda>r. r \<noteq> 0x23) (lineText e)) = ?l" by simp
  have "0x3B \<notin> set ?a" using a(3) by blast
  then have "splitOn 0x3B ?l = ?a # splitOn 0x3B ([0x20, ?s] @ 0x3B # [0x20] @ ?m @ [0x3B])" by (simp add: splitOn_append del: splitOn.simps)
  also have "\<dots> = ?a # [0x20, ?s] # splitOn 0x3B ((0x20 # ?m) @ 0x3B # [])" by (subst splitOn_append) simp_all
  also have "\<dots> = [?a, [0x20, ?s], 0x20 # ?m, []]" by (subst splitOn_append) (use m in auto)
  finally have sp: "splitOn 0x3B ?l = [?a, [0x20, ?s], 0x20 # ?m, []]" .
  obtain rest where f: "stringFields (0x20 # ?m) = codeText (hd (fo_mapping e)) # rest" using fields_codes [OF ok(2,3)] by blast
  have h: "hd (fo_mapping e) < 16 ^ 6" using ok(2,3) by simp
  have t: "trimSpace ?a = ?a" "trimSpace [0x20, ?s] = [?s]" "trimSpace (codeText (hd (fo_mapping e))) = codeText (hd (fo_mapping e))"
    using a(3) codeText_ok(3) [OF h] by (auto simp: trimSpace_front trimSpace_plain)
  show ?thesis
    unfolding parseLine_def Let_def l sp using f t a(1) codeText_ok(1) [OF h]
    by (cases "fo_status e") (simp_all add: simple_fold_def)
qed

lemma trimSpace_blank: "list_all isSpace ws \<Longrightarrow> trimSpace ws = []"
  by (simp add: trimSpace_def list_all_iff dropWhile_eq_Nil_conv [THEN iffD2])

text \<open>Comment lines and blank lines ask for nothing.\<close>

lemma parseLine_blank:
  assumes "list_all isSpace ws"
  shows "parseLine ws = Inr None" and "parseLine (ws @ 0x23 # s) = Inr None"
proof -
  have ws: "\<forall>r \<in> set ws. r \<noteq> 0x23" using assms by (auto simp: list_all_iff isSpace_def)
  then have "takeWhile (\<lambda>r. r \<noteq> 0x23) ws = ws" "takeWhile (\<lambda>r. r \<noteq> 0x23) (ws @ 0x23 # s) = ws" by simp_all
  then show "parseLine ws = Inr None" "parseLine (ws @ 0x23 # s) = Inr None"
    using trimSpace_blank [OF assms] by (simp_all only: parseLine_def Let_def simp_thms if_True)
qed

lemma parseLine_line:
  "foldLine_ok l \<Longrightarrow> parseLine (foldLineText l) = Inr (case l of FoldingLine e \<Rightarrow> simple_fold e | _ \<Rightarrow> None)"
  by (cases l) (simp_all add: parseLine_text parseLine_blank)

lemma parseLines_text:
  "list_all foldLine_ok ls \<Longrightarrow> parseLines (map foldLineText ls @ [[]]) out = Inr (foldl addFolding out (simple_folds (foldings ls)))"
proof (induction ls arbitrary: out)
  case Nil
  then show ?case by (simp add: parseLine_blank simple_folds_def foldings_def map_filter_simps)
next
  case (Cons l ls)
  then show ?case
    by (cases l) (simp_all add: parseLine_line simple_folds_def foldings_def map_filter_simps del: foldLineText.simps split: option.split)
qed

lemma foldLineText_newline: "foldLine_ok l \<Longrightarrow> 0x0A \<notin> set (foldLineText l)"
proof (cases l)
  case (FoldingLine e)
  assume "foldLine_ok l"
  then have ok: "fold_ok e" by (simp add: FoldingLine)
  then show ?thesis
    using codeText_ok(3) [of "fo_code e" "0x0A"] codesText_chars [of "fo_mapping e" "0x0A"] isSpace_blank(6) [of "fo_status e"]
    by (auto simp: FoldingLine lineText_def fold_ok_def)
qed auto

lemma splitOn_file: "list_all foldLine_ok ls \<Longrightarrow> splitOn 0x0A (fileText ls) = map foldLineText ls @ [[]]"
proof (induction ls)
  case (Cons l ls)
  then show ?case using foldLineText_newline [of l] by (simp add: fileText_def splitOn_append)
qed (simp add: fileText_def)

lemma parseFolding_file:
  "list_all foldLine_ok ls \<Longrightarrow> parseFolding (fileText ls) = Inr (foldl addFolding [] (simple_folds (foldings ls)))"
  by (simp add: parseFolding_def splitOn_file parseLines_text)

lemma addFolding_keys: "distinct (map fst out) \<Longrightarrow> distinct (map fst (foldl addFolding out es))"
  by (induction es arbitrary: out) (auto simp: addFolding_def map_of_eq_None_iff)

lemma addFolding_map: "map_of (foldl addFolding out es) = map_of (out @ es)"
proof (induction es arbitrary: out)
  case (Cons e es)
  have "map_of (addFolding out e @ es) = map_of (out @ e # es)"
    by (cases e) (auto simp: addFolding_def map_add_def fun_eq_iff split: option.splits)
  then show ?case using Cons by simp
qed simp

section \<open>The generated table\<close>

text \<open>C35: the generator is right from its input on: for a file in the format of CaseFolding.txt, folding lines
  among comment lines and blank lines in any order, it does not fail, and
  where the foldings after the exceptions are \<open>foldable\<close>, the ranges are non-empty, disjoint and ascending, so that
  the binary search of \<open>toUpper\<close> applies to them, and for every code unit that search gives what the file's first
  simple folding to it gives, with the exceptions of MS-CFB.\<close>

theorem generated_table_exact:
  assumes "list_all foldLine_ok ls"
    and "foldable (applyExceptions (foldl addFolding [] (simple_folds (foldings ls))) vistaExceptions)"
  shows "\<exists>rs. genTable (fileText ls) = Inr rs \<and> sorted_wrt range_before rs \<and>
    (\<forall>c. (case binarySearchFunc rs c range_cmp of (i, ok) \<Rightarrow> if \<not> ok then c else apply_range (rs ! i) c) =
      (case foldl except (map_of (simple_folds (foldings ls))) vistaExceptions c of None \<Rightarrow> c | Some u \<Rightarrow> u))"
proof -
  let ?m = "foldl addFolding [] (simple_folds (foldings ls))"
  have d: "distinct (map fst ?m)" by (rule addFolding_keys) simp
  show ?thesis
    using searched_table [OF d assms(2)] parseFolding_file [OF assms(1)] addFolding_map [of "[]" "simple_folds (foldings ls)"]
    by (simp add: genTable_def)
qed

definition sample_folds :: "foldLine list" where
  "sample_folds =
     [CommentLine [] [0x20, 0x43, 0x46, 0x3B, 0x43],
      BlankLine [],
      FoldingLine \<lparr>fo_code = 0x41, fo_status = StatusC, fo_mapping = [0x61], fo_name = [0x4C, 0x23]\<rparr>,
      FoldingLine \<lparr>fo_code = 0xDF, fo_status = StatusF, fo_mapping = [0x73, 0x73], fo_name = []\<rparr>,
      CommentLine [0x20] [],
      FoldingLine \<lparr>fo_code = 0x10400, fo_status = StatusC, fo_mapping = [0x10428], fo_name = []\<rparr>,
      FoldingLine \<lparr>fo_code = 0x1FFC, fo_status = StatusS, fo_mapping = [0x1FF3], fo_name = []\<rparr>,
      BlankLine [0x20, 0x0D]]"

theorem generated_table_exact_witness:
  "\<exists>rs. genTable (fileText sample_folds) = Inr rs \<and>
    (case binarySearchFunc rs 0x61 range_cmp of (i, ok) \<Rightarrow> if \<not> ok then 0x61 else apply_range (rs ! i) 0x61) = (0x41 :: u16)"
proof -
  have ok: "list_all foldLine_ok sample_folds" by (simp add: sample_folds_def fold_ok_def isSpace_def)
  have s: "simple_folds (foldings sample_folds) = [(0x61, 0x41), (0x1FF3, 0x1FFC)]"
    by (simp add: simple_folds_def foldings_def sample_folds_def simple_fold_def List.map_filter_simps)
  have f: "foldable (applyExceptions (foldl addFolding [] (simple_folds (foldings sample_folds))) vistaExceptions)"
    unfolding s by (simp add: foldable_def applyExceptions_def applyException_def addFolding_def vistaExceptions_def)
  obtain rs where "genTable (fileText sample_folds) = Inr rs"
    "(case binarySearchFunc rs 0x61 range_cmp of (i, ok) \<Rightarrow> if \<not> ok then 0x61 else apply_range (rs ! i) 0x61) =
     (case foldl except (map_of (simple_folds (foldings sample_folds))) vistaExceptions 0x61 of None \<Rightarrow> 0x61 | Some u \<Rightarrow> u)"
    using generated_table_exact [OF ok f] by blast
  then show ?thesis unfolding s by (simp add: except_def vistaExceptions_def)
qed

end
