(* ===== verification/Guid.thy ===== *)
theory Guid
  imports Bytes
begin

unbundle bit_operations_syntax

text \<open>
  Package internal/guid: \<open>Parse\<close> and \<open>Format\<close> between the text of a GUID and its 16 bytes, whose first three
  fields are little-endian. A Go string is a sequence of bytes, and \<open>Parse\<close> indexes it by byte, so it is one
  here, too; its only error is \<open>None\<close>. The package encoding/hex is written out.
\<close>

section \<open>Hexadecimal digits\<close>

definition hexDigit :: "u8 \<Rightarrow> u8" where
  "hexDigit n = (if n < 10 then 0x30 + n else 0x57 + n)"

definition fromHexChar :: "u8 \<Rightarrow> u8 option" where
  "fromHexChar c =
     (if 0x30 \<le> c \<and> c \<le> 0x39 then Some (c - 0x30)
      else if 0x61 \<le> c \<and> c \<le> 0x66 then Some (c - 0x61 + 10)
      else if 0x41 \<le> c \<and> c \<le> 0x46 then Some (c - 0x41 + 10)
      else None)"

fun hexEncode :: "bytes \<Rightarrow> bytes" where
  "hexEncode [] = []"
| "hexEncode (v # vs) = hexDigit (drop_bit 4 v) # hexDigit (v AND 0x0F) # hexEncode vs"

fun hexDecode :: "bytes \<Rightarrow> bytes option" where
  "hexDecode [] = Some []"
| "hexDecode [c] = None"
| "hexDecode (p # q # s) =
     (case fromHexChar p of None \<Rightarrow> None
      | Some a \<Rightarrow>
        case fromHexChar q of None \<Rightarrow> None
        | Some b \<Rightarrow> map_option ((#) (push_bit 4 a OR b)) (hexDecode s))"

definition upperASCII :: "u8 \<Rightarrow> u8" where
  "upperASCII c = (if 0x61 \<le> c \<and> c \<le> 0x7A then c - 0x20 else c)"

section \<open>Parse and Format\<close>

text \<open>\<open>slices.Reverse\<close> of the first three fields.\<close>

definition swapFields :: "bytes \<Rightarrow> bytes" where
  "swapFields b = rev (slice 0 4 b) @ rev (slice 4 2 b) @ rev (slice 6 2 b) @ drop 8 b"

definition hasDashes :: "bytes \<Rightarrow> bool" where
  "hasDashes src \<longleftrightarrow> length src = 36 \<and> src ! 8 = 0x2D \<and> src ! 13 = 0x2D \<and> src ! 18 = 0x2D \<and> src ! 23 = 0x2D"

definition undash :: "bytes \<Rightarrow> bytes" where
  "undash src = slice 0 8 src @ slice 9 4 src @ slice 14 4 src @ slice 19 4 src @ drop 24 src"

definition guidParse :: "bytes \<Rightarrow> bytes option" where
  "guidParse s =
     (let src = (if s \<noteq> [] \<and> hd s = 0x7B \<and> last s = 0x7D then slice 1 (length s - 2) s else s) in
      let parsed = (\<lambda>src. map_option swapFields (hexDecode src)) in
      if hasDashes src then parsed (undash src)
      else if length src = 32 then parsed src
      else None)"

definition guidFormat :: "bytes \<Rightarrow> bytes" where
  "guidFormat b =
     (let h = map upperASCII (hexEncode (swapFields b)) in
      slice 0 8 h @ [0x2D] @ slice 8 4 h @ [0x2D] @ slice 12 4 h @ [0x2D] @ slice 16 4 h @ [0x2D] @ slice 20 12 h)"

section \<open>Digits and bytes\<close>

lemma fromHexChar_digit: "n < 16 \<Longrightarrow> (fromHexChar c = Some n) = (upperASCII c = upperASCII (hexDigit n))"
  unfolding fromHexChar_def upperASCII_def hexDigit_def
  by (auto simp: word_less_nat_alt word_le_nat_alt unat_arith_simps word_unat_eq_iff split: if_splits)

lemma fromHexChar_less: "fromHexChar c = Some n \<Longrightarrow> n < 16"
  unfolding fromHexChar_def
  by (auto simp: word_less_nat_alt word_le_nat_alt unat_arith_simps split: if_splits)

lemma nibbles: "drop_bit 4 v < (16 :: u8)" "(v :: u8) AND 0x0F < 16" "push_bit 4 (drop_bit 4 v) OR (v AND 0x0F) = (v :: u8)"
proof -
  have m: "(0x0F :: u8) = mask 4" by (simp add: mask_eq_exp_minus_1)
  show "(v :: u8) AND 0x0F < 16" unfolding m by (simp add: word_less_nat_alt unsigned_and_eq flip: take_bit_eq_mask) (simp add: take_bit_eq_mod unat_mod)
  show "drop_bit 4 v < (16 :: u8)"
  proof -
    have "unat v < 2 ^ LENGTH(8)" by (rule unsigned_less)
    then show ?thesis by (simp add: word_less_nat_alt drop_bit_eq_div unat_div less_mult_imp_div_less)
  qed
  show "push_bit 4 (drop_bit 4 v) OR (v AND 0x0F) = v"
    unfolding m by (rule bit_word_eqI) (auto simp: bit_simps)
qed

lemma nibbles_eq:
  assumes "a < (16 :: u8)" "b < 16"
  shows "push_bit 4 a OR b = v \<longleftrightarrow> a = drop_bit 4 v \<and> b = v AND 0x0F"
proof -
  have m: "(0x0F :: u8) = mask 4" by (simp add: mask_eq_exp_minus_1)
  have hi: "\<not> bit x n" if "x < 16" "4 \<le> n" for x :: u8 and n
  proof
    assume "bit x n"
    moreover have "take_bit 4 x = x"
      using that(1) by (intro unsigned_word_eqI [where ?'a = nat]) (simp add: unsigned_take_bit_eq take_bit_eq_mod word_less_nat_alt unat_mod)
    ultimately show False using that(2) by (metis bit_take_bit_iff not_le)
  qed
  show ?thesis
  proof
    assume v: "push_bit 4 a OR b = v"
    show "a = drop_bit 4 v \<and> b = v AND 0x0F" unfolding v [symmetric] m
      using hi [OF assms(1)] hi [OF assms(2)] by (auto intro!: bit_word_eqI simp: bit_simps) (meson not_le)+
  next
    assume "a = drop_bit 4 v \<and> b = v AND 0x0F"
    then show "push_bit 4 a OR b = v" using nibbles(3) by simp
  qed
qed

lemma hexDecode_iff: "hexDecode s = Some b \<longleftrightarrow> map upperASCII s = map upperASCII (hexEncode b)"
proof (induction b arbitrary: s)
  case Nil
  show ?case by (cases s rule: hexDecode.cases) (auto split: option.split)
next
  case (Cons v vs)
  show ?case
  proof (cases s rule: hexDecode.cases)
    case (3 p q s')
    have "hexDecode s = Some (v # vs) \<longleftrightarrow> fromHexChar p = Some (drop_bit 4 v) \<and> fromHexChar q = Some (v AND 0x0F) \<and> hexDecode s' = Some vs"
      using fromHexChar_less [of p] fromHexChar_less [of q] nibbles_eq [of _ _ v]
      by (auto simp: 3 split: option.splits)
    then show ?thesis using Cons fromHexChar_digit nibbles by (simp add: 3)
  qed auto
qed

lemma length_hexEncode [simp]: "length (hexEncode b) = 2 * length b"
  by (induction b) auto

section \<open>Dashes and braces\<close>

definition dash :: "bytes \<Rightarrow> bytes" where
  "dash h = slice 0 8 h @ [0x2D] @ slice 8 4 h @ [0x2D] @ slice 12 4 h @ [0x2D] @ slice 16 4 h @ [0x2D] @ slice 20 12 h"

lemma undash_dash:
  assumes "length h = 32"
  shows "undash (dash h) = h" "hasDashes (dash h)"
proof -
  have parts: "slice 0 8 h @ slice 8 4 h @ slice 12 4 h @ slice 16 4 h @ slice 20 12 h = h"
    using assms by (intro nth_equalityI) (auto simp: nth_append slice_nth)
  show "undash (dash h) = h" using assms parts by (simp add: undash_def dash_def slice_def)
  show "hasDashes (dash h)" using assms by (simp add: hasDashes_def dash_def nth_append)
qed

lemma dash_undash:
  assumes "hasDashes x"
  shows "dash (undash x) = x" "length (undash x) = 32"
proof -
  have l: "length x = 36" using assms by (simp add: hasDashes_def)
  then show "length (undash x) = 32" by (simp add: undash_def)
  have one: "slice i 1 x = [x ! i]" if "i < 36" for i
    using that l by (intro nth_equalityI) (simp_all add: slice_nth)
  have "slice 0 8 x @ slice 8 1 x @ slice 9 4 x @ slice 13 1 x @ slice 14 4 x @ slice 18 1 x @ slice 19 4 x @
      slice 23 1 x @ slice 24 12 x = x"
    using l by (intro nth_equalityI) (auto simp: nth_append slice_nth, (rule arg_cong [of _ _ "(!) x"], arith)+)
  then have parts: "slice 0 8 x @ [x ! 8] @ slice 9 4 x @ [x ! 13] @ slice 14 4 x @ [x ! 18] @ slice 19 4 x @ [x ! 23] @ slice 24 12 x = x"
    by (simp only: one)
  show "dash (undash x) = x"
    using assms l parts by (simp add: undash_def dash_def slice_def hasDashes_def)
qed

section \<open>Parse is the inverse of Format\<close>

abbreviation upper :: "bytes \<Rightarrow> bytes" where
  "upper \<equiv> map upperASCII"

lemma upperASCII_same: "upperASCII c = 0x2D \<longleftrightarrow> c = 0x2D" "upperASCII c = 0x7B \<longleftrightarrow> c = 0x7B" "upperASCII c = 0x7D \<longleftrightarrow> c = 0x7D"
  by (auto simp: upperASCII_def word_le_nat_alt unat_arith_simps word_unat_eq_iff split: if_splits)

lemma upper_slice: "upper (slice i n x) = slice i n (upper x)"
  by (simp add: slice_def take_map drop_map)

lemma upper_undash: "upper (undash x) = undash (upper x)"
  by (simp add: undash_def upper_slice drop_map)

lemma upper_hasDashes: "hasDashes (upper x) = hasDashes x"
  by (auto simp: hasDashes_def upperASCII_same)

lemma no_brace: "c \<in> set (upper (hexEncode b)) \<Longrightarrow> c \<noteq> 0x7B"
proof (induction b)
  case (Cons v vs)
  have "upperASCII (hexDigit n) \<noteq> 0x7B" if "n < 16" for n
    using that unfolding upperASCII_same hexDigit_def
    by (auto simp: word_less_nat_alt unat_arith_simps word_unat_eq_iff)
  then show ?case using Cons nibbles(1,2) by auto
qed simp

lemma swapFields_swap: "length b = 16 \<Longrightarrow> swapFields (swapFields b) = b"
  by (intro nth_equalityI) (auto simp: swapFields_def nth_append slice_nth rev_nth)

lemma length_swapFields: "8 \<le> length b \<Longrightarrow> length (swapFields b) = length b"
  by (simp add: swapFields_def)

definition hexOf :: "bytes \<Rightarrow> bytes" where
  "hexOf b = upper (hexEncode (swapFields b))"

lemma guidFormat_dash: "guidFormat b = dash (hexOf b)"
  by (simp add: guidFormat_def dash_def hexOf_def Let_def)

lemma parse_hex:
  assumes "length d = 32"
  shows "map_option swapFields (hexDecode d) = Some b \<longleftrightarrow> length b = 16 \<and> upper d = hexOf b"
proof
  assume "map_option swapFields (hexDecode d) = Some b"
  then obtain c where c: "hexDecode d = Some c" "b = swapFields c" by auto
  have u: "upper d = upper (hexEncode c)" using c(1) hexDecode_iff by simp
  have "length (upper d) = length (upper (hexEncode c))" by (simp only: u)
  then have "length c = 16" using assms by simp
  then show "length b = 16 \<and> upper d = hexOf b" using u c(2) by (simp add: hexOf_def swapFields_swap length_swapFields)
next
  assume "length b = 16 \<and> upper d = hexOf b"
  then show "map_option swapFields (hexDecode d) = Some b"
    using hexDecode_iff [of d "swapFields b"] by (simp add: hexOf_def swapFields_swap)
qed

text \<open>The bare forms, and the four spellings of a GUID.\<close>

definition braced :: "bytes \<Rightarrow> bool" where
  "braced s \<longleftrightarrow> s \<noteq> [] \<and> hd s = 0x7B \<and> last s = 0x7D"

definition parseBare :: "bytes \<Rightarrow> bytes option" where
  "parseBare src = (if hasDashes src then map_option swapFields (hexDecode (undash src))
     else if length src = 32 then map_option swapFields (hexDecode src) else None)"

lemma guidParse_bare: "guidParse s = parseBare (if braced s then slice 1 (length s - 2) s else s)"
  by (simp add: guidParse_def parseBare_def braced_def Let_def)

definition guidSpellings :: "bytes \<Rightarrow> bytes list" where
  "guidSpellings b = (let f = guidFormat b; h = undash f in [f, h, [0x7B] @ f @ [0x7D], [0x7B] @ h @ [0x7D]])"

lemma length_hexOf: "length b = 16 \<Longrightarrow> length (hexOf b) = 32"
  by (simp add: hexOf_def length_swapFields)

lemma parseBare_iff: "parseBare src = Some b \<longleftrightarrow> length b = 16 \<and> (upper src = dash (hexOf b) \<or> upper src = hexOf b)"
proof (cases "hasDashes src")
  case True
  have "upper (undash src) = hexOf b \<longleftrightarrow> upper src = dash (hexOf b)" if "length b = 16"
    using True dash_undash(1) [of "upper src"] undash_dash(1) [OF length_hexOf [OF that]]
    by (simp add: upper_undash upper_hasDashes) metis
  moreover have "upper src \<noteq> hexOf b" if "length b = 16"
  proof
    assume "upper src = hexOf b"
    then have "length (upper src) = length (hexOf b)" by (simp only:)
    then show False using True length_hexOf [OF that] by (simp add: hasDashes_def)
  qed
  ultimately show ?thesis using parse_hex [OF dash_undash(2) [OF True]] True by (auto simp: parseBare_def)
next
  case False
  have "upper src \<noteq> dash (hexOf b)" if "length b = 16"
    using False undash_dash(2) [OF length_hexOf [OF that]] by (metis upper_hasDashes)
  moreover have "length src = 32" if "length b = 16" "upper src = hexOf b"
    using length_hexOf [OF that(1)] that(2) by (metis length_map)
  ultimately show ?thesis using parse_hex [of src b] False by (auto simp: parseBare_def)
qed

lemma spellings_set:
  "length b = 16 \<Longrightarrow> set (guidSpellings b) = {dash (hexOf b), hexOf b, [0x7B] @ dash (hexOf b) @ [0x7D], [0x7B] @ hexOf b @ [0x7D]}"
  by (simp add: guidSpellings_def Let_def guidFormat_dash undash_dash(1) [OF length_hexOf] insert_commute)

lemma not_braced:
  assumes "length b = 16"
  shows "0x7B # xs \<noteq> hexOf b" "0x7B # xs \<noteq> dash (hexOf b)"
proof -
  obtain h hs where h: "hexOf b = h # hs" using length_hexOf [OF assms] by (cases "hexOf b") auto
  have "h \<noteq> 0x7B" using no_brace [of h "swapFields b"] h by (simp add: hexOf_def [symmetric])
  moreover have "slice 0 8 (h # hs) = h # take 7 hs" by (simp add: slice_def)
  ultimately show "0x7B # xs \<noteq> hexOf b" "0x7B # xs \<noteq> dash (hexOf b)" by (auto simp: h dash_def)
qed

lemma braced_split: "braced s \<Longrightarrow> s = [0x7B] @ slice 1 (length s - 2) s @ [0x7D]"
proof -
  assume b: "braced s"
  then obtain c t where s: "s = c # t" by (cases s) (auto simp: braced_def)
  then have t: "t \<noteq> []" "c = 0x7B" "last t = 0x7D" using b by (auto simp: braced_def split: if_splits)
  then have "t = butlast t @ [0x7D]" by (metis append_butlast_last_id)
  moreover have "slice 1 (length s - 2) s = butlast t" by (simp add: s slice_def butlast_conv_take)
  ultimately show ?thesis using s t(2) by simp
qed

lemma upper_braced: "upper s = [0x7B] @ x @ [0x7D] \<Longrightarrow> braced s"
proof -
  assume u: "upper s = [0x7B] @ x @ [0x7D]"
  then have "s \<noteq> []" by auto
  then have "upperASCII (hd s) = hd (upper s)" "upperASCII (last s) = last (upper s)" by (simp_all add: hd_map last_map)
  then show ?thesis using u \<open>s \<noteq> []\<close> by (simp add: braced_def upperASCII_same)
qed

text \<open>C37: \<open>Parse\<close> accepts exactly the spellings of GUIDs, with or without dashes and with or without braces, in any
  case, and returns the 16 bytes that \<open>Format\<close> writes in that way.\<close>

theorem guidParse_exact: "(guidParse s = Some b) = (length b = 16 \<and> map upperASCII s \<in> set (guidSpellings b))"
proof (cases "braced s")
  case True
  let ?x = "slice 1 (length s - 2) s"
  have "upper s = 0x7B # upper ?x @ [0x7D]"
    using arg_cong [OF braced_split [OF True], of upper] by (simp add: upperASCII_same)
  then have "upper s \<in> set (guidSpellings b) \<longleftrightarrow> upper ?x = dash (hexOf b) \<or> upper ?x = hexOf b" if "length b = 16"
    using not_braced [OF that] by (simp add: spellings_set [OF that])
  then show ?thesis using True parseBare_iff [of ?x b] by (auto simp: guidParse_bare)
next
  case False
  then have "upper s \<noteq> [0x7B] @ x @ [0x7D]" for x using upper_braced by blast
  then have "upper s \<in> set (guidSpellings b) \<longleftrightarrow> upper s = dash (hexOf b) \<or> upper s = hexOf b" if "length b = 16"
    by (simp add: spellings_set [OF that])
  then show ?thesis using False parseBare_iff [of s b] by (auto simp: guidParse_bare)
qed

end
