(* ===== verification/CfbTest.thy ===== *)
theory CfbTest
  imports FsRoundTrip
begin

text \<open>
  The test oracle internal/cfbtest: \<open>fromReader\<close> describes a storage the reader has opened by an \<open>entry\<close> with the
  hash of each stream's bytes, \<open>compare\<close> looks for the first difference of two descriptions, and \<open>Equal\<close> fails a
  test where there is one. The hash is the parameter \<open>sha\<close>; \<open>t.Fatal\<close> ends the test, which is \<open>Inl\<close>. The
  theorems show what a passed test means.
\<close>

section \<open>Entries\<close>

datatype entryType = EntryTypeStorage | EntryTypeStream

record entryHead =
  eh_name :: gostring
  eh_type :: entryType
  eh_clsid :: bytes
  eh_stateBits :: u32
  eh_created :: gotime
  eh_modified :: gotime
  eh_size :: int
  eh_hash :: bytes

datatype testEntry = TestEntry (te_head: entryHead) (te_children: "testEntry list")

section \<open>compare\<close>

datatype mismatch = MisName | MisType | MisCLSID | MisStateBits | MisCreated | MisModified | MisSize | MisBytes | MisChildCount

definition compareHead :: "entryHead \<Rightarrow> entryHead \<Rightarrow> mismatch option" where
  "compareHead want got =
     (if eh_name want \<noteq> eh_name got then Some MisName
      else if eh_type want \<noteq> eh_type got then Some MisType
      else if eh_clsid want \<noteq> eh_clsid got then Some MisCLSID
      else if eh_stateBits want \<noteq> eh_stateBits got then Some MisStateBits
      else if eh_created want \<noteq> eh_created got then Some MisCreated
      else if eh_modified want \<noteq> eh_modified got then Some MisModified
      else if eh_type want = EntryTypeStream \<and> eh_size want \<noteq> eh_size got then Some MisSize
      else if eh_type want = EntryTypeStream \<and> eh_hash want \<noteq> eh_hash got then Some MisBytes
      else None)"

fun compareEntry :: "gostring \<Rightarrow> testEntry \<Rightarrow> testEntry \<Rightarrow> (gostring \<times> mismatch) option"
and compareChildren :: "gostring \<Rightarrow> testEntry list \<Rightarrow> testEntry list \<Rightarrow> (gostring \<times> mismatch) option" where
  "compareEntry path (TestEntry want ws) (TestEntry got gs) =
     (case compareHead want got of Some m \<Rightarrow> Some (path, m)
      | None \<Rightarrow>
        if eh_type want = EntryTypeStream then None
        else if length ws \<noteq> length gs then Some (path, MisChildCount)
        else compareChildren path ws gs)"
| "compareChildren path (w # ws) (g # gs) =
     (case compareEntry (path @ slash # eh_name (te_head w)) w g of Some e \<Rightarrow> Some e
      | None \<Rightarrow> compareChildren path ws gs)"
| "compareChildren path ws gs = None"

section \<open>hashStream\<close>

text \<open>\<open>io.Copy\<close> from the section reader of \<open>Stream.Open\<close> into the hash, in buffers of 32 KiB.\<close>

partial_function (option) copyHash :: "goerr readerAt \<Rightarrow> stream \<Rightarrow> int \<Rightarrow> bytes \<Rightarrow> (goerr + bytes) option" where
  "copyHash rd st off acc =
     (case sectionRead rd st off (32 * 2 ^ 10) of
        ((b, Some e), off) \<Rightarrow> Some (if e = EOF then Inr (acc @ b) else Inl e)
      | ((b, None), off) \<Rightarrow> copyHash rd st off (acc @ b))"

definition hashStream :: "(bytes \<Rightarrow> bytes) \<Rightarrow> goerr readerAt \<Rightarrow> stream \<Rightarrow> (goerr + bytes) option" where
  "hashStream sha rd st = map_option (\<lambda>r. bindE r (\<lambda>d. Inr (sha d))) (copyHash rd st 0 [])"

section \<open>fromReader and Equal\<close>

definition storageHead :: "storageInfo \<Rightarrow> entryHead" where
  "storageHead s = \<lparr>eh_name = stName s, eh_type = EntryTypeStorage, eh_clsid = stCLSID s, eh_stateBits = stStateBits s,
     eh_created = stCreated s, eh_modified = stModified s, eh_size = 0, eh_hash = replicate 32 0\<rparr>"

definition streamHead :: "stream \<Rightarrow> bytes \<Rightarrow> entryHead" where
  "streamHead st h = \<lparr>eh_name = smName st, eh_type = EntryTypeStream, eh_clsid = replicate 16 0, eh_stateBits = smStateBits st,
     eh_created = zeroTime, eh_modified = zeroTime, eh_size = smSize st, eh_hash = h\<rparr>"

fun bindOE :: "('e + 'a) option \<Rightarrow> ('a \<Rightarrow> ('e + 'b) option) \<Rightarrow> ('e + 'b) option" where
  "bindOE None f = None"
| "bindOE (Some (Inl e)) f = Some (Inl e)"
| "bindOE (Some (Inr x)) f = f x"

lemma bindOE_eq_Inr: "bindOE m f = Some (Inr y) \<longleftrightarrow> (\<exists>x. m = Some (Inr x) \<and> f x = Some (Inr y))"
  by (cases "(m, f)" rule: bindOE.cases) auto

fun fromReader :: "(bytes \<Rightarrow> bytes) \<Rightarrow> goerr readerAt \<Rightarrow> entry \<Rightarrow> (goerr + testEntry) option"
and fromEntries :: "(bytes \<Rightarrow> bytes) \<Rightarrow> goerr readerAt \<Rightarrow> entry list \<Rightarrow> (goerr + testEntry list) option" where
  "fromReader sha rd (StorageE s es) =
     bindOE (fromEntries sha rd es) (\<lambda>cs. Some (Inr (TestEntry (storageHead s) cs)))"
| "fromReader sha rd (StreamE st) =
     bindOE (hashStream sha rd st) (\<lambda>h. Some (Inr (TestEntry (streamHead st h) [])))"
| "fromEntries sha rd [] = Some (Inr [])"
| "fromEntries sha rd (e # es) =
     bindOE (fromReader sha rd e) (\<lambda>c. bindOE (fromEntries sha rd es) (\<lambda>cs. Some (Inr (c # cs))))"

text \<open>\<open>Equal\<close> of two storages: the difference it reports, if any.\<close>

definition equalTrees ::
  "(bytes \<Rightarrow> bytes) \<Rightarrow> goerr readerAt \<Rightarrow> entry \<Rightarrow> goerr readerAt \<Rightarrow> entry \<Rightarrow> (goerr + (gostring \<times> mismatch) option) option" where
  "equalTrees sha rd want rd' got =
     bindOE (fromReader sha rd want) (\<lambda>w. bindOE (fromReader sha rd' got) (\<lambda>g. Some (Inr (compareEntry [] w g))))"

section \<open>What compare compares\<close>

text \<open>What \<open>fromReader\<close> leaves at its zero value.\<close>

fun built :: "testEntry \<Rightarrow> bool" where
  "built (TestEntry h cs) \<longleftrightarrow>
     (if eh_type h = EntryTypeStream then cs = [] else eh_size h = 0 \<and> eh_hash h = replicate 32 0 \<and> list_all built cs)"

lemma fromReader_built:
  "fromReader sha rd e = Some (Inr t) \<Longrightarrow> built t"
  "fromEntries sha rd es = Some (Inr ts) \<Longrightarrow> list_all built ts"
  by (induction sha rd e and sha rd es arbitrary: t and ts rule: fromReader_fromEntries.induct)
    (auto simp: bindOE_eq_Inr storageHead_def streamHead_def)

lemma compareHead_None:
  "compareHead a b = None \<longleftrightarrow> eh_name a = eh_name b \<and> eh_type a = eh_type b \<and> eh_clsid a = eh_clsid b \<and>
     eh_stateBits a = eh_stateBits b \<and> eh_created a = eh_created b \<and> eh_modified a = eh_modified b \<and>
     (eh_type a = EntryTypeStream \<longrightarrow> eh_size a = eh_size b \<and> eh_hash a = eh_hash b)"
  by (auto simp: compareHead_def)

lemma compare_built:
  "built w \<Longrightarrow> built g \<Longrightarrow> compareEntry path w g = None \<longleftrightarrow> w = g"
  "list_all built ws \<Longrightarrow> list_all built gs \<Longrightarrow> length ws = length gs \<Longrightarrow> compareChildren path ws gs = None \<longleftrightarrow> ws = gs"
proof (induction path w g and path ws gs rule: compareEntry_compareChildren.induct)
  case (1 path want ws got gs)
  show ?case
  proof (cases "compareHead want got")
    case (Some m)
    then have "want \<noteq> got" by (auto simp: compareHead_def)
    then show ?thesis using Some by simp
  next
    case None
    show ?thesis
    proof (cases "eh_type want = EntryTypeStream")
      case True
      then have "want = got" using None by (intro entryHead.equality) (simp_all add: compareHead_None)
      moreover from this have "ws = []" "gs = []" using True "1.prems" by simp_all
      ultimately show ?thesis using None True by simp
    next
      case False
      then have b: "eh_size want = 0" "eh_hash want = replicate 32 0" "eh_size got = 0" "eh_hash got = replicate 32 0"
        "list_all built ws" "list_all built gs" using None "1.prems" by (simp_all add: compareHead_None)
      have h: "want = got" using None b by (intro entryHead.equality) (simp_all add: compareHead_None)
      show ?thesis using "1.IH" [OF None False _ b(5,6)] None False h by auto
    qed
  qed
qed (auto split: option.split)

section \<open>What a passed test means\<close>

text \<open>A tree whose streams can be read from \<open>src\<close>, and two trees with the same contents.\<close>

definition sound_in :: "bytes \<Rightarrow> entry \<Rightarrow> bool" where
  "sound_in src e \<longleftrightarrow> (\<forall>st \<in> set (entry_streams e). readable st \<and> (\<forall>a \<in> set (runs_addrs (smRuns st)). a < length src))"

definition streamContent :: "bytes \<Rightarrow> stream \<Rightarrow> bytes" where
  "streamContent src st = gather src (runs_addrs (smRuns st))"

fun same_tree :: "bytes \<Rightarrow> bytes \<Rightarrow> entry \<Rightarrow> entry \<Rightarrow> bool" where
  "same_tree src src' (StreamE a) (StreamE b) \<longleftrightarrow>
     smName a = smName b \<and> smStateBits a = smStateBits b \<and> streamContent src a = streamContent src' b"
| "same_tree src src' (StorageE s es) (StorageE s' es') \<longleftrightarrow> s = s' \<and> list_all2 (same_tree src src') es es'"
| "same_tree src src' (StreamE a) (StorageE s es) \<longleftrightarrow> False"
| "same_tree src src' (StorageE s es) (StreamE b) \<longleftrightarrow> False"

lemma take_drop_min: "slice n k xs @ drop (min (n + k) (length xs)) xs = drop n xs"
  by (cases "n + k \<le> length xs") (simp_all add: slice_def, metis add.commute append_take_drop_id drop_drop)

lemma copyHash_ok:
  assumes "reader_at rd src EOF" "readable st" "\<forall>a \<in> set (runs_addrs (smRuns st)). a < length src" "0 \<le> off" "off \<le> smSize st"
  shows "copyHash rd st off acc = Some (Inr (acc @ drop (nat off) (streamContent src st)))"
  using assms(4,5)
proof (induction "nat (smSize st - off)" arbitrary: off acc rule: less_induct)
  case less
  have st: "runs_ok 0 (smRuns st)" "smSize st = int (length (runs_addrs (smRuns st)))" using assms(2) by (simp_all add: readable_def)
  have len: "length (streamContent src st) = nat (smSize st)" using st by (simp add: streamContent_def gather_def)
  note r = sectionRead_ok [OF assms(1) st assms(3) less.prems(1), of "32 * 2 ^ 10", folded streamContent_def]
  show ?case
  proof (cases "smSize st \<le> off")
    case True
    then show ?thesis using r len by (subst copyHash.simps) simp
  next
    case False
    let ?k = "min (32 * 2 ^ 10) (nat (smSize st - off))" and ?off = "off + int (min (32 * 2 ^ 10) (nat (smSize st - off)))"
    have k: "0 < ?k" "int ?k \<le> smSize st - off" using False by auto
    have m: "nat (smSize st - ?off) < nat (smSize st - off)" "0 \<le> ?off" "?off \<le> smSize st"
      using k less.prems(1) by linarith+
    have "nat ?off = min (nat off + 32 * 2 ^ 10) (length (streamContent src st))" using False less.prems(1) len by auto
    then have "slice (nat off) (32 * 2 ^ 10) (streamContent src st) @ drop (nat ?off) (streamContent src st) = drop (nat off) (streamContent src st)"
      by (simp only: take_drop_min)
    then show ?thesis using r False less.hyps [OF m] by (subst copyHash.simps) simp
  qed
qed

lemma hashStream_ok:
  assumes "reader_at rd src EOF" "readable st" "\<forall>a \<in> set (runs_addrs (smRuns st)). a < length src"
  shows "hashStream sha rd st = Some (Inr (sha (streamContent src st)))"
proof -
  have "0 \<le> smSize st" using assms(2) by (simp add: readable_def)
  then show ?thesis using copyHash_ok [OF assms order_refl, of "[]"] by (simp add: hashStream_def)
qed

fun describe :: "(bytes \<Rightarrow> bytes) \<Rightarrow> bytes \<Rightarrow> entry \<Rightarrow> testEntry" where
  "describe sha src (StorageE s es) = TestEntry (storageHead s) (map (describe sha src) es)"
| "describe sha src (StreamE st) = TestEntry (streamHead st (sha (streamContent src st))) []"

lemma fromReader_ok:
  shows "reader_at rd src EOF \<Longrightarrow> sound_in src e \<Longrightarrow> fromReader sha rd e = Some (Inr (describe sha src e))"
    "reader_at rd src EOF \<Longrightarrow> (\<forall>e \<in> set es. sound_in src e) \<Longrightarrow> fromEntries sha rd es = Some (Inr (map (describe sha src) es))"
proof (induction sha rd e and sha rd es rule: fromReader_fromEntries.induct)
  case (1 sha rd s es)
  then show ?case by (simp add: sound_in_def)
next
  case (2 sha rd st)
  then show ?case using hashStream_ok [OF 2(1), of st sha] by (simp add: sound_in_def)
qed simp_all

lemma describe_same:
  assumes "inj_on sha (streamContent src ` set (entry_streams a) \<union> streamContent src' ` set (entry_streams b))" "sound_in src a" "sound_in src' b"
  shows "describe sha src a = describe sha src' b \<longleftrightarrow> same_tree src src' a b"
  using assms
proof (induction src src' a b rule: same_tree.induct)
  case (1 src src' a b)
  have "length (streamContent src a) = nat (smSize a)" "length (streamContent src' b) = nat (smSize b)" "0 \<le> smSize a" "0 \<le> smSize b"
    using "1.prems"(2,3) by (simp_all add: sound_in_def readable_def streamContent_def gather_def)
  then have "streamContent src a = streamContent src' b \<Longrightarrow> smSize a = smSize b" by (metis int_nat_eq)
  then show ?case using "1.prems"(1) by (auto simp: streamHead_def dest: inj_onD)
next
  case (2 src src' s es s' es')
  have h: "storageHead s = storageHead s' \<longleftrightarrow> s = s'" by (auto simp: storageHead_def intro: storageInfo.equality)
  have "describe sha src e = describe sha src' e' \<longleftrightarrow> same_tree src src' e e'" if "e \<in> set es" "e' \<in> set es'" for e e'
  proof (rule "2.IH" [OF that])
    show "sound_in src e" "sound_in src' e'" using "2.prems"(2,3) that by (auto simp: sound_in_def)
    show "inj_on sha (streamContent src ` set (entry_streams e) \<union> streamContent src' ` set (entry_streams e'))"
      using that by (intro inj_on_subset [OF "2.prems"(1)]) auto
  qed
  then have "list_all2 (\<lambda>e e'. describe sha src e = describe sha src' e') es es' = list_all2 (same_tree src src') es es'"
    by (intro list.rel_cong) auto
  moreover have "(map (describe sha src) es = map (describe sha src') es') = list_all2 (\<lambda>e e'. describe sha src e = describe sha src' e') es es'"
    by (auto simp: list_eq_iff_nth_eq list_all2_conv_all_nth)
  ultimately show ?case using h by simp
qed (simp_all add: storageHead_def streamHead_def)

text \<open>C36: The oracle is exact: for two files whose streams can be read, \<open>Equal\<close> ends, without \<open>Fatal\<close>, and finds
  no difference exactly when the two trees are the same, in order: storages with equal names, class ids, state bits and
  times, and streams with equal names, state bits and bytes. It relies on the hash only to keep apart the contents of
  the streams compared.\<close>

theorem equalTrees_exact:
  assumes "reader_at rd src EOF" "reader_at rd' src' EOF" "sound_in src want" "sound_in src' got"
    "inj_on sha (streamContent src ` set (entry_streams want) \<union> streamContent src' ` set (entry_streams got))"
  shows "\<exists>r. equalTrees sha rd want rd' got = Some (Inr r) \<and> (r = None \<longleftrightarrow> same_tree src src' want got)"
proof -
  note w = fromReader_ok(1) [OF assms(1,3), of sha] and g = fromReader_ok(1) [OF assms(2,4), of sha]
  show ?thesis
    using compare_built(1) [OF fromReader_built(1) [OF w] fromReader_built(1) [OF g], of "[]"] describe_same [OF assms(5,3,4)]
    by (simp add: equalTrees_def w g)
qed

definition oracle_entry :: "nat \<Rightarrow> entry" where
  "oracle_entry a = StorageE \<lparr>stName = [0x52], stCLSID = replicate 16 0, stStateBits = 0, stCreated = zeroTime, stModified = zeroTime\<rparr>
     [StreamE \<lparr>smName = [0x61], smStateBits = 5, smSize = 3, smRuns = [\<lparr>run_off = a, run_length = 3, run_start = 0\<rparr>]\<rparr>]"

theorem equalTrees_exact_witness:
  "\<exists>d. equalTrees (\<lambda>b. b) (bytesReaderAt EOF [1, 2, 3]) (oracle_entry 0) (bytesReaderAt EOF [9, 1, 2, 3]) (oracle_entry 1) = Some (Inr None) \<and>
    equalTrees (\<lambda>b. b) (bytesReaderAt EOF [1, 2, 3]) (oracle_entry 0) (bytesReaderAt EOF [9, 1, 2, 4]) (oracle_entry 1) = Some (Inr (Some d))"
proof -
  have so: "sound_in [1, 2, 3] (oracle_entry 0)" "sound_in [9, 1, 2, x] (oracle_entry 1)" for x
    by (simp_all add: sound_in_def oracle_entry_def readable_def runs_addrs_def run_addrs_def)
  have tree: "same_tree [1, 2, 3] [9, 1, 2, x] (oracle_entry 0) (oracle_entry 1) \<longleftrightarrow> x = 3" for x
    by (simp add: oracle_entry_def streamContent_def gather_def runs_addrs_def run_addrs_def upt_rec_numeral upt_conv_Cons eq_commute)
  have e: "\<exists>r. equalTrees (\<lambda>b. b) (bytesReaderAt EOF [1, 2, 3]) (oracle_entry 0) (bytesReaderAt EOF [9, 1, 2, x]) (oracle_entry 1) = Some (Inr r) \<and>
      (r = None \<longleftrightarrow> x = 3)" for x
    using equalTrees_exact [OF bytes_reader.reader_at_axioms bytes_reader.reader_at_axioms so(1) so(2) [of x] inj_on_id2]
    by (simp only: tree)
  from e [of 3] e [of 4] show ?thesis by auto
qed

end
