(* ===== verification/StructuredStorage.thy ===== *)
theory StructuredStorage
  imports GoTime CfbConsts
begin

text \<open>
  The binding internal/structuredstorage to the COM interfaces of ole32.dll. The library is the parameter \<open>ole32\<close>:
  its entry points and the methods of its interfaces as functions of the state \<open>'w\<close> of everything behind them,
  each with the result code \<open>r\<close>, what it stores through its pointer arguments, and the new state. A COM object is its
  address. The operations of the package are those functions with the code's arguments and checks. The theorems
  are about what the package adds: the enumeration of a storage, reading and writing a stream, and its times.

  A method that several COM interfaces have (\<open>Release\<close>, \<open>Commit\<close>, \<open>Stat\<close>, \<open>SetClass\<close>) is one field of \<open>ole32\<close>, which
  knows the object behind an address. Of STATSTG, STGOPTIONS and PROPSPEC the fields that the package neither
  reads nor sets to anything but a constant are left out.
\<close>

type_synonym ptr = u64

section \<open>The structures\<close>

datatype version = V3 | V4

record stgOptions =
  so_version :: u16
  so_sectorSize :: u32

text \<open>A FILETIME is its 64 bits.\<close>

record statstg =
  ss_pwcsName :: ptr
  ss_type :: u32
  ss_cbSize :: u64
  ss_mtime :: u64
  ss_ctime :: u64
  ss_clsid :: bytes
  ss_stateBits :: u32

record propvariant =
  pv_vt :: u16
  pv_val :: u64

record ssProp =
  pp_id :: u32
  pp_pv :: propvariant
  pp_pin :: bytes

record ssEntryInfo =
  ei_name :: gostring
  ei_type :: u32
  ei_size :: int
  ei_clsid :: bytes
  ei_stateBits :: u32
  ei_created :: gotime
  ei_modified :: gotime

definition typeStorage :: u32 where "typeStorage = 1"
definition typeStream :: u32 where "typeStream = 2"

definition stgmRead :: u32 where "stgmRead = 0x00000000"
definition stgmReadWrite :: u32 where "stgmReadWrite = 0x00000002"
definition stgmShareExcl :: u32 where "stgmShareExcl = 0x00000010"
definition stgmShareDenyWrite :: u32 where "stgmShareDenyWrite = 0x00000020"
definition stgmCreate :: u32 where "stgmCreate = 0x00001000"
definition stgmDirect :: u32 where "stgmDirect = 0x00000000"
definition stgfmtStorage :: u32 where "stgfmtStorage = 0"
definition stgfmtDocfile :: u32 where "stgfmtDocfile = 5"
definition propsetflagAnsi :: u32 where "propsetflagAnsi = 0x2"
definition prspecPropID :: u32 where "prspecPropID = 1"
definition propidNameFirst :: u32 where "propidNameFirst = 2"

definition ssVtI2 :: u16 where "ssVtI2 = 0x02"
definition ssVtI4 :: u16 where "ssVtI4 = 0x03"
definition ssVtUI4 :: u16 where "ssVtUI4 = 0x13"
definition ssVtLPSTR :: u16 where "ssVtLPSTR = 0x1E"
definition ssVtFiletime :: u16 where "ssVtFiletime = 0x40"

section \<open>The library\<close>

text \<open>
  \<open>ol_wide w p\<close> are the 16-bit units from \<open>p\<close> to the end of its allocation, \<open>ol_einval\<close> is
  the number of \<open>syscall.EINVAL\<close>. Reserved arguments, which the code passes as zero, are left out.
\<close>

type_synonym ('w, 'a) call = "'w \<Rightarrow> (u64 \<times> 'a) \<times> 'w"

record 'w ole32 =
  ol_einval :: nat
  ol_wide :: "'w \<Rightarrow> ptr \<Rightarrow> u16 list"
  stgCreateStorageEx :: "u16 list \<Rightarrow> u32 \<Rightarrow> u32 \<Rightarrow> stgOptions option \<Rightarrow> ('w, ptr) call"
  stgOpenStorageEx :: "u16 list \<Rightarrow> u32 \<Rightarrow> u32 \<Rightarrow> ('w, ptr) call"
  coTaskMemFree :: "ptr \<Rightarrow> 'w \<Rightarrow> 'w"
  com_release :: "ptr \<Rightarrow> 'w \<Rightarrow> 'w"
  com_queryInterface :: "ptr \<Rightarrow> nat \<Rightarrow> ('w, ptr) call"
  com_commit :: "ptr \<Rightarrow> ('w, unit) call"
  com_stat :: "ptr \<Rightarrow> ('w, statstg) call"
  stg_createStream :: "ptr \<Rightarrow> u16 list \<Rightarrow> u32 \<Rightarrow> ('w, ptr) call"
  stg_openStream :: "ptr \<Rightarrow> u16 list \<Rightarrow> u32 \<Rightarrow> ('w, ptr) call"
  stg_createStorage :: "ptr \<Rightarrow> u16 list \<Rightarrow> u32 \<Rightarrow> ('w, ptr) call"
  stg_openStorage :: "ptr \<Rightarrow> u16 list \<Rightarrow> u32 \<Rightarrow> ('w, ptr) call"
  stg_enumElements :: "ptr \<Rightarrow> ('w, ptr) call"
  stg_setElementTimes :: "ptr \<Rightarrow> u16 list option \<Rightarrow> u64 \<Rightarrow> u64 \<Rightarrow> u64 \<Rightarrow> ('w, unit) call"
  stg_setClass :: "ptr \<Rightarrow> bytes \<Rightarrow> ('w, unit) call"
  stg_setStateBits :: "ptr \<Rightarrow> u32 \<Rightarrow> u32 \<Rightarrow> ('w, unit) call"
  enum_next :: "ptr \<Rightarrow> nat \<Rightarrow> ('w, statstg \<times> u32) call"
  stm_read :: "ptr \<Rightarrow> nat \<Rightarrow> ('w, bytes) call"
  stm_write :: "ptr \<Rightarrow> bytes \<Rightarrow> ('w, u32) call"
  stm_seek :: "ptr \<Rightarrow> int \<Rightarrow> nat \<Rightarrow> ('w, u64) call"
  pss_create :: "ptr \<Rightarrow> bytes \<Rightarrow> bytes \<Rightarrow> u32 \<Rightarrow> u32 \<Rightarrow> ('w, ptr) call"
  ps_writeMultiple :: "ptr \<Rightarrow> (u32 \<times> u32) list \<Rightarrow> propvariant list \<Rightarrow> u32 \<Rightarrow> ('w, unit) call"

text \<open>\<open>if r != 0 { return ..., syscall.Errno(r) }\<close> after a call, and \<open>syscall.UTF16PtrFromString\<close> before one.\<close>

definition checked :: "(u64 \<times> 'a) \<times> 'w \<Rightarrow> (goerr + 'a) \<times> 'w" where
  "checked c = (case c of ((r, x), w) \<Rightarrow> (if r \<noteq> 0 then Inl (IOErr (unat r)) else Inr x, w))"

definition utf16Ptr :: "'w ole32 \<Rightarrow> gostring \<Rightarrow> goerr + u16 list" where
  "utf16Ptr ol s = (if 0 \<in> set s then Inl (IOErr (ol_einval ol)) else Inr (utf16_encode s))"

definition with_name :: "'w ole32 \<Rightarrow> gostring \<Rightarrow> (u16 list \<Rightarrow> 'w \<Rightarrow> (goerr + 'a) \<times> 'w) \<Rightarrow> 'w \<Rightarrow> (goerr + 'a) \<times> 'w" where
  "with_name ol name f w = (case utf16Ptr ol name of Inl e \<Rightarrow> (Inl e, w) | Inr p \<Rightarrow> f p w)"

section \<open>Times\<close>

definition filetimeToTime :: "u64 \<Rightarrow> gotime" where
  "filetimeToTime ft = (if ft = 0 then zeroTime else timeUnix0 (filetimeNanos ft))"

text \<open>A time argument: a zero time is a zero FILETIME.\<close>

definition timeArg :: "gotime \<Rightarrow> u64" where
  "timeArg t = (if isZero t then 0 else nsecToFiletime (unixNano t))"

section \<open>Create and Open\<close>

unbundle bit_operations_syntax

definition ssCreate :: "'w ole32 \<Rightarrow> gostring \<Rightarrow> version \<Rightarrow> 'w \<Rightarrow> (goerr + ptr) \<times> 'w" where
  "ssCreate ol path v = with_name ol path (\<lambda>p w.
     let mode = stgmReadWrite OR stgmShareExcl OR stgmCreate OR stgmDirect;
         opts = (if v = V4 then Some \<lparr>so_version = 1, so_sectorSize = 4096\<rparr> else None)
     in checked (stgCreateStorageEx ol p mode stgfmtDocfile opts w))"

definition ssOpen :: "'w ole32 \<Rightarrow> gostring \<Rightarrow> 'w \<Rightarrow> (goerr + ptr) \<times> 'w" where
  "ssOpen ol path = with_name ol path (\<lambda>p w. checked (stgOpenStorageEx ol p (stgmRead OR stgmShareDenyWrite) stgfmtStorage w))"

section \<open>Storage\<close>

definition stgClose :: "'w ole32 \<Rightarrow> ptr \<Rightarrow> 'w \<Rightarrow> 'w" where
  "stgClose ol s = com_release ol s"

definition stgCommit :: "'w ole32 \<Rightarrow> ptr \<Rightarrow> 'w \<Rightarrow> (goerr + unit) \<times> 'w" where
  "stgCommit ol s w = checked (com_commit ol s w)"

definition stgCreateStream :: "'w ole32 \<Rightarrow> ptr \<Rightarrow> gostring \<Rightarrow> 'w \<Rightarrow> (goerr + ptr) \<times> 'w" where
  "stgCreateStream ol s name = with_name ol name (\<lambda>p w. checked (stg_createStream ol s p (stgmReadWrite OR stgmShareExcl) w))"

definition stgOpenStream :: "'w ole32 \<Rightarrow> ptr \<Rightarrow> gostring \<Rightarrow> 'w \<Rightarrow> (goerr + ptr) \<times> 'w" where
  "stgOpenStream ol s name = with_name ol name (\<lambda>p w. checked (stg_openStream ol s p (stgmRead OR stgmShareExcl) w))"

definition stgCreateStorage :: "'w ole32 \<Rightarrow> ptr \<Rightarrow> gostring \<Rightarrow> 'w \<Rightarrow> (goerr + ptr) \<times> 'w" where
  "stgCreateStorage ol s name = with_name ol name (\<lambda>p w. checked (stg_createStorage ol s p (stgmReadWrite OR stgmShareExcl) w))"

definition stgOpenStorage :: "'w ole32 \<Rightarrow> ptr \<Rightarrow> gostring \<Rightarrow> 'w \<Rightarrow> (goerr + ptr) \<times> 'w" where
  "stgOpenStorage ol s name = with_name ol name (\<lambda>p w. checked (stg_openStorage ol s p (stgmRead OR stgmShareExcl) w))"

definition stgSetClass :: "'w ole32 \<Rightarrow> ptr \<Rightarrow> bytes \<Rightarrow> 'w \<Rightarrow> (goerr + unit) \<times> 'w" where
  "stgSetClass ol s clsid w = checked (stg_setClass ol s clsid w)"

definition stgSetStateBits :: "'w ole32 \<Rightarrow> ptr \<Rightarrow> u32 \<Rightarrow> 'w \<Rightarrow> (goerr + unit) \<times> 'w" where
  "stgSetStateBits ol s bits w = checked (stg_setStateBits ol s bits 0xFFFFFFFF w)"

definition stgSetElementTimes :: "'w ole32 \<Rightarrow> ptr \<Rightarrow> gostring \<Rightarrow> gotime \<Rightarrow> gotime \<Rightarrow> gotime \<Rightarrow> 'w \<Rightarrow> (goerr + unit) \<times> 'w" where
  "stgSetElementTimes ol s name created accessed modified w =
     (case (if name \<noteq> [] then map_sum id Some (utf16Ptr ol name) else Inr None) of
        Inl e \<Rightarrow> (Inl e, w)
      | Inr p \<Rightarrow> checked (stg_setElementTimes ol s p (timeArg created) (timeArg accessed) (timeArg modified) w))"

text \<open>\<open>utf16PtrToString\<close> on the memory at \<open>p\<close>; without a terminator it reads beyond the allocation (\<open>Panic\<close>).\<close>

fun wcslen :: "u16 list \<Rightarrow> nat option" where
  "wcslen [] = None"
| "wcslen (u # us) = (if u = 0 then Some 0 else map_option Suc (wcslen us))"

text \<open>
  \<open>syscall.UTF16ToString\<close> on the units before the terminator: surrogate pairs become their rune, and a
  surrogate without its partner, for which a string of runes has no place, is kept as WTF-8 encodes it, here its value.
\<close>

fun wtf16_decode :: "u16 list \<Rightarrow> gostring" where
  "wtf16_decode [] = []"
| "wtf16_decode (r # rest) =
     (case rest of
        r2 # rest' \<Rightarrow>
          (if 0xD800 \<le> r \<and> r < 0xDC00 \<and> 0xDC00 \<le> r2 \<and> r2 < 0xE000
           then decodeRune r r2 # wtf16_decode rest' else unat r # wtf16_decode rest)
      | [] \<Rightarrow> [unat r])"

definition utf16PtrToString :: "'w ole32 \<Rightarrow> 'w \<Rightarrow> ptr \<Rightarrow> goerr + gostring" where
  "utf16PtrToString ol w p =
     (if p = 0 then Inr []
      else case wcslen (ol_wide ol w p) of None \<Rightarrow> Inl Panic
        | Some n \<Rightarrow> Inr (wtf16_decode (take n (ol_wide ol w p))))"

definition entryFromStat :: "'w ole32 \<Rightarrow> statstg \<Rightarrow> 'w \<Rightarrow> (goerr + ssEntryInfo) \<times> 'w" where
  "entryFromStat ol st w =
     (case utf16PtrToString ol w (ss_pwcsName st) of Inl e \<Rightarrow> (Inl e, w)
      | Inr name \<Rightarrow>
        (Inr \<lparr>ei_name = name, ei_type = ss_type st, ei_size = sint (ss_cbSize st), ei_clsid = ss_clsid st,
           ei_stateBits = ss_stateBits st, ei_created = filetimeToTime (ss_ctime st), ei_modified = filetimeToTime (ss_mtime st)\<rparr>,
         coTaskMemFree ol (ss_pwcsName st) w))"

definition comStat :: "'w ole32 \<Rightarrow> ptr \<Rightarrow> 'w \<Rightarrow> (goerr + ssEntryInfo) \<times> 'w" where
  "comStat ol s w =
     (case checked (com_stat ol s w) of (Inl e, w) \<Rightarrow> (Inl e, w) | (Inr st, w) \<Rightarrow> entryFromStat ol st w)"

text \<open>The loop of \<open>Entries\<close>: it ends when the enumerator says so, or never.\<close>

partial_function (option) entries_loop ::
  "'w ole32 \<Rightarrow> ptr \<Rightarrow> ssEntryInfo list \<Rightarrow> 'w \<Rightarrow> ((goerr + ssEntryInfo list) \<times> 'w) option" where
  "entries_loop ol en out w =
     (case enum_next ol en 1 w of ((r, st, fetched), w) \<Rightarrow>
        if r \<noteq> 0 \<and> r \<noteq> 1 then Some (Inl (IOErr (unat r)), w)
        else if fetched = 0 then Some (Inr out, w)
        else case entryFromStat ol st w of (Inl e, w) \<Rightarrow> Some (Inl e, w)
          | (Inr i, w) \<Rightarrow> entries_loop ol en (out @ [i]) w)"

definition stgEntries :: "'w ole32 \<Rightarrow> ptr \<Rightarrow> 'w \<Rightarrow> ((goerr + ssEntryInfo list) \<times> 'w) option" where
  "stgEntries ol s w =
     (case checked (stg_enumElements ol s w) of (Inl e, w) \<Rightarrow> Some (Inl e, w)
      | (Inr en, w) \<Rightarrow> map_option (\<lambda>(r, w). (r, com_release ol en w)) (entries_loop ol en [] w))"

text \<open>\<open>QueryInterface\<close> for \<open>IPropertySetStorage\<close>, named by the first field of its identifier.\<close>

definition stgPropertySetStorage :: "'w ole32 \<Rightarrow> ptr \<Rightarrow> 'w \<Rightarrow> (goerr + ptr) \<times> 'w" where
  "stgPropertySetStorage ol s w = checked (com_queryInterface ol s 0x0000013A w)"

section \<open>Stream\<close>

definition stmRead :: "'w ole32 \<Rightarrow> ptr \<Rightarrow> nat \<Rightarrow> 'w \<Rightarrow> (bytes \<times> goerr option) \<times> 'w" where
  "stmRead ol s plen w =
     (if plen = 0 then (([], None), w)
      else case stm_read ol s plen w of ((r, b), w) \<Rightarrow>
        if r \<noteq> 0 \<and> r \<noteq> 1 then ((b, Some (IOErr (unat r))), w)
        else if b = [] then (([], Some EOF), w)
        else ((b, None), w))"

definition stmWrite :: "'w ole32 \<Rightarrow> ptr \<Rightarrow> bytes \<Rightarrow> 'w \<Rightarrow> (nat \<times> goerr option) \<times> 'w" where
  "stmWrite ol s p w =
     (if p = [] then ((0, None), w)
      else case stm_write ol s p w of ((r, written), w) \<Rightarrow>
        if r \<noteq> 0 then ((unat written, Some (IOErr (unat r))), w)
        else if unat written \<noteq> length p then ((unat written, Some ErrShortWrite), w)
        else ((unat written, None), w))"

definition stmSeek :: "'w ole32 \<Rightarrow> ptr \<Rightarrow> int \<Rightarrow> nat \<Rightarrow> 'w \<Rightarrow> (int \<times> goerr option) \<times> 'w" where
  "stmSeek ol s offset whence w =
     (case checked (stm_seek ol s offset whence w) of (Inl e, w) \<Rightarrow> ((0, Some e), w) | (Inr p, w) \<Rightarrow> ((sint p, None), w))"

section \<open>Property sets\<close>

definition pssCreate :: "'w ole32 \<Rightarrow> ptr \<Rightarrow> bytes \<Rightarrow> bytes \<Rightarrow> 'w \<Rightarrow> (goerr + ptr) \<times> 'w" where
  "pssCreate ol p fmtid clsid w =
     checked (pss_create ol p fmtid clsid propsetflagAnsi (stgmCreate OR stgmReadWrite OR stgmShareExcl) w)"

definition psCommit :: "'w ole32 \<Rightarrow> ptr \<Rightarrow> 'w \<Rightarrow> (goerr + unit) \<times> 'w" where
  "psCommit ol p w = checked (com_commit ol p w)"

definition psWriteMultiple :: "'w ole32 \<Rightarrow> ptr \<Rightarrow> ssProp list \<Rightarrow> 'w \<Rightarrow> (goerr + unit) \<times> 'w" where
  "psWriteMultiple ol p props w =
     (if props = [] then (Inr (), w)
      else checked (ps_writeMultiple ol p (map (\<lambda>pr. (prspecPropID, pp_id pr)) props) (map pp_pv props) propidNameFirst w))"

definition propI2 :: "u32 \<Rightarrow> u16 \<Rightarrow> ssProp" where
  "propI2 i v = \<lparr>pp_id = i, pp_pv = \<lparr>pv_vt = ssVtI2, pv_val = ucast v\<rparr>, pp_pin = []\<rparr>"

definition propI4 :: "u32 \<Rightarrow> u32 \<Rightarrow> ssProp" where
  "propI4 i v = \<lparr>pp_id = i, pp_pv = \<lparr>pv_vt = ssVtI4, pv_val = ucast v\<rparr>, pp_pin = []\<rparr>"

definition propUI4 :: "u32 \<Rightarrow> u32 \<Rightarrow> ssProp" where
  "propUI4 i v = \<lparr>pp_id = i, pp_pv = \<lparr>pv_vt = ssVtUI4, pv_val = ucast v\<rparr>, pp_pin = []\<rparr>"

definition propFiletime :: "u32 \<Rightarrow> gotime \<Rightarrow> ssProp" where
  "propFiletime i t = \<lparr>pp_id = i, pp_pv = \<lparr>pv_vt = ssVtFiletime, pv_val = timeArg t\<rparr>, pp_pin = []\<rparr>"

text \<open>The buffer of an LPSTR is at the address \<open>a\<close>.\<close>

definition propLPSTR :: "ptr \<Rightarrow> u32 \<Rightarrow> bytes \<Rightarrow> ssProp" where
  "propLPSTR a i s = \<lparr>pp_id = i, pp_pv = \<lparr>pv_vt = ssVtLPSTR, pv_val = a\<rparr>, pp_pin = s @ [0]\<rparr>"

section \<open>Times of the binding and of the package\<close>

text \<open>C39: The times of the binding against those of the package. What \<open>filetimeToTime\<close> makes of a FILETIME is what
  \<open>filetime.Decode\<close> makes of it exactly when it is zero or within 64-bit nanoseconds of 1970, that is from 1677 to 2262;
  beyond, it wraps. There, the FILETIME that \<open>SetElementTimes\<close> and \<open>PropFiletime\<close> pass for such a time is the same one.\<close>

theorem ss_filetime_exact:
  "(filetimeToTime ft = decodeFiletime ft \<longleftrightarrow> ft = 0 \<or> int64_ticks ft) \<and>
   (ft = 0 \<or> int64_ticks ft \<longrightarrow> timeArg (decodeFiletime ft) = ft)"
proof (cases "ft = 0")
  case True
  then show ?thesis by (simp add: filetimeToTime_def decodeFiletime_def timeArg_def isZero_def)
next
  case False
  let ?n = "(uint ft - unixEpochTicks) * 100"
  have "filetimeToTime ft = decodeFiletime ft \<longleftrightarrow> int64_ticks ft"
    using False by (simp only: filetimeToTime_def if_False decode_timeUnix0 [OF False] timeUnix0_inj filetimeNanos_word sint_word_of_int int64_ticks_iff)
  moreover have "timeArg (decodeFiletime ft) = ft" if "int64_ticks ft"
    using that False decode_not_zero [OF False] unixNano_timeUnix0 [of ?n] nsecToFiletime_ticks [of ft]
    unfolding int64_ticks_iff timeArg_def decode_timeUnix0 [OF False] by simp
  ultimately show ?thesis using False by simp
qed

theorem ss_filetime_exact_witness:
  "filetimeToTime 132223104000000000 = decodeFiletime 132223104000000000 \<and> timeArg (decodeFiletime 132223104000000000) = 132223104000000000 \<and>
   filetimeToTime 2650467744000000000 \<noteq> decodeFiletime 2650467744000000000"
  using ss_filetime_exact [of 132223104000000000] ss_filetime_exact [of 2650467744000000000]
  by (simp add: int64_ticks_def unixEpochTicks_def)

section \<open>Entries\<close>

text \<open>
  What an enumerator does that has the entries \<open>sts\<close> left: each call of \<open>Next\<close> for one element gives the next of them with a
  result of zero and a name the caller frees, and the call after the last gives \<open>S_FALSE\<close> and no element. Between the
  calls the code reads the name and frees it.
\<close>

definition stat_info :: "statstg \<Rightarrow> gostring \<Rightarrow> ssEntryInfo" where
  "stat_info st name = \<lparr>ei_name = name, ei_type = ss_type st, ei_size = sint (ss_cbSize st), ei_clsid = ss_clsid st,
     ei_stateBits = ss_stateBits st, ei_created = filetimeToTime (ss_ctime st), ei_modified = filetimeToTime (ss_mtime st)\<rparr>"

definition wide_string :: "'w ole32 \<Rightarrow> 'w \<Rightarrow> ptr \<Rightarrow> u16 list \<Rightarrow> bool" where
  "wide_string ol w p us \<longleftrightarrow> p \<noteq> 0 \<and> 0 \<notin> set us \<and> (\<exists>rest. ol_wide ol w p = us @ 0 # rest)"

inductive enumerates :: "'w ole32 \<Rightarrow> ptr \<Rightarrow> 'w \<Rightarrow> (statstg \<times> u16 list) list \<Rightarrow> 'w \<Rightarrow> bool" for ol en where
  enum_done: "enum_next ol en 1 w = ((1, st, 0), w') \<Longrightarrow> enumerates ol en w [] w'"
| enum_step: "enum_next ol en 1 w = ((0, st, 1), w1) \<Longrightarrow> wide_string ol w1 (ss_pwcsName st) us \<Longrightarrow>
    enumerates ol en (coTaskMemFree ol (ss_pwcsName st) w1) rest w' \<Longrightarrow> enumerates ol en w ((st, us) # rest) w'"


lemma wcslen_append: "0 \<notin> set us \<Longrightarrow> wcslen (us @ 0 # rest) = Some (length us)"
  by (induction us) auto

text \<open>A name that was encoded from runes comes back, as it does with \<open>utf16.Decode\<close>.\<close>

lemma wtf16_decode_rune_units: "valid_rune r \<Longrightarrow> wtf16_decode (rune_units r @ rest) = r # wtf16_decode rest"
proof (cases "r < 0x10000")
  case True
  moreover assume "valid_rune r"
  ultimately have u: "rune_units r = [word_of_nat r]" "unat (word_of_nat r :: u16) = r" "r < 0xD800 \<or> 0xE000 \<le> r"
    by (auto simp: rune_units_def appendRune_def valid_rune_def unsigned_of_nat take_bit_nat_eq_self_iff)
  then show ?thesis by (auto simp: word_le_nat_alt word_less_nat_alt split: list.split)
next
  case False
  moreover assume "valid_rune r"
  ultimately have r: "0x10000 \<le> r" "r \<le> 0x10FFFF" by (auto simp: valid_rune_def)
  then obtain h l where "encodeRune r = [h, l]" "0xD800 \<le> h" "h < 0xDC00" "0xDC00 \<le> l" "l < 0xE000" "decodeRune h l = r"
    by (rule encodeRune_pair)
  moreover have "rune_units r = encodeRune r" using r by (simp add: rune_units_def appendRune_def)
  ultimately show ?thesis by simp
qed

lemma wtf16_decode_encode: "\<forall>r \<in> set s. valid_rune r \<Longrightarrow> wtf16_decode (utf16_encode s) = s"
  by (induction s) (simp_all add: utf16_encode_concat wtf16_decode_rune_units)

lemma entryFromStat_ok:
  "wide_string ol w (ss_pwcsName st) us \<Longrightarrow>
   entryFromStat ol st w = (Inr (stat_info st (wtf16_decode us)), coTaskMemFree ol (ss_pwcsName st) w)"
  by (auto simp: entryFromStat_def utf16PtrToString_def wide_string_def wcslen_append stat_info_def)

lemma entries_loop_ok:
  "enumerates ol en w sts w' \<Longrightarrow>
   entries_loop ol en out w = Some (Inr (out @ map (\<lambda>(st, us). stat_info st (wtf16_decode us)) sts), w')"
proof (induction arbitrary: out rule: enumerates.induct)
  case (enum_done w st w')
  then show ?case by (subst entries_loop.simps) simp
next
  case (enum_step w st w1 us rest w')
  then show ?case by (subst entries_loop.simps) (simp add: entryFromStat_ok)
qed

text \<open>\<open>Entries\<close> ends and returns every child the enumerator has, once and in its order, with its name decoded, and
  after it every name has been freed, each right after it was read, and the enumerator released.\<close>

theorem stgEntries_exact:
  assumes "stg_enumElements ol s w = ((0, en), w1)" "enumerates ol en w1 sts w'"
  shows "stgEntries ol s w = Some (Inr (map (\<lambda>(st, us). stat_info st (wtf16_decode us)) sts), com_release ol en w')"
  using assms entries_loop_ok [OF assms(2), of "[]"] by (simp add: stgEntries_def checked_def)

text \<open>A library whose state counts the entries handed out, the names not yet freed and the enumerators not yet released.\<close>

definition sampleStat :: statstg where
  "sampleStat = \<lparr>ss_pwcsName = 7, ss_type = typeStream, ss_cbSize = 3, ss_mtime = 0, ss_ctime = 0, ss_clsid = replicate 16 0, ss_stateBits = 0\<rparr>"

definition sampleOle :: "(nat \<times> int \<times> int) ole32" where
  "sampleOle = \<lparr>ol_einval = 0, ol_wide = (\<lambda>w p. [0x61, 0x62, 0, 0x63]),
     stgCreateStorageEx = (\<lambda>a b c d w. ((1, 0), w)), stgOpenStorageEx = (\<lambda>a b c w. ((1, 0), w)),
     coTaskMemFree = (\<lambda>p (n, names, enums). (n, names - 1, enums)), com_release = (\<lambda>p (n, names, enums). (n, names, enums - 1)),
     com_queryInterface = (\<lambda>p i w. ((1, 0), w)), com_commit = (\<lambda>p w. ((0, ()), w)), com_stat = (\<lambda>p w. ((0, sampleStat), w)),
     stg_createStream = (\<lambda>p a b w. ((1, 0), w)), stg_openStream = (\<lambda>p a b w. ((1, 0), w)),
     stg_createStorage = (\<lambda>p a b w. ((1, 0), w)), stg_openStorage = (\<lambda>p a b w. ((1, 0), w)),
     stg_enumElements = (\<lambda>p (n, names, enums). ((0, 9), (n, names, enums + 1))),
     stg_setElementTimes = (\<lambda>p a b c d w. ((0, ()), w)), stg_setClass = (\<lambda>p a w. ((0, ()), w)), stg_setStateBits = (\<lambda>p a b w. ((0, ()), w)),
     enum_next = (\<lambda>p k (n, names, enums). if n < 2 then ((0, (sampleStat, 1)), (n + 1, names + 1, enums)) else ((1, (sampleStat, 0)), (n, names, enums))),
     stm_read = (\<lambda>p k w. ((0, []), w)), stm_write = (\<lambda>p b w. ((0, 0), w)), stm_seek = (\<lambda>p a b w. ((0, 0), w)),
     pss_create = (\<lambda>p a b c d w. ((1, 0), w)), ps_writeMultiple = (\<lambda>p a b c w. ((0, ()), w))\<rparr>"

theorem stgEntries_exact_witness:
  "\<exists>infos. stgEntries sampleOle 5 (0, 0, 0) = Some (Inr infos, (2, 0, 0)) \<and> map ei_name infos = [[0x61, 0x62], [0x61, 0x62]]"
proof -
  have w: "wide_string sampleOle v (ss_pwcsName sampleStat) [0x61, 0x62]" for v
    by (simp add: wide_string_def sampleOle_def sampleStat_def)
  have e: "enumerates sampleOle 9 (0, 0, 1) [(sampleStat, [0x61, 0x62]), (sampleStat, [0x61, 0x62])] (2, 0, 1)"
    by (rule enum_step [OF _ w], simp add: sampleOle_def)
      (rule enum_step [OF _ w], simp add: sampleOle_def, rule enum_done, simp add: sampleOle_def)
  have "stg_enumElements sampleOle 5 (0, 0, 0) = ((0, 9), (0, 0, 1))" by (simp add: sampleOle_def)
  from stgEntries_exact [OF this e] show ?thesis
    by (simp add: sampleOle_def stat_info_def)
qed

end
