(* ===== verification/Spec2Isabelle.thy ===== *)
theory Spec2Isabelle
  imports OpenFile ArchiveRoundTrip Device OleStream OleSafe FoldingFile Guid CfbTest StructuredStorage
begin

text \<open>
  A model of go-cfb, a reader and writer of Microsoft Compound File Binary files (package \<open>cfb\<close>),
  and the theorems that make it correct.

  A compound file is a header sector followed by numbered sectors of 512 or 4096 bytes. A file
  allocation table (FAT) links the sectors of each stream to a chain; the sectors of the FAT are
  listed by the header and by the sectors of the DIFAT. The directory is a chain of 128-byte
  entries, whose storages and streams are linked to a binary search tree per storage. Streams
  below 4096 bytes share the mini stream, which is itself a stream, in mini sectors of 64 bytes
  with a table of their own.

  Theories and the code they model:

  \<^item> \<open>Prelude\<close>, \<open>Bytes\<close>: fallible computations (\<open>bindE\<close>, \<open>mapE\<close>), slices; \<open>readBuf\<close> and \<open>writeBuf\<close>
    of reader.go and writer.go as little-endian codecs (locale \<open>le_codec\<close>).
  \<^item> \<open>GoStd\<close>: what the code uses of Go's library, with its contracts as locales: binary search
    (\<open>bsearch\<close>), \<open>slices.SortFunc\<close> over a comparison (\<open>comparator\<close>), UTF-16, and \<open>io.ReaderAt\<close>
    (\<open>reader_at\<close>, and \<open>strict_reader_at\<close> for readers that return no error with a full buffer).
  \<^item> \<open>CfbConsts\<close>: cfb.go and the errors; the checks of the Go runtime that can panic, \<open>index_at\<close> for an index into a
    slice and \<open>makeSlice\<close> for \<open>make\<close>. \<open>CaseTable\<close>, \<open>Names\<close>: casetable.go and name.go.
    \<open>Filetime\<close>: internal/filetime.
  \<^item> \<open>Header\<close>: \<open>parseHeader\<close>, \<open>validateHeader\<close>, \<open>checkFileSize\<close>, and what \<open>patchHeader\<close> writes.
  \<^item> \<open>Direntry\<close>: \<open>parseEntry\<close>, \<open>encodeDirentry\<close>. \<open>Chains\<close>: \<open>walkChain\<close>, \<open>computeFATCounts\<close>.
    \<open>ChainTable\<close>: \<open>writeChainTable\<close>.
  \<^item> \<open>Sectors\<close>: \<open>readSectors\<close>, \<open>readDIFAT\<close> and the batches all tables are read in. \<open>Runs\<close>:
    \<open>resolveRegularRuns\<close>, \<open>resolveMiniRuns\<close>, \<open>Stream.ReadAt\<close>. \<open>DirWalk\<close>: \<open>buildStorage\<close>, \<open>walkBST\<close>,
    \<open>buildStream\<close>, \<open>OpenStream\<close>, \<open>OpenStorage\<close>. \<open>Reader\<close>: \<open>NewReader\<close> as a whole.
  \<^item> \<open>Writer\<close>: \<open>Writer\<close>, \<open>StorageWriter\<close>, \<open>StreamWriter\<close> up to \<open>Writer.Close\<close>. \<open>WriterInv\<close>, \<open>WriterSteps\<close>:
    the invariant of sectors and contents, operation by operation. \<open>WriterReach\<close>: the storage
    tree, and the writer as a step relation whose steps interleave the rounds of concurrent
    writes. \<open>WriterStore\<close>: the writer refines a store of byte files.
  \<^item> \<open>Layout\<close>: \<open>linkBST\<close> and \<open>assignLayout\<close>; \<open>LayoutSpec\<close>: the sorted tree they lay out. \<open>Serializer\<close>:
    \<open>Writer.Close\<close> and all phases of \<open>serializer\<close>; the underlying writers are the record \<open>device\<close>. \<open>Emit\<close>,
    \<open>EmitFat\<close>, \<open>Close\<close>: what each phase appends on devices that take everything, up to the whole file
    (\<open>close_file\<close>). \<open>ReadBack\<close>, \<open>StreamBack\<close>, \<open>RoundTrip\<close>: each phase of \<open>NewReader\<close> on that file.

  \<^item> \<open>GoIO\<close>, \<open>FsView\<close>: fs.go, with the paths and the section reader of the standard library it uses (\<open>Read\<close>, \<open>Seek\<close>);
    \<open>FsRoundTrip\<close>: the file system view of a file the writer has made.
  \<^item> \<open>OleValue\<close>, \<open>OleEncode\<close>, \<open>OleDecode\<close>: the package \<open>oleps\<close>, over the character sets of
    golang.org/x/text as a parameter (\<open>texts\<close>); \<open>OleSafe\<close>: \<open>Unmarshal\<close> on any input; \<open>OleRoundTrip\<close>:
    \<open>Unmarshal\<close> after \<open>Marshal\<close>. \<open>OleStream\<close>: \<open>Encode\<close> and \<open>Decode\<close>, and a property set kept in a stream.
  \<^item> \<open>GoTime\<close>: the times of Go's package time, and the FILETIME conversions of the binding. \<open>AddFs\<close>: \<open>AddFS\<close> over a
    file system as a parameter (\<open>gofs\<close>), with \<open>birthtime\<close> of all platforms; \<open>read_tree\<close> runs its walk without the writer.
    \<open>ArchiveRoundTrip\<close>: a file system added, closed, and read back; \<open>fs_tree\<close> and \<open>dir_info\<close> state what must be found from
    the paths and the file information of the file system alone.
  \<^item> \<open>Device\<close>: \<open>seekOnce\<close>, the \<open>bufio.Writer\<close> over it and the writes of \<open>patchHeader\<close>, on any \<open>io.WriteSeeker\<close> with
    a state (locales \<open>io_writer\<close>, \<open>write_seeker\<close>, \<open>skipping\<close>). \<open>OpenFile\<close>: \<open>OpenReader\<close> and \<open>ReadCloser\<close>.
  \<^item> \<open>CaseTableGen\<close>, \<open>FoldingFile\<close>: internal/casetablegen, which makes the table of \<open>CaseTable\<close> from the Unicode file:
    \<open>parseFolding\<close>, \<open>apply\<close> and \<open>compress\<close>. \<open>Guid\<close>: internal/guid.
  \<^item> \<open>CfbTest\<close>: internal/cfbtest, the comparison of two trees the tests use. \<open>StructuredStorage\<close>: the binding to the
    COM interfaces of Windows, over ole32.dll as a parameter (\<open>ole32\<close>).

  What is shown. Reader: over every conforming \<open>io.ReaderAt\<close> it returns, no index, slice or nil pointer panics, and
  \<open>make\<close> panics for one kind of root entry only, which is characterised (\<open>root_too_big\<close>); what it
  accepts is well formed and can be read to the end; walking a chain, a directory tree, a run list
  is exact. Writer: in every reachable state each sector has one owner, each stream its bytes, the
  storage tree its invariant; a \<open>Write\<close> over a writer that fails has taken the bytes it reports and lost none; \<open>Close\<close> succeeds on it, and \<open>NewReader\<close> and \<open>OpenStream\<close> give back the same
  tree with the same contents. File system view: a lookup by path is exact, directory pages return each
  entry once, reads come to the end of the file with its contents. Property sets: what is marshalled is
  unmarshalled, also through a stream of a compound file, and no input makes \<open>Unmarshal\<close> panic. \<open>AddFS\<close>: what is
  read back is the file system that was added. Device: however the output is cut into writes, a \<open>Close\<close> without an error leaves
  the modelled file on it, and after an error a prefix of the contents is there. Generated tables mean what the folding lines of the text they were
  generated from say, whatever comment and blank lines are between them. The tests' comparison accepts equal trees and no others. Formats: headers, entries, chains, names
  and times read back what is written.

  Bounds. The walk of a directory takes fuel; each call visits a new entry, so one more than the
  number of entries is enough (\<open>DirWalk.walkBST_fuel\<close>). \<open>AddFS\<close> takes the depth of the directories as fuel, and no
  more fuel changes its result (\<open>AddFs.addFSDir_fuel\<close>). The loop of \<open>computeFATCounts\<close> is a partial
  function and shown to return. Sector numbers in the writer are the code's \<open>uint32\<close>; theorems about
  it assume \<open>fits\<close>, that the file has fewer than \<open>2 ^ 32\<close> sectors, because the code never checks it.
  Theorems about \<open>Close\<close> assume \<open>closable\<close>: less than \<open>2 ^ 31\<close> sectors and entries, so that the tables fit,
  too, and less than 4 GiB of small streams, because the reader masks the size of the mini stream in version 3.
  File offsets and sizes on the writing side are natural numbers.

  Not modelled. Memory that runs out: on the reading side \<open>make\<close> panics beyond the \<open>2 ^ 48\<close> bytes (\<open>maxAlloc\<close>) of the 64-bit
  runtime's address space and nowhere before, and elsewhere it succeeds; what the writes of the header leave when one of them fails;
  the table generator's download and its printing of Go source; in the binding, the method tables and the
  conversions of pointers, which \<open>ole32\<close> replaces; the fixtures and generators of the tests.
\<close>

end
